(* ===== verification/FS_Prelude.thy ===== *)
theory FS_Prelude
  imports Main "HOL-Library.Word"
begin

unbundle bit_operations_syntax

text \<open>
  Shared vocabulary of the development.

  The theory names the machine types of the Rust code (\<open>u32\<close>, \<open>u64\<close>; a \<open>usize\<close> is
  a natural number below \<open>2 ^ 64\<close>, the 64-bit target), models the standard library's checked
  and saturating operations on them, and holds the facts about words and lists that several
  components use: how \<open>as u32\<close> and \<open>>> 32\<close> split a 64-bit value, and when a sum or a
  multiply-accumulate of 32-bit digits cannot overflow a \<open>u64\<close>.
\<close>

named_theorems word_split_simps
  \<open>how a 64-bit accumulator is split into a digit and a carry\<close>

section \<open>Machine integers\<close>

type_synonym u32 = "32 word"
type_synonym u64 = "64 word"

text \<open>\<open>usize::MAX + 1\<close> on the 64-bit target.\<close>

abbreviation usize_modulus :: nat where
  "usize_modulus \<equiv> 18446744073709551616"

text \<open>The radix of the digit buffers.\<close>

abbreviation radix :: nat where
  "radix \<equiv> 4294967296"

text \<open>\<open>u64::checked_add\<close>, \<open>u64::checked_mul\<close>, \<open>u64::saturating_add\<close>, \<open>u64::saturating_mul\<close>.\<close>

definition checked_add64 :: "u64 \<Rightarrow> u64 \<Rightarrow> u64 option" where
  "checked_add64 a b = (if unat a + unat b < 2 ^ 64 then Some (a + b) else None)"

definition checked_mul64 :: "u64 \<Rightarrow> u64 \<Rightarrow> u64 option" where
  "checked_mul64 a b = (if unat a * unat b < 2 ^ 64 then Some (a * b) else None)"

definition saturating_add64 :: "u64 \<Rightarrow> u64 \<Rightarrow> u64" where
  "saturating_add64 a b = (if unat a + unat b < 2 ^ 64 then a + b else - 1)"

definition saturating_mul64 :: "u64 \<Rightarrow> u64 \<Rightarrow> u64" where
  "saturating_mul64 a b = (if unat a * unat b < 2 ^ 64 then a * b else - 1)"

text \<open>\<open>usize::checked_add\<close>, \<open>usize::checked_mul\<close> and their saturating forms.\<close>

definition checked_add_usize :: "nat \<Rightarrow> nat \<Rightarrow> nat option" where
  "checked_add_usize a b = (if a + b < usize_modulus then Some (a + b) else None)"

definition checked_mul_usize :: "nat \<Rightarrow> nat \<Rightarrow> nat option" where
  "checked_mul_usize a b = (if a * b < usize_modulus then Some (a * b) else None)"

definition saturating_add_usize :: "nat \<Rightarrow> nat \<Rightarrow> nat" where
  "saturating_add_usize a b = min (a + b) (usize_modulus - 1)"

definition saturating_mul_usize :: "nat \<Rightarrow> nat \<Rightarrow> nat" where
  "saturating_mul_usize a b = min (a * b) (usize_modulus - 1)"

text \<open>\<open>u64::try_from(n)\<close> for a \<open>usize\<close>, and its \<open>unwrap_or(u64::MAX)\<close> form.\<close>

definition u64_try_from :: "nat \<Rightarrow> u64 option" where
  "u64_try_from n = (if n < 2 ^ 64 then Some (of_nat n) else None)"

definition u64_from_usize :: "nat \<Rightarrow> u64" where
  "u64_from_usize n = (case u64_try_from n of Some v \<Rightarrow> v | None \<Rightarrow> - 1)"

text \<open>\<open>div_ceil\<close> on unsigned integers.\<close>

definition div_ceil :: "nat \<Rightarrow> nat \<Rightarrow> nat" where
  "div_ceil a b = (a + b - 1) div b"

text \<open>\<open>std::cmp::Ordering\<close> and \<open>Ord::cmp\<close>.\<close>

datatype ordering = Less | Equal | Greater

definition compare :: "'a::linorder \<Rightarrow> 'a \<Rightarrow> ordering" where
  "compare a b = (if a < b then Less else if a = b then Equal else Greater)"

fun reverse_ordering :: "ordering \<Rightarrow> ordering" where
  "reverse_ordering Less = Greater"
| "reverse_ordering Equal = Equal"
| "reverse_ordering Greater = Less"

lemma checked_add64_Some:
  "checked_add64 a b = Some c \<Longrightarrow> unat c = unat a + unat b"
  by (auto simp: checked_add64_def unat_word_ariths split: if_splits)

lemma checked_mul64_Some:
  "checked_mul64 a b = Some c \<Longrightarrow> unat c = unat a * unat b"
  by (auto simp: checked_mul64_def unat_word_ariths split: if_splits)

lemma checked_add_usize_Some [simp]:
  "checked_add_usize a b = Some c \<longleftrightarrow> c = a + b \<and> a + b < usize_modulus"
  by (auto simp: checked_add_usize_def)

lemma checked_mul_usize_Some [simp]:
  "checked_mul_usize a b = Some c \<longleftrightarrow> c = a * b \<and> a * b < usize_modulus"
  by (auto simp: checked_mul_usize_def)

lemma checked_add_usize_None [simp]:
  "checked_add_usize a b = None \<longleftrightarrow> usize_modulus \<le> a + b"
  by (auto simp: checked_add_usize_def)

lemma checked_mul_usize_None [simp]:
  "checked_mul_usize a b = None \<longleftrightarrow> usize_modulus \<le> a * b"
  by (auto simp: checked_mul_usize_def)

lemma div_ceil_eq: "0 < b \<Longrightarrow> div_ceil a b = a div b + (if a mod b = 0 then 0 else 1)"
proof -
  assume b: "0 < b"
  have split: "a = b * (a div b) + a mod b" by simp
  show ?thesis
  proof (cases "a mod b = 0")
    case True
    then have "a + b - 1 = (b - 1) + b * (a div b)" using split b by linarith
    then have "div_ceil a b = (b - 1 + b * (a div b)) div b"
      by (simp only: div_ceil_def)
    then show ?thesis using True b by (simp only: div_mult_self2) simp
  next
    case False
    then have "a + b - 1 = (a mod b - 1) + b * (a div b + 1)" using split b
      by (simp only: distrib_left)
    then have "div_ceil a b = ((a mod b - 1) + b * (a div b + 1)) div b"
      by (simp only: div_ceil_def)
    moreover have "a mod b - 1 < b" using b mod_less_divisor [of b a] by linarith
    ultimately show ?thesis using False b by (subst (asm) div_mult_self2) auto
  qed
qed

lemma div_ceil_mult:
  assumes b: "0 < b"
  shows "a \<le> div_ceil a b * b"
proof -
  have eq: "a div b * b + a mod b = a" by simp
  have le: "a mod b \<le> b" using b by (simp add: less_imp_le)
  show ?thesis
  proof (cases "a mod b = 0")
    case True
    then show ?thesis using b by (simp add: div_ceil_eq) (metis add_0_right eq le_refl)
  next
    case False
    then have "div_ceil a b * b = a div b * b + b" using b by (simp add: div_ceil_eq)
    then show ?thesis using eq le by linarith
  qed
qed

lemma div_ceil_le:
  assumes b: "0 < b"
  shows "div_ceil a b \<le> a"
proof -
  have "a * 1 \<le> a * b" using b by (intro mult_le_mono2) simp
  moreover have "(a + 1) * b = a * b + b" by simp
  ultimately have "a + b - 1 < (a + 1) * b" using b by linarith
  then have "div_ceil a b < a + 1" unfolding div_ceil_def by (rule less_mult_imp_div_less)
  then show ?thesis by simp
qed

lemma compare_simps [simp]:
  "compare a b = Less \<longleftrightarrow> a < b"
  "compare a b = Equal \<longleftrightarrow> a = b"
  "compare a b = Greater \<longleftrightarrow> b < a"
  by (auto simp: compare_def)

lemma compare_eqs [simp]:
  "a < b \<Longrightarrow> compare a b = Less"
  "compare a a = Equal"
  "b < a \<Longrightarrow> compare a b = Greater"
  by (auto simp: compare_def)

section \<open>Digits and carries\<close>

text \<open>\<open>u64::from(d)\<close>, \<open>v as u32\<close> and \<open>v >> 32\<close>.\<close>

definition widen :: "u32 \<Rightarrow> u64" where
  "widen d = ucast d"

definition low_digit :: "u64 \<Rightarrow> u32" where
  "low_digit v = ucast v"

definition high_part :: "u64 \<Rightarrow> u64" where
  "high_part v = drop_bit 32 v"

lemma unat_u32_lt: "unat (d :: u32) < radix"
  by (rule order_less_le_trans [OF unsigned_less]) simp

lemma unat_u64_lt: "unat (d :: u64) < usize_modulus"
  by (rule order_less_le_trans [OF unsigned_less]) simp

lemma unat_widen [simp]: "unat (widen d) = unat d"
  
  using unat_u32_lt [of d] by (simp add: widen_def unsigned_ucast_eq take_bit_eq_mod)

lemma unat_low_digit [word_split_simps]: "unat (low_digit v) = unat v mod radix"
  by (simp add: low_digit_def unsigned_ucast_eq take_bit_eq_mod)

lemma unat_high_part [word_split_simps]: "unat (high_part v) = unat v div radix"
  by (simp only: high_part_def unat_drop_bit_eq) (simp add: drop_bit_eq_div)

lemma high_part_lt: "unat (high_part v) < radix"
  using unat_u64_lt [of v] by (simp add: unat_high_part less_mult_imp_div_less)

lemma split_value: "unat (low_digit v) + radix * unat (high_part v) = unat v"
  by (simp add: word_split_simps)

lemma unat_add_exact: "unat a + unat b < usize_modulus \<Longrightarrow> unat (a + b :: u64) = unat a + unat b"
  by (simp add: unat_word_ariths)

lemma unat_mult_exact: "unat a * unat b < usize_modulus \<Longrightarrow> unat (a * b :: u64) = unat a * unat b"
  by (simp add: unat_word_ariths)

lemma low_digit_of_carry:
  assumes "unat c < radix"
  shows "unat (low_digit c) = unat c" and "low_digit c = 0 \<longleftrightarrow> c = 0"
proof -
  show eq: "unat (low_digit c) = unat c" using assms by (simp add: unat_low_digit)
  show "low_digit c = 0 \<longleftrightarrow> c = 0"
    using eq unat_eq_zero [of c] unat_eq_zero [of "low_digit c"] by simp
qed

text \<open>A product of two digits, a digit and a carry digit always fit a \<open>u64\<close>.\<close>

lemma digit_product_bound:
  assumes "a < radix" "b < (radix :: nat)"
  shows "a * b \<le> (radix - 1) * (radix - 1)"
  using assms by (intro mult_mono) auto

lemma unat_mul_digits: "unat (widen a * widen b) = unat a * unat b"
proof -
  have "unat a * unat b \<le> (radix - 1) * (radix - 1)"
    by (rule digit_product_bound) (rule unat_u32_lt)+
  then show ?thesis by (simp add: unat_mult_exact)
qed

lemma unat_mac:
  assumes "unat c < radix"
  shows "unat (widen x + widen a * widen b + c) = unat x + unat a * unat b + unat c"
proof -
  have p: "unat a * unat b \<le> (radix - 1) * (radix - 1)"
    by (rule digit_product_bound) (rule unat_u32_lt)+
  have x: "unat x < radix" by (rule unat_u32_lt)
  have 1: "unat (widen x + widen a * widen b) = unat x + unat a * unat b"
    using p x by (subst unat_add_exact) (simp_all add: unat_mul_digits)
  show ?thesis using p x assms
    by (subst unat_add_exact) (simp_all add: 1)
qed

lemma unat_mul_carry:
  assumes "unat c < radix"
  shows "unat (widen a * widen b + c) = unat a * unat b + unat c"
proof -
  have p: "unat a * unat b \<le> (radix - 1) * (radix - 1)"
    by (rule digit_product_bound) (rule unat_u32_lt)+
  show ?thesis using p assms
    by (subst unat_add_exact) (simp_all add: unat_mul_digits)
qed

lemma unat_add_carry:
  assumes "unat c < radix"
  shows "unat (widen x + c) = unat x + unat c"
  using assms unat_u32_lt [of x] by (subst unat_add_exact) simp_all

lemma unat_add3_carry:
  assumes "unat c < radix"
  shows "unat (widen x + widen y + c) = unat x + unat y + unat c"
proof -
  have 1: "unat (widen x + widen y) = unat x + unat y"
    using unat_u32_lt [of x] unat_u32_lt [of y] by (subst unat_add_exact) simp_all
  show ?thesis using assms unat_u32_lt [of x] unat_u32_lt [of y]
    by (subst unat_add_exact) (simp_all add: 1)
qed

lemma unat_and_low32: "unat (v AND 0xFFFFFFFF :: u64) = unat v mod radix"
proof -
  have "v AND 0xFFFFFFFF = take_bit 32 v" by (simp add: take_bit_eq_mask mask_eq_exp_minus_1)
  then show ?thesis by (simp only: unsigned_take_bit_eq) (simp add: take_bit_eq_mod)
qed

lemma low_digit_and: "low_digit (v AND 0xFFFFFFFF) = low_digit v"
  by (simp add: word_unat_eq_iff unat_low_digit unat_and_low32)

text \<open>One digit of a subtraction with borrow: what is pushed in either branch.\<close>

lemma unat_subtrahend: "unat b \<le> 1 \<Longrightarrow> unat (widen r + b) = unat r + unat b"
  using unat_u32_lt [of r] by (subst unat_add_exact) simp_all

lemma sub_digit_no_borrow:
  assumes "unat b \<le> 1" and "widen l \<ge> widen r + b"
  shows "unat (low_digit (widen l - (widen r + b))) + unat r + unat b = unat l"
proof -
  have le: "unat r + unat b \<le> unat l"
    using assms by (simp add: word_le_nat_alt unat_subtrahend)
  have "unat (widen l - (widen r + b)) = unat l - (unat r + unat b)"
    using assms by (simp add: unat_sub unat_subtrahend)
  then show ?thesis using le unat_u32_lt [of l] by (simp add: unat_low_digit)
qed

lemma sub_digit_borrow:
  assumes "unat b \<le> 1" and "\<not> widen l \<ge> widen r + b"
  shows "unat (low_digit (push_bit 32 1 + widen l - (widen r + b))) + unat r + unat b
    = unat l + radix"
proof -
  have lt: "unat l < unat r + unat b"
    using assms by (simp add: word_le_nat_alt unat_subtrahend)
  have r: "unat r < radix" "unat l < radix" by (rule unat_u32_lt)+
  have one: "unat (push_bit 32 1 :: u64) = radix" by simp
  have 1: "unat (push_bit 32 1 + widen l) = radix + unat l"
    using r by (subst unat_add_exact) (simp_all add: one)
  have le: "widen r + b \<le> push_bit 32 1 + widen l"
    using assms(1) r by (simp only: word_le_nat_alt 1 unat_subtrahend)
  have "unat (push_bit 32 1 + widen l - (widen r + b)) = radix + unat l - (unat r + unat b)"
    using assms(1) by (simp only: unat_sub [OF le] 1 unat_subtrahend)
  then show ?thesis using lt r assms(1) by (simp add: unat_low_digit)
qed

section \<open>Lists\<close>

lemma butlast_last_cases:
  "xs \<noteq> [] \<Longrightarrow> (\<And>ys y. xs = ys @ [y] \<Longrightarrow> P) \<Longrightarrow> P"
  by (metis append_butlast_last_id)

text \<open>\<open>xs.get(i).copied().unwrap_or(d)\<close>.\<close>

definition get_or :: "'a \<Rightarrow> 'a list \<Rightarrow> nat \<Rightarrow> 'a" where
  "get_or d xs i = (if i < length xs then xs ! i else d)"

end
