(* ===== verification/Budget.thy ===== *)
theory Budget
  imports FS_Prelude "HOL-Library.Multiset"
begin

text \<open>
  The multidimensional budget ledger of \<open>crates/fsym-budget/src/lib.rs\<close>.

  A \<open>budget\<close> is the Rust struct \<open>Budget\<close> field by field; the six-element arrays stay lists
  indexed by \<open>dim_index\<close>, and the counters stay 64-bit words. An \<open>Arc<BudgetAuthority>\<close> is an
  allocation identity: it is a natural number here, \<open>Arc::ptr_eq\<close> is equality, and every call of
  \<open>Arc::new(BudgetAuthority)\<close> takes the fresh identity as an argument. A Rust value that moves
  into a call (a receipt, a child) is an ordinary argument; that it cannot be used twice is the
  ownership rule the system state at the end of the theory enforces, where the live ledgers and
  the outstanding receipts are multisets and a step consumes what it uses.
\<close>

section \<open>Dimensions and errors\<close>

datatype dimension =
    ComputeSteps | MemoryBytes | AllocationCount | DepthLimit | RandomDraws | TimeBudget

abbreviation DIMENSION_COUNT :: nat where
  "DIMENSION_COUNT \<equiv> 6"

definition Dimension_ALL :: "dimension list" where
  "Dimension_ALL =
     [ComputeSteps, MemoryBytes, AllocationCount, DepthLimit, RandomDraws, TimeBudget]"

fun dim_index :: "dimension \<Rightarrow> nat" where
  "dim_index ComputeSteps = 0"
| "dim_index MemoryBytes = 1"
| "dim_index AllocationCount = 2"
| "dim_index DepthLimit = 3"
| "dim_index RandomDraws = 4"
| "dim_index TimeBudget = 5"

fun dim_as_str :: "dimension \<Rightarrow> string" where
  "dim_as_str ComputeSteps = ''compute_steps''"
| "dim_as_str MemoryBytes = ''memory_bytes''"
| "dim_as_str AllocationCount = ''allocation_count''"
| "dim_as_str DepthLimit = ''depth_limit''"
| "dim_as_str RandomDraws = ''random_draws''"
| "dim_as_str TimeBudget = ''time_budget''"

datatype budget_error =
    Exhausted (exh_dimension: dimension) (exh_requested: u64) (exh_remaining: u64)
  | ChargeOverflow dimension
  | ZeroCharge
  | VerifierPoolAccessDenied
  | ReceiptAuthorityMismatch
  | ChildReservationTooLarge
  | ChildAuthorityMismatch

section \<open>The ledger and its capabilities\<close>

type_synonym authority = nat

record budget_limits =
  lim_dimensions :: "u64 list"
  lim_verifier_pool :: u64

definition limits_uniform :: "u64 \<Rightarrow> u64 \<Rightarrow> budget_limits" where
  "limits_uniform per_dimension verifier_pool =
     \<lparr>lim_dimensions = replicate DIMENSION_COUNT per_dimension,
      lim_verifier_pool = verifier_pool\<rparr>"

datatype charged_kind = ChargedDimension dimension | ChargedVerifierPool

record charge_receipt =
  rc_kind :: charged_kind
  rc_amount :: u64
  rc_seq :: u64
  rc_authority :: authority

record verifier_lease_token =
  vl_authority :: authority

record budget_snapshot =
  snap_dimensions :: "u64 list"
  snap_verifier_pool :: u64
  snap_sequence :: u64

record budget =
  b_remaining :: "u64 list"
  b_verifier_remaining :: u64
  b_verifier_lease_available :: bool
  b_sequence :: u64
  b_authority :: authority
  b_parent_authority :: "authority option"

definition budget_new :: "budget_limits \<Rightarrow> authority \<Rightarrow> budget" where
  "budget_new limits fresh =
     \<lparr>b_remaining = lim_dimensions limits,
      b_verifier_remaining = lim_verifier_pool limits,
      b_verifier_lease_available = (0 < lim_verifier_pool limits),
      b_sequence = 0,
      b_authority = fresh,
      b_parent_authority = None\<rparr>"

definition remaining :: "budget \<Rightarrow> dimension \<Rightarrow> u64" where
  "remaining b d = b_remaining b ! dim_index d"

definition ledger_identity :: "budget \<Rightarrow> authority" where
  "ledger_identity b = b_authority b"

definition verifier_lease :: "budget \<Rightarrow> budget \<times> verifier_lease_token option" where
  "verifier_lease b =
     (if \<not> b_verifier_lease_available b then (b, None)
      else (b\<lparr>b_verifier_lease_available := False\<rparr>, Some \<lparr>vl_authority = b_authority b\<rparr>))"

definition snapshot :: "budget \<Rightarrow> budget_snapshot" where
  "snapshot b =
     \<lparr>snap_dimensions = b_remaining b,
      snap_verifier_pool = b_verifier_remaining b,
      snap_sequence = b_sequence b\<rparr>"

section \<open>Charging, refunding, reserving\<close>

definition try_charge ::
  "dimension \<Rightarrow> u64 \<Rightarrow> budget \<Rightarrow> budget \<times> (budget_error + charge_receipt)" where
  "try_charge dimension amount b =
     (if amount = 0 then (b, Inl ZeroCharge)
      else
        let idx = dim_index dimension; rem = b_remaining b ! idx
        in if amount > rem then (b, Inl (Exhausted dimension amount rem))
           else
             let b' = b\<lparr>b_remaining := (b_remaining b)[idx := rem - amount],
                        b_sequence := b_sequence b + 1\<rparr>
             in (b', Inr \<lparr>rc_kind = ChargedDimension dimension, rc_amount = amount,
                          rc_seq = b_sequence b', rc_authority = b_authority b'\<rparr>))"

text \<open>The first loop of \<open>try_charge_batch\<close>: duplicates are summed before admission.\<close>

fun batch_requested ::
  "(dimension \<times> u64) list \<Rightarrow> u64 list \<Rightarrow> budget_error + u64 list" where
  "batch_requested [] requested = Inr requested"
| "batch_requested ((dimension, amount) # charges) requested =
     (if amount = 0 then Inl ZeroCharge
      else
        let index = dim_index dimension
        in case checked_add64 (requested ! index) amount of
             None \<Rightarrow> Inl (ChargeOverflow dimension)
           | Some agg \<Rightarrow> batch_requested charges (requested[index := agg]))"

text \<open>The second loop: every aggregate is compared with what remains.\<close>

fun batch_admit :: "dimension list \<Rightarrow> u64 list \<Rightarrow> u64 list \<Rightarrow> budget_error + unit" where
  "batch_admit [] requested rem = Inr ()"
| "batch_admit (dimension # ds) requested rem =
     (let index = dim_index dimension
      in if requested ! index > rem ! index
         then Inl (Exhausted dimension (requested ! index) (rem ! index))
         else batch_admit ds requested rem)"

text \<open>The third loop: the aggregates leave the counters.\<close>

fun batch_commit :: "dimension list \<Rightarrow> u64 list \<Rightarrow> u64 list \<Rightarrow> u64 list" where
  "batch_commit [] requested rem = rem"
| "batch_commit (dimension # ds) requested rem =
     (let index = dim_index dimension
      in batch_commit ds requested (rem[index := rem ! index - requested ! index]))"

definition try_charge_batch ::
  "(dimension \<times> u64) list \<Rightarrow> budget \<Rightarrow> budget \<times> (budget_error + unit)" where
  "try_charge_batch charges b =
     (case batch_requested charges (replicate DIMENSION_COUNT 0) of
        Inl e \<Rightarrow> (b, Inl e)
      | Inr requested \<Rightarrow>
          (case batch_admit Dimension_ALL requested (b_remaining b) of
             Inl e \<Rightarrow> (b, Inl e)
           | Inr _ \<Rightarrow>
               if charges = [] then (b, Inr ())
               else (b\<lparr>b_remaining := batch_commit Dimension_ALL requested (b_remaining b),
                       b_sequence := b_sequence b + 1\<rparr>, Inr ())))"

definition try_charge_verifier ::
  "verifier_lease_token \<Rightarrow> u64 \<Rightarrow> budget \<Rightarrow> budget \<times> (budget_error + charge_receipt)" where
  "try_charge_verifier lease amount b =
     (if b_authority b \<noteq> vl_authority lease then (b, Inl VerifierPoolAccessDenied)
      else if amount = 0 then (b, Inl ZeroCharge)
      else if amount > b_verifier_remaining b
        then (b, Inl (Exhausted ComputeSteps amount (b_verifier_remaining b)))
      else
        let b' = b\<lparr>b_verifier_remaining := b_verifier_remaining b - amount,
                   b_sequence := b_sequence b + 1\<rparr>
        in (b', Inr \<lparr>rc_kind = ChargedVerifierPool, rc_amount = amount,
                     rc_seq = b_sequence b', rc_authority = b_authority b'\<rparr>))"

definition refund :: "charge_receipt \<Rightarrow> budget \<Rightarrow> budget \<times> (budget_error + unit)" where
  "refund receipt b =
     (if b_authority b \<noteq> rc_authority receipt then (b, Inl ReceiptAuthorityMismatch)
      else
        let b' = (case rc_kind receipt of
                    ChargedDimension dimension \<Rightarrow>
                      b\<lparr>b_remaining := (b_remaining b)[dim_index dimension :=
                          b_remaining b ! dim_index dimension + rc_amount receipt]\<rparr>
                  | ChargedVerifierPool \<Rightarrow>
                      b\<lparr>b_verifier_remaining := b_verifier_remaining b + rc_amount receipt\<rparr>)
        in (b'\<lparr>b_sequence := b_sequence b + 1\<rparr>, Inr ()))"

fun caps_fit :: "dimension list \<Rightarrow> u64 list \<Rightarrow> u64 list \<Rightarrow> bool" where
  "caps_fit [] caps rem = True"
| "caps_fit (dimension # ds) caps rem =
     (if caps ! dim_index dimension > rem ! dim_index dimension then False
      else caps_fit ds caps rem)"

definition reserve_child ::
  "budget_limits \<Rightarrow> authority \<Rightarrow> budget \<Rightarrow> budget \<times> (budget_error + budget)" where
  "reserve_child caps fresh b =
     (if \<not> caps_fit Dimension_ALL (lim_dimensions caps) (b_remaining b)
        then (b, Inl ChildReservationTooLarge)
      else if lim_verifier_pool caps \<noteq> 0 then (b, Inl VerifierPoolAccessDenied)
      else
        (b\<lparr>b_remaining := batch_commit Dimension_ALL (lim_dimensions caps) (b_remaining b),
           b_sequence := b_sequence b + 1\<rparr>,
         Inr \<lparr>b_remaining = lim_dimensions caps,
              b_verifier_remaining = 0,
              b_verifier_lease_available = False,
              b_sequence = 0,
              b_authority = fresh,
              b_parent_authority = Some (b_authority b)\<rparr>))"

fun merge_remaining :: "dimension list \<Rightarrow> u64 list \<Rightarrow> u64 list \<Rightarrow> u64 list" where
  "merge_remaining [] child rem = rem"
| "merge_remaining (dimension # ds) child rem =
     (let index = dim_index dimension
      in merge_remaining ds child (rem[index := rem ! index + child ! index]))"

definition merge_child :: "budget \<Rightarrow> budget \<Rightarrow> budget \<times> (budget_error + unit)" where
  "merge_child child b =
     (let belongs_to_self =
            (case b_parent_authority child of None \<Rightarrow> False
             | Some parent \<Rightarrow> b_authority b = parent)
      in if \<not> belongs_to_self then (b, Inl ChildAuthorityMismatch)
         else (b\<lparr>b_remaining := merge_remaining Dimension_ALL (b_remaining child) (b_remaining b),
                 b_sequence := b_sequence b + 1\<rparr>, Inr ()))"


section \<open>Well-formed ledgers and how the loops act on them\<close>

definition wf_budget :: "budget \<Rightarrow> bool" where
  "wf_budget b \<longleftrightarrow> length (b_remaining b) = DIMENSION_COUNT"

definition wf_limits :: "budget_limits \<Rightarrow> bool" where
  "wf_limits l \<longleftrightarrow> length (lim_dimensions l) = DIMENSION_COUNT"

lemma dim_index_lt [simp]: "dim_index d < DIMENSION_COUNT"
  by (cases d) simp_all

lemma dim_index_inject [simp]: "dim_index d = dim_index d' \<longleftrightarrow> d = d'"
  by (cases d; cases d') simp_all

lemma in_Dimension_ALL: "d \<in> set Dimension_ALL"
  by (cases d) (simp_all add: Dimension_ALL_def)

lemma length_batch_commit [simp]: "length (batch_commit ds req rem) = length rem"
  by (induction ds arbitrary: rem) (simp_all add: Let_def)

lemma length_merge_remaining [simp]: "length (merge_remaining ds child rem) = length rem"
  by (induction ds arbitrary: rem) (simp_all add: Let_def)

lemma nth_batch_commit:
  "length rem = DIMENSION_COUNT \<Longrightarrow>
   batch_commit Dimension_ALL req rem ! dim_index d = rem ! dim_index d - req ! dim_index d"
  by (cases d) (simp_all add: Dimension_ALL_def Let_def)

lemma nth_merge_remaining:
  "length rem = DIMENSION_COUNT \<Longrightarrow>
   merge_remaining Dimension_ALL child rem ! dim_index d = rem ! dim_index d + child ! dim_index d"
  by (cases d) (simp_all add: Dimension_ALL_def Let_def)

lemma batch_admit_Inr:
  "batch_admit ds req rem = Inr u \<longleftrightarrow> (\<forall>d \<in> set ds. req ! dim_index d \<le> rem ! dim_index d)"
  by (induction ds) (auto simp: Let_def not_less)

lemma batch_admit_Inl:
  "batch_admit ds req rem = Inl e \<Longrightarrow> \<exists>d. e = Exhausted d (req ! dim_index d) (rem ! dim_index d)"
  by (induction ds) (auto simp: Let_def split: if_splits)

lemma caps_fit_iff:
  "caps_fit ds caps rem \<longleftrightarrow> (\<forall>d \<in> set ds. caps ! dim_index d \<le> rem ! dim_index d)"
  by (induction ds) (auto simp: not_less)

text \<open>What a batch asks of one dimension, as an unbounded number.\<close>

fun batch_total :: "(dimension \<times> u64) list \<Rightarrow> dimension \<Rightarrow> nat" where
  "batch_total [] d = 0"
| "batch_total ((d', a) # cs) d = (if d' = d then unat a else 0) + batch_total cs d"

lemma batch_requested_Inr:
  assumes "batch_requested cs req = Inr req'" and "length req = DIMENSION_COUNT"
  shows "length req' = DIMENSION_COUNT
    \<and> (\<forall>d. unat (req' ! dim_index d) = unat (req ! dim_index d) + batch_total cs d)
    \<and> (\<forall>c \<in> set cs. snd c \<noteq> 0)"
  using assms
proof (induction cs req rule: batch_requested.induct)
  case (1 req)
  then show ?case by simp
next
  case (2 dimension amount cs req)
  from 2(2) have nz: "amount \<noteq> 0" by (auto split: if_splits)
  with 2(2) obtain agg where agg: "checked_add64 (req ! dim_index dimension) amount = Some agg"
    and rest: "batch_requested cs (req[dim_index dimension := agg]) = Inr req'"
    by (auto simp: Let_def split: option.splits)
  have ih: "length req' = DIMENSION_COUNT
      \<and> (\<forall>d. unat (req' ! dim_index d)
              = unat (req[dim_index dimension := agg] ! dim_index d) + batch_total cs d)
      \<and> (\<forall>c \<in> set cs. snd c \<noteq> 0)"
    using 2(1)[OF nz refl agg rest] 2(3) by simp
  with nz 2(3) checked_add64_Some [OF agg] show ?case
    by (auto simp: nth_list_update)
qed

lemma batch_requested_fails:
  assumes "batch_requested cs req = Inl e" and "length req = DIMENSION_COUNT"
  shows "(\<exists>c \<in> set cs. snd c = 0)
    \<or> (\<exists>d. 2 ^ 64 \<le> unat (req ! dim_index d) + batch_total cs d)"
  using assms
proof (induction cs req rule: batch_requested.induct)
  case (1 req)
  then show ?case by simp
next
  case (2 dimension amount cs req)
  show ?case
  proof (cases "amount = 0")
    case True
    then show ?thesis by simp
  next
    case nz: False
    show ?thesis
    proof (cases "checked_add64 (req ! dim_index dimension) amount")
      case None
      then have "2 ^ 64 \<le> unat (req ! dim_index dimension) + batch_total ((dimension, amount) # cs) dimension"
        by (simp add: checked_add64_def split: if_splits)
      then show ?thesis by blast
    next
      case (Some agg)
      with nz 2(2) have "batch_requested cs (req[dim_index dimension := agg]) = Inl e"
        by (simp add: Let_def)
      from 2(1)[OF nz refl Some this] 2(3)
      consider "\<exists>c \<in> set cs. snd c = 0"
        | d where "2 ^ 64 \<le> unat (req[dim_index dimension := agg] ! dim_index d) + batch_total cs d"
        by auto
      then show ?thesis
      proof cases
        case 1
        then show ?thesis by auto
      next
        case (2 d)
        then have "2 ^ 64 \<le> unat (req ! dim_index d) + batch_total ((dimension, amount) # cs) d"
          using \<open>length req = _\<close> checked_add64_Some [OF Some]
          by (cases "d = dimension") (auto simp: nth_list_update)
        then show ?thesis by blast
      qed
    qed
  qed
qed


section \<open>What each operation does to the allowances\<close>

text \<open>The allowance a ledger holds in one dimension, and what a receipt could give back.\<close>

definition held :: "dimension \<Rightarrow> budget \<Rightarrow> nat" where
  "held d b = unat (remaining b d)"

definition receipt_amount :: "dimension \<Rightarrow> charge_receipt \<Rightarrow> nat" where
  "receipt_amount d r = (if rc_kind r = ChargedDimension d then unat (rc_amount r) else 0)"

definition receipt_pool :: "charge_receipt \<Rightarrow> nat" where
  "receipt_pool r = (if rc_kind r = ChargedVerifierPool then unat (rc_amount r) else 0)"

text \<open>The fields no accounting operation may touch.\<close>

definition same_identity :: "budget \<Rightarrow> budget \<Rightarrow> bool" where
  "same_identity b b' \<longleftrightarrow> b_authority b' = b_authority b
     \<and> b_parent_authority b' = b_parent_authority b"

lemma same_identity_refl [simp]: "same_identity b b"
  by (simp add: same_identity_def)

lemma same_identity_trans: "same_identity a b \<Longrightarrow> same_identity b c \<Longrightarrow> same_identity a c"
  by (simp add: same_identity_def)

lemma unat_diff: "(a :: u64) \<le> b \<Longrightarrow> unat (b - a) = unat b - unat a"
  by (simp add: unat_sub)

lemma held_update:
  "wf_budget b \<Longrightarrow>
   unat ((b_remaining b)[dim_index d := v] ! dim_index d') = (if d' = d then unat v else held d' b)"
  by (auto simp: wf_budget_def held_def remaining_def nth_list_update)

lemma try_charge_ok:
  assumes "try_charge d a b = (b', Inr r)" and "wf_budget b"
  shows "wf_budget b'" and "same_identity b b'"
    and "held d' b = held d' b' + receipt_amount d' r"
    and "b_verifier_remaining b' = b_verifier_remaining b"
    and "b_verifier_lease_available b' = b_verifier_lease_available b"
    and "rc_kind r = ChargedDimension d" and "rc_amount r = a"
    and "rc_authority r = b_authority b"
proof -
  from assms(1) have nz: "a \<noteq> 0" and le: "a \<le> b_remaining b ! dim_index d"
    and b': "b' = b\<lparr>b_remaining := (b_remaining b)[dim_index d := b_remaining b ! dim_index d - a],
                   b_sequence := b_sequence b + 1\<rparr>"
    and r: "r = \<lparr>rc_kind = ChargedDimension d, rc_amount = a, rc_seq = b_sequence b',
                rc_authority = b_authority b'\<rparr>"
    by (auto simp: try_charge_def Let_def not_less split: if_splits)
  show "wf_budget b'" "same_identity b b'"
    "b_verifier_remaining b' = b_verifier_remaining b"
    "b_verifier_lease_available b' = b_verifier_lease_available b"
    "rc_kind r = ChargedDimension d" "rc_amount r = a" "rc_authority r = b_authority b"
    using assms(2) by (simp_all add: b' r wf_budget_def same_identity_def)
  have "unat a \<le> unat (b_remaining b ! dim_index d)"
    using le by (simp add: word_le_nat_alt)
  then show "held d' b = held d' b' + receipt_amount d' r"
    using assms(2) le
    by (auto simp: b' r held_def remaining_def receipt_amount_def wf_budget_def nth_list_update unat_diff)
qed

lemma try_charge_batch_ok:
  assumes "try_charge_batch cs b = (b', Inr u)" and "wf_budget b"
  shows "wf_budget b'" and "same_identity b b'"
    and "held d b = held d b' + batch_total cs d"
    and "b_verifier_remaining b' = b_verifier_remaining b"
    and "b_verifier_lease_available b' = b_verifier_lease_available b"
proof -
  from assms(1) obtain req where req: "batch_requested cs (replicate DIMENSION_COUNT 0) = Inr req"
    and adm: "batch_admit Dimension_ALL req (b_remaining b) = Inr ()"
    by (auto simp: try_charge_batch_def split: sum.splits if_splits)
  have b': "b' = (if cs = [] then b
      else b\<lparr>b_remaining := batch_commit Dimension_ALL req (b_remaining b),
             b_sequence := b_sequence b + 1\<rparr>)"
    using assms(1) req adm by (auto simp: try_charge_batch_def split: if_splits)
  show "wf_budget b'" "same_identity b b'"
    "b_verifier_remaining b' = b_verifier_remaining b"
    "b_verifier_lease_available b' = b_verifier_lease_available b"
    using assms(2) by (simp_all add: b' wf_budget_def same_identity_def)
  have tot: "unat (req ! dim_index d) = batch_total cs d"
    using batch_requested_Inr [OF req] by simp
  have le: "req ! dim_index d \<le> b_remaining b ! dim_index d"
    using adm in_Dimension_ALL [of d] by (simp add: batch_admit_Inr)
  show "held d b = held d b' + batch_total cs d"
  proof (cases "cs = []")
    case True
    then show ?thesis by (simp add: b')
  next
    case False
    have "unat (req ! dim_index d) \<le> unat (b_remaining b ! dim_index d)"
      using le by (simp add: word_le_nat_alt)
    then show ?thesis using False assms(2) le tot
      by (simp add: b' held_def remaining_def wf_budget_def nth_batch_commit unat_diff)
  qed
qed

text \<open>When a batch is admitted.\<close>

lemma batch_charge_nonzero:
  "try_charge_batch cs b = (b', Inr u) \<Longrightarrow> \<forall>c \<in> set cs. snd c \<noteq> 0"
  by (auto simp: try_charge_batch_def dest: batch_requested_Inr split: sum.splits)

lemma batch_charge_succeeds:
  assumes "wf_budget b" and nz: "\<forall>c \<in> set cs. snd c \<noteq> 0" and fits: "\<forall>d. batch_total cs d \<le> held d b"
  shows "\<exists>b'. try_charge_batch cs b = (b', Inr ())"
proof -
  have "batch_requested cs (replicate DIMENSION_COUNT 0) \<noteq> Inl e" for e
  proof
    assume "batch_requested cs (replicate DIMENSION_COUNT 0) = Inl e"
    from batch_requested_fails [OF this] nz obtain d where "2 ^ 64 \<le> batch_total cs d" by auto
    then show False
      using fits unat_u64_lt [of "remaining b d"] by (auto simp: held_def dest: spec [of _ d])
  qed
  then obtain req where req: "batch_requested cs (replicate DIMENSION_COUNT 0) = Inr req"
    by (cases "batch_requested cs (replicate DIMENSION_COUNT 0)") auto
  have "unat (req ! dim_index d) \<le> unat (b_remaining b ! dim_index d)" for d
    using batch_requested_Inr [OF req] fits by (simp add: held_def remaining_def)
  then have "batch_admit Dimension_ALL req (b_remaining b) = Inr ()"
    by (simp add: batch_admit_Inr word_le_nat_alt)
  then show ?thesis by (simp add: try_charge_batch_def req)
qed

lemma nth_dimension_eq:
  assumes "\<And>d. xs ! dim_index d = ys ! dim_index d"
    and "length xs = DIMENSION_COUNT" and "length ys = DIMENSION_COUNT"
  shows "xs = ys"
proof (rule nth_equalityI)
  show "length xs = length ys" using assms by simp
  fix i assume "i < length xs"
  then have "i \<in> {0, 1, 2, 3, 4, 5}" using assms(2) by auto
  then have "i \<in> range dim_index"
    by (metis (full_types) dim_index.simps insertE rangeI singletonD)
  then show "xs ! i = ys ! i" using assms(1) by auto
qed

lemma try_charge_verifier_ok:
  assumes "try_charge_verifier l a b = (b', Inr r)"
  shows "b_remaining b' = b_remaining b" and "same_identity b b'"
    and "unat (b_verifier_remaining b) = unat (b_verifier_remaining b') + receipt_pool r"
    and "b_verifier_lease_available b' = b_verifier_lease_available b"
    and "rc_kind r = ChargedVerifierPool" and "rc_amount r = a"
    and "rc_authority r = b_authority b" and "vl_authority l = b_authority b"
proof -
  from assms have le: "a \<le> b_verifier_remaining b"
    and b': "b' = b\<lparr>b_verifier_remaining := b_verifier_remaining b - a,
                   b_sequence := b_sequence b + 1\<rparr>"
    and r: "r = \<lparr>rc_kind = ChargedVerifierPool, rc_amount = a, rc_seq = b_sequence b',
                rc_authority = b_authority b'\<rparr>"
    and l: "vl_authority l = b_authority b"
    by (auto simp: try_charge_verifier_def Let_def not_less split: if_splits)
  show "b_remaining b' = b_remaining b" "same_identity b b'"
    "b_verifier_lease_available b' = b_verifier_lease_available b"
    "rc_kind r = ChargedVerifierPool" "rc_amount r = a" "rc_authority r = b_authority b"
    "vl_authority l = b_authority b"
    by (simp_all add: b' r l same_identity_def)
  have "unat a \<le> unat (b_verifier_remaining b)" using le by (simp add: word_le_nat_alt)
  then show "unat (b_verifier_remaining b) = unat (b_verifier_remaining b') + receipt_pool r"
    using le by (simp add: b' r receipt_pool_def unat_diff)
qed

lemma refund_ok:
  assumes "refund r b = (b', Inr u)" and "wf_budget b"
    and fits: "\<And>d. held d b + receipt_amount d r < 2 ^ 64"
    and pool: "unat (b_verifier_remaining b) + receipt_pool r < 2 ^ 64"
  shows "wf_budget b'" and "same_identity b b'"
    and "held d b' = held d b + receipt_amount d r"
    and "unat (b_verifier_remaining b') = unat (b_verifier_remaining b) + receipt_pool r"
    and "b_verifier_lease_available b' = b_verifier_lease_available b"
    and "rc_authority r = b_authority b"
proof -
  from assms(1) have auth: "rc_authority r = b_authority b"
    by (auto simp: refund_def split: if_splits)
  have b': "b' = (case rc_kind r of
        ChargedDimension d \<Rightarrow> b\<lparr>b_remaining := (b_remaining b)[dim_index d :=
            b_remaining b ! dim_index d + rc_amount r]\<rparr>
      | ChargedVerifierPool \<Rightarrow> b\<lparr>b_verifier_remaining := b_verifier_remaining b + rc_amount r\<rparr>)
      \<lparr>b_sequence := b_sequence b + 1\<rparr>"
    using assms(1) by (auto simp: refund_def Let_def split: if_splits)
  show "rc_authority r = b_authority b" by (rule auth)
  show "wf_budget b'" "same_identity b b'"
    "b_verifier_lease_available b' = b_verifier_lease_available b"
    using assms(2) by (simp_all add: b' wf_budget_def same_identity_def split: charged_kind.splits)
  show "unat (b_verifier_remaining b') = unat (b_verifier_remaining b) + receipt_pool r"
    using pool by (auto simp: b' receipt_pool_def unat_add_exact split: charged_kind.splits)
  show "held d b' = held d b + receipt_amount d r"
    using fits [of d] assms(2)
    by (auto simp: b' receipt_amount_def held_def remaining_def wf_budget_def nth_list_update
        unat_add_exact split: charged_kind.splits)
qed


lemma reserve_child_ok:
  assumes "reserve_child caps fresh b = (b', Inr child)" and "wf_budget b" and "wf_limits caps"
  shows "wf_budget b'" and "wf_budget child" and "same_identity b b'"
    and "held d b = held d b' + held d child"
    and "b_verifier_remaining b' = b_verifier_remaining b"
    and "b_verifier_lease_available b' = b_verifier_lease_available b"
    and "b_verifier_remaining child = 0" and "\<not> b_verifier_lease_available child"
    and "b_authority child = fresh" and "b_parent_authority child = Some (b_authority b)"
    and "b_remaining child = lim_dimensions caps"
proof -
  from assms(1) have fit: "caps_fit Dimension_ALL (lim_dimensions caps) (b_remaining b)"
    and b': "b' = b\<lparr>b_remaining := batch_commit Dimension_ALL (lim_dimensions caps) (b_remaining b),
           b_sequence := b_sequence b + 1\<rparr>"
    and c: "child = \<lparr>b_remaining = lim_dimensions caps, b_verifier_remaining = 0,
              b_verifier_lease_available = False, b_sequence = 0,
              b_authority = fresh, b_parent_authority = Some (b_authority b)\<rparr>"
    by (auto simp: reserve_child_def split: if_splits)
  show "wf_budget b'" "wf_budget child" "same_identity b b'"
    "b_verifier_remaining b' = b_verifier_remaining b"
    "b_verifier_lease_available b' = b_verifier_lease_available b"
    "b_verifier_remaining child = 0" "\<not> b_verifier_lease_available child"
    "b_authority child = fresh" "b_parent_authority child = Some (b_authority b)"
    "b_remaining child = lim_dimensions caps"
    using assms(2,3) by (simp_all add: b' c wf_budget_def wf_limits_def same_identity_def)
  have le: "lim_dimensions caps ! dim_index d \<le> b_remaining b ! dim_index d"
    using fit in_Dimension_ALL [of d] by (simp add: caps_fit_iff)
  then have "unat (lim_dimensions caps ! dim_index d) \<le> unat (b_remaining b ! dim_index d)"
    by (simp add: word_le_nat_alt)
  then show "held d b = held d b' + held d child"
    using assms(2) le
    by (simp add: b' c held_def remaining_def wf_budget_def nth_batch_commit unat_diff)
qed

lemma merge_child_ok:
  assumes "merge_child child b = (b', Inr u)" and "wf_budget b"
    and fits: "\<And>d. held d b + held d child < 2 ^ 64"
  shows "wf_budget b'" and "same_identity b b'"
    and "held d b' = held d b + held d child"
    and "b_verifier_remaining b' = b_verifier_remaining b"
    and "b_verifier_lease_available b' = b_verifier_lease_available b"
    and "b_parent_authority child = Some (b_authority b)"
proof -
  from assms(1) have par: "b_parent_authority child = Some (b_authority b)"
    and b': "b' = b\<lparr>b_remaining := merge_remaining Dimension_ALL (b_remaining child) (b_remaining b),
                 b_sequence := b_sequence b + 1\<rparr>"
    by (auto simp: merge_child_def Let_def split: if_splits option.splits)
  show "wf_budget b'" "same_identity b b'"
    "b_verifier_remaining b' = b_verifier_remaining b"
    "b_verifier_lease_available b' = b_verifier_lease_available b"
    "b_parent_authority child = Some (b_authority b)"
    using assms(2) par by (simp_all add: b' wf_budget_def same_identity_def)
  show "held d b' = held d b + held d child"
    using fits [of d] assms(2)
    by (simp add: b' held_def remaining_def wf_budget_def nth_merge_remaining unat_add_exact)
qed

text \<open>Atomic refusal: an operation that returns an error returns the ledger it was given.\<close>

lemma refusal_atomic:
  "try_charge d a b = (b', Inl e) \<Longrightarrow> b' = b"
  "try_charge_batch cs b = (b', Inl e) \<Longrightarrow> b' = b"
  "try_charge_verifier l a b = (b', Inl e) \<Longrightarrow> b' = b"
  "refund r b = (b', Inl e) \<Longrightarrow> b' = b"
  "reserve_child caps fresh b = (b', Inl e) \<Longrightarrow> b' = b"
  "merge_child c b = (b', Inl e) \<Longrightarrow> b' = b"
  by (auto simp: try_charge_def try_charge_batch_def try_charge_verifier_def refund_def
      reserve_child_def merge_child_def Let_def split: if_splits sum.splits option.splits)

section \<open>A region: live ledgers, outstanding receipts, the lease\<close>

text \<open>
  The values that exist at one moment of a request region that began with one root ledger. A
  ledger is updated in place by a step that borrows it, and a receipt or a child that a step
  moves away is gone afterwards, whether the operation succeeded or not.
\<close>

record region =
  live_ledgers :: "budget multiset"
  outstanding_receipts :: "charge_receipt multiset"
  issued_leases :: "verifier_lease_token multiset"
  next_authority :: authority

definition region_start :: "budget_limits \<Rightarrow> region" where
  "region_start limits =
     \<lparr>live_ledgers = {#budget_new limits 0#}, outstanding_receipts = {#},
      issued_leases = {#}, next_authority = 1\<rparr>"

definition with_receipt :: "'e + charge_receipt \<Rightarrow> charge_receipt multiset \<Rightarrow> charge_receipt multiset" where
  "with_receipt res rs = (case res of Inl _ \<Rightarrow> rs | Inr r \<Rightarrow> add_mset r rs)"

inductive region_step :: "region \<Rightarrow> region \<Rightarrow> bool" where
  charge: "live_ledgers s = add_mset b B \<Longrightarrow> try_charge d a b = (b', res) \<Longrightarrow>
     region_step s (s\<lparr>live_ledgers := add_mset b' B,
                      outstanding_receipts := with_receipt res (outstanding_receipts s)\<rparr>)"
| charge_batch: "live_ledgers s = add_mset b B \<Longrightarrow> try_charge_batch cs b = (b', res) \<Longrightarrow>
     region_step s (s\<lparr>live_ledgers := add_mset b' B\<rparr>)"
| lease: "live_ledgers s = add_mset b B \<Longrightarrow> verifier_lease b = (b', l) \<Longrightarrow>
     region_step s (s\<lparr>live_ledgers := add_mset b' B,
                      issued_leases := (case l of None \<Rightarrow> issued_leases s
                                        | Some l \<Rightarrow> add_mset l (issued_leases s))\<rparr>)"
| charge_verifier: "live_ledgers s = add_mset b B \<Longrightarrow> l \<in># issued_leases s \<Longrightarrow>
     try_charge_verifier l a b = (b', res) \<Longrightarrow>
     region_step s (s\<lparr>live_ledgers := add_mset b' B,
                      outstanding_receipts := with_receipt res (outstanding_receipts s)\<rparr>)"
| refund: "live_ledgers s = add_mset b B \<Longrightarrow> outstanding_receipts s = add_mset r Rs \<Longrightarrow>
     refund r b = (b', res) \<Longrightarrow>
     region_step s (s\<lparr>live_ledgers := add_mset b' B, outstanding_receipts := Rs\<rparr>)"
| reserve: "live_ledgers s = add_mset b B \<Longrightarrow> wf_limits caps \<Longrightarrow>
     reserve_child caps (next_authority s) b = (b', res) \<Longrightarrow>
     region_step s (s\<lparr>live_ledgers := (case res of Inl _ \<Rightarrow> add_mset b' B
                                        | Inr c \<Rightarrow> add_mset c (add_mset b' B)),
                      next_authority := Suc (next_authority s)\<rparr>)"
| merge: "live_ledgers s = add_mset c (add_mset b B) \<Longrightarrow> merge_child c b = (b', res) \<Longrightarrow>
     region_step s (s\<lparr>live_ledgers := add_mset b' B\<rparr>)"
| drop_receipt: "outstanding_receipts s = add_mset r Rs \<Longrightarrow>
     region_step s (s\<lparr>outstanding_receipts := Rs\<rparr>)"
| drop_ledger: "live_ledgers s = add_mset b B \<Longrightarrow>
     region_step s (s\<lparr>live_ledgers := B\<rparr>)"

inductive region_reachable :: "budget_limits \<Rightarrow> region \<Rightarrow> bool" for limits where
  start: "region_reachable limits (region_start limits)"
| step: "region_reachable limits s \<Longrightarrow> region_step s t \<Longrightarrow> region_reachable limits t"

text \<open>Everything of one dimension that is still held or could still be refunded.\<close>

definition outstanding :: "dimension \<Rightarrow> region \<Rightarrow> nat" where
  "outstanding d s = (\<Sum>b \<in># live_ledgers s. held d b)
     + (\<Sum>r \<in># outstanding_receipts s. receipt_amount d r)"

definition outstanding_pool :: "region \<Rightarrow> nat" where
  "outstanding_pool s = (\<Sum>b \<in># live_ledgers s. unat (b_verifier_remaining b))
     + (\<Sum>r \<in># outstanding_receipts s. receipt_pool r)"

definition lease_count :: "region \<Rightarrow> nat" where
  "lease_count s = size (issued_leases s)
     + (\<Sum>b \<in># live_ledgers s. if b_verifier_lease_available b then 1 else 0)"

definition region_inv :: "budget_limits \<Rightarrow> region \<Rightarrow> bool" where
  "region_inv limits s \<longleftrightarrow>
     (\<forall>b \<in># live_ledgers s. wf_budget b \<and> b_authority b < next_authority s)
     \<and> (\<forall>d. outstanding d s \<le> unat (lim_dimensions limits ! dim_index d))
     \<and> outstanding_pool s \<le> unat (lim_verifier_pool limits)
     \<and> lease_count s \<le> 1"

lemma with_receipt_simps [simp]:
  "with_receipt (Inl e) rs = rs" "with_receipt (Inr r) rs = add_mset r rs"
  by (simp_all add: with_receipt_def)

lemma region_start_inv: "wf_limits limits \<Longrightarrow> region_inv limits (region_start limits)"
  by (auto simp: region_inv_def region_start_def budget_new_def wf_budget_def wf_limits_def
      outstanding_def outstanding_pool_def lease_count_def held_def remaining_def)


lemma outstanding_lt:
  assumes "region_inv limits s"
  shows "outstanding d s < 2 ^ 64" and "outstanding_pool s < 2 ^ 64"
proof -
  show "outstanding d s < 2 ^ 64"
    using assms unat_u64_lt [of "lim_dimensions limits ! dim_index d"]
    by (auto simp: region_inv_def intro: order_le_less_trans)
  show "outstanding_pool s < 2 ^ 64"
    using assms unat_u64_lt [of "lim_verifier_pool limits"] by (auto simp: region_inv_def)
qed

text \<open>A step that replaces one ledger and keeps its identity, the lease flags and the totals.\<close>

lemma region_inv_replace:
  assumes inv: "region_inv limits s"
    and led: "live_ledgers s = add_mset b B" "live_ledgers t = add_mset b' B"
    and wf: "wf_budget b'" "same_identity b b'"
    and flag: "b_verifier_lease_available b' = b_verifier_lease_available b"
    and lease: "issued_leases t = issued_leases s" and nxt: "next_authority t = next_authority s"
    and tot: "\<And>d. outstanding d t \<le> outstanding d s"
    and pool: "outstanding_pool t \<le> outstanding_pool s"
  shows "region_inv limits t"
proof -
  have "lease_count t = lease_count s" by (simp add: lease_count_def led flag lease)
  moreover have "b_authority b' = b_authority b" using wf by (simp add: same_identity_def)
  ultimately show ?thesis
    using inv wf tot pool by (fastforce simp: region_inv_def led nxt intro: order_trans)
qed

text \<open>A step that only forgets values.\<close>

lemma region_inv_forget:
  assumes inv: "region_inv limits s"
    and led: "set_mset (live_ledgers t) \<subseteq> set_mset (live_ledgers s)"
    and nxt: "next_authority t = next_authority s"
    and tot: "\<And>d. outstanding d t \<le> outstanding d s"
    and pool: "outstanding_pool t \<le> outstanding_pool s"
    and lease: "lease_count t \<le> lease_count s"
  shows "region_inv limits t"
  using inv led pool lease order_trans [OF tot]
  by (auto simp: region_inv_def nxt)

lemma region_step_inv:
  assumes "region_step s t" and inv: "region_inv limits s"
  shows "region_inv limits t"
  using assms(1)
proof cases
  case (charge b B d a b' res)
  have wf: "wf_budget b" using inv charge by (simp add: region_inv_def)
  show ?thesis
  proof (cases res)
    case (Inl e)
    then have "b' = b" using charge refusal_atomic(1) by blast
    then show ?thesis using inv charge Inl by (simp add: region_inv_def outstanding_def
        outstanding_pool_def lease_count_def)
  next
    case (Inr r)
    note ok = try_charge_ok [OF charge(3)[unfolded Inr] wf]
    have pool: "receipt_pool r = 0" using ok(6) by (simp add: receipt_pool_def)
    show ?thesis
      using ok(3) by (rule_tac region_inv_replace [OF inv charge(2) _ ok(1,2,5)])
        (simp_all add: charge Inr outstanding_def outstanding_pool_def ok(4) pool)
  qed
next
  case (charge_batch b B cs b' res)
  have wf: "wf_budget b" using inv charge_batch by (simp add: region_inv_def)
  show ?thesis
  proof (cases res)
    case (Inl e)
    then have "b' = b" using charge_batch refusal_atomic(2) by blast
    then show ?thesis using inv charge_batch by (simp add: region_inv_def outstanding_def
        outstanding_pool_def lease_count_def)
  next
    case (Inr u)
    note ok = try_charge_batch_ok [OF charge_batch(3)[unfolded Inr] wf]
    show ?thesis
      using ok(3) by (rule_tac region_inv_replace [OF inv charge_batch(2) _ ok(1,2,5)])
        (simp_all add: charge_batch outstanding_def outstanding_pool_def ok(4))
  qed
next
  case (lease b B b' l)
  have wf: "wf_budget b" using inv lease by (simp add: region_inv_def)
  have b': "b' = b\<lparr>b_verifier_lease_available := False\<rparr>"
    and l: "l = (if b_verifier_lease_available b then Some \<lparr>vl_authority = b_authority b\<rparr> else None)"
    using lease(3) by (auto simp: verifier_lease_def split: if_splits)
  have same: "held d b' = held d b" for d by (simp add: b' held_def remaining_def)
  have tot: "outstanding d t = outstanding d s" for d
    by (simp add: outstanding_def lease same)
  have pool: "outstanding_pool t = outstanding_pool s"
    by (simp add: outstanding_pool_def lease b')
  have count: "lease_count t = lease_count s"
    by (simp add: lease_count_def lease b' l)
  have "wf_budget b'" "b_authority b' = b_authority b" using wf by (simp_all add: b' wf_budget_def)
  then show ?thesis using inv
    by (auto simp: region_inv_def tot pool count) (auto simp: lease)
next
  case (charge_verifier b B l a b' res)
  have wf: "wf_budget b" using inv charge_verifier by (simp add: region_inv_def)
  show ?thesis
  proof (cases res)
    case (Inl e)
    then have "b' = b" using charge_verifier refusal_atomic(3) by blast
    then show ?thesis using inv charge_verifier Inl by (simp add: region_inv_def outstanding_def
        outstanding_pool_def lease_count_def)
  next
    case (Inr r)
    note ok = try_charge_verifier_ok [OF charge_verifier(4)[unfolded Inr]]
    have h: "held d b' = held d b" "receipt_amount d r = 0" for d
      using ok(1,5) by (simp_all add: held_def remaining_def receipt_amount_def)
    have "wf_budget b'" using wf ok(1) by (simp add: wf_budget_def)
    then show ?thesis
      using ok(3) by (rule_tac region_inv_replace [OF inv charge_verifier(2) _ _ ok(2,4)])
        (simp_all add: charge_verifier Inr outstanding_def outstanding_pool_def h)
  qed
next
  case (refund b B r Rs b' res)
  have wf: "wf_budget b" using inv refund by (simp add: region_inv_def)
  show ?thesis
  proof (cases res)
    case (Inl e)
    then have "b' = b" using refund refusal_atomic(4) by blast
    then show ?thesis using inv refund
      by (intro region_inv_forget [OF inv])
        (auto simp: outstanding_def outstanding_pool_def lease_count_def)
  next
    case (Inr u)
    have "held d b + receipt_amount d r \<le> outstanding d s" for d
      by (simp add: outstanding_def refund)
    then have f1: "held d b + receipt_amount d r < 2 ^ 64" for d
      using outstanding_lt(1) [OF inv, of d] by (rule le_less_trans)
    have "unat (b_verifier_remaining b) + receipt_pool r \<le> outstanding_pool s"
      by (simp add: outstanding_pool_def refund)
    then have f2: "unat (b_verifier_remaining b) + receipt_pool r < 2 ^ 64"
      using outstanding_lt(2) [OF inv] by (rule le_less_trans)
    note ok = refund_ok [OF refund(4)[unfolded Inr] wf f1 f2]
    show ?thesis
      by (rule region_inv_replace [OF inv refund(2) _ ok(1,2,5)])
        (simp_all add: refund Inr outstanding_def outstanding_pool_def ok(3,4))
  qed
next
  case (reserve b B caps b' res)
  have wf: "wf_budget b" using inv reserve by (simp add: region_inv_def)
  show ?thesis
  proof (cases res)
    case (Inl e)
    then have "b' = b" using reserve refusal_atomic(5) by blast
    then show ?thesis using inv reserve Inl
      by (auto simp: region_inv_def outstanding_def outstanding_pool_def lease_count_def)
  next
    case (Inr c)
    note ok = reserve_child_ok [OF reserve(4)[unfolded Inr] wf reserve(3)]
    have "b_authority b' = b_authority b" using ok(3) by (simp add: same_identity_def)
    moreover have "lease_count t = lease_count s"
      by (simp add: lease_count_def reserve Inr ok(6,8))
    moreover have "outstanding d t = outstanding d s" for d
      using ok(4) [of d] by (simp add: outstanding_def reserve Inr)
    moreover have "outstanding_pool t = outstanding_pool s"
      by (simp add: outstanding_pool_def reserve Inr ok(5,7))
    ultimately show ?thesis
      using inv ok(1,2,9) by (auto simp: region_inv_def reserve Inr)
  qed
next
  case (merge c b B b' res)
  have wf: "wf_budget b" using inv merge by (simp add: region_inv_def)
  show ?thesis
  proof (cases res)
    case (Inl e)
    then have "b' = b" using merge refusal_atomic(6) by blast
    then show ?thesis using inv merge
      by (intro region_inv_forget [OF inv])
        (auto simp: outstanding_def outstanding_pool_def lease_count_def)
  next
    case (Inr u)
    have "held d b + held d c \<le> outstanding d s" for d
      by (simp add: outstanding_def merge)
    then have f: "held d b + held d c < 2 ^ 64" for d
      using outstanding_lt(1) [OF inv, of d] by (rule le_less_trans)
    note ok = merge_child_ok [OF merge(3)[unfolded Inr] wf f]
    have "b_authority b' = b_authority b" using ok(2) by (simp add: same_identity_def)
    moreover have "lease_count t \<le> lease_count s"
      by (simp add: lease_count_def merge ok(5))
    moreover have "outstanding d t = outstanding d s" for d
      by (simp add: outstanding_def merge ok(3))
    moreover have "outstanding_pool t \<le> outstanding_pool s"
      by (simp add: outstanding_pool_def merge ok(4))
    ultimately show ?thesis
      using inv ok(1) by (auto simp: region_inv_def merge intro: order_trans)
  qed
next
  case (drop_receipt r Rs)
  then show ?thesis using inv
    by (intro region_inv_forget [OF inv])
      (auto simp: outstanding_def outstanding_pool_def lease_count_def)
next
  case (drop_ledger b B)
  then show ?thesis using inv
    by (intro region_inv_forget [OF inv])
      (auto simp: outstanding_def outstanding_pool_def lease_count_def)
qed

lemma region_reachable_inv:
  "region_reachable limits s \<Longrightarrow> wf_limits limits \<Longrightarrow> region_inv limits s"
  by (induction rule: region_reachable.induct) (auto intro: region_start_inv region_step_inv)

end
