(* ===== verification/Metering.thy ===== *)
theory Metering
  imports Budget
begin

text \<open>
  The charging interface of \<open>crates/fsym-budget/src/lib.rs\<close> (the trait \<open>BudgetMeter\<close> and its
  implementations) and the calculus in which every metered kernel is proved.

  A metered Rust function takes \<open>&mut M\<close> and returns a \<open>Result\<close>; here it is a function from the
  meter's state to a result and the next state (\<open>metered\<close>), and \<open>?\<close> is \<open>mbind\<close>. A result is
  \<open>Ok\<close>, \<open>Err\<close>, or one of two abnormal ends that Rust does not have as values: \<open>Panic\<close> (a failed
  index, \<open>expect\<close> or \<open>debug_assert\<close>) and \<open>Out_of_fuel\<close> (a loop of the model that used up its
  bound). \<open>meets E R P c\<close> says that \<open>c\<close>, from every meter state, neither panics nor runs out of
  fuel, fails only with an error in \<open>E\<close>, returns only values satisfying \<open>P\<close>, and takes the meter
  from \<open>m\<close> to some \<open>m'\<close> with \<open>R m m'\<close> whatever the result is. The locale \<open>budget_meter\<close> is the
  contract of the trait; the unbounded meter and the ledger are its interpretations.
\<close>

named_theorems meets_rules \<open>composition rules of the metering calculus\<close>

section \<open>Results and the metering monad\<close>

datatype ('a, 'e) exec = Ok 'a | Err 'e | Panic | Out_of_fuel

type_synonym ('m, 'e, 'a) metered = "'m \<Rightarrow> ('a, 'e) exec \<times> 'm"

definition mret :: "'a \<Rightarrow> ('m, 'e, 'a) metered" where
  "mret x = (\<lambda>m. (Ok x, m))"

definition mfail :: "'e \<Rightarrow> ('m, 'e, 'a) metered" where
  "mfail e = (\<lambda>m. (Err e, m))"

definition mpanic :: "('m, 'e, 'a) metered" where
  "mpanic = (\<lambda>m. (Panic, m))"

definition mfuel :: "('m, 'e, 'a) metered" where
  "mfuel = (\<lambda>m. (Out_of_fuel, m))"

definition mbind ::
  "('m, 'e, 'a) metered \<Rightarrow> ('a \<Rightarrow> ('m, 'e, 'b) metered) \<Rightarrow> ('m, 'e, 'b) metered" where
  "mbind c f = (\<lambda>m. case c m of
      (Ok x, m') \<Rightarrow> f x m'
    | (Err e, m') \<Rightarrow> (Err e, m')
    | (Panic, m') \<Rightarrow> (Panic, m')
    | (Out_of_fuel, m') \<Rightarrow> (Out_of_fuel, m'))"

text \<open>The conversion \<open>?\<close> applies to an error when the caller's error type is another one.\<close>

definition mlift :: "('e \<Rightarrow> 'f) \<Rightarrow> ('m, 'e, 'a) metered \<Rightarrow> ('m, 'f, 'a) metered" where
  "mlift g c = (\<lambda>m. case c m of
      (Ok x, m') \<Rightarrow> (Ok x, m')
    | (Err e, m') \<Rightarrow> (Err (g e), m')
    | (Panic, m') \<Rightarrow> (Panic, m')
    | (Out_of_fuel, m') \<Rightarrow> (Out_of_fuel, m'))"

text \<open>\<open>opt.ok_or(e)?\<close> and \<open>opt.expect(..)\<close>.\<close>

definition ok_or :: "'e \<Rightarrow> 'a option \<Rightarrow> ('m, 'e, 'a) metered" where
  "ok_or e x = (case x of None \<Rightarrow> mfail e | Some v \<Rightarrow> mret v)"

definition expect :: "'a option \<Rightarrow> ('m, 'e, 'a) metered" where
  "expect x = (case x of None \<Rightarrow> mpanic | Some v \<Rightarrow> mret v)"

text \<open>A \<open>for\<close> loop over a known sequence, with the loop-carried variables as state.\<close>

fun mfor :: "'i list \<Rightarrow> ('i \<Rightarrow> 's \<Rightarrow> ('m, 'e, 's) metered) \<Rightarrow> 's \<Rightarrow> ('m, 'e, 's) metered" where
  "mfor [] body s = mret s"
| "mfor (i # is) body s = mbind (body i s) (\<lambda>s'. mfor is body s')"

text \<open>Termination of recursive kernels may use what the computation before a call returned.\<close>

lemma mbind_cong [fundef_cong]:
  assumes "c = c'" and "\<And>x. (\<exists>m m'. c' m = (Ok x, m')) \<Longrightarrow> f x = g x"
  shows "mbind c f = mbind c' g"
  using assms by (auto simp: mbind_def fun_eq_iff split: prod.splits exec.splits)

lemma mbind_mret [simp]: "mbind (mret x) f = f x"
  by (simp add: mbind_def mret_def)

lemma mbind_mfail [simp]: "mbind (mfail e) f = mfail e"
  by (simp add: mbind_def mfail_def)

lemma mbind_assoc: "mbind (mbind c f) g = mbind c (\<lambda>x. mbind (f x) g)"
  by (auto simp: mbind_def fun_eq_iff split: prod.splits exec.splits)

section \<open>The metering calculus\<close>

fun result_in :: "'e set \<Rightarrow> ('a \<Rightarrow> bool) \<Rightarrow> ('a, 'e) exec \<Rightarrow> bool" where
  "result_in E P (Ok x) = P x"
| "result_in E P (Err e) = (e \<in> E)"
| "result_in E P Panic = False"
| "result_in E P Out_of_fuel = False"

definition meets ::
  "'e set \<Rightarrow> ('m \<Rightarrow> 'm \<Rightarrow> bool) \<Rightarrow> ('a \<Rightarrow> bool) \<Rightarrow> ('m, 'e, 'a) metered \<Rightarrow> bool" where
  "meets E R P c \<longleftrightarrow> (\<forall>m r m'. c m = (r, m') \<longrightarrow> R m m' \<and> result_in E P r)"

lemma meetsI: "(\<And>m r m'. c m = (r, m') \<Longrightarrow> R m m' \<and> result_in E P r) \<Longrightarrow> meets E R P c"
  by (simp add: meets_def)

lemma meetsD: "meets E R P c \<Longrightarrow> c m = (r, m') \<Longrightarrow> R m m' \<and> result_in E P r"
  by (simp add: meets_def)

text \<open>A relation on meter states that composes.\<close>

definition composes :: "('m \<Rightarrow> 'm \<Rightarrow> bool) \<Rightarrow> bool" where
  "composes R \<longleftrightarrow> (\<forall>m. R m m) \<and> (\<forall>a b c. R a b \<longrightarrow> R b c \<longrightarrow> R a c)"

lemma composes_eq [simp]: "composes (=)"
  by (simp add: composes_def)

lemma meets_ret [meets_rules]: "composes R \<Longrightarrow> P x \<Longrightarrow> meets E R P (mret x)"
  by (simp add: meets_def mret_def composes_def)

lemma meets_fail [meets_rules]: "composes R \<Longrightarrow> e \<in> E \<Longrightarrow> meets E R P (mfail e)"
  by (simp add: meets_def mfail_def composes_def)

lemma meets_bind:
  assumes "composes R" and "meets E R Q c" and "\<And>x. Q x \<Longrightarrow> meets E R P (f x)"
  shows "meets E R P (mbind c f)"
proof (rule meetsI)
  fix m r m'
  assume run: "mbind c f m = (r, m')"
  obtain r1 m1 where c: "c m = (r1, m1)" by (cases "c m")
  have 1: "R m m1" "result_in E Q r1" using meetsD [OF assms(2) c] by auto
  show "R m m' \<and> result_in E P r"
  proof (cases r1)
    case (Ok x)
    then have "f x m1 = (r, m')" using run c by (simp add: mbind_def)
    moreover have "meets E R P (f x)" using 1 Ok assms(3) by simp
    ultimately have "R m1 m' \<and> result_in E P r" by (rule meetsD [rotated])
    then show ?thesis using 1 assms(1) unfolding composes_def by blast
  qed (use run c 1 in \<open>auto simp: mbind_def\<close>)
qed

lemma result_in_mono:
  "result_in E P r \<Longrightarrow> E \<subseteq> E' \<Longrightarrow> (\<And>x. P x \<Longrightarrow> Q x) \<Longrightarrow> result_in E' Q r"
  by (cases r) auto

lemma meets_mono:
  "meets E R P c \<Longrightarrow> E \<subseteq> E' \<Longrightarrow> (\<And>x. P x \<Longrightarrow> Q x) \<Longrightarrow> meets E' R Q c"
  unfolding meets_def using result_in_mono [of E P _ E' Q] by blast

lemma meets_post: "meets E R P c \<Longrightarrow> (\<And>x. P x \<Longrightarrow> Q x) \<Longrightarrow> meets E R Q c"
  by (rule meets_mono [OF _ subset_refl])

lemma meets_lift:
  assumes "meets E R P c" and "\<And>e. e \<in> E \<Longrightarrow> g e \<in> F"
  shows "meets F R P (mlift g c)"
proof (rule meetsI)
  fix m r m'
  assume run: "mlift g c m = (r, m')"
  obtain r1 m1 where c: "c m = (r1, m1)" by (cases "c m")
  with meetsD [OF assms(1) c] run assms(2) show "R m m' \<and> result_in F P r"
    by (cases r1) (auto simp: mlift_def)
qed

lemma meets_ok_or:
  "composes R \<Longrightarrow> (x = None \<Longrightarrow> e \<in> E) \<Longrightarrow> (\<And>v. x = Some v \<Longrightarrow> P v) \<Longrightarrow> meets E R P (ok_or e x)"
  by (auto simp: ok_or_def intro: meets_rules split: option.splits)

lemma meets_expect:
  "composes R \<Longrightarrow> x \<noteq> None \<Longrightarrow> (\<And>v. x = Some v \<Longrightarrow> P v) \<Longrightarrow> meets E R P (expect x)"
  by (auto simp: expect_def intro: meets_rules split: option.splits)

text \<open>The invariant rule of \<open>for\<close> loops: \<open>I k s\<close> holds before the \<open>k\<close>-th iteration.\<close>

lemma meets_for:
  assumes R: "composes R" and start: "I 0 s"
    and body: "\<And>k t. k < length xs \<Longrightarrow> I k t \<Longrightarrow> meets E R (I (Suc k)) (body (xs ! k) t)"
  shows "meets E R (I (length xs)) (mfor xs body s)"
  using start body
proof (induction xs arbitrary: I s)
  case Nil
  then show ?case using R by (simp add: meets_ret)
next
  case (Cons x xs)
  have "meets E R (I (Suc 0)) (body x s)"
    using Cons.prems(2) [of 0 s] Cons.prems(1) by simp
  moreover have "meets E R (I (Suc (length xs))) (mfor xs body t)" if "I (Suc 0) t" for t
    by (rule Cons.IH [of "\<lambda>k. I (Suc k)"]) (use that Cons.prems(2) [of "Suc _"] in auto)
  ultimately show ?case using R by (auto intro: meets_bind)
qed

text \<open>What a computation that meets a specification did, read off one run.\<close>

lemma meets_Ok: "meets E R P c \<Longrightarrow> c m = (Ok x, m') \<Longrightarrow> P x \<and> R m m'"
  by (auto dest: meetsD)

lemma meets_no_error:
  assumes "meets {} R P c"
  shows "\<exists>x m'. c m = (Ok x, m') \<and> P x \<and> R m m'"
proof -
  obtain r m' where c: "c m = (r, m')" by (cases "c m")
  with meetsD [OF assms c] show ?thesis by (cases r) auto
qed

section \<open>The meter\<close>

datatype meter_error = MeterBudget budget_error | Cancelled

text \<open>
  A \<open>BudgetMeter\<close> implementation, as the record of its three methods. A method returns a
  \<open>Result\<close> and updates the implementation's own state.
\<close>

record 'm meter =
  mt_charge :: "dimension \<Rightarrow> u64 \<Rightarrow> 'm \<Rightarrow> (meter_error + unit) \<times> 'm"
  mt_charge_batch :: "(dimension \<times> u64) list \<Rightarrow> 'm \<Rightarrow> (meter_error + unit) \<times> 'm"
  mt_checkpoint :: "'m \<Rightarrow> (meter_error + unit) \<times> 'm"

text \<open>\<open>meter.charge(..)?\<close>, \<open>meter.charge_batch(..)?\<close> and \<open>meter.checkpoint()?\<close>.\<close>

definition of_result :: "('m \<Rightarrow> ('e + 'a) \<times> 'm) \<Rightarrow> ('m, 'e, 'a) metered" where
  "of_result op = (\<lambda>m. case op m of (Inl e, m') \<Rightarrow> (Err e, m') | (Inr x, m') \<Rightarrow> (Ok x, m'))"

definition charge :: "'m meter \<Rightarrow> dimension \<Rightarrow> u64 \<Rightarrow> ('m, meter_error, unit) metered" where
  "charge M d a = of_result (mt_charge M d a)"

definition charge_batch :: "'m meter \<Rightarrow> (dimension \<times> u64) list \<Rightarrow> ('m, meter_error, unit) metered" where
  "charge_batch M cs = of_result (mt_charge_batch M cs)"

definition checkpoint :: "'m meter \<Rightarrow> ('m, meter_error, unit) metered" where
  "checkpoint M = of_result (mt_checkpoint M)"

text \<open>The pair of calls that precedes every unit of work of the kernels.\<close>

definition tick :: "'m meter \<Rightarrow> ('m, meter_error, unit) metered" where
  "tick M = mbind (checkpoint M) (\<lambda>_. charge M ComputeSteps 1)"

definition metered_finish :: "'m meter \<Rightarrow> 'a \<Rightarrow> ('m, meter_error, 'a) metered" where
  "metered_finish M value = mbind (checkpoint M) (\<lambda>_. mret value)"

locale budget_meter =
  fixes M :: "'m meter"
    and E :: "meter_error set"
    and R :: "'m \<Rightarrow> 'm \<Rightarrow> bool"
  assumes composes [simp, intro]: "composes R"
    and charge: "meets E R (\<lambda>_. True) (charge M d a)"
    and charge_batch: "meets E R (\<lambda>_. True) (charge_batch M cs)"
    and checkpoint: "meets E R (\<lambda>_. True) (checkpoint M)"
begin

lemma ret [simp]: "P x \<Longrightarrow> meets F R P (mret x)"
  by (rule meets_ret) simp

lemma fail: "e \<in> F \<Longrightarrow> meets F R P (mfail e)"
  by (rule meets_fail) simp

lemma bind: "meets F R Q c \<Longrightarrow> (\<And>x. Q x \<Longrightarrow> meets F R P (f x)) \<Longrightarrow> meets F R P (mbind c f)"
  by (rule meets_bind [OF composes])

lemma loop:
  "I 0 s \<Longrightarrow> (\<And>k t. k < length xs \<Longrightarrow> I k t \<Longrightarrow> meets F R (I (Suc k)) (body (xs ! k) t)) \<Longrightarrow>
   meets F R (I (length xs)) (mfor xs body s)"
  by (rule meets_for) simp_all

lemma tick: "meets E R (\<lambda>_. True) (tick M)"
  unfolding tick_def by (rule bind [OF checkpoint]) (rule charge)

lemma finish: "P x \<Longrightarrow> meets E R P (metered_finish M x)"
  unfolding metered_finish_def by (rule bind [OF checkpoint]) simp

text \<open>A unit of metering in front of a computation does not change what it delivers.\<close>

lemma after_tick: "meets E R P c \<Longrightarrow> meets E R P (mbind (tick M) (\<lambda>_. c))"
  by (rule bind [OF tick])

lemma after_checkpoint: "meets E R P c \<Longrightarrow> meets E R P (mbind (checkpoint M) (\<lambda>_. c))"
  by (rule bind [OF checkpoint])

lemma after_charge: "meets E R P c \<Longrightarrow> meets E R P (mbind (charge M d a) (\<lambda>_. c))"
  by (rule bind [OF charge])

lemma after_batch: "meets E R P c \<Longrightarrow> meets E R P (mbind (charge_batch M cs) (\<lambda>_. c))"
  by (rule bind [OF charge_batch])

end

lemma meets_of_result:
  assumes "\<And>m r m'. op m = (r, m') \<Longrightarrow> R m m'"
    and "\<And>m e m'. op m = (Inl e, m') \<Longrightarrow> e \<in> E"
    and "\<And>m x m'. op m = (Inr x, m') \<Longrightarrow> P x"
  shows "meets E R P (of_result op)"
proof (rule meetsI)
  fix m r m'
  assume run: "of_result op m = (r, m')"
  obtain x m1 where op: "op m = (x, m1)" by (cases "op m")
  have "m1 = m'" using run op by (cases x) (simp_all add: of_result_def)
  then have "R m m'" using assms(1) [OF op] by simp
  then show "R m m' \<and> result_in E P r"
    using run op assms(2,3) by (cases x) (auto simp: of_result_def)
qed

text \<open>Every meter satisfies the contract that asks nothing of its errors and its state.\<close>

lemma any_meter: "budget_meter M UNIV (\<lambda>_ _. True)"
  by unfold_locales
    (simp_all add: composes_def charge_def charge_batch_def checkpoint_def meets_of_result)

section \<open>The unbounded meter\<close>

definition unbounded :: "unit meter" where
  "unbounded = \<lparr>mt_charge = (\<lambda>_ _ m. (Inr (), m)), mt_charge_batch = (\<lambda>_ m. (Inr (), m)),
                mt_checkpoint = (\<lambda>m. (Inr (), m))\<rparr>"

interpretation unbounded: budget_meter unbounded "{}" "(=)"
  by unfold_locales
    (auto simp: unbounded_def charge_def charge_batch_def checkpoint_def intro!: meets_of_result)

section \<open>The ledger as a meter\<close>

text \<open>\<open>self.try_charge(..).map(|_| ()).map_err(Into::into)\<close> and its batch form.\<close>

definition ledger_charge :: "dimension \<Rightarrow> u64 \<Rightarrow> budget \<Rightarrow> (meter_error + unit) \<times> budget" where
  "ledger_charge dimension amount b =
     (case try_charge dimension amount b of
        (b', Inl e) \<Rightarrow> (Inl (MeterBudget e), b')
      | (b', Inr _) \<Rightarrow> (Inr (), b'))"

definition ledger_charge_batch ::
  "(dimension \<times> u64) list \<Rightarrow> budget \<Rightarrow> (meter_error + unit) \<times> budget" where
  "ledger_charge_batch charges b =
     (case try_charge_batch charges b of
        (b', Inl e) \<Rightarrow> (Inl (MeterBudget e), b')
      | (b', Inr _) \<Rightarrow> (Inr (), b'))"

definition ledger_checkpoint :: "budget \<Rightarrow> (meter_error + unit) \<times> budget" where
  "ledger_checkpoint b = (Inr (), b)"

definition ledger_meter :: "budget meter" where
  "ledger_meter = \<lparr>mt_charge = ledger_charge, mt_charge_batch = ledger_charge_batch,
                   mt_checkpoint = ledger_checkpoint\<rparr>"

text \<open>
  How a metered computation may change the ledger it runs on: allowances only shrink, and the
  verifier pool, the lease and the identity stay as they were.
\<close>

definition only_spends :: "budget \<Rightarrow> budget \<Rightarrow> bool" where
  "only_spends b b' \<longleftrightarrow>
     (wf_budget b \<longrightarrow> wf_budget b' \<and> (\<forall>d. held d b' \<le> held d b)
        \<and> b_verifier_remaining b' = b_verifier_remaining b
        \<and> b_verifier_lease_available b' = b_verifier_lease_available b
        \<and> same_identity b b')"

lemma only_spends_refl [simp]: "only_spends b b"
  by (simp add: only_spends_def)

lemma only_spends_trans:
  assumes "only_spends a b" and "only_spends b c"
  shows "only_spends a c"
  unfolding only_spends_def
proof
  assume wf: "wf_budget a"
  then have b: "wf_budget b" "same_identity a b" "\<And>d. held d b \<le> held d a"
    using assms(1) by (simp_all add: only_spends_def)
  then have c: "wf_budget c" "same_identity b c" "\<And>d. held d c \<le> held d b"
    using assms(2) by (simp_all add: only_spends_def)
  have "\<And>d. held d c \<le> held d a" using b(3) c(3) order_trans by blast
  then show "wf_budget c \<and> (\<forall>d. held d c \<le> held d a)
      \<and> b_verifier_remaining c = b_verifier_remaining a
      \<and> b_verifier_lease_available c = b_verifier_lease_available a \<and> same_identity a c"
    using wf b(1,2) c(1,2) assms by (simp add: only_spends_def same_identity_def)
qed

lemma composes_only_spends [simp]: "composes only_spends"
  unfolding composes_def using only_spends_trans by auto

lemma ledger_charge_run:
  "ledger_charge d a b = (r, b') \<Longrightarrow> only_spends b b' \<and> (\<forall>e. r = Inl e \<longrightarrow> e \<in> range MeterBudget)"
proof -
  assume run: "ledger_charge d a b = (r, b')"
  obtain c res where op: "try_charge d a b = (c, res)" by (cases "try_charge d a b")
  show ?thesis
  proof (cases res)
    case (Inl e)
    then show ?thesis using run op refusal_atomic(1) [of d a b] by (auto simp: ledger_charge_def)
  next
    case (Inr u)
    have "only_spends b c"
      using try_charge_ok [OF op[unfolded Inr]] by (auto simp: only_spends_def)
    then show ?thesis using run op Inr by (auto simp: ledger_charge_def)
  qed
qed

lemma ledger_charge_batch_run:
  "ledger_charge_batch cs b = (r, b') \<Longrightarrow> only_spends b b' \<and> (\<forall>e. r = Inl e \<longrightarrow> e \<in> range MeterBudget)"
proof -
  assume run: "ledger_charge_batch cs b = (r, b')"
  obtain c res where op: "try_charge_batch cs b = (c, res)" by (cases "try_charge_batch cs b")
  show ?thesis
  proof (cases res)
    case (Inl e)
    then show ?thesis using run op refusal_atomic(2) [of cs b] by (auto simp: ledger_charge_batch_def)
  next
    case (Inr u)
    have "only_spends b c"
      using try_charge_batch_ok [OF op[unfolded Inr]] by (auto simp: only_spends_def)
    then show ?thesis using run op Inr by (auto simp: ledger_charge_batch_def)
  qed
qed

interpretation ledger: budget_meter ledger_meter "range MeterBudget" only_spends
proof unfold_locales
  show "composes only_spends" by simp
  fix d a cs
  show "meets (range MeterBudget) only_spends (\<lambda>_. True) (charge ledger_meter d a)"
    unfolding charge_def ledger_meter_def meter.simps
    by (rule meets_of_result) (use ledger_charge_run [of d a] in blast)+
  show "meets (range MeterBudget) only_spends (\<lambda>_. True) (charge_batch ledger_meter cs)"
    unfolding charge_batch_def ledger_meter_def meter.simps
    by (rule meets_of_result) (use ledger_charge_batch_run [of cs] in blast)+
  show "meets (range MeterBudget) only_spends (\<lambda>_. True) (checkpoint ledger_meter)"
    unfolding checkpoint_def ledger_meter_def meter.simps
    by (rule meets_of_result) (auto simp: ledger_checkpoint_def)
qed

text \<open>A specification on the ledger, read as what one run returns.\<close>

lemma ledger_run:
  assumes "meets E only_spends P c"
  shows "case c b of (Ok x, b') \<Rightarrow> P x \<and> only_spends b b' | (Err e, b') \<Rightarrow> e \<in> E \<and> only_spends b b' | _ \<Rightarrow> False"
proof -
  obtain r b' where run: "c b = (r, b')" by (cases "c b")
  then show ?thesis using meetsD [OF assms run] by (cases r) auto
qed

end
