(* ===== verification/Digit_Values.thy ===== *)
theory Digit_Values
  imports FS_Prelude
begin

text \<open>
  What a little-endian buffer of base-\<open>2 ^ 32\<close> digits means, and the facts about buffers that the
  kernels share: values of appended, sliced, zeroed and updated buffers, the canonical form
  without a trailing zero, how canonical buffers compare, and the place of one digit inside a
  buffer that is being accumulated into.
\<close>

named_theorems dval_simps \<open>values of digit buffers\<close>

fun dval :: "u32 list \<Rightarrow> nat" where
  "dval [] = 0"
| "dval (d # ds) = unat d + radix * dval ds"

text \<open>Canonical buffers: the most significant digit is not zero.\<close>

definition canonical :: "u32 list \<Rightarrow> bool" where
  "canonical ds \<longleftrightarrow> ds = [] \<or> last ds \<noteq> 0"

section \<open>Values\<close>

lemma dval_append [dval_simps]: "dval (xs @ ys) = dval xs + radix ^ length xs * dval ys"
  by (induction xs) (simp_all add: algebra_simps)

lemma dval_snoc: "dval (xs @ [d]) = dval xs + radix ^ length xs * unat d"
  by (simp add: dval_simps)

lemma dval_replicate_0 [simp]: "dval (replicate n 0) = 0"
  by (induction n) simp_all

lemma dval_lt: "dval ds < radix ^ length ds"
proof (induction ds)
  case Nil
  then show ?case by simp
next
  case (Cons d ds)
  have "unat d + radix * dval ds < radix + radix * dval ds" using unat_u32_lt [of d] by simp
  also have "\<dots> = radix * Suc (dval ds)" by simp
  also have "\<dots> \<le> radix * radix ^ length ds" using Cons by (intro mult_le_mono2) simp
  finally show ?case by simp
qed

lemma dval_take_drop:
  "dval ds = dval (take k ds) + radix ^ min k (length ds) * dval (drop k ds)"
  using dval_append [of "take k ds" "drop k ds"] by (simp add: min.commute)

lemma dval_update:
  "i < length ds \<Longrightarrow>
   dval (ds[i := v]) + radix ^ i * unat (ds ! i) = dval ds + radix ^ i * unat v"
proof (induction ds arbitrary: i)
  case Nil
  then show ?case by simp
next
  case (Cons d ds)
  show ?case
  proof (cases i)
    case 0
    then show ?thesis by simp
  next
    case (Suc j)
    then have "dval (ds[j := v]) + radix ^ j * unat (ds ! j) = dval ds + radix ^ j * unat v"
      using Cons by simp
    then have "radix * (dval (ds[j := v]) + radix ^ j * unat (ds ! j))
        = radix * (dval ds + radix ^ j * unat v)"
      by (rule arg_cong)
    then show ?thesis using Suc by (simp add: algebra_simps)
  qed
qed

lemma dval_ge_digit: "i < length ds \<Longrightarrow> radix ^ i * unat (ds ! i) \<le> dval ds"
  using dval_update [of i ds 0] by simp

lemma dval_eq_0_iff: "dval ds = 0 \<longleftrightarrow> set ds \<subseteq> {0}"
  by (induction ds) (auto simp: unat_eq_zero)

section \<open>Canonical buffers\<close>

lemma canonical_Nil [simp]: "canonical []"
  by (simp add: canonical_def)

lemma canonical_snoc [simp]: "canonical (xs @ [d]) \<longleftrightarrow> d \<noteq> 0"
  by (simp add: canonical_def)

lemma canonical_Cons: "canonical (d # ds) \<Longrightarrow> canonical ds"
  by (cases ds) (auto simp: canonical_def)

lemma canonical_ge:
  assumes "canonical ds" and "ds \<noteq> []"
  shows "radix ^ (length ds - 1) \<le> dval ds"
proof -
  obtain xs d where ds: "ds = xs @ [d]" using assms(2) by (rule butlast_last_cases)
  with assms(1) have "1 \<le> unat d" by (simp add: unat_gt_0 Suc_leI)
  then have "radix ^ length xs * 1 \<le> radix ^ length xs * unat d" by (rule mult_le_mono2)
  then have "radix ^ length xs * 1 \<le> dval xs + radix ^ length xs * unat d" by (rule trans_le_add2)
  then show ?thesis by (simp only: ds dval_snoc length_append) simp
qed

lemma canonical_dval_0: "canonical ds \<Longrightarrow> dval ds = 0 \<longleftrightarrow> ds = []"
  using canonical_ge [of ds] by force

lemma dval_less_of_length:
  assumes "canonical ys" and "length xs < length ys"
  shows "dval xs < dval ys"
proof -
  have "dval xs < radix ^ length xs" by (rule dval_lt)
  also have "\<dots> \<le> radix ^ (length ys - 1)" using assms(2) by (intro power_increasing) auto
  also have "\<dots> \<le> dval ys" using assms by (intro canonical_ge) auto
  finally show ?thesis .
qed

lemma dval_inject_length: "length xs = length ys \<Longrightarrow> dval xs = dval ys \<Longrightarrow> xs = ys"
proof (induction xs ys rule: list_induct2)
  case Nil
  then show ?case by simp
next
  case (Cons x xs y ys)
  have lt: "unat x < radix" "unat y < radix" by (rule unat_u32_lt)+
  have eq: "unat x + radix * dval xs = unat y + radix * dval ys" using Cons.prems by simp
  have "(unat x + radix * dval xs) mod radix = unat x" using lt(1) by simp
  moreover have "(unat y + radix * dval ys) mod radix = unat y" using lt(2) by simp
  ultimately have "unat x = unat y" using eq by simp
  then have "x = y" and "dval xs = dval ys" using eq by (simp_all add: word_unat_eq_iff)
  then show ?case using Cons.IH by simp
qed

lemma canonical_inject: "canonical xs \<Longrightarrow> canonical ys \<Longrightarrow> dval xs = dval ys \<Longrightarrow> xs = ys"
  by (metis dval_inject_length dval_less_of_length less_irrefl linorder_neqE_nat)

section \<open>Comparing most significant digits first\<close>

text \<open>Two buffers of one length compare by their first differing digit from the top.\<close>

lemma dval_less_snoc:
  "length xs = length ys \<Longrightarrow> unat x < unat y \<Longrightarrow> dval (xs @ [x]) < dval (ys @ [y])"
proof -
  assume len: "length xs = length ys" and less: "unat x < unat y"
  have "dval (xs @ [x]) < radix ^ length xs + radix ^ length xs * unat x"
    using dval_lt [of xs] by (simp add: dval_snoc)
  also have "\<dots> = radix ^ length xs * Suc (unat x)" by simp
  also have "\<dots> \<le> radix ^ length xs * unat y" using less by (intro mult_le_mono2) simp
  also have "\<dots> \<le> dval (ys @ [y])" by (simp add: dval_snoc len)
  finally show ?thesis .
qed


lemma compare_add_same [simp]: "compare (a + c) (b + c) = compare a (b :: nat)"
  by (simp add: compare_def)

lemma compare_snoc:
  assumes "length xs = length ys"
  shows "compare (dval (xs @ [x])) (dval (ys @ [y])) =
    (case compare x y of Equal \<Rightarrow> compare (dval xs) (dval ys) | other \<Rightarrow> other)"
proof (cases "compare x y")
  case Less
  then show ?thesis using dval_less_snoc [OF assms, of x y] by (simp add: word_less_nat_alt)
next
  case Equal
  then show ?thesis using assms by (simp add: dval_snoc)
next
  case Greater
  then show ?thesis using dval_less_snoc [OF assms [symmetric], of y x] by (simp add: word_less_nat_alt)
qed

lemma compare_length_canonical:
  assumes "canonical xs" and "canonical ys" and "length xs \<noteq> length ys"
  shows "compare (dval xs) (dval ys) = compare (length xs) (length ys)"
proof (cases "length xs < length ys")
  case True
  then show ?thesis using dval_less_of_length [OF assms(2) True] by simp
next
  case False
  then have "length ys < length xs" using assms(3) by simp
  then show ?thesis using dval_less_of_length [OF assms(1), of ys] by simp
qed

section \<open>One more digit\<close>

lemma dval_take_Suc:
  "dval (take (Suc k) xs) = dval (take k xs) + radix ^ k * unat (get_or 0 xs k)"
  by (cases "k < length xs") (simp_all add: get_or_def take_Suc_conv_app_nth dval_snoc)

lemma dval_take_all: "length xs \<le> k \<Longrightarrow> dval (take k xs) = dval xs"
  by simp

text \<open>
  A buffer whose slot \<open>i\<close> receives \<open>slot + s\<close>: the low digit stays, the high part is the carry
  into slot \<open>i + 1\<close>.
\<close>

lemma dval_accumulate:
  assumes "i < length ds" and "unat v = unat (ds ! i) + s"
  shows "dval (ds[i := low_digit v]) + radix ^ Suc i * unat (high_part v) = dval ds + radix ^ i * s"
proof -
  have "radix ^ i * (unat (low_digit v) + radix * unat (high_part v)) = radix ^ i * (unat (ds ! i) + s)"
    by (simp only: split_value assms(2))
  then show ?thesis
    using dval_update [OF assms(1), of "low_digit v"] by (simp add: algebra_simps)
qed

text \<open>
  The loops that accumulate into a window of a buffer. \<open>w k\<close> is what the first \<open>k\<close> steps add,
  measured at the window's start; a step whose slot receives \<open>slot + s k + carry\<close> keeps the invariant.
\<close>

lemma accumulate_step:
  assumes "off + k < length p" and "dval p + radix ^ (off + k) * unat c = W"
    and "unat v = unat (p ! (off + k)) + s + unat c"
  shows "dval (p[off + k := low_digit v]) + radix ^ (off + Suc k) * unat (high_part v)
    = W + radix ^ off * (radix ^ k * s)"
proof -
  have "dval (p[off + k := low_digit v]) + radix ^ Suc (off + k) * unat (high_part v)
      = dval p + radix ^ (off + k) * (s + unat c)"
    by (rule dval_accumulate [OF assms(1)]) (simp add: assms(3))
  then show ?thesis using assms(2) by (simp add: power_add algebra_simps)
qed

text \<open>The same for a buffer that grows by one digit.\<close>

lemma dval_emit:
  "dval (out @ [low_digit v]) + radix ^ Suc (length out) * unat (high_part v)
     = dval out + radix ^ length out * unat v"
proof -
  have "dval (out @ [low_digit v]) + radix ^ Suc (length out) * unat (high_part v)
      = dval out + radix ^ length out * (unat (low_digit v) + radix * unat (high_part v))"
    by (simp add: dval_snoc algebra_simps)
  then show ?thesis by (simp only: split_value)
qed

text \<open>One digit of a long division.\<close>

lemma divide_accumulate:
  fixes q c m r b x h h' :: nat
  assumes "q * c + m = r * b + x" and "h * c + r = h'"
  shows "(q + b * h) * c + m = x + b * h'"
proof -
  have "(q + b * h) * c + m = (q * c + m) + b * (h * c)" by (simp add: algebra_simps)
  also have "\<dots> = x + b * (h * c + r)" unfolding assms(1) by (simp add: algebra_simps)
  finally show ?thesis unfolding assms(2) .
qed

lemma canonical_of_ge:
  assumes "ds \<noteq> [] \<Longrightarrow> radix ^ (length ds - 1) \<le> dval ds"
  shows "canonical ds"
proof (cases "ds = []")
  case False
  then obtain xs d where ds: "ds = xs @ [d]" by (rule butlast_last_cases)
  have "d \<noteq> 0"
  proof
    assume "d = 0"
    then have "dval ds < radix ^ length xs" using dval_lt [of xs] by (simp add: ds dval_snoc)
    then show False using assms [OF False] by (simp add: ds)
  qed
  then show ?thesis by (simp add: ds)
qed simp


text \<open>A canonical buffer is no longer than its value needs, at any offset.\<close>

lemma canonical_fit:
  assumes "canonical z" and "radix ^ off * dval z < radix ^ cap" and "off \<le> cap"
  shows "off + length z \<le> cap"
proof (cases "z = []")
  case False
  have "radix ^ (off + (length z - 1)) \<le> radix ^ off * dval z"
    using canonical_ge [OF assms(1) False] by (simp add: power_add)
  then have "radix ^ (off + (length z - 1)) < radix ^ cap" using assms(2) by (rule le_less_trans)
  then have "off + (length z - 1) < cap" by (rule power_less_imp_less_exp [rotated]) simp
  then show ?thesis using False by (cases z) auto
qed (use assms(3) in simp)

lemma canonical_length:
  "canonical z \<Longrightarrow> dval z < radix ^ n \<Longrightarrow> length z \<le> n"
  using canonical_fit [of z 0 n] by simp

lemma dval_mult_lt: "dval a * dval b < radix ^ (length a + length b)"
proof -
  have "dval a * dval b < radix ^ length a * radix ^ length b"
    using dval_lt [of a] dval_lt [of b] by (intro mult_strict_mono) auto
  then show ?thesis by (simp add: power_add)
qed

end
