(* ===== verification/Digit_Kernels.thy ===== *)
theory Digit_Kernels
  imports Metering Digit_Values
begin

unbundle bit_operations_syntax

text \<open>
  The digit kernels of \<open>crates/fsym-bigint/src/lib.rs\<close> that the recursive multiplication lanes
  are built from: copying, trimming, adding, subtracting, comparing, multiplying and dividing by a
  small factor, schoolbook multiplication, zeroed buffers and shifted accumulation.

  Each kernel takes the meter \<open>M\<close> and, where it reserves a buffer, the allocator's answer \<open>A\<close>: \<open>A m n\<close>
  says whether \<open>try_reserve_exact(n)\<close> succeeds when the meter's state is \<open>m\<close>. A slice or a vector
  is a list of digits; a loop over indices is \<open>mfor\<close> with the variables it updates as its state.
\<close>

section \<open>Errors and buffer reservation\<close>

datatype mul_error =
    Meter meter_error
  | SizeOverflow
  | AllocationFailure
  | TransformDomainUnsupported
  | InvariantViolation

definition ktick :: "'m meter \<Rightarrow> ('m, mul_error, unit) metered" where
  "ktick M = mlift Meter (tick M)"

fun sum_capacities :: "nat list \<Rightarrow> nat \<Rightarrow> u64 \<Rightarrow> mul_error + nat \<times> u64" where
  "sum_capacities [] total_elements allocations = Inr (total_elements, allocations)"
| "sum_capacities (capacity # cs) total_elements allocations =
     (if capacity = 0 then sum_capacities cs total_elements allocations
      else case checked_add_usize total_elements capacity of
        None \<Rightarrow> Inl SizeOverflow
      | Some elements \<Rightarrow>
          (case checked_add64 allocations 1 of
             None \<Rightarrow> Inl SizeOverflow
           | Some n \<Rightarrow> sum_capacities cs elements n))"

definition charge_vec_capacities :: "'m meter \<Rightarrow> nat list \<Rightarrow> ('m, mul_error, unit) metered" where
  "charge_vec_capacities M capacities =
     (case sum_capacities capacities 0 0 of
        Inl e \<Rightarrow> mfail e
      | Inr (total_elements, allocations) \<Rightarrow>
          if allocations = 0 then mret ()
          else
            mbind (ok_or SizeOverflow (u64_try_from total_elements)) (\<lambda>elements.
            mbind (ok_or SizeOverflow (checked_mul64 elements 4)) (\<lambda>memory_bytes.
            mbind (mlift Meter (checkpoint M)) (\<lambda>_.
            mlift Meter (charge_batch M
              [(MemoryBytes, memory_bytes), (AllocationCount, allocations)])))))"

definition try_u32_vec :: "('m \<Rightarrow> nat \<Rightarrow> bool) \<Rightarrow> nat \<Rightarrow> ('m, mul_error, u32 list) metered" where
  "try_u32_vec A capacity =
     (\<lambda>m. if capacity \<noteq> 0 \<and> \<not> A m capacity then (Err AllocationFailure, m) else (Ok [], m))"

section \<open>Copies, zeroes, trimming\<close>

definition metered_copy_digit_slice ::
  "'m meter \<Rightarrow> ('m \<Rightarrow> nat \<Rightarrow> bool) \<Rightarrow> u32 list \<Rightarrow> ('m, mul_error, u32 list) metered" where
  "metered_copy_digit_slice M A digits =
     mbind (charge_vec_capacities M [length digits]) (\<lambda>_.
     mbind (try_u32_vec A (length digits)) (\<lambda>output.
     mfor digits (\<lambda>digit output. mbind (ktick M) (\<lambda>_. mret (output @ [digit]))) output))"

definition metered_zeroed_digits ::
  "'m meter \<Rightarrow> ('m \<Rightarrow> nat \<Rightarrow> bool) \<Rightarrow> nat \<Rightarrow> ('m, mul_error, u32 list) metered" where
  "metered_zeroed_digits M A capacity =
     mbind (charge_vec_capacities M [capacity]) (\<lambda>_.
     mbind (try_u32_vec A capacity) (\<lambda>digits.
     mfor [0..<capacity] (\<lambda>_ digits. mbind (ktick M) (\<lambda>_. mret (digits @ [0]))) digits))"

function (sequential) metered_trimmed_slice ::
  "'m meter \<Rightarrow> u32 list \<Rightarrow> ('m, mul_error, u32 list) metered" where
  "metered_trimmed_slice M digits =
     (if digits = [] then mret digits
      else mbind (ktick M) (\<lambda>_.
        if last digits \<noteq> 0 then mret digits
        else metered_trimmed_slice M (butlast digits)))"
  by pat_completeness auto
termination by (relation "measure (\<lambda>(M, digits). length digits)") auto

function (sequential) metered_trim_owned_digits ::
  "'m meter \<Rightarrow> u32 list \<Rightarrow> ('m, mul_error, u32 list) metered" where
  "metered_trim_owned_digits M digits =
     (if digits = [] then mret digits
      else mbind (ktick M) (\<lambda>_.
        if last digits \<noteq> 0 then mret digits
        else metered_trim_owned_digits M (butlast digits)))"
  by pat_completeness auto
termination by (relation "measure (\<lambda>(M, digits). length digits)") auto

declare metered_trimmed_slice.simps [simp del] metered_trim_owned_digits.simps [simp del]

section \<open>Comparison, addition, subtraction\<close>

fun compare_from_top :: "'m meter \<Rightarrow> (u32 \<times> u32) list \<Rightarrow> ('m, mul_error, ordering) metered" where
  "compare_from_top M [] = mret Equal"
| "compare_from_top M ((lhs_digit, rhs_digit) # rest) =
     mbind (ktick M) (\<lambda>_.
       case compare lhs_digit rhs_digit of
         Equal \<Rightarrow> compare_from_top M rest
       | other \<Rightarrow> mret other)"

definition metered_compare_digit_slices ::
  "'m meter \<Rightarrow> u32 list \<Rightarrow> u32 list \<Rightarrow> ('m, mul_error, ordering) metered" where
  "metered_compare_digit_slices M lhs rhs =
     (case compare (length lhs) (length rhs) of
        Equal \<Rightarrow> compare_from_top M (zip (rev lhs) (rev rhs))
      | other \<Rightarrow> mret other)"

definition add_digit_step ::
  "'m meter \<Rightarrow> u32 list \<Rightarrow> u32 list \<Rightarrow> nat \<Rightarrow> u32 list \<times> u64 \<Rightarrow> ('m, mul_error, u32 list \<times> u64) metered"
  where
  "add_digit_step M lhs rhs index = (\<lambda>(output, carry).
     mbind (ktick M) (\<lambda>_.
       let sum = widen (get_or 0 lhs index) + widen (get_or 0 rhs index) + carry
       in mret (output @ [low_digit sum], high_part sum)))"

definition metered_add_digit_slices ::
  "'m meter \<Rightarrow> ('m \<Rightarrow> nat \<Rightarrow> bool) \<Rightarrow> u32 list \<Rightarrow> u32 list \<Rightarrow> ('m, mul_error, u32 list) metered" where
  "metered_add_digit_slices M A lhs rhs =
     (if lhs = [] \<and> rhs = [] then mret []
      else
        mbind (ok_or SizeOverflow (checked_add_usize (max (length lhs) (length rhs)) 1)) (\<lambda>capacity.
        mbind (charge_vec_capacities M [capacity]) (\<lambda>_.
        mbind (try_u32_vec A capacity) (\<lambda>output.
        mbind (mfor [0..<max (length lhs) (length rhs)] (add_digit_step M lhs rhs) (output, 0))
          (\<lambda>(output, carry).
            if carry \<noteq> 0
            then mbind (ktick M) (\<lambda>_. mret (output @ [low_digit carry]))
            else mret output)))))"

definition sub_digit_step ::
  "'m meter \<Rightarrow> u32 list \<Rightarrow> nat \<times> u32 \<Rightarrow> u32 list \<times> u64 \<Rightarrow> ('m, mul_error, u32 list \<times> u64) metered"
  where
  "sub_digit_step M rhs = (\<lambda>(index, lhs_digit) (output, borrow).
     mbind (ktick M) (\<lambda>_.
       let rhs_digit = widen (get_or 0 rhs index);
           subtrahend = rhs_digit + borrow;
           lhs_value = widen lhs_digit
       in if lhs_value \<ge> subtrahend
          then mret (output @ [low_digit (lhs_value - subtrahend)], 0)
          else mret (output @ [low_digit (push_bit 32 1 + lhs_value - subtrahend)], 1)))"

definition metered_subtract_digit_slices ::
  "'m meter \<Rightarrow> ('m \<Rightarrow> nat \<Rightarrow> bool) \<Rightarrow> u32 list \<Rightarrow> u32 list \<Rightarrow> ('m, mul_error, u32 list) metered" where
  "metered_subtract_digit_slices M A lhs rhs =
     mbind (metered_compare_digit_slices M lhs rhs) (\<lambda>cmp.
       case cmp of
         Less \<Rightarrow> mfail InvariantViolation
       | Equal \<Rightarrow> mret []
       | Greater \<Rightarrow>
           mbind (charge_vec_capacities M [length lhs]) (\<lambda>_.
           mbind (try_u32_vec A (length lhs)) (\<lambda>output.
           mbind (mfor (List.enumerate 0 lhs) (sub_digit_step M rhs) (output, 0)) (\<lambda>(output, borrow).
             if borrow \<noteq> 0 then mfail InvariantViolation
             else metered_trim_owned_digits M output))))"

section \<open>Small factors\<close>

text \<open>\<open>u32::try_from\<close> on a \<open>u64\<close>.\<close>

definition u32_try_from :: "u64 \<Rightarrow> u32 option" where
  "u32_try_from v = (if unat v < radix then Some (low_digit v) else None)"

definition mul_small_step ::
  "'m meter \<Rightarrow> u32 \<Rightarrow> u32 \<Rightarrow> u32 list \<times> u64 \<Rightarrow> ('m, mul_error, u32 list \<times> u64) metered" where
  "mul_small_step M factor digit = (\<lambda>(output, carry).
     mbind (ktick M) (\<lambda>_.
       let product = widen digit * widen factor + carry
       in mbind (ok_or InvariantViolation (u32_try_from (product AND 0xFFFFFFFF))) (\<lambda>low.
          mret (output @ [low], high_part product))))"

definition metered_multiply_digit_slice_by_small ::
  "'m meter \<Rightarrow> ('m \<Rightarrow> nat \<Rightarrow> bool) \<Rightarrow> u32 list \<Rightarrow> u32 \<Rightarrow> ('m, mul_error, u32 list) metered" where
  "metered_multiply_digit_slice_by_small M A digits factor =
     (if digits = [] \<or> factor = 0 then mret []
      else
        mbind (ok_or SizeOverflow (checked_add_usize (length digits) 1)) (\<lambda>capacity.
        mbind (charge_vec_capacities M [capacity]) (\<lambda>_.
        mbind (try_u32_vec A capacity) (\<lambda>output.
        mbind (mfor digits (mul_small_step M factor) (output, 0)) (\<lambda>(output, carry).
          if carry \<noteq> 0
          then mbind (ktick M) (\<lambda>_.
               mbind (ok_or InvariantViolation (u32_try_from carry)) (\<lambda>top.
               mret (output @ [top])))
          else mret output)))))"

section \<open>Accumulating products and shifted terms\<close>

definition mac_step ::
  "'m meter \<Rightarrow> nat \<Rightarrow> u32 \<Rightarrow> nat \<times> u32 \<Rightarrow> u32 list \<times> u64 \<Rightarrow> ('m, mul_error, u32 list \<times> u64) metered"
  where
  "mac_step M i lhs_digit = (\<lambda>(j, rhs_digit) (product, carry).
     mbind (ktick M) (\<lambda>_.
     mbind (ok_or SizeOverflow (checked_add_usize i j)) (\<lambda>index.
       if index < length product
       then let v = widen (product ! index) + widen lhs_digit * widen rhs_digit + carry
            in mret (product[index := low_digit v], high_part v)
       else mfail InvariantViolation)))"

lemma ok_or_Ok: "(\<exists>m m'. ok_or e x m = (Ok v, m')) \<Longrightarrow> x = Some v"
  by (auto simp: ok_or_def mfail_def mret_def split: option.splits)

text \<open>The \<open>while carry != 0\<close> loops: the carry moves up until a slot absorbs it.\<close>

function propagate_carry ::
  "'m meter \<Rightarrow> u32 list \<Rightarrow> nat \<Rightarrow> u64 \<Rightarrow> ('m, mul_error, u32 list) metered" where
  "propagate_carry M target index carry =
     (if carry = 0 then mret target
      else mbind (ktick M) (\<lambda>_.
        if index < length target
        then let v = widen (target ! index) + carry
             in mbind (ok_or SizeOverflow (checked_add_usize index 1)) (\<lambda>index'.
                  propagate_carry M (target[index := low_digit v]) index' (high_part v))
        else mfail InvariantViolation))"
  by pat_completeness auto
termination
  by (relation "measure (\<lambda>(M, target, index, carry). length target - index)")
    (auto dest!: ok_or_Ok)

declare propagate_carry.simps [simp del]

definition schoolbook_row ::
  "'m meter \<Rightarrow> u32 list \<Rightarrow> nat \<times> u32 \<Rightarrow> u32 list \<Rightarrow> ('m, mul_error, u32 list) metered" where
  "schoolbook_row M rhs = (\<lambda>(i, lhs_digit) product.
     mbind (mfor (List.enumerate 0 rhs) (mac_step M i lhs_digit) (product, 0)) (\<lambda>(product, carry).
     mbind (ok_or SizeOverflow (checked_add_usize i (length rhs))) (\<lambda>index.
     propagate_carry M product index carry)))"

definition metered_schoolbook_digits ::
  "'m meter \<Rightarrow> ('m \<Rightarrow> nat \<Rightarrow> bool) \<Rightarrow> u32 list \<Rightarrow> u32 list \<Rightarrow> nat \<Rightarrow> ('m, mul_error, u32 list) metered"
  where
  "metered_schoolbook_digits M A lhs rhs output_capacity =
     mbind (metered_zeroed_digits M A output_capacity) (\<lambda>product.
     mbind (mfor (List.enumerate 0 lhs) (schoolbook_row M rhs) product) (\<lambda>product.
     metered_trim_owned_digits M product))"

definition add_shifted_step ::
  "'m meter \<Rightarrow> nat \<Rightarrow> nat \<times> u32 \<Rightarrow> u32 list \<times> u64 \<Rightarrow> ('m, mul_error, u32 list \<times> u64) metered"
  where
  "add_shifted_step M offset = (\<lambda>(source_index, source_digit) (target, carry).
     mbind (ktick M) (\<lambda>_.
     mbind (ok_or SizeOverflow (checked_add_usize offset source_index)) (\<lambda>index.
       if index < length target
       then let sum = widen (target ! index) + widen source_digit + carry
            in mret (target[index := low_digit sum], high_part sum)
       else mfail InvariantViolation)))"

definition metered_add_shifted_digits ::
  "'m meter \<Rightarrow> u32 list \<Rightarrow> u32 list \<Rightarrow> nat \<Rightarrow> ('m, mul_error, u32 list) metered" where
  "metered_add_shifted_digits M target source offset =
     mbind (mfor (List.enumerate 0 source) (add_shifted_step M offset) (target, 0))
       (\<lambda>(target, carry).
         mbind (ok_or SizeOverflow (checked_add_usize offset (length source))) (\<lambda>index.
         propagate_carry M target index carry))"

definition checked_product_capacity :: "nat \<Rightarrow> nat \<Rightarrow> ('m, mul_error, nat) metered" where
  "checked_product_capacity lhs_digits rhs_digits =
     ok_or SizeOverflow (checked_add_usize lhs_digits rhs_digits)"

definition metered_split_slices ::
  "'m meter \<Rightarrow> u32 list \<Rightarrow> nat \<Rightarrow> ('m, mul_error, u32 list \<times> u32 list) metered" where
  "metered_split_slices M digits split_digits =
     (let midpoint = min split_digits (length digits)
      in mbind (metered_trimmed_slice M (take midpoint digits)) (\<lambda>low.
         mbind (metered_trimmed_slice M (drop midpoint digits)) (\<lambda>high.
         mret (low, high))))"


section \<open>What the kernels deliver\<close>

text \<open>
  The kernels are verified against any meter and any allocator. \<open>F\<close> is the set of errors that may
  come out: the meter's refusals, \<open>AllocationFailure\<close> unless the allocator always answers yes, and
  \<open>SizeOverflow\<close> unless the buffers are far below the size of the address space (\<open>size_ok\<close>).
  \<open>InvariantViolation\<close> need not be in \<open>F\<close>: that none of the kernels' internal checks fires on
  well-formed input is part of what is proved.
\<close>

definition size_ok :: "mul_error set \<Rightarrow> nat \<Rightarrow> bool" where
  "size_ok F n \<longleftrightarrow> n < 2 ^ 60 \<or> SizeOverflow \<in> F"

lemma size_ok_le: "size_ok F n \<Longrightarrow> k \<le> n \<Longrightarrow> size_ok F k"
  by (auto simp: size_ok_def)

locale kernel_meter = budget_meter M E R
  for M :: "'m meter" and E :: "meter_error set" and R :: "'m \<Rightarrow> 'm \<Rightarrow> bool" +
  fixes A :: "'m \<Rightarrow> nat \<Rightarrow> bool" and F :: "mul_error set"
  assumes meter_errors: "e \<in> E \<Longrightarrow> Meter e \<in> F"
    and reserve: "A m n \<or> AllocationFailure \<in> F"
begin

lemma lifted: "meets E R P c \<Longrightarrow> meets F R P (mlift Meter c)"
  by (erule meets_lift) (rule meter_errors)

lemma ktick: "meets F R (\<lambda>_. True) (ktick M)"
  unfolding ktick_def by (rule lifted [OF tick])

lemma after_ktick: "meets F R P c \<Longrightarrow> meets F R P (mbind (ktick M) (\<lambda>_. c))"
  by (rule bind [OF ktick])

lemma checked_add: "size_ok F (a + b) \<Longrightarrow>
    meets F R (\<lambda>r. r = a + b) (ok_or SizeOverflow (checked_add_usize a b))"
  by (rule meets_ok_or [OF composes]) (auto simp: size_ok_def)

lemma charge_capacity:
  assumes "size_ok F n"
  shows "meets F R (\<lambda>_. True) (charge_vec_capacities M [n])"
proof (cases "n = 0")
  case True
  then show ?thesis by (simp add: charge_vec_capacities_def)
next
  case False
  show ?thesis
  proof (cases "n < usize_modulus")
    case small: True
    have one: "checked_add64 0 1 = Some 1" by (simp add: checked_add64_def)
    have sum: "sum_capacities [n] 0 0 = Inr (n, 1)"
      using False small one by (simp add: checked_add_usize_def)
    have un: "unat (of_nat n :: u64) = n" using small by (simp add: unat_of_nat)
    have "meets F R (\<lambda>_. True)
        (mbind (ok_or SizeOverflow (u64_try_from n)) (\<lambda>elements.
         mbind (ok_or SizeOverflow (checked_mul64 elements 4)) (\<lambda>memory_bytes.
         mbind (mlift Meter (checkpoint M)) (\<lambda>_.
         mlift Meter (charge_batch M [(MemoryBytes, memory_bytes), (AllocationCount, 1)])))))"
    proof (rule bind)
      show "meets F R (\<lambda>e. e = of_nat n) (ok_or SizeOverflow (u64_try_from n))"
        using small by (intro meets_ok_or composes) (auto simp: u64_try_from_def)
      fix e :: u64 assume e: "e = of_nat n"
      show "meets F R (\<lambda>_. True) (mbind (ok_or SizeOverflow (checked_mul64 e 4)) (\<lambda>memory_bytes.
          mbind (mlift Meter (checkpoint M)) (\<lambda>_.
          mlift Meter (charge_batch M [(MemoryBytes, memory_bytes), (AllocationCount, 1)]))))"
      proof (rule bind)
        show "meets F R (\<lambda>_. True) (ok_or SizeOverflow (checked_mul64 e 4))"
          using assms un by (intro meets_ok_or composes)
            (auto simp: e checked_mul64_def size_ok_def split: if_splits)
        fix memory_bytes
        show "meets F R (\<lambda>_. True) (mbind (mlift Meter (checkpoint M)) (\<lambda>_.
          mlift Meter (charge_batch M [(MemoryBytes, memory_bytes), (AllocationCount, 1)])))"
          by (rule bind [OF lifted [OF checkpoint]]) (rule lifted [OF charge_batch])
      qed
    qed
    then show ?thesis using sum by (simp add: charge_vec_capacities_def)
  next
    case big: False
    then have "sum_capacities [n] 0 0 = Inl SizeOverflow" using False
      by (simp add: checked_add_usize_def)
    moreover have "SizeOverflow \<in> F" using assms big by (auto simp: size_ok_def)
    ultimately show ?thesis by (simp add: charge_vec_capacities_def fail)
  qed
qed

lemma try_vec: "meets F R (\<lambda>r. r = []) (try_u32_vec A n)"
proof (rule meetsI)
  fix m r m'
  assume "try_u32_vec A n m = (r, m')"
  then show "R m m' \<and> result_in F (\<lambda>r. r = []) r"
    using reserve [of m n] composes by (auto simp: try_u32_vec_def composes_def split: if_splits)
qed

text \<open>Charging and reserving a buffer, as every allocating kernel begins.\<close>

lemma buffer:
  assumes "size_ok F n" and "meets F R P (f [])"
  shows "meets F R P (mbind (charge_vec_capacities M [n]) (\<lambda>_. mbind (try_u32_vec A n) f))"
  by (rule bind [OF charge_capacity [OF assms(1)]], rule bind [OF try_vec]) (use assms(2) in simp)

lemma copy_digit_slice:
  assumes "size_ok F (length ds)"
  shows "meets F R (\<lambda>r. r = ds) (metered_copy_digit_slice M A ds)"
  unfolding metered_copy_digit_slice_def
proof (rule buffer [OF assms])
  have "meets F R (\<lambda>r. r = take (length ds) ds)
      (mfor ds (\<lambda>digit output. mbind (ktick M) (\<lambda>_. mret (output @ [digit]))) [])"
    by (rule loop [where I = "\<lambda>k r. r = take k ds"]) (auto intro!: after_ktick simp: take_Suc_conv_app_nth)
  then show "meets F R (\<lambda>r. r = ds)
      (mfor ds (\<lambda>digit output. mbind (ktick M) (\<lambda>_. mret (output @ [digit]))) [])" by simp
qed

lemma zeroed_digits:
  assumes "size_ok F n"
  shows "meets F R (\<lambda>r. r = replicate n 0) (metered_zeroed_digits M A n)"
  unfolding metered_zeroed_digits_def
proof (rule buffer [OF assms])
  have "meets F R (\<lambda>r. r = replicate (length [0..<n]) 0)
      (mfor [0..<n] (\<lambda>_ digits. mbind (ktick M) (\<lambda>_. mret (digits @ [0]))) [])"
    by (rule loop [where I = "\<lambda>k r. r = replicate k 0"])
      (auto intro!: after_ktick simp: replicate_append_same)
  then show "meets F R (\<lambda>r. r = replicate n 0)
      (mfor [0..<n] (\<lambda>_ digits. mbind (ktick M) (\<lambda>_. mret (digits @ [0]))) [])" by simp
qed

end

text \<open>The canonical form of a buffer.\<close>

definition trimmed :: "u32 list \<Rightarrow> u32 list \<Rightarrow> bool" where
  "trimmed ds r \<longleftrightarrow> canonical r \<and> dval r = dval ds \<and> length r \<le> length ds"

lemma trimmed_butlast:
  "ds \<noteq> [] \<Longrightarrow> last ds = 0 \<Longrightarrow> trimmed (butlast ds) r \<Longrightarrow> trimmed ds r"
  by (erule butlast_last_cases) (auto simp: trimmed_def dval_simps)

context kernel_meter
begin

lemma trimmed_slice: "meets F R (trimmed ds) (metered_trimmed_slice M ds)"
proof (induction ds rule: length_induct)
  case (1 ds)
  show ?case
  proof (cases "ds = [] \<or> last ds \<noteq> 0")
    case True
    then show ?thesis
      by (subst metered_trimmed_slice.simps) (auto simp: trimmed_def canonical_def intro!: after_ktick)
  next
    case False
    then have "meets F R (trimmed (butlast ds)) (metered_trimmed_slice M (butlast ds))" using 1 by simp
    then have "meets F R (trimmed ds) (metered_trimmed_slice M (butlast ds))"
      using False by (auto elim: meets_post intro: trimmed_butlast)
    then show ?thesis
      using False by (subst metered_trimmed_slice.simps) (simp add: after_ktick)
  qed
qed

lemma trim_owned: "meets F R (trimmed ds) (metered_trim_owned_digits M ds)"
proof (induction ds rule: length_induct)
  case (1 ds)
  show ?case
  proof (cases "ds = [] \<or> last ds \<noteq> 0")
    case True
    then show ?thesis
      by (subst metered_trim_owned_digits.simps) (auto simp: trimmed_def canonical_def intro!: after_ktick)
  next
    case False
    then have "meets F R (trimmed (butlast ds)) (metered_trim_owned_digits M (butlast ds))" using 1 by simp
    then have "meets F R (trimmed ds) (metered_trim_owned_digits M (butlast ds))"
      using False by (auto elim: meets_post intro: trimmed_butlast)
    then show ?thesis
      using False by (subst metered_trim_owned_digits.simps) (simp add: after_ktick)
  qed
qed


lemma compare_top:
  "length xs = length ys \<Longrightarrow>
   meets F R (\<lambda>r. r = compare (dval (rev xs)) (dval (rev ys))) (compare_from_top M (zip xs ys))"
proof (induction xs ys rule: list_induct2)
  case Nil
  then show ?case by (simp add: compare_def)
next
  case (Cons x xs y ys)
  then show ?case
    by (auto simp: compare_snoc intro!: after_ktick split: ordering.splits)
qed

lemma compare_slices:
  assumes "canonical xs" and "canonical ys"
  shows "meets F R (\<lambda>r. r = compare (dval xs) (dval ys)) (metered_compare_digit_slices M xs ys)"
proof (cases "length xs = length ys")
  case True
  then show ?thesis using compare_top [of "rev xs" "rev ys"]
    by (simp add: metered_compare_digit_slices_def compare_def)
next
  case False
  then show ?thesis using compare_length_canonical [OF assms False]
    by (cases rule: linorder_cases [of "length xs" "length ys"])
      (simp_all add: metered_compare_digit_slices_def)
qed

text \<open>The loop of an addition, before iteration \<open>k\<close>.\<close>

lemma add_loop:
  "meets F R (\<lambda>(out, carry). length out = n \<and> unat carry < radix \<and>
       dval out + radix ^ n * unat carry = dval (take n lhs) + dval (take n rhs))
     (mfor [0..<n] (add_digit_step M lhs rhs) ([], 0))"
proof -
  have "meets F R (\<lambda>(out, carry). length out = length [0..<n] \<and> unat carry < radix \<and>
       dval out + radix ^ length [0..<n] * unat carry
         = dval (take (length [0..<n]) lhs) + dval (take (length [0..<n]) rhs))
     (mfor [0..<n] (add_digit_step M lhs rhs) ([], 0))"
  proof (rule loop [where I = "\<lambda>k (out, carry). length out = k \<and> unat carry < radix \<and>
        dval out + radix ^ k * unat carry = dval (take k lhs) + dval (take k rhs)"])
    fix k and t :: "u32 list \<times> u64"
    assume k: "k < length [0..<n]"
      and inv: "case t of (out, carry) \<Rightarrow> length out = k \<and> unat carry < radix \<and>
        dval out + radix ^ k * unat carry = dval (take k lhs) + dval (take k rhs)"
    obtain out carry where t: "t = (out, carry)" by (cases t)
    define v where "v = widen (get_or 0 lhs k) + widen (get_or 0 rhs k) + carry"
    have v: "unat v = unat (get_or 0 lhs k) + unat (get_or 0 rhs k) + unat carry"
      using inv t by (simp add: v_def unat_add3_carry)
    have "dval (out @ [low_digit v]) + radix ^ Suc k * unat (high_part v)
        = dval (take (Suc k) lhs) + dval (take (Suc k) rhs)"
      using dval_emit [of out v] inv t by (simp add: v dval_take_Suc algebra_simps)
    then show "meets F R (\<lambda>(out, carry). length out = Suc k \<and> unat carry < radix \<and>
        dval out + radix ^ Suc k * unat carry = dval (take (Suc k) lhs) + dval (take (Suc k) rhs))
       (add_digit_step M lhs rhs ([0..<n] ! k) t)"
      using inv t k by (auto simp: add_digit_step_def v_def [symmetric] high_part_lt intro!: after_ktick)
  qed simp
  then show ?thesis by simp
qed

lemma add_slices:
  assumes "size_ok F (Suc (max (length lhs) (length rhs)))"
  shows "meets F R (\<lambda>r. dval r = dval lhs + dval rhs
      \<and> length r \<le> Suc (max (length lhs) (length rhs))
      \<and> (canonical lhs \<longrightarrow> canonical rhs \<longrightarrow> canonical r))
    (metered_add_digit_slices M A lhs rhs)"
proof (cases "lhs = [] \<and> rhs = []")
  case True
  then show ?thesis by (simp add: metered_add_digit_slices_def)
next
  case False
  let ?n = "max (length lhs) (length rhs)"
  let ?P = "\<lambda>r. dval r = dval lhs + dval rhs \<and> length r \<le> Suc ?n
      \<and> (canonical lhs \<longrightarrow> canonical rhs \<longrightarrow> canonical r)"
  have finish: "meets F R ?P (if carry \<noteq> 0
        then mbind (ktick M) (\<lambda>_. mret (out @ [low_digit carry])) else mret out)"
    if len: "length out = ?n" and c: "unat carry < radix"
      and sum: "dval out + radix ^ ?n * unat carry = dval lhs + dval rhs" for out carry
  proof (cases "carry = 0")
    case False
    then show ?thesis using sum len low_digit_of_carry [OF c]
      by (auto simp: dval_snoc intro!: after_ktick)
  next
    case True
    have "canonical out" if can: "canonical lhs" "canonical rhs"
    proof (rule canonical_of_ge)
      assume ne: "out \<noteq> []"
      have "radix ^ (?n - 1) \<le> dval lhs \<or> radix ^ (?n - 1) \<le> dval rhs"
      proof (cases "length lhs \<le> length rhs")
        case True
        then show ?thesis using canonical_ge [OF can(2)] False
          by (cases "rhs = []") (auto simp: max_def)
      next
        case f: False
        then show ?thesis using canonical_ge [OF can(1)]
          by (cases "lhs = []") (auto simp: max_def)
      qed
      then show "radix ^ (length out - 1) \<le> dval out" using sum True len by auto
    qed
    then show ?thesis using True sum len by (auto intro!: ret)
  qed
  show ?thesis
    unfolding metered_add_digit_slices_def if_not_P [OF False]
  proof (rule bind [OF checked_add])
    show "size_ok F (?n + 1)" using assms by simp
    fix cap assume cap: "cap = ?n + 1"
    show "meets F R ?P (mbind (charge_vec_capacities M [cap]) (\<lambda>_. mbind (try_u32_vec A cap) (\<lambda>output.
        mbind (mfor [0..<?n] (add_digit_step M lhs rhs) (output, 0)) (\<lambda>(output, carry).
          if carry \<noteq> 0 then mbind (ktick M) (\<lambda>_. mret (output @ [low_digit carry])) else mret output))))"
    proof (rule buffer)
      show "size_ok F cap" using assms cap by simp
      show "meets F R ?P (mbind (mfor [0..<?n] (add_digit_step M lhs rhs) ([], 0)) (\<lambda>(output, carry).
          if carry \<noteq> 0 then mbind (ktick M) (\<lambda>_. mret (output @ [low_digit carry])) else mret output))"
      proof (rule bind [OF add_loop [of ?n lhs rhs]], clarify)
        fix out :: "u32 list" and carry :: u64
        assume "length out = ?n" "unat carry < radix"
          "dval out + radix ^ ?n * unat carry = dval (take ?n lhs) + dval (take ?n rhs)"
        then show "meets F R ?P (if carry \<noteq> 0
            then mbind (ktick M) (\<lambda>_. mret (out @ [low_digit carry])) else mret out)"
          by (intro finish) simp_all
      qed
    qed
  qed
qed


text \<open>The loop of a subtraction, before iteration \<open>k\<close>.\<close>

lemma sub_loop:
  "meets F R (\<lambda>(out, borrow). length out = length lhs \<and> unat borrow \<le> 1 \<and>
       dval lhs + radix ^ length lhs * unat borrow = dval out + dval (take (length lhs) rhs))
     (mfor (List.enumerate 0 lhs) (sub_digit_step M rhs) ([], 0))"
proof -
  have "meets F R (\<lambda>(out, borrow). length out = length (List.enumerate 0 lhs) \<and> unat borrow \<le> 1 \<and>
       dval (take (length (List.enumerate 0 lhs)) lhs) + radix ^ length (List.enumerate 0 lhs) * unat borrow
         = dval out + dval (take (length (List.enumerate 0 lhs)) rhs))
     (mfor (List.enumerate 0 lhs) (sub_digit_step M rhs) ([], 0))"
  proof (rule loop [where I = "\<lambda>k (out, borrow). length out = k \<and> unat borrow \<le> 1 \<and>
        dval (take k lhs) + radix ^ k * unat borrow = dval out + dval (take k rhs)"])
    fix k and t :: "u32 list \<times> u64"
    assume "k < length (List.enumerate 0 lhs)"
      and inv: "case t of (out, borrow) \<Rightarrow> length out = k \<and> unat borrow \<le> 1 \<and>
        dval (take k lhs) + radix ^ k * unat borrow = dval out + dval (take k rhs)"
    then have k: "k < length lhs" by simp
    obtain out b where t: "t = (out, b)" by (cases t)
    have b: "unat b \<le> 1" and len: "length out = k"
      and eq: "dval (take k lhs) + radix ^ k * unat b = dval out + dval (take k rhs)"
      using inv t by simp_all
    have l: "get_or 0 lhs k = lhs ! k" using k by (simp add: get_or_def)
    have step: "dval (take (Suc k) lhs) + radix ^ Suc k * c
        = dval (out @ [x]) + dval (take (Suc k) rhs)"
      if x: "unat x + unat (get_or 0 rhs k) + unat b = unat (lhs ! k) + radix * c" for x c
    proof -
      have "radix ^ k * (unat x + unat (get_or 0 rhs k) + unat b) = radix ^ k * (unat (lhs ! k) + radix * c)"
        by (simp only: x)
      then show ?thesis using eq by (simp add: dval_snoc dval_take_Suc l len algebra_simps)
    qed
    show "meets F R (\<lambda>(out, borrow). length out = Suc k \<and> unat borrow \<le> 1 \<and>
        dval (take (Suc k) lhs) + radix ^ Suc k * unat borrow = dval out + dval (take (Suc k) rhs))
       (sub_digit_step M rhs (List.enumerate 0 lhs ! k) t)"
      using step [of _ 0] step [of _ 1] sub_digit_no_borrow [OF b] sub_digit_borrow [OF b] k len
      by (auto simp: sub_digit_step_def t nth_enumerate_eq Let_def intro!: after_ktick)
  qed simp
  then show ?thesis by simp
qed

lemma subtract_slices:
  assumes "canonical lhs" and "canonical rhs" and "dval rhs \<le> dval lhs" and "size_ok F (length lhs)"
  shows "meets F R (\<lambda>r. canonical r \<and> dval r = dval lhs - dval rhs \<and> length r \<le> length lhs)
    (metered_subtract_digit_slices M A lhs rhs)"
proof -
  let ?P = "\<lambda>r. canonical r \<and> dval r = dval lhs - dval rhs \<and> length r \<le> length lhs"
  have len: "length rhs \<le> length lhs"
    using dval_less_of_length [OF assms(2), of lhs] assms(3) by force
  have tail: "meets F R ?P (mbind (mfor (List.enumerate 0 lhs) (sub_digit_step M rhs) ([], 0))
      (\<lambda>(output, borrow). if borrow \<noteq> 0 then mfail InvariantViolation
         else metered_trim_owned_digits M output))"
  proof (rule bind [OF sub_loop [of lhs rhs]], clarify)
    fix out borrow
    assume out: "length out = length lhs" "unat borrow \<le> 1"
      "dval lhs + radix ^ length lhs * unat borrow = dval out + dval (take (length lhs) rhs)"
    have "unat borrow = 0"
    proof (rule ccontr)
      assume "unat borrow \<noteq> 0"
      then have "unat borrow = 1" using out(2) by simp
      then show False using out(1,3) dval_lt [of out] len assms(3) by simp
    qed
    then have "borrow = 0" by (simp add: unat_eq_zero)
    then show "meets F R ?P (if borrow \<noteq> 0 then mfail InvariantViolation
        else metered_trim_owned_digits M out)"
      using out len by (auto simp: trimmed_def intro: meets_post [OF trim_owned])
  qed
  show ?thesis
    unfolding metered_subtract_digit_slices_def
  proof (rule bind [OF compare_slices [OF assms(1,2)]], clarify)
    show "meets F R ?P (case compare (dval lhs) (dval rhs) of Less \<Rightarrow> mfail InvariantViolation
        | Equal \<Rightarrow> mret []
        | Greater \<Rightarrow> mbind (charge_vec_capacities M [length lhs]) (\<lambda>_.
           mbind (try_u32_vec A (length lhs)) (\<lambda>output.
           mbind (mfor (List.enumerate 0 lhs) (sub_digit_step M rhs) (output, 0)) (\<lambda>(output, borrow).
             if borrow \<noteq> 0 then mfail InvariantViolation
             else metered_trim_owned_digits M output))))"
      using assms(3) buffer [OF assms(4), of ?P "\<lambda>output. mbind (mfor (List.enumerate 0 lhs)
          (sub_digit_step M rhs) (output, 0)) (\<lambda>(output, borrow).
             if borrow \<noteq> 0 then mfail InvariantViolation
             else metered_trim_owned_digits M output)", OF tail]
      by (cases rule: linorder_cases [of "dval lhs" "dval rhs"]) simp_all
  qed
qed

lemma split_slices:
  "meets F R (\<lambda>(low, high). trimmed (take k ds) low \<and> trimmed (drop k ds) high)
     (metered_split_slices M ds k)"
  unfolding metered_split_slices_def Let_def
  by (rule bind [OF trimmed_slice], rule bind [OF trimmed_slice])
    (cases "k \<le> length ds"; simp add: min_def)


text \<open>Multiplying by a small factor.\<close>

lemma mul_small_loop:
  "meets F R (\<lambda>(out, carry). length out = length ds \<and> unat carry < radix \<and>
       dval out + radix ^ length ds * unat carry = dval ds * unat factor)
     (mfor ds (mul_small_step M factor) ([], 0))"
proof -
  have "meets F R (\<lambda>(out, carry). length out = length ds \<and> unat carry < radix \<and>
       dval out + radix ^ length ds * unat carry = dval (take (length ds) ds) * unat factor)
     (mfor ds (mul_small_step M factor) ([], 0))"
  proof (rule loop [where I = "\<lambda>k (out, carry). length out = k \<and> unat carry < radix \<and>
        dval out + radix ^ k * unat carry = dval (take k ds) * unat factor"])
    fix k and t :: "u32 list \<times> u64"
    assume k: "k < length ds"
      and inv: "case t of (out, carry) \<Rightarrow> length out = k \<and> unat carry < radix \<and>
        dval out + radix ^ k * unat carry = dval (take k ds) * unat factor"
    obtain out carry where t: "t = (out, carry)" by (cases t)
    define v where "v = widen (ds ! k) * widen factor + carry"
    have v: "unat v = unat (ds ! k) * unat factor + unat carry"
      using inv t by (simp add: v_def unat_mul_carry)
    have low: "u32_try_from (v AND 0xFFFFFFFF) = Some (low_digit v)"
      by (simp add: u32_try_from_def low_digit_and unat_and_low32)
    have g: "get_or 0 ds k = ds ! k" using k by (simp add: get_or_def)
    have "dval (out @ [low_digit v]) + radix ^ Suc k * unat (high_part v)
        = dval (take (Suc k) ds) * unat factor"
      using dval_emit [of out v] inv t by (simp add: v dval_take_Suc g algebra_simps)
    then show "meets F R (\<lambda>(out, carry). length out = Suc k \<and> unat carry < radix \<and>
        dval out + radix ^ Suc k * unat carry = dval (take (Suc k) ds) * unat factor)
       (mul_small_step M factor (ds ! k) t)"
      using inv t by (auto simp: mul_small_step_def v_def [symmetric] Let_def low ok_or_def high_part_lt
          intro!: after_ktick)
  qed simp
  then show ?thesis by simp
qed

lemma multiply_by_small:
  assumes "size_ok F (Suc (length ds))"
  shows "meets F R (\<lambda>r. dval r = dval ds * unat factor \<and> length r \<le> Suc (length ds)
      \<and> (canonical ds \<longrightarrow> canonical r))
    (metered_multiply_digit_slice_by_small M A ds factor)"
proof (cases "ds = [] \<or> factor = 0")
  case True
  then show ?thesis by (auto simp: metered_multiply_digit_slice_by_small_def)
next
  case False
  let ?P = "\<lambda>r. dval r = dval ds * unat factor \<and> length r \<le> Suc (length ds)
      \<and> (canonical ds \<longrightarrow> canonical r)"
  have finish: "meets F R ?P (if carry \<noteq> 0
        then mbind (ktick M) (\<lambda>_. mbind (ok_or InvariantViolation (u32_try_from carry)) (\<lambda>top.
             mret (out @ [top]))) else mret out)"
    if len: "length out = length ds" and c: "unat carry < radix"
      and eq: "dval out + radix ^ length ds * unat carry = dval ds * unat factor" for out carry
  proof (cases "carry = 0")
    case False
    have "u32_try_from carry = Some (low_digit carry)" using c by (simp add: u32_try_from_def)
    then show ?thesis using eq len False low_digit_of_carry [OF c]
      by (auto simp: dval_snoc ok_or_def intro!: after_ktick)
  next
    case True
    have f: "1 \<le> unat factor" using False by (simp add: unat_gt_0 Suc_leI)
    have "canonical out" if can: "canonical ds"
    proof (rule canonical_of_ge)
      have "radix ^ (length ds - 1) \<le> dval ds" using canonical_ge [OF can] False by simp
      also have "\<dots> \<le> dval ds * unat factor" using f by simp
      finally show "radix ^ (length out - 1) \<le> dval out" using eq True len by simp
    qed
    then show ?thesis using True eq len by simp
  qed
  show ?thesis
    unfolding metered_multiply_digit_slice_by_small_def if_not_P [OF False]
  proof (rule bind [OF checked_add])
    show "size_ok F (length ds + 1)" using assms by simp
    fix cap assume cap: "cap = length ds + 1"
    show "meets F R ?P (mbind (charge_vec_capacities M [cap]) (\<lambda>_. mbind (try_u32_vec A cap) (\<lambda>output.
        mbind (mfor ds (mul_small_step M factor) (output, 0)) (\<lambda>(output, carry).
          if carry \<noteq> 0 then mbind (ktick M) (\<lambda>_.
               mbind (ok_or InvariantViolation (u32_try_from carry)) (\<lambda>top. mret (output @ [top])))
          else mret output))))"
    proof (rule buffer)
      show "size_ok F cap" using assms cap by simp
      show "meets F R ?P (mbind (mfor ds (mul_small_step M factor) ([], 0)) (\<lambda>(output, carry).
          if carry \<noteq> 0 then mbind (ktick M) (\<lambda>_.
               mbind (ok_or InvariantViolation (u32_try_from carry)) (\<lambda>top. mret (output @ [top])))
          else mret output))"
      proof (rule bind [OF mul_small_loop], clarify)
        fix out :: "u32 list" and carry :: u64
        assume "length out = length ds" "unat carry < radix"
          "dval out + radix ^ length ds * unat carry = dval ds * unat factor"
        then show "meets F R ?P (if carry \<noteq> 0
            then mbind (ktick M) (\<lambda>_. mbind (ok_or InvariantViolation (u32_try_from carry)) (\<lambda>top.
                 mret (out @ [top]))) else mret out)"
          by (rule finish)
      qed
    qed
  qed
qed

text \<open>A carry that fits the buffer is absorbed before the buffer ends.\<close>

lemma propagate:
  assumes "dval ds + radix ^ i * unat c < radix ^ length ds" and "unat c < radix"
    and "size_ok F (Suc (length ds))"
  shows "meets F R (\<lambda>r. length r = length ds \<and> dval r = dval ds + radix ^ i * unat c)
    (propagate_carry M ds i c)"
  using assms
proof (induction "length ds - i" arbitrary: ds i c rule: less_induct)
  case less
  show ?case
  proof (cases "c = 0")
    case True
    then show ?thesis by (subst propagate_carry.simps) simp
  next
    case False
    then have c: "1 \<le> unat c" by (simp add: unat_gt_0 Suc_leI)
    have i: "i < length ds"
    proof (rule ccontr)
      assume "\<not> i < length ds"
      then have "radix ^ length ds \<le> radix ^ i" by (intro power_increasing) auto
      also have "\<dots> \<le> radix ^ i * unat c" using c by simp
      finally show False using less.prems(1) by simp
    qed
    define v where "v = widen (ds ! i) + c"
    have v: "unat v = unat (ds ! i) + unat c"
      using less.prems(2) by (simp add: v_def unat_add_carry)
    have acc: "dval (ds[i := low_digit v]) + radix ^ Suc i * unat (high_part v)
        = dval ds + radix ^ i * unat c"
      using dval_accumulate [OF i v] by simp
    have rec: "meets F R (\<lambda>r. length r = length ds \<and> dval r = dval ds + radix ^ i * unat c)
        (propagate_carry M (ds[i := low_digit v]) (Suc i) (high_part v))"
      using less.hyps [of "ds[i := low_digit v]" "Suc i" "high_part v"] less.prems(1,3) i
      by (simp only: length_list_update acc) (simp add: high_part_lt)
    have "size_ok F (i + Suc 0)" by (rule size_ok_le [OF less.prems(3)]) (use i in simp)
    then have add: "meets F R (\<lambda>r. r = i + Suc 0) (ok_or SizeOverflow (checked_add_usize i (Suc 0)))"
      by (rule checked_add)
    show ?thesis
      using False i by (subst propagate_carry.simps)
        (auto simp: v_def [symmetric] Let_def rec intro!: after_ktick bind [OF add])
  qed
qed


lemma mac_loop:
  assumes fit: "i + length rhs \<le> length p" and size: "size_ok F (length p)"
  shows "meets F R (\<lambda>(q, carry). length q = length p \<and> unat carry < radix \<and>
       dval q + radix ^ (i + length rhs) * unat carry = dval p + radix ^ i * (unat d * dval rhs))
     (mfor (List.enumerate 0 rhs) (mac_step M i d) (p, 0))"
proof -
  have "meets F R (\<lambda>(q, carry). length q = length p \<and> unat carry < radix \<and>
       dval q + radix ^ (i + length (List.enumerate 0 rhs)) * unat carry
         = dval p + radix ^ i * (unat d * dval (take (length (List.enumerate 0 rhs)) rhs)))
     (mfor (List.enumerate 0 rhs) (mac_step M i d) (p, 0))"
  proof (rule loop [where I = "\<lambda>k (q, carry). length q = length p \<and> unat carry < radix \<and>
       dval q + radix ^ (i + k) * unat carry = dval p + radix ^ i * (unat d * dval (take k rhs))"])
    fix k and t :: "u32 list \<times> u64"
    assume k: "k < length (List.enumerate 0 rhs)"
      and inv: "case t of (q, carry) \<Rightarrow> length q = length p \<and> unat carry < radix \<and>
       dval q + radix ^ (i + k) * unat carry = dval p + radix ^ i * (unat d * dval (take k rhs))"
    obtain q c where t: "t = (q, c)" by (cases t)
    have lt: "i + k < length q" and g: "get_or 0 rhs k = rhs ! k"
      using k fit inv t by (auto simp: get_or_def)
    have add: "meets F R (\<lambda>r. r = i + k) (ok_or SizeOverflow (checked_add_usize i k))"
      by (rule checked_add) (rule size_ok_le [OF size], use lt inv t in simp)
    define v where "v = widen (q ! (i + k)) + widen d * widen (rhs ! k) + c"
    have v: "unat v = unat (q ! (i + k)) + unat d * unat (rhs ! k) + unat c"
      using inv t by (simp add: v_def unat_mac)
    have "dval (q[i + k := low_digit v]) + radix ^ (i + Suc k) * unat (high_part v)
        = dval p + radix ^ i * (unat d * dval (take (Suc k) rhs))"
      using accumulate_step [OF lt _ v] inv t by (simp add: dval_take_Suc g algebra_simps)
    then show "meets F R (\<lambda>(q, carry). length q = length p \<and> unat carry < radix \<and>
       dval q + radix ^ (i + Suc k) * unat carry = dval p + radix ^ i * (unat d * dval (take (Suc k) rhs)))
       (mac_step M i d (List.enumerate 0 rhs ! k) t)"
      using inv t k lt by (auto simp: mac_step_def nth_enumerate_eq Let_def v_def [symmetric] high_part_lt
          intro!: after_ktick bind [OF add])
  qed simp
  then show ?thesis by simp
qed

lemma schoolbook_rows:
  assumes cap: "length p = length lhs + length rhs" and zero: "dval p = 0"
    and size: "size_ok F (Suc (length p))"
  shows "meets F R (\<lambda>q. length q = length p \<and> dval q = dval lhs * dval rhs)
     (mfor (List.enumerate 0 lhs) (schoolbook_row M rhs) p)"
proof -
  have "meets F R (\<lambda>q. length q = length p \<and>
       dval q = dval (take (length (List.enumerate 0 lhs)) lhs) * dval rhs)
     (mfor (List.enumerate 0 lhs) (schoolbook_row M rhs) p)"
  proof (rule loop [where I = "\<lambda>k q. length q = length p \<and> dval q = dval (take k lhs) * dval rhs"])
    fix k q
    assume "k < length (List.enumerate 0 lhs)"
      and inv: "length q = length p \<and> dval q = dval (take k lhs) * dval rhs"
    then have k: "k < length lhs" by simp
    have g: "get_or 0 lhs k = lhs ! k" using k by (simp add: get_or_def)
    have fit: "k + length rhs \<le> length q" using k inv cap by simp
    have size_q: "size_ok F (length q)" using size inv by (auto elim: size_ok_le)
    have bound: "dval (take (Suc k) lhs) * dval rhs < radix ^ length q"
    proof -
      have "dval (take (Suc k) lhs) * dval rhs < radix ^ Suc k * radix ^ length rhs"
        using dval_lt [of "take (Suc k) lhs"] dval_lt [of rhs] k by (intro mult_strict_mono) auto
      also have "\<dots> = radix ^ (Suc k + length rhs)" by (rule power_add [symmetric])
      also have "\<dots> \<le> radix ^ length q" using k inv cap by (intro power_increasing) auto
      finally show ?thesis .
    qed
    have row: "dval q + radix ^ k * (unat (lhs ! k) * dval rhs) = dval (take (Suc k) lhs) * dval rhs"
      using inv by (simp add: dval_take_Suc g algebra_simps)
    show "meets F R (\<lambda>q. length q = length p \<and> dval q = dval (take (Suc k) lhs) * dval rhs)
       (schoolbook_row M rhs (List.enumerate 0 lhs ! k) q)"
      unfolding schoolbook_row_def nth_enumerate_eq [OF k] prod.case add_0
    proof (rule bind [OF mac_loop [OF fit size_q]], clarify)
      fix r :: "u32 list" and carry :: u64
      assume r: "length r = length q" "unat carry < radix"
        "dval r + radix ^ (k + length rhs) * unat carry = dval q + radix ^ k * (unat (lhs ! k) * dval rhs)"
      have add: "meets F R (\<lambda>i. i = k + length rhs) (ok_or SizeOverflow (checked_add_usize k (length rhs)))"
        by (rule checked_add) (rule size_ok_le [OF size_q fit])
      show "meets F R (\<lambda>q. length q = length p \<and> dval q = dval (take (Suc k) lhs) * dval rhs)
         (mbind (ok_or SizeOverflow (checked_add_usize k (length rhs))) (\<lambda>index.
            propagate_carry M r index carry))"
      proof (rule bind [OF add], clarify)
        have "meets F R (\<lambda>s. length s = length r \<and> dval s = dval r + radix ^ (k + length rhs) * unat carry)
            (propagate_carry M r (k + length rhs) carry)"
          using r row bound size inv by (intro propagate) simp_all
        then show "meets F R (\<lambda>q. length q = length p \<and> dval q = dval (take (Suc k) lhs) * dval rhs)
            (propagate_carry M r (k + length rhs) carry)"
          by (rule meets_post) (use r row inv in auto)
      qed
    qed
  qed (use zero in simp)
  then show ?thesis by simp
qed

lemma schoolbook:
  assumes "size_ok F (Suc (length lhs + length rhs))"
  shows "meets F R (\<lambda>r. canonical r \<and> dval r = dval lhs * dval rhs
      \<and> length r \<le> length lhs + length rhs)
    (metered_schoolbook_digits M A lhs rhs (length lhs + length rhs))"
  unfolding metered_schoolbook_digits_def
proof (rule bind [OF zeroed_digits], goal_cases)
  case 1
  show ?case by (rule size_ok_le [OF assms]) simp
next
  case (2 p)
  then show ?case
    using schoolbook_rows [of p lhs rhs] assms
    by (intro bind [OF schoolbook_rows [of p lhs rhs]]) (auto simp: trimmed_def intro!: meets_post [OF trim_owned])
qed

lemma add_shifted_loop:
  assumes fit: "off + length src \<le> length p" and size: "size_ok F (length p)"
  shows "meets F R (\<lambda>(q, carry). length q = length p \<and> unat carry < radix \<and>
       dval q + radix ^ (off + length src) * unat carry = dval p + radix ^ off * dval src)
     (mfor (List.enumerate 0 src) (add_shifted_step M off) (p, 0))"
proof -
  have "meets F R (\<lambda>(q, carry). length q = length p \<and> unat carry < radix \<and>
       dval q + radix ^ (off + length (List.enumerate 0 src)) * unat carry
         = dval p + radix ^ off * dval (take (length (List.enumerate 0 src)) src))
     (mfor (List.enumerate 0 src) (add_shifted_step M off) (p, 0))"
  proof (rule loop [where I = "\<lambda>k (q, carry). length q = length p \<and> unat carry < radix \<and>
       dval q + radix ^ (off + k) * unat carry = dval p + radix ^ off * dval (take k src)"])
    fix k and t :: "u32 list \<times> u64"
    assume k: "k < length (List.enumerate 0 src)"
      and inv: "case t of (q, carry) \<Rightarrow> length q = length p \<and> unat carry < radix \<and>
       dval q + radix ^ (off + k) * unat carry = dval p + radix ^ off * dval (take k src)"
    obtain q c where t: "t = (q, c)" by (cases t)
    have lt: "off + k < length q" and g: "get_or 0 src k = src ! k"
      using k fit inv t by (auto simp: get_or_def)
    have add: "meets F R (\<lambda>r. r = off + k) (ok_or SizeOverflow (checked_add_usize off k))"
      by (rule checked_add) (rule size_ok_le [OF size], use lt inv t in simp)
    define v where "v = widen (q ! (off + k)) + widen (src ! k) + c"
    have v: "unat v = unat (q ! (off + k)) + unat (src ! k) + unat c"
      using inv t by (simp add: v_def unat_add3_carry)
    have "dval (q[off + k := low_digit v]) + radix ^ (off + Suc k) * unat (high_part v)
        = dval p + radix ^ off * dval (take (Suc k) src)"
      using accumulate_step [OF lt _ v] inv t by (simp add: dval_take_Suc g algebra_simps)
    then show "meets F R (\<lambda>(q, carry). length q = length p \<and> unat carry < radix \<and>
       dval q + radix ^ (off + Suc k) * unat carry = dval p + radix ^ off * dval (take (Suc k) src))
       (add_shifted_step M off (List.enumerate 0 src ! k) t)"
      using inv t k lt by (auto simp: add_shifted_step_def nth_enumerate_eq Let_def v_def [symmetric]
          high_part_lt intro!: after_ktick bind [OF add])
  qed simp
  then show ?thesis by simp
qed

lemma add_shifted:
  assumes fit: "off + length src \<le> length p" and size: "size_ok F (Suc (length p))"
    and bound: "dval p + radix ^ off * dval src < radix ^ length p"
  shows "meets F R (\<lambda>q. length q = length p \<and> dval q = dval p + radix ^ off * dval src)
    (metered_add_shifted_digits M p src off)"
  unfolding metered_add_shifted_digits_def
proof (rule bind [OF add_shifted_loop [OF fit]], goal_cases)
  case 1
  show ?case by (rule size_ok_le [OF size]) simp
next
  case (2 t)
  obtain r carry where t: "t = (r, carry)" by (cases t)
  with 2 have r: "length r = length p" "unat carry < radix"
    "dval r + radix ^ (off + length src) * unat carry = dval p + radix ^ off * dval src" by simp_all
  have "size_ok F (off + length src)" by (rule size_ok_le [OF size]) (use fit in simp)
  then have add: "meets F R (\<lambda>i. i = off + length src)
      (ok_or SizeOverflow (checked_add_usize off (length src)))"
    by (rule checked_add)
  have "meets F R (\<lambda>s. length s = length r \<and> dval s = dval r + radix ^ (off + length src) * unat carry)
      (propagate_carry M r (off + length src) carry)"
    using r bound size by (intro propagate) simp_all
  then have "meets F R (\<lambda>q. length q = length p \<and> dval q = dval p + radix ^ off * dval src)
      (propagate_carry M r (off + length src) carry)"
    by (rule meets_post) (use r in auto)
  then show ?case by (auto simp: t intro!: bind [OF add])
qed

end

text \<open>Every meter and allocator satisfy the contract that admits every error.\<close>

lemma any_kernel: "kernel_meter M UNIV (\<lambda>_ _. True) A UNIV"
  using any_meter by (auto simp: kernel_meter_def kernel_meter_axioms_def)

end
