(* ===== verification/Karatsuba_Lane.thy ===== *)
theory Karatsuba_Lane
  imports Digit_Kernels
begin

text \<open>
  The recursively metered Karatsuba kernel of \<open>crates/fsym-bigint/src/lib.rs\<close>:
  \<open>RecursiveMeter\<close>, \<open>metered_karatsuba_digits\<close> and \<open>metered_karatsuba_digits_entered\<close>.

  The recursion state is the caller's meter and the deepest level entered so far; a kernel that
  the code calls with \<open>recursion.meter\<close> is run by \<open>on_meter\<close> on the first of the two. The
  recursion terminates because the operands shrink, which is a fact about what the metered
  slicing and adding kernels return, so it is used through the congruence rule of \<open>mbind\<close>.
\<close>

section \<open>The recursion state\<close>

record 'm recursive_meter =
  rm_meter :: 'm
  rm_max_depth :: u64

definition on_meter :: "('m, 'e, 'a) metered \<Rightarrow> ('m recursive_meter, 'e, 'a) metered" where
  "on_meter c = (\<lambda>s. case c (rm_meter s) of (r, m') \<Rightarrow> (r, s\<lparr>rm_meter := m'\<rparr>))"

definition rm_enter :: "'m meter \<Rightarrow> nat \<Rightarrow> ('m recursive_meter, mul_error, unit) metered" where
  "rm_enter M depth =
     mbind (on_meter (mlift Meter (checkpoint M))) (\<lambda>_.
     mbind (ok_or SizeOverflow (u64_try_from depth)) (\<lambda>depth s.
       if depth > rm_max_depth s
       then
         let delta = depth - rm_max_depth s
         in mbind (on_meter (mlift Meter (charge_batch M
                [(ComputeSteps, 1), (DepthLimit, delta)])))
              (\<lambda>_ s. (Ok (), s\<lparr>rm_max_depth := depth\<rparr>)) s
       else on_meter (mlift Meter (charge M ComputeSteps 1)) s))"

abbreviation METERED_KARATSUBA_LEAF_DIGITS :: nat where
  "METERED_KARATSUBA_LEAF_DIGITS \<equiv> 4"

section \<open>The recursion\<close>

lemma on_meter_Ok: "(\<exists>s s'. on_meter c s = (Ok x, s')) \<Longrightarrow> \<exists>m m'. c m = (Ok x, m')"
proof -
  assume "\<exists>s s'. on_meter c s = (Ok x, s')"
  then obtain s s' where run: "on_meter c s = (Ok x, s')" by blast
  obtain r m' where "c (rm_meter s) = (r, m')" by (cases "c (rm_meter s)")
  with run have "c (rm_meter s) = (Ok x, m')" by (simp add: on_meter_def)
  then show ?thesis by blast
qed

lemma split_slices_lengths:
  assumes "\<exists>s s'. on_meter (metered_split_slices M ds k) s = (Ok (lo, hi), s')"
  shows "length lo \<le> k \<and> length hi \<le> length ds - k"
proof -
  obtain m m' where "metered_split_slices M ds k m = (Ok (lo, hi), m')"
    using on_meter_Ok [OF assms] by blast
  with kernel_meter.split_slices [OF any_kernel, THEN meetsD] show ?thesis
    by (fastforce simp: trimmed_def)
qed

lemma add_slices_length:
  assumes "\<exists>s s'. on_meter (metered_add_digit_slices M A xs ys) s = (Ok r, s')"
  shows "length r \<le> Suc (max (length xs) (length ys))"
proof -
  obtain m m' where run: "metered_add_digit_slices M A xs ys m = (Ok r, m')"
    using on_meter_Ok [OF assms] by blast
  have "size_ok UNIV n" for n by (simp add: size_ok_def)
  from meetsD [OF kernel_meter.add_slices [OF any_kernel this] run] show ?thesis by simp
qed

text \<open>Where the code recurses, twice the split width (and two carries) is below the operands.\<close>

lemma karatsuba_split_small:
  assumes "\<not> (max p q \<le> 4 \<or> min p q \<le> div_ceil (max p q) 2)"
  shows "2 * div_ceil (max p q) 2 + 2 < p + q" and "0 < div_ceil (max p q) 2"
    and "p - div_ceil (max p q) 2 \<le> div_ceil (max p q) 2"
    and "q - div_ceil (max p q) 2 \<le> div_ceil (max p q) 2"
    and "div_ceil (max p q) 2 < p" and "div_ceil (max p q) 2 < q"
proof -
  define k where "k = div_ceil (max p q) 2"
  have k: "max p q \<le> 2 * k" "2 * k \<le> max p q + 1" unfolding k_def div_ceil_def by linarith+
  have c: "4 < max p q" "k < min p q" using assms by (auto simp: k_def)
  have "max p q + min p q = p + q" by simp
  then show "2 * div_ceil (max p q) 2 + 2 < p + q" "0 < div_ceil (max p q) 2"
    "p - div_ceil (max p q) 2 \<le> div_ceil (max p q) 2"
    "q - div_ceil (max p q) 2 \<le> div_ceil (max p q) 2"
    "div_ceil (max p q) 2 < p" "div_ceil (max p q) 2 < q"
    using k c unfolding k_def [symmetric] by linarith+
qed

lemma karatsuba_shrinks:
  assumes k: "k = div_ceil (max (length a) (length b)) 2"
    and deep: "\<not> (max (length a) (length b) \<le> METERED_KARATSUBA_LEAF_DIGITS
        \<or> min (length a) (length b) \<le> k)"
    and a: "\<exists>s s'. on_meter (metered_split_slices M a k) s = (Ok (a0, a1), s')"
    and b: "\<exists>s s'. on_meter (metered_split_slices M b k) s = (Ok (b0, b1), s')"
  shows "length a0 + length b0 < length a + length b"
    and "length a1 + length b1 < length a + length b"
    and "\<exists>s s'. on_meter (metered_add_digit_slices M A a0 a1) s = (Ok sa, s') \<Longrightarrow>
      \<exists>s s'. on_meter (metered_add_digit_slices M A b0 b1) s = (Ok sb, s') \<Longrightarrow>
      length sa + length sb < length a + length b"
proof -
  note small = karatsuba_split_small [OF deep[unfolded k], folded k]
  have al: "length a0 \<le> k" "length a1 \<le> length a - k" using split_slices_lengths [OF a] by auto
  have bl: "length b0 \<le> k" "length b1 \<le> length b - k" using split_slices_lengths [OF b] by auto
  show "length a0 + length b0 < length a + length b" "length a1 + length b1 < length a + length b"
    using small(1,2,5,6) al bl by linarith+
  assume "\<exists>s s'. on_meter (metered_add_digit_slices M A a0 a1) s = (Ok sa, s')"
    and "\<exists>s s'. on_meter (metered_add_digit_slices M A b0 b1) s = (Ok sb, s')"
  then have "length sa \<le> Suc (max (length a0) (length a1))" "length sb \<le> Suc (max (length b0) (length b1))"
    using add_slices_length by blast+
  moreover have "max (length a0) (length a1) \<le> k" "max (length b0) (length b1) \<le> k"
    using small(3,4) al bl by simp_all
  ultimately show "length sa + length sb < length a + length b" using small(1) by linarith
qed

lemma ok_or_checked_add: "(\<exists>m m'. ok_or e (checked_add_usize a b) m = (Ok v, m')) \<Longrightarrow> v = a + b"
  by (drule ok_or_Ok) simp

function metered_karatsuba_digits ::
    "'m meter \<Rightarrow> ('m \<Rightarrow> nat \<Rightarrow> bool) \<Rightarrow> u32 list \<Rightarrow> u32 list \<Rightarrow> nat
      \<Rightarrow> ('m recursive_meter, mul_error, u32 list) metered"
  and metered_karatsuba_digits_entered ::
    "'m meter \<Rightarrow> ('m \<Rightarrow> nat \<Rightarrow> bool) \<Rightarrow> u32 list \<Rightarrow> u32 list \<Rightarrow> nat
      \<Rightarrow> ('m recursive_meter, mul_error, u32 list) metered" where
  "metered_karatsuba_digits M A a b depth =
     mbind (if depth \<noteq> 1 then rm_enter M depth else mret ()) (\<lambda>_.
     metered_karatsuba_digits_entered M A a b depth)"
| "metered_karatsuba_digits_entered M A a b depth =
     (if a = [] \<or> b = [] then mret []
      else
        mbind (checked_product_capacity (length a) (length b)) (\<lambda>output_capacity.
        let max_digits = max (length a) (length b);
            min_digits = min (length a) (length b);
            split_digits = div_ceil max_digits 2
        in if max_digits \<le> METERED_KARATSUBA_LEAF_DIGITS \<or> min_digits \<le> split_digits
           then on_meter (metered_schoolbook_digits M A a b output_capacity)
           else
             mbind (ok_or SizeOverflow (checked_mul_usize split_digits 2)) (\<lambda>z2_shift_digits.
             mbind (on_meter (metered_split_slices M a split_digits)) (\<lambda>(a0, a1).
             mbind (on_meter (metered_split_slices M b split_digits)) (\<lambda>(b0, b1).
             mbind (ok_or SizeOverflow (checked_add_usize depth 1)) (\<lambda>child_depth.
             mbind (metered_karatsuba_digits M A a0 b0 child_depth) (\<lambda>z0.
             mbind (metered_karatsuba_digits M A a1 b1 child_depth) (\<lambda>z2.
             mbind (on_meter (metered_add_digit_slices M A a0 a1)) (\<lambda>sum_a.
             mbind (on_meter (metered_add_digit_slices M A b0 b1)) (\<lambda>sum_b.
             mbind (metered_karatsuba_digits M A sum_a sum_b child_depth) (\<lambda>combined.
             mbind (on_meter (metered_subtract_digit_slices M A combined z0)) (\<lambda>without_z0.
             mbind (on_meter (metered_subtract_digit_slices M A without_z0 z2)) (\<lambda>z1.
             mbind (ok_or SizeOverflow (checked_add_usize split_digits (length z1))) (\<lambda>z1_end.
             mbind (ok_or SizeOverflow (checked_add_usize z2_shift_digits (length z2))) (\<lambda>z2_end.
               if length z0 > output_capacity \<or> z1_end > output_capacity \<or> z2_end > output_capacity
               then mfail InvariantViolation
               else
                 mbind (on_meter (metered_zeroed_digits M A output_capacity)) (\<lambda>output.
                 mbind (on_meter (metered_add_shifted_digits M output z0 0)) (\<lambda>output.
                 mbind (on_meter (metered_add_shifted_digits M output z1 split_digits)) (\<lambda>output.
                 mbind (on_meter (metered_add_shifted_digits M output z2 z2_shift_digits)) (\<lambda>output.
                 on_meter (metered_trim_owned_digits M output))))))))))))))))))))"
  by pat_completeness auto
termination
proof (relation "measure (\<lambda>x. case x of
      Inl (M, A, a, b, depth) \<Rightarrow> 2 * (length a + length b) + 1
    | Inr (M, A, a, b, depth) \<Rightarrow> 2 * (length a + length b))", goal_cases)
  case 1
  show ?case by simp
next
  case 2
  show ?case by simp
next
  case (3 M A a b depth x xa xb k xaa xab a0 a1 xad b0 b1 xaf)
  show ?case
    using karatsuba_shrinks(1) [of k a b M a0 a1 b0 b1] 3(3-6,8-11) by simp
next
  case (4 M A a b depth x xa xb k xaa xab a0 a1 xad b0 b1 xaf xag)
  show ?case
    using karatsuba_shrinks(2) [of k a b M a0 a1 b0 b1] 4(3-6,8-11) by simp
next
  case (5 M A a b depth x xa xb k xaa xab a0 a1 xad b0 b1 xaf xag xah sa sb)
  show ?case
    using karatsuba_shrinks(3) [of k a b M a0 a1 b0 b1 A sa sb] 5(3-6,8-11,15,16) by simp
qed

declare metered_karatsuba_digits.simps [simp del] metered_karatsuba_digits_entered.simps [simp del]


section \<open>Correctness\<close>

definition rm_rel :: "('m \<Rightarrow> 'm \<Rightarrow> bool) \<Rightarrow> 'm recursive_meter \<Rightarrow> 'm recursive_meter \<Rightarrow> bool" where
  "rm_rel R s s' \<longleftrightarrow> R (rm_meter s) (rm_meter s') \<and> rm_max_depth s \<le> rm_max_depth s'"

definition product_of :: "u32 list \<Rightarrow> u32 list \<Rightarrow> u32 list \<Rightarrow> bool" where
  "product_of a b r \<longleftrightarrow> canonical r \<and> dval r = dval a * dval b"

lemma product_of_length: "product_of a b r \<Longrightarrow> length r \<le> length a + length b"
  using dval_mult_lt [of a b] by (auto simp: product_of_def intro: canonical_length)

text \<open>Karatsuba's identity over the two halves, with the middle term as the code computes it.\<close>

lemma karatsuba_identity:
  fixes a0 a1 b0 b1 w :: nat
  shows "(a0 + a1) * (b0 + b1) - a0 * b0 - a1 * b1 = a0 * b1 + a1 * b0"
    and "(a0 + w * a1) * (b0 + w * b1) = a0 * b0 + w * (a0 * b1 + a1 * b0) + w * w * (a1 * b1)"
  by (simp_all add: algebra_simps)

context kernel_meter
begin

lemma rm_composes: "composes (rm_rel R)"
  unfolding composes_def rm_rel_def
  using composes by (auto simp: composes_def intro: order_trans)

lemma rbind: "meets F (rm_rel R) Q c \<Longrightarrow> (\<And>x. Q x \<Longrightarrow> meets F (rm_rel R) P (f x)) \<Longrightarrow>
    meets F (rm_rel R) P (mbind c f)"
  by (rule meets_bind [OF rm_composes])

lemma rret: "P x \<Longrightarrow> meets F (rm_rel R) P (mret x)"
  by (rule meets_ret [OF rm_composes])

lemma on_meter: "meets F R P c \<Longrightarrow> meets F (rm_rel R) P (on_meter c)"
  unfolding meets_def on_meter_def rm_rel_def by (auto split: prod.splits)

lemma rchecked_add: "size_ok F (a + b) \<Longrightarrow>
    meets F (rm_rel R) (\<lambda>r. r = a + b) (ok_or SizeOverflow (checked_add_usize a b))"
  by (rule meets_ok_or [OF rm_composes]) (auto simp: size_ok_def)

lemma rchecked_mul: "size_ok F (a * b) \<Longrightarrow>
    meets F (rm_rel R) (\<lambda>r. r = a * b) (ok_or SizeOverflow (checked_mul_usize a b))"
  by (rule meets_ok_or [OF rm_composes]) (auto simp: size_ok_def)

lemma enter:
  assumes "size_ok F depth"
  shows "meets F (rm_rel R) (\<lambda>_. True) (rm_enter M depth)"
  unfolding rm_enter_def
proof (rule rbind [OF on_meter [OF lifted [OF checkpoint]]], rule rbind)
  show "meets F (rm_rel R) (\<lambda>_. True) (ok_or SizeOverflow (u64_try_from depth))"
    using assms by (intro meets_ok_or rm_composes) (auto simp: u64_try_from_def size_ok_def split: if_splits)
  fix d :: u64
  show "meets F (rm_rel R) (\<lambda>_. True) (\<lambda>s. if d > rm_max_depth s
      then let delta = d - rm_max_depth s
        in mbind (on_meter (mlift Meter (charge_batch M [(ComputeSteps, 1), (DepthLimit, delta)])))
             (\<lambda>_ s. (Ok (), s\<lparr>rm_max_depth := d\<rparr>)) s
      else on_meter (mlift Meter (charge M ComputeSteps 1)) s)"
  proof (rule meetsI)
    fix s r s'
    assume run: "(if d > rm_max_depth s
      then let delta = d - rm_max_depth s
        in mbind (on_meter (mlift Meter (charge_batch M [(ComputeSteps, 1), (DepthLimit, delta)])))
             (\<lambda>_ s. (Ok (), s\<lparr>rm_max_depth := d\<rparr>)) s
      else on_meter (mlift Meter (charge M ComputeSteps 1)) s) = (r, s')"
    show "rm_rel R s s' \<and> result_in F (\<lambda>_. True) r"
    proof (cases "d > rm_max_depth s")
      case True
      let ?c = "on_meter (mlift Meter (charge_batch M [(ComputeSteps, 1), (DepthLimit, d - rm_max_depth s)]))"
      obtain r1 s1 where c: "?c s = (r1, s1)" by (cases "?c s")
      have 1: "rm_rel R s s1 \<and> result_in F (\<lambda>_. True) r1"
        by (rule meetsD [OF on_meter [OF lifted [OF charge_batch]] c])
      have "rm_max_depth s1 = rm_max_depth s" using c by (auto simp: on_meter_def split: prod.splits)
      then show ?thesis using run True c 1
        by (cases r1) (auto simp: mbind_def Let_def rm_rel_def)
    next
      case False
      then show ?thesis
        using run meetsD [OF on_meter [OF lifted [OF charge]]] by simp
    qed
  qed
qed

lemma recombine:
  assumes can: "canonical z0" "canonical z1" "canonical z2"
    and fit: "dval z0 + radix ^ k * dval z1 + radix ^ (2 * k) * dval z2 < radix ^ cap"
    and k: "2 * k \<le> cap" and size: "size_ok F (Suc cap)"
  shows "meets F (rm_rel R)
      (\<lambda>r. canonical r \<and> dval r = dval z0 + radix ^ k * dval z1 + radix ^ (2 * k) * dval z2)
    (mbind (ok_or SizeOverflow (checked_add_usize k (length z1))) (\<lambda>z1_end.
     mbind (ok_or SizeOverflow (checked_add_usize (k * 2) (length z2))) (\<lambda>z2_end.
       if length z0 > cap \<or> z1_end > cap \<or> z2_end > cap then mfail InvariantViolation
       else
         mbind (on_meter (metered_zeroed_digits M A cap)) (\<lambda>output.
         mbind (on_meter (metered_add_shifted_digits M output z0 0)) (\<lambda>output.
         mbind (on_meter (metered_add_shifted_digits M output z1 k)) (\<lambda>output.
         mbind (on_meter (metered_add_shifted_digits M output z2 (k * 2))) (\<lambda>output.
         on_meter (metered_trim_owned_digits M output))))))))"
proof -
  have l0: "length z0 \<le> cap" using can(1) fit by (intro canonical_length) auto
  have l1: "k + length z1 \<le> cap" using can(2) fit k by (intro canonical_fit) auto
  have l2: "2 * k + length z2 \<le> cap" using can(3) fit k by (intro canonical_fit) auto
  have s: "size_ok F n" if "n \<le> Suc cap" for n using size_ok_le [OF size that] .
  let ?P = "\<lambda>r. canonical r \<and> dval r = dval z0 + radix ^ k * dval z1 + radix ^ (2 * k) * dval z2"
  have chain: "meets F (rm_rel R) ?P
      (mbind (on_meter (metered_zeroed_digits M A cap)) (\<lambda>output.
       mbind (on_meter (metered_add_shifted_digits M output z0 0)) (\<lambda>output.
       mbind (on_meter (metered_add_shifted_digits M output z1 k)) (\<lambda>output.
       mbind (on_meter (metered_add_shifted_digits M output z2 (k * 2))) (\<lambda>output.
       on_meter (metered_trim_owned_digits M output))))))"
  proof (rule rbind [OF on_meter [OF zeroed_digits]])
    show "size_ok F cap" by (rule s) simp
    fix p assume p: "p = replicate cap (0 :: u32)"
    show "meets F (rm_rel R) ?P
       (mbind (on_meter (metered_add_shifted_digits M p z0 0)) (\<lambda>output.
        mbind (on_meter (metered_add_shifted_digits M output z1 k)) (\<lambda>output.
        mbind (on_meter (metered_add_shifted_digits M output z2 (k * 2))) (\<lambda>output.
        on_meter (metered_trim_owned_digits M output)))))"
    proof (rule rbind [OF on_meter [OF add_shifted]])
      fix q assume q: "length q = length p \<and> dval q = dval p + radix ^ 0 * dval z0"
      show "meets F (rm_rel R) ?P
         (mbind (on_meter (metered_add_shifted_digits M q z1 k)) (\<lambda>output.
          mbind (on_meter (metered_add_shifted_digits M output z2 (k * 2))) (\<lambda>output.
          on_meter (metered_trim_owned_digits M output))))"
      proof (rule rbind [OF on_meter [OF add_shifted]])
        fix t assume t: "length t = length q \<and> dval t = dval q + radix ^ k * dval z1"
        show "meets F (rm_rel R) ?P
           (mbind (on_meter (metered_add_shifted_digits M t z2 (k * 2))) (\<lambda>output.
            on_meter (metered_trim_owned_digits M output)))"
        proof (rule rbind [OF on_meter [OF add_shifted]])
          fix u assume u: "length u = length t \<and> dval u = dval t + radix ^ (k * 2) * dval z2"
          show "meets F (rm_rel R) ?P (on_meter (metered_trim_owned_digits M u))"
            by (rule on_meter, rule meets_post [OF trim_owned])
              (use u t q p in \<open>simp add: trimmed_def mult.commute [of k]\<close>)
        qed (use l2 s t q p fit in \<open>simp_all add: mult.commute [of k]\<close>)
      qed (use l1 s q p fit in simp_all)
    qed (use l0 s p fit in simp_all)
  qed
  have "size_ok F (k + length z1)" "size_ok F (k * 2 + length z2)"
    using l1 l2 by (intro s; simp)+
  then show ?thesis
    using chain l0 l1 l2 by (auto intro!: rbind [OF rchecked_add] simp: mult.commute [of k])
qed


text \<open>From the three products to the result: the middle term, then the recombination.\<close>

lemma karatsuba_tail:
  assumes z0: "product_of a0 b0 z0" and z2: "product_of a1 b1 z2"
    and c: "canonical c \<and> dval c = (dval a0 + dval a1) * (dval b0 + dval b1)"
    and va: "dval a = dval a0 + radix ^ k * dval a1" and vb: "dval b = dval b0 + radix ^ k * dval b1"
    and k: "2 * k \<le> length a + length b" and c_len: "length c \<le> length a + length b"
    and size: "size_ok F (Suc (length a + length b))"
  shows "meets F (rm_rel R) (product_of a b)
    (mbind (on_meter (metered_subtract_digit_slices M A c z0)) (\<lambda>without_z0.
     mbind (on_meter (metered_subtract_digit_slices M A without_z0 z2)) (\<lambda>z1.
     mbind (ok_or SizeOverflow (checked_add_usize k (length z1))) (\<lambda>z1_end.
     mbind (ok_or SizeOverflow (checked_add_usize (k * 2) (length z2))) (\<lambda>z2_end.
       if length z0 > length a + length b \<or> z1_end > length a + length b \<or> z2_end > length a + length b
       then mfail InvariantViolation
       else
         mbind (on_meter (metered_zeroed_digits M A (length a + length b))) (\<lambda>output.
         mbind (on_meter (metered_add_shifted_digits M output z0 0)) (\<lambda>output.
         mbind (on_meter (metered_add_shifted_digits M output z1 k)) (\<lambda>output.
         mbind (on_meter (metered_add_shifted_digits M output z2 (k * 2))) (\<lambda>output.
         on_meter (metered_trim_owned_digits M output))))))))))"
proof (rule rbind [OF on_meter [OF subtract_slices]])
  show "canonical c" "canonical z0" using c z0 by (simp_all add: product_of_def)
  show "dval z0 \<le> dval c" using c z0 by (simp add: product_of_def algebra_simps)
  show "size_ok F (length c)" using c_len by (intro size_ok_le [OF size]) simp
  fix w assume w: "canonical w \<and> dval w = dval c - dval z0 \<and> length w \<le> length c"
  show "meets F (rm_rel R) (product_of a b)
    (mbind (on_meter (metered_subtract_digit_slices M A w z2)) (\<lambda>z1.
     mbind (ok_or SizeOverflow (checked_add_usize k (length z1))) (\<lambda>z1_end.
     mbind (ok_or SizeOverflow (checked_add_usize (k * 2) (length z2))) (\<lambda>z2_end.
       if length z0 > length a + length b \<or> z1_end > length a + length b \<or> z2_end > length a + length b
       then mfail InvariantViolation
       else
         mbind (on_meter (metered_zeroed_digits M A (length a + length b))) (\<lambda>output.
         mbind (on_meter (metered_add_shifted_digits M output z0 0)) (\<lambda>output.
         mbind (on_meter (metered_add_shifted_digits M output z1 k)) (\<lambda>output.
         mbind (on_meter (metered_add_shifted_digits M output z2 (k * 2))) (\<lambda>output.
         on_meter (metered_trim_owned_digits M output)))))))))"
  proof (rule rbind [OF on_meter [OF subtract_slices]])
    show "canonical w" "canonical z2" using w z2 by (simp_all add: product_of_def)
    show "dval z2 \<le> dval w" using w c z0 z2 by (simp add: product_of_def algebra_simps)
    show "size_ok F (length w)" using w c_len by (intro size_ok_le [OF size]) simp
    fix z1 assume z1: "canonical z1 \<and> dval z1 = dval w - dval z2 \<and> length z1 \<le> length w"
    have mid: "dval z1 = dval a0 * dval b1 + dval a1 * dval b0"
      using z1 w c z0 z2 karatsuba_identity(1) [of "dval a0" "dval a1" "dval b0" "dval b1"]
      by (simp add: product_of_def)
    have total: "dval z0 + radix ^ k * dval z1 + radix ^ (2 * k) * dval z2 = dval a * dval b"
      using karatsuba_identity(2) [of "dval a0" "radix ^ k" "dval a1" "dval b0" "dval b1"] z0 z2
      by (simp add: va vb mid product_of_def mult_2 power_add)
    show "meets F (rm_rel R) (product_of a b)
      (mbind (ok_or SizeOverflow (checked_add_usize k (length z1))) (\<lambda>z1_end.
       mbind (ok_or SizeOverflow (checked_add_usize (k * 2) (length z2))) (\<lambda>z2_end.
         if length z0 > length a + length b \<or> z1_end > length a + length b \<or> z2_end > length a + length b
         then mfail InvariantViolation
         else
           mbind (on_meter (metered_zeroed_digits M A (length a + length b))) (\<lambda>output.
           mbind (on_meter (metered_add_shifted_digits M output z0 0)) (\<lambda>output.
           mbind (on_meter (metered_add_shifted_digits M output z1 k)) (\<lambda>output.
           mbind (on_meter (metered_add_shifted_digits M output z2 (k * 2))) (\<lambda>output.
           on_meter (metered_trim_owned_digits M output))))))))"
    proof (rule meets_post [OF recombine])
      show "canonical z0" "canonical z1" "canonical z2" using z0 z1 z2 by (simp_all add: product_of_def)
      show "dval z0 + radix ^ k * dval z1 + radix ^ (2 * k) * dval z2 < radix ^ (length a + length b)"
        unfolding total by (rule dval_mult_lt)
      fix r assume "canonical r \<and> dval r = dval z0 + radix ^ k * dval z1 + radix ^ (2 * k) * dval z2"
      then show "product_of a b r" by (simp add: total product_of_def)
    qed (use k size in simp_all)
  qed
qed

text \<open>The recursive case, given that the three recursive products are right.\<close>

lemma karatsuba_deep:
  assumes a: "canonical a" and b: "canonical b"
    and deep: "\<not> (max (length a) (length b) \<le> METERED_KARATSUBA_LEAF_DIGITS
        \<or> min (length a) (length b) \<le> div_ceil (max (length a) (length b)) 2)"
    and size: "\<And>n. n \<le> depth + 4 * (length a + length b) \<Longrightarrow> size_ok F n"
    and rec: "\<And>x y. canonical x \<Longrightarrow> canonical y \<Longrightarrow> length x + length y < length a + length b \<Longrightarrow>
      meets F (rm_rel R) (product_of x y) (metered_karatsuba_digits M A x y (depth + 1))"
  shows "meets F (rm_rel R) (product_of a b) (metered_karatsuba_digits_entered M A a b depth)"
proof -
  define k where "k = div_ceil (max (length a) (length b)) 2"
  note small = karatsuba_split_small [OF deep, folded k_def]
  have ne: "\<not> (a = [] \<or> b = [])" using small by auto
  have cap: "meets F (rm_rel R) (\<lambda>r. r = length a + length b)
      (checked_product_capacity (length a) (length b))"
    unfolding checked_product_capacity_def by (rule rchecked_add) (rule size, simp)
  have mul: "meets F (rm_rel R) (\<lambda>r. r = k * 2) (ok_or SizeOverflow (checked_mul_usize k 2))"
  proof (rule rchecked_mul, rule size)
    show "k * 2 \<le> depth + 4 * (length a + length b)" using small(1) by simp
  qed
  have dep: "meets F (rm_rel R) (\<lambda>r. r = depth + 1) (ok_or SizeOverflow (checked_add_usize depth 1))"
  proof (rule rchecked_add, rule size)
    show "depth + 1 \<le> depth + 4 * (length a + length b)" using small(1) by simp
  qed
  show ?thesis
    apply (subst metered_karatsuba_digits_entered.simps)
    apply (simp only: if_not_P [OF ne])
    apply (rule rbind [OF cap])
    apply (simp only: Let_def k_def [symmetric] if_not_P [OF deep [folded k_def]])
    apply (rule rbind [OF mul], rule rbind [OF on_meter [OF split_slices]], clarify)
    apply (rule rbind [OF on_meter [OF split_slices]], clarify)
    apply (rule rbind [OF dep], hypsubst)
    subgoal for p q a0 a1 b0 b1
    proof -
      assume "trimmed (take k a) a0" "trimmed (drop k a) a1" "trimmed (take k b) b0" "trimmed (drop k b) b1"
      then have can: "canonical a0" "canonical a1" "canonical b0" "canonical b1"
        and len: "length a0 \<le> k" "length a1 \<le> length a - k" "length b0 \<le> k" "length b1 \<le> length b - k"
        and val: "dval a0 = dval (take k a)" "dval a1 = dval (drop k a)"
          "dval b0 = dval (take k b)" "dval b1 = dval (drop k b)"
        by (auto simp: trimmed_def)
      have va: "dval a = dval a0 + radix ^ k * dval a1" and vb: "dval b = dval b0 + radix ^ k * dval b1"
        using dval_take_drop [of a k] dval_take_drop [of b k] small(5,6) by (simp_all add: val min_def)
      have lens: "length a0 + length b0 < length a + length b" "length a1 + length b1 < length a + length b"
        using len small(1,2,5,6) by linarith+
      have sizes: "size_ok F (Suc (max (length a0) (length a1)))" "size_ok F (Suc (max (length b0) (length b1)))"
        using len small by (intro size; simp)+
      show ?thesis
        apply (rule rbind [OF rec [OF can(1) can(3) lens(1)]])
        apply (rule rbind [OF rec [OF can(2) can(4) lens(2)]])
        apply (rule rbind [OF on_meter [OF add_slices [OF sizes(1)]]])
        apply (rule rbind [OF on_meter [OF add_slices [OF sizes(2)]]])
        subgoal for z0 z2 sa sb
        proof -
          assume z0: "product_of a0 b0 z0" and z2: "product_of a1 b1 z2"
            and sa: "dval sa = dval a0 + dval a1 \<and> length sa \<le> Suc (max (length a0) (length a1))
              \<and> (canonical a0 \<longrightarrow> canonical a1 \<longrightarrow> canonical sa)"
            and sb: "dval sb = dval b0 + dval b1 \<and> length sb \<le> Suc (max (length b0) (length b1))
              \<and> (canonical b0 \<longrightarrow> canonical b1 \<longrightarrow> canonical sb)"
          have "max (length a0) (length a1) \<le> k" "max (length b0) (length b1) \<le> k"
            using len small(3,4) by simp_all
          then have ls: "length sa + length sb < length a + length b" using sa sb small(1) by linarith
          have cs: "canonical sa" "canonical sb" using sa sb can by simp_all
          show ?thesis
            apply (rule rbind [OF rec [OF cs ls]])
            apply (rule karatsuba_tail [OF z0 z2 _ va vb])
            subgoal for c using sa sb by (simp add: product_of_def)
            subgoal using small(1) by simp
            subgoal for c using product_of_length [of sa sb c] ls by simp
            subgoal using small(1) by (intro size) simp
            done
        qed
        done
    qed
    done
qed

lemma karatsuba_entered:
  assumes "canonical a" and "canonical b" and "size_ok F (depth + 4 * (length a + length b))"
  shows "meets F (rm_rel R) (product_of a b) (metered_karatsuba_digits_entered M A a b depth)"
  using assms
proof (induction "length a + length b" arbitrary: a b depth rule: less_induct)
  case less
  have size: "size_ok F n" if "n \<le> depth + 4 * (length a + length b)" for n
    using less.prems(3) that by (rule size_ok_le)
  have rec: "meets F (rm_rel R) (product_of x y) (metered_karatsuba_digits M A x y (depth + 1))"
    if can: "canonical x" "canonical y" and lt: "length x + length y < length a + length b" for x y
  proof -
    have sz: "size_ok F (depth + 1 + 4 * (length x + length y))" by (rule size) (use lt in simp)
    have "meets F (rm_rel R) (\<lambda>_. True) (if depth + 1 \<noteq> 1 then rm_enter M (depth + 1) else mret ())"
      using enter [OF size_ok_le [OF sz], of "depth + 1"] by (simp add: rret)
    then show ?thesis
      by (subst metered_karatsuba_digits.simps) (erule rbind, rule less.hyps [OF lt can sz])
  qed
  show ?case
  proof (cases "a = [] \<or> b = []")
    case True
    then show ?thesis
      by (subst metered_karatsuba_digits_entered.simps) (auto simp: product_of_def intro!: rret)
  next
    case ne: False
    show ?thesis
    proof (cases "max (length a) (length b) \<le> METERED_KARATSUBA_LEAF_DIGITS
        \<or> min (length a) (length b) \<le> div_ceil (max (length a) (length b)) 2")
      case True
      have cap: "meets F (rm_rel R) (\<lambda>r. r = length a + length b)
          (checked_product_capacity (length a) (length b))"
        unfolding checked_product_capacity_def by (rule rchecked_add) (rule size, simp)
      have "1 \<le> length a" using ne by (simp add: Suc_leI)
      then have "size_ok F (Suc (length a + length b))" by (intro size) simp
      then have "meets F (rm_rel R) (product_of a b)
          (on_meter (metered_schoolbook_digits M A a b (length a + length b)))"
        by (intro on_meter meets_post [OF schoolbook]) (auto simp: product_of_def)
      then show ?thesis
        using True ne by (subst metered_karatsuba_digits_entered.simps)
          (auto simp: Let_def intro!: rbind [OF cap])
    next
      case deep: False
      show ?thesis by (rule karatsuba_deep [OF less.prems(1,2) deep size rec])
    qed
  qed
qed

lemma karatsuba:
  assumes "canonical a" and "canonical b" and "size_ok F (depth + 4 * (length a + length b))"
  shows "meets F (rm_rel R) (product_of a b) (metered_karatsuba_digits M A a b depth)"
proof -
  have "meets F (rm_rel R) (\<lambda>_. True) (if depth \<noteq> 1 then rm_enter M depth else mret ())"
    using enter [OF size_ok_le [OF assms(3)], of depth] by (simp add: rret)
  then show ?thesis
    by (subst metered_karatsuba_digits.simps) (erule rbind, rule karatsuba_entered [OF assms])
qed

end

end
