(* ===== verification/Toom3_Lane.thy ===== *)
theory Toom3_Lane
  imports Karatsuba_Lane
begin

unbundle bit_operations_syntax

text \<open>
  The recursively metered Toom-3 kernel of \<open>crates/fsym-bigint/src/lib.rs\<close>: signed digit buffers,
  evaluation of the three chunks at \<open>1\<close>, \<open>-1\<close> and \<open>2\<close>, interpolation of the five coefficients with
  exact divisions by 2 and 3, recombination, and the mutual recursion \<open>metered_toom3_digits\<close> /
  \<open>metered_toom3_signed_product\<close>, which hands small operands to Karatsuba.
\<close>

section \<open>Signed digit buffers\<close>

record signed_digits =
  sd_negative :: bool
  sd_digits :: "u32 list"

definition signed_digits_new :: "bool \<Rightarrow> u32 list \<Rightarrow> signed_digits" where
  "signed_digits_new negative digits =
     \<lparr>sd_negative = (negative \<and> digits \<noteq> []), sd_digits = digits\<rparr>"

definition metered_signed_add_parts ::
  "'m meter \<Rightarrow> ('m \<Rightarrow> nat \<Rightarrow> bool) \<Rightarrow> bool \<Rightarrow> u32 list \<Rightarrow> bool \<Rightarrow> u32 list
    \<Rightarrow> ('m, mul_error, signed_digits) metered" where
  "metered_signed_add_parts M A lhs_negative lhs rhs_negative rhs =
     (if lhs = [] then
        mbind (metered_copy_digit_slice M A rhs) (\<lambda>digits. mret (signed_digits_new rhs_negative digits))
      else if rhs = [] then
        mbind (metered_copy_digit_slice M A lhs) (\<lambda>digits. mret (signed_digits_new lhs_negative digits))
      else if lhs_negative = rhs_negative then
        mbind (metered_add_digit_slices M A lhs rhs) (\<lambda>digits. mret (signed_digits_new lhs_negative digits))
      else
        mbind (metered_compare_digit_slices M lhs rhs) (\<lambda>cmp.
          case cmp of
            Less \<Rightarrow> mbind (metered_subtract_digit_slices M A rhs lhs)
                (\<lambda>digits. mret (signed_digits_new rhs_negative digits))
          | Equal \<Rightarrow> mret (signed_digits_new False [])
          | Greater \<Rightarrow> mbind (metered_subtract_digit_slices M A lhs rhs)
                (\<lambda>digits. mret (signed_digits_new lhs_negative digits))))"

definition metered_signed_add ::
  "'m meter \<Rightarrow> ('m \<Rightarrow> nat \<Rightarrow> bool) \<Rightarrow> signed_digits \<Rightarrow> signed_digits
    \<Rightarrow> ('m, mul_error, signed_digits) metered" where
  "metered_signed_add M A lhs rhs =
     metered_signed_add_parts M A (sd_negative lhs) (sd_digits lhs) (sd_negative rhs) (sd_digits rhs)"

definition metered_signed_subtract ::
  "'m meter \<Rightarrow> ('m \<Rightarrow> nat \<Rightarrow> bool) \<Rightarrow> signed_digits \<Rightarrow> signed_digits
    \<Rightarrow> ('m, mul_error, signed_digits) metered" where
  "metered_signed_subtract M A lhs rhs =
     metered_signed_add_parts M A (sd_negative lhs) (sd_digits lhs) (\<not> sd_negative rhs) (sd_digits rhs)"

definition metered_multiply_signed_by_small ::
  "'m meter \<Rightarrow> ('m \<Rightarrow> nat \<Rightarrow> bool) \<Rightarrow> signed_digits \<Rightarrow> u32 \<Rightarrow> ('m, mul_error, signed_digits) metered"
  where
  "metered_multiply_signed_by_small M A v factor =
     mbind (metered_multiply_digit_slice_by_small M A (sd_digits v) factor) (\<lambda>digits.
     mret (signed_digits_new (sd_negative v) digits))"

text \<open>One iteration of the long division by a small divisor, most significant digit first.\<close>

definition exact_divide_step ::
  "'m meter \<Rightarrow> u64 \<Rightarrow> nat \<Rightarrow> u32 list \<times> u64 \<Rightarrow> ('m, mul_error, u32 list \<times> u64) metered" where
  "exact_divide_step M divisor index = (\<lambda>(digits, remainder).
     mbind (ktick M) (\<lambda>_.
       let wide = push_bit 32 remainder OR widen (digits ! index)
       in mbind (ok_or InvariantViolation (u32_try_from (wide div divisor))) (\<lambda>digit.
          mret (digits[index := digit], wide mod divisor))))"

definition metered_exact_divide_signed_small ::
  "'m meter \<Rightarrow> signed_digits \<Rightarrow> u32 \<Rightarrow> ('m, mul_error, signed_digits) metered" where
  "metered_exact_divide_signed_small M v divisor =
     (if divisor = 0 then mfail InvariantViolation
      else
        mbind (mfor (rev [0..<length (sd_digits v)]) (exact_divide_step M (widen divisor)) (sd_digits v, 0))
          (\<lambda>(digits, remainder).
            if remainder \<noteq> 0 then mfail InvariantViolation
            else mbind (metered_trim_owned_digits M digits) (\<lambda>digits.
              mret \<lparr>sd_negative = (sd_negative v \<and> digits \<noteq> []), sd_digits = digits\<rparr>)))"

section \<open>Chunks, evaluation, interpolation, recombination\<close>

record toom_chunks =
  tc_low :: "u32 list"
  tc_middle :: "u32 list"
  tc_high :: "u32 list"

record toom_evaluations =
  te_at_one :: "u32 list"
  te_at_minus_one :: signed_digits
  te_at_two :: "u32 list"

record toom_coefficients =
  tk_c0 :: "u32 list"
  tk_c1 :: "u32 list"
  tk_c2 :: "u32 list"
  tk_c3 :: "u32 list"
  tk_c4 :: "u32 list"

definition metered_split_three_slices ::
  "'m meter \<Rightarrow> u32 list \<Rightarrow> nat \<Rightarrow> nat \<Rightarrow> ('m, mul_error, toom_chunks) metered" where
  "metered_split_three_slices M digits chunk_digits chunk_digits_x2 =
     (let first = min chunk_digits (length digits);
          second = min chunk_digits_x2 (length digits)
      in mbind (metered_trimmed_slice M (take first digits)) (\<lambda>low.
         mbind (metered_trimmed_slice M (take (second - first) (drop first digits))) (\<lambda>middle.
         mbind (metered_trimmed_slice M (drop second digits)) (\<lambda>high.
         mret \<lparr>tc_low = low, tc_middle = middle, tc_high = high\<rparr>))))"

definition metered_evaluate_toom3_chunks ::
  "'m meter \<Rightarrow> ('m \<Rightarrow> nat \<Rightarrow> bool) \<Rightarrow> u32 list \<Rightarrow> u32 list \<Rightarrow> u32 list
    \<Rightarrow> ('m, mul_error, toom_evaluations) metered" where
  "metered_evaluate_toom3_chunks M A c0 c1 c2 =
     mbind (metered_add_digit_slices M A c0 c2) (\<lambda>c0_plus_c2.
     mbind (metered_add_digit_slices M A c0_plus_c2 c1) (\<lambda>at_one.
     mbind (metered_signed_add_parts M A False c0_plus_c2 True c1) (\<lambda>at_minus_one.
     mbind (metered_multiply_digit_slice_by_small M A c1 2) (\<lambda>twice_c1.
     mbind (metered_multiply_digit_slice_by_small M A c2 4) (\<lambda>four_c2.
     mbind (metered_add_digit_slices M A c0 twice_c1) (\<lambda>c0_plus_twice_c1.
     mbind (metered_add_digit_slices M A c0_plus_twice_c1 four_c2) (\<lambda>at_two.
     mret \<lparr>te_at_one = at_one, te_at_minus_one = at_minus_one, te_at_two = at_two\<rparr>)))))))"

definition metered_interpolate_toom3 ::
  "'m meter \<Rightarrow> ('m \<Rightarrow> nat \<Rightarrow> bool) \<Rightarrow> signed_digits \<Rightarrow> signed_digits \<Rightarrow> signed_digits
    \<Rightarrow> signed_digits \<Rightarrow> signed_digits \<Rightarrow> ('m, mul_error, toom_coefficients) metered" where
  "metered_interpolate_toom3 M A w0 w1 w_minus_one w2 w4 =
     (if sd_negative w0 \<or> sd_negative w1 \<or> sd_negative w2 \<or> sd_negative w4
      then mfail InvariantViolation
      else
        mbind (metered_signed_add M A w1 w_minus_one) (\<lambda>w1_plus_minus_one.
        mbind (metered_exact_divide_signed_small M w1_plus_minus_one 2) (\<lambda>half_sum.
        mbind (metered_signed_subtract M A half_sum w0) (\<lambda>without_w0.
        mbind (metered_signed_subtract M A without_w0 w4) (\<lambda>c2.
        mbind (metered_signed_subtract M A w1 w_minus_one) (\<lambda>w1_minus_minus_one.
        mbind (metered_exact_divide_signed_small M w1_minus_minus_one 2) (\<lambda>sum_c1_c3.
        mbind (metered_multiply_signed_by_small M A c2 4) (\<lambda>four_c2.
        mbind (metered_multiply_signed_by_small M A w4 16) (\<lambda>sixteen_w4.
        mbind (metered_signed_subtract M A w2 w0) (\<lambda>w2_without_w0.
        mbind (metered_signed_subtract M A w2_without_w0 four_c2) (\<lambda>without_four_c2.
        mbind (metered_signed_subtract M A without_four_c2 sixteen_w4) (\<lambda>without_sixteen_w4.
        mbind (metered_exact_divide_signed_small M without_sixteen_w4 2) (\<lambda>c1_plus_four_c3.
        mbind (metered_signed_subtract M A c1_plus_four_c3 sum_c1_c3) (\<lambda>three_c3.
        mbind (metered_exact_divide_signed_small M three_c3 3) (\<lambda>c3.
        mbind (metered_signed_subtract M A sum_c1_c3 c3) (\<lambda>c1.
          if sd_negative c1 \<or> sd_negative c2 \<or> sd_negative c3 then mfail InvariantViolation
          else if \<exists>digits \<in> set [sd_digits w0, sd_digits c1, sd_digits c2, sd_digits c3, sd_digits w4].
              digits \<noteq> [] \<and> last digits = 0
          then mfail InvariantViolation
          else mret \<lparr>tk_c0 = sd_digits w0, tk_c1 = sd_digits c1, tk_c2 = sd_digits c2,
                     tk_c3 = sd_digits c3, tk_c4 = sd_digits w4\<rparr>))))))))))))))))"

definition coefficient_fits ::
  "nat \<Rightarrow> u32 list \<times> nat \<Rightarrow> unit \<Rightarrow> ('m, mul_error, unit) metered" where
  "coefficient_fits output_capacity = (\<lambda>(digits, offset) _.
     mbind (ok_or SizeOverflow (checked_add_usize offset (length digits))) (\<lambda>end.
       if end > output_capacity then mfail InvariantViolation else mret ()))"

definition metered_recombine_toom3 ::
  "'m meter \<Rightarrow> ('m \<Rightarrow> nat \<Rightarrow> bool) \<Rightarrow> toom_coefficients \<Rightarrow> nat list \<Rightarrow> nat
    \<Rightarrow> ('m, mul_error, u32 list) metered" where
  "metered_recombine_toom3 M A coefficients offsets output_capacity =
     (let terms = zip [tk_c0 coefficients, tk_c1 coefficients, tk_c2 coefficients,
                       tk_c3 coefficients, tk_c4 coefficients] offsets
      in mbind (mfor terms (coefficient_fits output_capacity) ()) (\<lambda>_.
         mbind (metered_zeroed_digits M A output_capacity) (\<lambda>output.
         mbind (mfor terms (\<lambda>(digits, offset) output. metered_add_shifted_digits M output digits offset)
           output) (\<lambda>output.
         metered_trim_owned_digits M output))))"


section \<open>Signed values\<close>

definition sval :: "bool \<Rightarrow> u32 list \<Rightarrow> int" where
  "sval negative digits = (if negative then - int (dval digits) else int (dval digits))"

text \<open>A signed buffer for the value \<open>v\<close>: canonical, no negative zero, at most \<open>n\<close> digits.\<close>

definition represents :: "nat \<Rightarrow> int \<Rightarrow> signed_digits \<Rightarrow> bool" where
  "represents n v r \<longleftrightarrow> canonical (sd_digits r) \<and> (sd_negative r \<longrightarrow> sd_digits r \<noteq> [])
     \<and> sval (sd_negative r) (sd_digits r) = v \<and> length (sd_digits r) \<le> n"

lemma represents_new:
  "canonical ds \<Longrightarrow> sval neg ds = v \<Longrightarrow> length ds \<le> n \<Longrightarrow> represents n v (signed_digits_new neg ds)"
  by (auto simp: represents_def signed_digits_new_def sval_def)

lemma represents_mono: "represents n v r \<Longrightarrow> n \<le> m \<Longrightarrow> represents m v r"
  by (auto simp: represents_def)

lemma represents_eq: "represents n v r \<Longrightarrow> n \<le> m \<Longrightarrow> v = w \<Longrightarrow> represents m w r"
  using represents_mono by simp

lemma represents_nonneg:
  assumes "represents n v r" and "0 \<le> v"
  shows "\<not> sd_negative r" and "int (dval (sd_digits r)) = v"
proof -
  show "\<not> sd_negative r"
    using assms canonical_dval_0 [of "sd_digits r"] by (auto simp: represents_def sval_def)
  then show "int (dval (sd_digits r)) = v" using assms by (simp add: represents_def sval_def)
qed

lemma represents_D:
  assumes "represents n v r"
  shows "canonical (sd_digits r)" and "length (sd_digits r) \<le> n"
    and "sval (sd_negative r) (sd_digits r) = v"
  using assms by (simp_all add: represents_def)

lemma sval_Nil [simp]: "sval neg [] = 0"
  by (simp add: sval_def)

lemma sval_Not: "sval (\<not> neg) ds = - sval neg ds"
  by (simp add: sval_def)

context kernel_meter
begin

lemma signed_add_parts:
  assumes can: "canonical xs" "canonical ys" and len: "length xs \<le> n" "length ys \<le> n"
    and size: "size_ok F (Suc n)"
  shows "meets F R (represents (Suc n) (sval nx xs + sval ny ys))
    (metered_signed_add_parts M A nx xs ny ys)"
proof -
  have sz: "size_ok F (length xs)" "size_ok F (length ys)" "size_ok F (Suc (max (length xs) (length ys)))"
    using len by (auto intro: size_ok_le [OF size])
  consider "xs = []" | "xs \<noteq> []" "ys = []" | "xs \<noteq> []" "ys \<noteq> []" "nx = ny" | "xs \<noteq> []" "ys \<noteq> []" "nx \<noteq> ny"
    by blast
  then show ?thesis
  proof cases
    case 1
    then show ?thesis using can len
      by (auto simp: metered_signed_add_parts_def intro!: bind [OF copy_digit_slice [OF sz(2)]] ret represents_new)
  next
    case 2
    then show ?thesis using can len
      by (auto simp: metered_signed_add_parts_def intro!: bind [OF copy_digit_slice [OF sz(1)]] ret represents_new)
  next
    case 3
    then show ?thesis using can len
      by (auto simp: metered_signed_add_parts_def sval_def intro!: bind [OF add_slices [OF sz(3)]] ret represents_new)
  next
    case 4
    have neg: "nx = (\<not> ny)" using 4 by simp
    have pick: "meets F R (represents (Suc n) (sval nx xs + sval ny ys)) (case cmp of
            Less \<Rightarrow> mbind (metered_subtract_digit_slices M A ys xs) (\<lambda>digits. mret (signed_digits_new ny digits))
          | Equal \<Rightarrow> mret (signed_digits_new False [])
          | Greater \<Rightarrow> mbind (metered_subtract_digit_slices M A xs ys) (\<lambda>digits. mret (signed_digits_new nx digits)))"
      if cmp: "cmp = compare (dval xs) (dval ys)" for cmp
    proof (cases cmp)
      case Less
      then have "dval xs < dval ys" using cmp by simp
      then show ?thesis using can len Less neg
        by (auto simp: sval_def intro!: bind [OF subtract_slices] sz ret represents_new)
    next
      case Equal
      then have "dval xs = dval ys" using cmp by simp
      then show ?thesis using Equal neg by (auto simp: sval_def intro!: ret represents_new)
    next
      case Greater
      then have "dval ys < dval xs" using cmp by simp
      then show ?thesis using can len Greater neg
        by (auto simp: sval_def intro!: bind [OF subtract_slices] sz ret represents_new)
    qed
    show ?thesis
      unfolding metered_signed_add_parts_def if_not_P [OF 4(1)] if_not_P [OF 4(2)] if_not_P [OF 4(3)]
      by (rule bind [OF compare_slices [OF can] pick])
  qed
qed

lemma signed_add:
  assumes "represents n v x" and "represents k w y" and "size_ok F (Suc (max n k))"
  shows "meets F R (represents (Suc (max n k)) (v + w)) (metered_signed_add M A x y)"
  using signed_add_parts [of "sd_digits x" "sd_digits y" "max n k" "sd_negative x" "sd_negative y"] assms
  by (simp add: represents_def metered_signed_add_def le_max_iff_disj)

lemma signed_subtract:
  assumes "represents n v x" and "represents k w y" and "size_ok F (Suc (max n k))"
  shows "meets F R (represents (Suc (max n k)) (v - w)) (metered_signed_subtract M A x y)"
  using signed_add_parts [of "sd_digits x" "sd_digits y" "max n k" "sd_negative x" "\<not> sd_negative y"] assms
  by (simp add: represents_def metered_signed_subtract_def sval_Not le_max_iff_disj)

lemma signed_multiply:
  assumes x: "represents n v x" and "size_ok F (Suc n)" and k: "unat factor = k"
  shows "meets F R (represents (Suc n) (v * int k)) (metered_multiply_signed_by_small M A x factor)"
proof -
  have "size_ok F (Suc (length (sd_digits x)))"
    by (rule size_ok_le [OF assms(2)]) (use x in \<open>simp add: represents_def\<close>)
  then show ?thesis
    unfolding metered_multiply_signed_by_small_def
    using x k by (intro bind [OF multiply_by_small]) (auto simp: represents_def sval_def intro!: ret represents_new)
qed

end


section \<open>Exact division\<close>

text \<open>\<open>(remainder << 32) | digit\<close> is the two-digit number, and its quotient is one digit.\<close>

lemma unat_push_or:
  assumes "unat r < radix"
  shows "unat (push_bit 32 r OR widen d) = unat r * radix + unat d"
proof -
  have "push_bit 32 r AND widen d = 0"
    by (rule bit_word_eqI) (auto simp: bit_and_iff bit_push_bit_iff widen_def bit_ucast_iff dest: bit_imp_le_length)
  then have "push_bit 32 r OR widen d = push_bit 32 r + widen d"
    by (simp add: disjunctive_add_eq_or)
  moreover have "unat (push_bit 32 r) = unat r * radix"
    using assms by (simp add: push_bit_eq_mult unat_word_ariths)
  moreover have "unat r * radix + unat d < usize_modulus"
    using assms unat_u32_lt [of d] by simp
  ultimately show ?thesis by (simp add: unat_add_exact)
qed

lemma exact_quotient:
  fixes q r c k :: nat
  assumes "q * c + r = k * c" and "r < c"
  shows "r = 0" and "q = k"
proof -
  have "(q * c + r) mod c = r" using assms(2) by simp
  then show "r = 0" by (simp add: assms(1))
  then show "q = k" using assms by simp
qed

lemma sign_of_multiple:
  fixes v :: int
  assumes "(if neg then - int n else int n) = v * int c" and "0 < c"
  shows "(if neg then - \<bar>v\<bar> else \<bar>v\<bar>) = v" and "n = nat \<bar>v\<bar> * c"
proof -
  have "int n = \<bar>v\<bar> * int c" using arg_cong [OF assms(1), of abs] by (simp add: abs_mult split: if_splits)
  then show "n = nat \<bar>v\<bar> * c" by (metis nat_int nat_mult_distrib abs_ge_zero)
  show "(if neg then - \<bar>v\<bar> else \<bar>v\<bar>) = v"
  proof (cases "0 \<le> v")
    case True
    show ?thesis
    proof (cases neg)
      case neg: True
      have "0 \<le> v * int c" using True assms(2) by simp
      moreover have "- int n = v * int c" using assms(1) neg by simp
      ultimately have "v * int c = 0" by linarith
      then show ?thesis using assms(2) by simp
    qed (use True in simp)
  next
    case False
    then have "v * int c < 0" using assms(2) by (simp add: mult_less_0_iff)
    then have neg using assms(1) by (auto split: if_splits)
    then show ?thesis using False by simp
  qed
qed

lemma divide_step_value:
  fixes r d :: u64 and x c :: u32
  assumes "unat r < unat d" and "d = widen c"
  defines "w \<equiv> push_bit 32 r OR widen x"
  shows "unat (w div d) < radix" and "unat (w mod d) < unat d"
    and "unat (w div d) * unat d + unat (w mod d) = unat r * radix + unat x"
proof -
  have r: "unat r < radix" using assms(1,2) unat_u32_lt [of c] by simp
  have w: "unat w = unat r * radix + unat x" unfolding w_def by (rule unat_push_or [OF r])
  have "unat w < unat d * radix"
  proof -
    have "unat w < (unat r + 1) * radix" using w unat_u32_lt [of x] by simp
    also have "\<dots> \<le> unat d * radix" using assms(1) by (intro mult_le_mono1) simp
    finally show ?thesis .
  qed
  then show "unat (w div d) < radix"
    by (simp add: unat_div less_mult_imp_div_less mult.commute)
  show "unat (w mod d) < unat d" using assms(1) by (simp add: unat_mod)
  show "unat (w div d) * unat d + unat (w mod d) = unat r * radix + unat x"
    by (simp add: unat_div unat_mod w)
qed

context kernel_meter
begin

lemma exact_divide_loop:
  assumes d: "divisor = widen c" and c: "c \<noteq> 0"
  shows "meets F R (\<lambda>(q, rem). length q = length ds \<and> unat rem < unat c
      \<and> dval q * unat c + unat rem = dval ds)
    (mfor (rev [0..<length ds]) (exact_divide_step M divisor) (ds, 0))"
proof -
  let ?n = "length ds"
  let ?I = "\<lambda>k (q, rem). length q = ?n \<and> unat rem < unat c \<and> take (?n - k) q = take (?n - k) ds
      \<and> dval (drop (?n - k) q) * unat c + unat rem = dval (drop (?n - k) ds)"
  have "meets F R (?I (length (rev [0..<?n]))) (mfor (rev [0..<?n]) (exact_divide_step M divisor) (ds, 0))"
  proof (rule loop [where I = ?I])
    show "?I 0 (ds, 0)" using c by (simp add: unat_gt_0)
    fix k and t :: "u32 list \<times> u64"
    assume k: "k < length (rev [0..<?n])" and inv: "?I k t"
    obtain q r where t: "t = (q, r)" by (cases t)
    define i where "i = ?n - Suc k"
    have i: "?n - k = Suc i" "i < ?n" "?n - Suc k = i" "rev [0..<?n] ! k = i"
      using k by (simp_all add: i_def rev_nth)
    have q: "length q = ?n" "unat r < unat divisor" "take (Suc i) q = take (Suc i) ds"
      "dval (drop (Suc i) q) * unat c + unat r = dval (drop (Suc i) ds)"
      using inv by (simp_all add: t i d)
    have qi: "q ! i = ds ! i" and ti: "take i q = take i ds"
      using q(3) i(2) q(1) by (auto simp: take_Suc_conv_app_nth)
    define w where "w = push_bit 32 r OR widen (q ! i)"
    note step = divide_step_value [OF q(2) d, of "q ! i", folded w_def]
    have low: "unat (low_digit (w div divisor)) = unat (w div divisor)"
      using step(1) by (simp add: unat_low_digit)
    have "dval (drop i ds) = unat (ds ! i) + radix * dval (drop (Suc i) ds)"
      using i(2) by (simp add: Cons_nth_drop_Suc [symmetric])
    moreover have "drop i (q[i := low_digit (w div divisor)]) = low_digit (w div divisor) # drop (Suc i) q"
      using i(2) q(1) by (simp add: drop_update_swap Cons_nth_drop_Suc [symmetric])
    ultimately have "dval (drop i (q[i := low_digit (w div divisor)])) * unat c + unat (w mod divisor)
        = dval (drop i ds)"
      using divide_accumulate [OF step(3) [unfolded d unat_widen, folded d] q(4)] qi by (simp add: low [unfolded d] d)
    then show "meets F R (?I (Suc k)) (exact_divide_step M divisor (rev [0..<?n] ! k) t)"
      using step(1,2) q(1) i ti d
      by (auto simp: exact_divide_step_def t w_def [symmetric] u32_try_from_def Let_def
          intro!: after_ktick bind [OF meets_ok_or [OF composes]])
  qed
  then show ?thesis by (rule meets_post) auto
qed

lemma exact_divide:
  assumes x: "represents n (v * int (unat c)) x" and c: "c \<noteq> 0"
  shows "meets F R (represents n v) (metered_exact_divide_signed_small M x c)"
  unfolding metered_exact_divide_signed_small_def if_not_P [OF c]
proof (rule bind [OF exact_divide_loop [OF refl c]], clarify)
  fix q :: "u32 list" and r :: u64
  assume len: "length q = length (sd_digits x)" and r: "unat r < unat c"
    and eq: "dval q * unat c + unat r = dval (sd_digits x)"
  have val: "sval (sd_negative x) (sd_digits x) = v * int (unat c)" using x by (simp add: represents_def)
  have c0: "0 < unat c" using c by (simp add: unat_gt_0)
  note sign = sign_of_multiple [OF val [unfolded sval_def] c0]
  note quot = exact_quotient [OF trans [OF eq sign(2)] r]
  have r0: "r = 0" using quot(1) by (simp add: unat_eq_zero)
  have "meets F R (\<lambda>z. represents n v \<lparr>sd_negative = (sd_negative x \<and> z \<noteq> []), sd_digits = z\<rparr>)
      (metered_trim_owned_digits M q)"
    using sign(1) x len quot(2) by (intro meets_post [OF trim_owned])
      (auto simp: trimmed_def represents_def sval_def split: if_splits)
  then show "meets F R (represents n v) (if r \<noteq> 0 then mfail InvariantViolation
      else mbind (metered_trim_owned_digits M q) (\<lambda>digits.
        mret \<lparr>sd_negative = (sd_negative x \<and> digits \<noteq> []), sd_digits = digits\<rparr>))"
    by (simp add: r0) (erule bind, erule ret)
qed

end


section \<open>Chunks and their evaluation\<close>

definition chunked :: "nat \<Rightarrow> u32 list \<Rightarrow> toom_chunks \<Rightarrow> bool" where
  "chunked k ds ch \<longleftrightarrow> canonical (tc_low ch) \<and> canonical (tc_middle ch) \<and> canonical (tc_high ch)
     \<and> length (tc_low ch) \<le> k \<and> length (tc_middle ch) \<le> k \<and> length (tc_high ch) \<le> length ds - 2 * k
     \<and> dval ds = dval (tc_low ch) + radix ^ k * dval (tc_middle ch) + radix ^ (2 * k) * dval (tc_high ch)"

text \<open>A canonical buffer for \<open>v\<close> of at most \<open>n\<close> digits.\<close>

definition bounded :: "nat \<Rightarrow> nat \<Rightarrow> u32 list \<Rightarrow> bool" where
  "bounded n v r \<longleftrightarrow> canonical r \<and> dval r = v \<and> length r \<le> n"

lemma bounded_mono: "bounded n v r \<Longrightarrow> n \<le> m \<Longrightarrow> bounded m v r"
  by (auto simp: bounded_def)

definition evaluated :: "nat \<Rightarrow> nat \<Rightarrow> nat \<Rightarrow> nat \<Rightarrow> toom_evaluations \<Rightarrow> bool" where
  "evaluated n c0 c1 c2 e \<longleftrightarrow> bounded n (c0 + c1 + c2) (te_at_one e)
     \<and> represents n (int c0 - int c1 + int c2) (te_at_minus_one e)
     \<and> bounded n (c0 + 2 * c1 + 4 * c2) (te_at_two e)"

lemma split_three_value:
  assumes "2 * k \<le> length ds"
  shows "dval ds = dval (take k ds) + radix ^ k * dval (take k (drop k ds))
    + radix ^ (2 * k) * dval (drop (2 * k) ds)"
proof -
  have "dval (drop k ds) = dval (take k (drop k ds)) + radix ^ k * dval (drop (2 * k) ds)"
    using dval_take_drop [of "drop k ds" k] assms by (simp add: min_def mult_2)
  then show ?thesis
    using dval_take_drop [of ds k] assms by (simp only: mult_2 power_add) (simp add: min_def algebra_simps)
qed

context kernel_meter
begin

lemma split_three_slices:
  assumes "2 * k \<le> length ds"
  shows "meets F R (chunked k ds) (metered_split_three_slices M ds k (k * 2))"
proof -
  have idx: "min k (length ds) = k" "min (k * 2) (length ds) = k * 2" "k * 2 - k = k" "k * 2 = 2 * k"
    using assms by simp_all
  show ?thesis
    unfolding metered_split_three_slices_def Let_def idx
    using split_three_value [OF assms] assms
    by (auto simp: chunked_def trimmed_def intro!: bind [OF trimmed_slice] ret)
qed

lemma add_bounded:
  assumes "bounded n v x" and "bounded n w y" and "size_ok F (Suc n)"
  shows "meets F R (bounded (Suc n) (v + w)) (metered_add_digit_slices M A x y)"
proof -
  have "size_ok F (Suc (max (length x) (length y)))"
    by (rule size_ok_le [OF assms(3)]) (use assms in \<open>simp add: bounded_def\<close>)
  then show ?thesis
    by (rule meets_post [OF add_slices]) (use assms in \<open>auto simp: bounded_def\<close>)
qed

lemma multiply_bounded:
  assumes "bounded n v x" and "unat factor = k" and "size_ok F (Suc n)"
  shows "meets F R (bounded (Suc n) (k * v)) (metered_multiply_digit_slice_by_small M A x factor)"
proof -
  have "size_ok F (Suc (length x))"
    by (rule size_ok_le [OF assms(3)]) (use assms in \<open>simp add: bounded_def\<close>)
  then show ?thesis
    by (rule meets_post [OF multiply_by_small]) (use assms in \<open>auto simp: bounded_def\<close>)
qed

lemma evaluate_toom3_chunks:
  assumes c0: "bounded n v0 c0" and c1: "bounded n v1 c1" and c2: "bounded n v2 c2"
    and size: "size_ok F (n + 3)"
  shows "meets F R (evaluated (n + 3) v0 v1 v2) (metered_evaluate_toom3_chunks M A c0 c1 c2)"
proof -
  have sz: "size_ok F (Suc n)" "size_ok F (Suc (Suc n))" "size_ok F (Suc (Suc (Suc n)))"
    by (rule size_ok_le [OF size], simp)+
  note up = bounded_mono [OF _ le_SucI [OF order_refl]]
  show ?thesis
    unfolding metered_evaluate_toom3_chunks_def
  proof (rule bind [OF add_bounded [OF c0 c2 sz(1)]], rule bind [OF add_bounded [OF _ up [OF c1] sz(2)]],
      assumption, rule bind [where Q = "represents (n + 3) (int v0 - int v1 + int v2)"], goal_cases)
    case (1 s one)
    then have "meets F R (represents (Suc (Suc n)) (sval False s + sval True c1))
        (metered_signed_add_parts M A False s True c1)"
      using c1 sz by (intro signed_add_parts) (auto simp: bounded_def)
    then show ?case
    proof (rule meets_post)
      fix r assume "represents (Suc (Suc n)) (sval False s + sval True c1) r"
      moreover have "sval False s + sval True c1 = int v0 - int v1 + int v2"
        using 1 c1 by (simp add: sval_def bounded_def)
      ultimately show "represents (n + 3) (int v0 - int v1 + int v2) r"
        by (auto intro: represents_mono)
    qed
  next
    case (2 s one minus_one)
    show ?case
    proof (rule bind [OF multiply_bounded [OF c1 _ sz(1)]], simp,
        rule bind [OF multiply_bounded [OF c2 _ sz(1)]], simp,
        rule bind [OF add_bounded [OF up [OF c0] _ sz(2)]], assumption,
        rule bind [OF add_bounded [OF _ up sz(3)]], assumption, assumption, rule ret, goal_cases)
      case (1 t f ct two)
      show ?case using 2 1
        by (simp add: evaluated_def bounded_def)
    qed
  qed
qed

end


section \<open>Interpolation\<close>

definition coefficients :: "nat \<Rightarrow> nat \<Rightarrow> nat \<Rightarrow> nat \<Rightarrow> nat \<Rightarrow> nat \<Rightarrow> toom_coefficients \<Rightarrow> bool" where
  "coefficients n c0 c1 c2 c3 c4 r \<longleftrightarrow> bounded n c0 (tk_c0 r) \<and> bounded n c1 (tk_c1 r)
     \<and> bounded n c2 (tk_c2 r) \<and> bounded n c3 (tk_c3 r) \<and> bounded n c4 (tk_c4 r)"

lemma represents_bounded:
  assumes "represents n (int v) r"
  shows "bounded n v (sd_digits r)" and "\<not> sd_negative r"
  using represents_nonneg [OF assms] assms by (auto simp: bounded_def represents_def)

context kernel_meter
begin

lemma interpolate_toom3:
  assumes w0: "represents n (int c0) w0"
    and w1: "represents n (int (c0 + c1 + c2 + c3 + c4)) w1"
    and wm: "represents n (int c0 - int c1 + int c2 - int c3 + int c4) wm"
    and w2: "represents n (int (c0 + 2 * c1 + 4 * c2 + 8 * c3 + 16 * c4)) w2"
    and w4: "represents n (int c4) w4"
    and size: "size_ok F (n + 8)"
  shows "meets F R (coefficients (n + 8) c0 c1 c2 c3 c4) (metered_interpolate_toom3 M A w0 w1 wm w2 w4)"
proof -
  have sz: "size_ok F m" if "m \<le> n + 8" for m by (rule size_ok_le [OF size that])
  have pos: "\<not> (sd_negative w0 \<or> sd_negative w1 \<or> sd_negative w2 \<or> sd_negative w4)"
    using w0 w1 w2 w4 by (simp add: represents_bounded(2) del: of_nat_add)
  have two: "(2 :: u32) \<noteq> 0" "unat (2 :: u32) = 2" "(3 :: u32) \<noteq> 0" "unat (3 :: u32) = 3"
      "unat (4 :: u32) = 4" "unat (16 :: u32) = 16" by simp_all
  show ?thesis
    unfolding metered_interpolate_toom3_def if_not_P [OF pos]
    apply (rule bind [OF signed_add [OF w1 wm]], rule sz, simp)
    apply (rule bind [where Q = "represents (n + 1) (int c0 + int c2 + int c4)"], rule exact_divide,
        erule represents_eq, simp, (simp add: algebra_simps two; fail), rule two)
    apply (rule bind [OF signed_subtract [OF _ w0]], assumption, rule sz, simp)
    apply (rule bind [OF signed_subtract [OF _ w4]], assumption, rule sz, simp)
    apply (rule bind [OF signed_subtract [OF w1 wm]], rule sz, simp)
    apply (rule bind [where Q = "represents (n + 1) (int c1 + int c3)"], rule exact_divide,
        erule represents_eq, simp, (simp add: algebra_simps two; fail), rule two)
    apply (rule bind [OF signed_multiply], assumption, rule sz, simp, rule two)
    apply (rule bind [OF signed_multiply [OF w4]], rule sz, simp, rule two)
    apply (rule bind [OF signed_subtract [OF w2 w0]], rule sz, simp)
    apply (rule bind [OF signed_subtract], assumption, assumption, rule sz, simp)
    apply (rule bind [OF signed_subtract], assumption, assumption, rule sz, simp)
    apply (rule bind [where Q = "represents (n + 6) (int c1 + 4 * int c3)"], rule exact_divide,
        erule represents_eq, simp, (simp add: algebra_simps two; fail), rule two)
    apply (rule bind [OF signed_subtract], assumption, assumption, rule sz, simp)
    apply (rule bind [where Q = "represents (n + 7) (int c3)"], rule exact_divide,
        erule represents_eq, simp, (simp; fail), rule two)
    apply (rule bind [OF signed_subtract], assumption, assumption, rule sz, simp)
    subgoal premises prems for s half wo c2' d odd four sixteen p q u v three c3' c1'
    proof -
      have r: "represents (n + 8) (int c1) c1'" "represents (n + 8) (int c2) c2'"
        "represents (n + 8) (int c3) c3'" "represents (n + 8) (int c0) w0" "represents (n + 8) (int c4) w4"
        using prems(15,4,14) w0 w4 by (auto elim: represents_eq)
      have b: "bounded (n + 8) c1 (sd_digits c1')" "bounded (n + 8) c2 (sd_digits c2')"
        "bounded (n + 8) c3 (sd_digits c3')" "bounded (n + 8) c0 (sd_digits w0)" "bounded (n + 8) c4 (sd_digits w4)"
        by (rule represents_bounded(1), rule r)+
      then have "coefficients (n + 8) c0 c1 c2 c3 c4
          \<lparr>tk_c0 = sd_digits w0, tk_c1 = sd_digits c1', tk_c2 = sd_digits c2',
           tk_c3 = sd_digits c3', tk_c4 = sd_digits w4\<rparr>" by (simp add: coefficients_def)
      then show ?thesis
        using b represents_bounded(2) [OF r(1)] represents_bounded(2) [OF r(2)] represents_bounded(2) [OF r(3)]
        by (auto simp: bounded_def canonical_def)
    qed
    done
qed

end


section \<open>Recombination\<close>

definition terms_value :: "(u32 list \<times> nat) list \<Rightarrow> nat" where
  "terms_value terms = sum_list (map (\<lambda>(digits, offset). radix ^ offset * dval digits) terms)"

lemma terms_value_Suc:
  "k < length ts \<Longrightarrow>
   terms_value (take (Suc k) ts) = terms_value (take k ts) + radix ^ snd (ts ! k) * dval (fst (ts ! k))"
  by (simp add: terms_value_def take_Suc_conv_app_nth case_prod_beta)

lemma terms_value_take_le: "terms_value (take k ts) \<le> terms_value ts"
  by (metis append_take_drop_id le_add1 map_append sum_list_append terms_value_def)

lemma term_le_value: "t \<in> set ts \<Longrightarrow> radix ^ snd t * dval (fst t) \<le> terms_value ts"
  unfolding terms_value_def by (rule member_le_sum_list) (force simp: case_prod_beta)+

context kernel_meter
begin

lemma coefficients_fit:
  assumes "\<forall>t \<in> set ts. snd t + length (fst t) \<le> cap" and "size_ok F cap"
  shows "meets F R (\<lambda>_. True) (mfor ts (coefficient_fits cap) ())"
proof (rule loop [where I = "\<lambda>_ _. True"])
  fix k and u :: unit
  assume "k < length ts"
  then have fit: "snd (ts ! k) + length (fst (ts ! k)) \<le> cap" using assms(1) by simp
  have add: "meets F R (\<lambda>r. r = snd (ts ! k) + length (fst (ts ! k)))
      (ok_or SizeOverflow (checked_add_usize (snd (ts ! k)) (length (fst (ts ! k)))))"
    by (rule checked_add) (rule size_ok_le [OF assms(2) fit])
  show "meets F R (\<lambda>_. True) (coefficient_fits cap (ts ! k) u)"
    using fit by (auto simp: coefficient_fits_def case_prod_beta intro!: bind [OF add])
qed simp

lemma add_terms:
  assumes fit: "\<forall>t \<in> set ts. snd t + length (fst t) \<le> cap" and size: "size_ok F (Suc cap)"
    and bound: "terms_value ts < radix ^ cap"
  shows "meets F R (\<lambda>out. length out = cap \<and> dval out = terms_value ts)
    (mfor ts (\<lambda>(digits, offset) output. metered_add_shifted_digits M output digits offset)
      (replicate cap 0))"
proof -
  have "meets F R (\<lambda>out. length out = cap \<and> dval out = terms_value (take (length ts) ts))
    (mfor ts (\<lambda>(digits, offset) output. metered_add_shifted_digits M output digits offset)
      (replicate cap 0))"
  proof (rule loop [where I = "\<lambda>k out. length out = cap \<and> dval out = terms_value (take k ts)"])
    fix k out
    assume k: "k < length ts" and inv: "length out = cap \<and> dval out = terms_value (take k ts)"
    have step: "terms_value (take (Suc k) ts) = dval out + radix ^ snd (ts ! k) * dval (fst (ts ! k))"
      using terms_value_Suc [OF k] inv by simp
    have "meets F R (\<lambda>q. length q = length out \<and> dval q = dval out + radix ^ snd (ts ! k) * dval (fst (ts ! k)))
        (metered_add_shifted_digits M out (fst (ts ! k)) (snd (ts ! k)))"
    proof (rule add_shifted)
      show "snd (ts ! k) + length (fst (ts ! k)) \<le> length out" using fit k inv by simp
      show "size_ok F (Suc (length out))" using size inv by simp
      have "terms_value (take (Suc k) ts) < radix ^ length out"
        using terms_value_take_le [of "Suc k" ts] bound inv by simp
      then show "dval out + radix ^ snd (ts ! k) * dval (fst (ts ! k)) < radix ^ length out"
        by (simp only: step)
    qed
    then show "meets F R (\<lambda>out. length out = cap \<and> dval out = terms_value (take (Suc k) ts))
        ((\<lambda>(digits, offset) output. metered_add_shifted_digits M output digits offset) (ts ! k) out)"
      unfolding case_prod_beta by (rule meets_post) (use step inv in auto)
  qed (simp add: terms_value_def)
  then show ?thesis by simp
qed

lemma recombine_toom3:
  assumes co: "coefficients n c0 c1 c2 c3 c4 co" and four: "4 * k \<le> cap" and size: "size_ok F (Suc cap)"
    and total: "v = c0 + radix ^ k * c1 + radix ^ (2 * k) * c2 + radix ^ (3 * k) * c3 + radix ^ (4 * k) * c4"
    and bound: "v < radix ^ cap"
  shows "meets F R (\<lambda>r. canonical r \<and> dval r = v)
    (metered_recombine_toom3 M A co [0, k, k * 2, k * 3, k * 4] cap)"
proof -
  define ts where "ts = zip [tk_c0 co, tk_c1 co, tk_c2 co, tk_c3 co, tk_c4 co] [0, k, k * 2, k * 3, k * 4]"
  have b: "bounded n c0 (tk_c0 co)" "bounded n c1 (tk_c1 co)" "bounded n c2 (tk_c2 co)"
    "bounded n c3 (tk_c3 co)" "bounded n c4 (tk_c4 co)" using co by (simp_all add: coefficients_def)
  have ts: "ts = [(tk_c0 co, 0), (tk_c1 co, k), (tk_c2 co, k * 2), (tk_c3 co, k * 3), (tk_c4 co, k * 4)]"
    by (simp add: ts_def)
  have val: "terms_value ts = v" unfolding ts total using b
    by (simp add: terms_value_def bounded_def mult.commute)
  have fit: "\<forall>t \<in> set ts. snd t + length (fst t) \<le> cap"
  proof
    fix t assume t: "t \<in> set ts"
    have "canonical (fst t)" "snd t \<le> cap" using t b four by (auto simp: ts bounded_def)
    moreover have "radix ^ snd t * dval (fst t) < radix ^ cap"
      using term_le_value [OF t] bound val by simp
    ultimately show "snd t + length (fst t) \<le> cap" by (intro canonical_fit)
  qed
  have sz: "size_ok F cap" by (rule size_ok_le [OF size]) simp
  show ?thesis
    unfolding metered_recombine_toom3_def ts_def [symmetric] Let_def
  proof (rule bind [OF coefficients_fit [OF fit sz]], rule bind [OF zeroed_digits [OF sz]], hypsubst,
      rule bind [OF add_terms [OF fit size]], goal_cases)
    case 1
    show ?case using bound val by simp
  next
    case (2 out)
    then show ?case using val by (auto simp: trimmed_def intro!: meets_post [OF trim_owned])
  qed
qed

end


section \<open>The recursion\<close>

abbreviation METERED_TOOM3_RECURSION_CUTOFF_DIGITS :: nat where
  "METERED_TOOM3_RECURSION_CUTOFF_DIGITS \<equiv> 12"

text \<open>\<open>mark_toom_node\<close> counts nodes in test builds only.\<close>

definition mark_toom_node :: "('m recursive_meter, mul_error, unit) metered" where
  "mark_toom_node = mret ()"

lemma toom3_split_small:
  assumes "\<not> (max p q \<le> 12 \<or> min p q \<le> div_ceil (max p q) 3 * 2)"
  shows "2 * div_ceil (max p q) 3 + 14 \<le> p + q" and "p - 2 * div_ceil (max p q) 3 \<le> div_ceil (max p q) 3"
    and "q - 2 * div_ceil (max p q) 3 \<le> div_ceil (max p q) 3"
    and "2 * div_ceil (max p q) 3 < p" and "2 * div_ceil (max p q) 3 < q"
    and "4 * div_ceil (max p q) 3 \<le> p + q"
proof -
  define k where "k = div_ceil (max p q) 3"
  have k: "max p q \<le> 3 * k" "3 * k \<le> max p q + 2" unfolding k_def div_ceil_def by linarith+
  have c: "12 < max p q" "2 * k < min p q" using assms by (auto simp: k_def)
  have "max p q + min p q = p + q" by simp
  then show "2 * div_ceil (max p q) 3 + 14 \<le> p + q" "p - 2 * div_ceil (max p q) 3 \<le> div_ceil (max p q) 3"
    "q - 2 * div_ceil (max p q) 3 \<le> div_ceil (max p q) 3"
    "2 * div_ceil (max p q) 3 < p" "2 * div_ceil (max p q) 3 < q" "4 * div_ceil (max p q) 3 \<le> p + q"
    using k c unfolding k_def [symmetric] by linarith+
qed

lemma chunked_lengths:
  assumes "\<exists>s s'. on_meter (metered_split_three_slices M ds k (k * 2)) s = (Ok ch, s')"
    and "2 * k \<le> length ds"
  shows "chunked k ds ch"
proof -
  obtain m m' where "metered_split_three_slices M ds k (k * 2) m = (Ok ch, m')"
    using on_meter_Ok [OF assms(1)] by blast
  with kernel_meter.split_three_slices [OF any_kernel assms(2), THEN meetsD] show ?thesis by fastforce
qed

lemma evaluated_lengths:
  assumes "\<exists>s s'. on_meter (metered_evaluate_toom3_chunks M A c0 c1 c2) s = (Ok e, s')"
    and "bounded n v0 c0" "bounded n v1 c1" "bounded n v2 c2"
  shows "evaluated (n + 3) v0 v1 v2 e"
proof -
  obtain m m' where run: "metered_evaluate_toom3_chunks M A c0 c1 c2 m = (Ok e, m')"
    using on_meter_Ok [OF assms(1)] by blast
  have "size_ok UNIV (n + 3)" by (simp add: size_ok_def)
  from meetsD [OF kernel_meter.evaluate_toom3_chunks [OF any_kernel assms(2-4) this] run]
  show ?thesis by simp
qed

lemma chunked_bounded:
  "chunked k ds ch \<Longrightarrow> length ds - 2 * k \<le> k \<Longrightarrow>
   bounded k (dval (tc_low ch)) (tc_low ch) \<and> bounded k (dval (tc_middle ch)) (tc_middle ch)
     \<and> bounded k (dval (tc_high ch)) (tc_high ch)"
  by (auto simp: chunked_def bounded_def)

lemma evaluated_length:
  assumes "evaluated n c0 c1 c2 e"
  shows "length (te_at_one e) \<le> n" "length (sd_digits (te_at_minus_one e)) \<le> n" "length (te_at_two e) \<le> n"
  using assms by (auto simp: evaluated_def bounded_def represents_def)

lemma toom3_shrinks:
  assumes k: "k = div_ceil (max (length a) (length b)) 3" and k2: "k2 = k * 2"
    and deep: "\<not> (max (length a) (length b) \<le> METERED_TOOM3_RECURSION_CUTOFF_DIGITS
        \<or> min (length a) (length b) \<le> k2)"
    and a: "\<exists>s s'. on_meter (metered_split_three_slices M a k k2) s = (Ok ach, s')"
    and b: "\<exists>s s'. on_meter (metered_split_three_slices M b k k2) s = (Ok bch, s')"
    and ea: "\<exists>s s'. on_meter (metered_evaluate_toom3_chunks M A (tc_low ach) (tc_middle ach) (tc_high ach)) s = (Ok av, s')"
    and eb: "\<exists>s s'. on_meter (metered_evaluate_toom3_chunks M A (tc_low bch) (tc_middle bch) (tc_high bch)) s = (Ok bv, s')"
  shows "length (tc_low ach) + length (tc_low bch) < length a + length b"
    and "length (te_at_one av) + length (te_at_one bv) < length a + length b"
    and "length (sd_digits (te_at_minus_one av)) + length (sd_digits (te_at_minus_one bv)) < length a + length b"
    and "length (te_at_two av) + length (te_at_two bv) < length a + length b"
    and "length (tc_high ach) + length (tc_high bch) < length a + length b"
proof -
  note small = toom3_split_small [OF deep[unfolded k2 k], folded k]
  have ca: "chunked k a ach" using a small(4) by (intro chunked_lengths) (auto simp: k2)
  have cb: "chunked k b bch" using b small(5) by (intro chunked_lengths) (auto simp: k2)
  note ba = chunked_bounded [OF ca small(2)] and bb = chunked_bounded [OF cb small(3)]
  have va: "evaluated (k + 3) (dval (tc_low ach)) (dval (tc_middle ach)) (dval (tc_high ach)) av"
    using ba by (intro evaluated_lengths [OF ea]) simp_all
  have vb: "evaluated (k + 3) (dval (tc_low bch)) (dval (tc_middle bch)) (dval (tc_high bch)) bv"
    using bb by (intro evaluated_lengths [OF eb]) simp_all
  note la = evaluated_length [OF va] and lb = evaluated_length [OF vb]
  show "length (tc_low ach) + length (tc_low bch) < length a + length b"
    "length (tc_high ach) + length (tc_high bch) < length a + length b"
    using ba bb small(1) by (auto simp: bounded_def)
  show "length (te_at_one av) + length (te_at_one bv) < length a + length b"
    "length (sd_digits (te_at_minus_one av)) + length (sd_digits (te_at_minus_one bv)) < length a + length b"
    "length (te_at_two av) + length (te_at_two bv) < length a + length b"
    using la lb small(1) by simp_all
qed

lemma ok_or_checked_mul: "(\<exists>m m'. ok_or e (checked_mul_usize a b) m = (Ok v, m')) \<Longrightarrow> v = a * b"
  by (drule ok_or_Ok) simp

function metered_toom3_digits ::
    "'m meter \<Rightarrow> ('m \<Rightarrow> nat \<Rightarrow> bool) \<Rightarrow> u32 list \<Rightarrow> u32 list \<Rightarrow> nat
      \<Rightarrow> ('m recursive_meter, mul_error, u32 list) metered"
  and metered_toom3_signed_product ::
    "'m meter \<Rightarrow> ('m \<Rightarrow> nat \<Rightarrow> bool) \<Rightarrow> bool \<Rightarrow> u32 list \<Rightarrow> bool \<Rightarrow> u32 list \<Rightarrow> nat
      \<Rightarrow> ('m recursive_meter, mul_error, signed_digits) metered" where
  "metered_toom3_digits M A a b depth =
     mbind (if depth \<noteq> 1 then rm_enter M depth else mret ()) (\<lambda>_.
     if a = [] \<or> b = [] then mret []
     else
       mbind (checked_product_capacity (length a) (length b)) (\<lambda>output_capacity.
       let max_digits = max (length a) (length b);
           min_digits = min (length a) (length b);
           chunk_digits = div_ceil max_digits 3
       in mbind (ok_or SizeOverflow (checked_mul_usize chunk_digits 2)) (\<lambda>chunk_digits_x2.
          if max_digits \<le> METERED_TOOM3_RECURSION_CUTOFF_DIGITS \<or> min_digits \<le> chunk_digits_x2
          then metered_karatsuba_digits_entered M A a b depth
          else
            mbind (ok_or SizeOverflow (checked_mul_usize chunk_digits 3)) (\<lambda>chunk_digits_x3.
            mbind (ok_or SizeOverflow (checked_mul_usize chunk_digits 4)) (\<lambda>chunk_digits_x4.
            mbind (ok_or SizeOverflow (checked_add_usize depth 1)) (\<lambda>child_depth.
            mbind mark_toom_node (\<lambda>_.
            mbind (on_meter (metered_split_three_slices M a chunk_digits chunk_digits_x2)) (\<lambda>ach.
            mbind (on_meter (metered_split_three_slices M b chunk_digits chunk_digits_x2)) (\<lambda>bch.
            mbind (on_meter (metered_evaluate_toom3_chunks M A (tc_low ach) (tc_middle ach) (tc_high ach)))
              (\<lambda>a_values.
            mbind (on_meter (metered_evaluate_toom3_chunks M A (tc_low bch) (tc_middle bch) (tc_high bch)))
              (\<lambda>b_values.
            mbind (metered_toom3_signed_product M A False (tc_low ach) False (tc_low bch) child_depth) (\<lambda>w0.
            mbind (metered_toom3_signed_product M A False (te_at_one a_values) False (te_at_one b_values)
              child_depth) (\<lambda>w1.
            mbind (metered_toom3_signed_product M A
              (sd_negative (te_at_minus_one a_values)) (sd_digits (te_at_minus_one a_values))
              (sd_negative (te_at_minus_one b_values)) (sd_digits (te_at_minus_one b_values))
              child_depth) (\<lambda>w_minus_one.
            mbind (metered_toom3_signed_product M A False (te_at_two a_values) False (te_at_two b_values)
              child_depth) (\<lambda>w2.
            mbind (metered_toom3_signed_product M A False (tc_high ach) False (tc_high bch) child_depth) (\<lambda>w4.
            mbind (on_meter (metered_interpolate_toom3 M A w0 w1 w_minus_one w2 w4)) (\<lambda>coefficients.
            on_meter (metered_recombine_toom3 M A coefficients
              [0, chunk_digits, chunk_digits_x2, chunk_digits_x3, chunk_digits_x4]
              output_capacity))))))))))))))))))"
| "metered_toom3_signed_product M A a_negative a b_negative b depth =
     mbind (metered_toom3_digits M A a b depth) (\<lambda>digits.
     mret (signed_digits_new (a_negative \<noteq> b_negative) digits))"
  by pat_completeness auto
termination
proof (relation "measure (\<lambda>x. case x of
      Inl (M, A, a, b, depth) \<Rightarrow> 2 * (length a + length b)
    | Inr (M, A, na, a, nb, b, depth) \<Rightarrow> 2 * (length a + length b) + 1)", goal_cases)
  case 1
  show ?case by simp
next
  case (2 M A a b depth u v p q k k2 c d e f ach bch av bv)
  show ?case
    using toom3_shrinks(1) [of k a b k2 M ach bch A av bv] ok_or_checked_mul [OF 2(7)] 2(4-6,8,13-16)
    by simp
next
  case (3 M A a b depth u v p q k k2 c d e f ach bch av bv)
  show ?case
    using toom3_shrinks(2) [of k a b k2 M ach bch A av bv] ok_or_checked_mul [OF 3(7)] 3(4-6,8,13-16)
    by simp
next
  case (4 M A a b depth u v p q k k2 c d e f ach bch av bv)
  show ?case
    using toom3_shrinks(3) [of k a b k2 M ach bch A av bv] ok_or_checked_mul [OF 4(7)] 4(4-6,8,13-16)
    by simp
next
  case (5 M A a b depth u v p q k k2 c d e f ach bch av bv)
  show ?case
    using toom3_shrinks(4) [of k a b k2 M ach bch A av bv] ok_or_checked_mul [OF 5(7)] 5(4-6,8,13-16)
    by simp
next
  case (6 M A a b depth u v p q k k2 c d e f ach bch av bv)
  show ?case
    using toom3_shrinks(5) [of k a b k2 M ach bch A av bv] ok_or_checked_mul [OF 6(7)] 6(4-6,8,13-16)
    by simp
next
  case 7
  show ?case by simp
qed

declare metered_toom3_digits.simps [simp del] metered_toom3_signed_product.simps [simp del]


section \<open>Correctness\<close>

text \<open>The product of two quadratics: its five coefficients, its values at the points, its value.\<close>

lemma toom_identity:
  fixes a0 a1 a2 b0 b1 b2 x :: nat
  shows "(a0 + a1 + a2) * (b0 + b1 + b2)
      = a0 * b0 + (a0 * b1 + a1 * b0) + (a0 * b2 + a1 * b1 + a2 * b0) + (a1 * b2 + a2 * b1) + a2 * b2"
    and "(int a0 - int a1 + int a2) * (int b0 - int b1 + int b2)
      = int (a0 * b0) - int (a0 * b1 + a1 * b0) + int (a0 * b2 + a1 * b1 + a2 * b0)
        - int (a1 * b2 + a2 * b1) + int (a2 * b2)"
    and "(a0 + 2 * a1 + 4 * a2) * (b0 + 2 * b1 + 4 * b2)
      = a0 * b0 + 2 * (a0 * b1 + a1 * b0) + 4 * (a0 * b2 + a1 * b1 + a2 * b0)
        + 8 * (a1 * b2 + a2 * b1) + 16 * (a2 * b2)"
    and "(a0 + x * a1 + x ^ 2 * a2) * (b0 + x * b1 + x ^ 2 * b2)
      = a0 * b0 + x * (a0 * b1 + a1 * b0) + x ^ 2 * (a0 * b2 + a1 * b1 + a2 * b0)
        + x ^ 3 * (a1 * b2 + a2 * b1) + x ^ 4 * (a2 * b2)"
  by (simp_all add: algebra_simps power2_eq_square power3_eq_cube power4_eq_xxxx)

lemma represents_product:
  assumes "product_of (sd_digits x) (sd_digits y) ds" and "represents n v x" and "represents n w y"
    and "length (sd_digits x) + length (sd_digits y) \<le> m"
  shows "represents m (v * w) (signed_digits_new (sd_negative x \<noteq> sd_negative y) ds)"
proof (rule represents_new)
  show "canonical ds" using assms(1) by (simp add: product_of_def)
  show "length ds \<le> m" using product_of_length [OF assms(1)] assms(4) by simp
  show "sval (sd_negative x \<noteq> sd_negative y) ds = v * w"
    using assms(1-3) by (auto simp: product_of_def represents_def sval_def)
qed

context kernel_meter
begin

lemma signed_product:
  assumes "meets F (rm_rel R) (product_of x y) (metered_toom3_digits M A x y depth)"
    and "length x + length y \<le> m"
  shows "meets F (rm_rel R) (represents m (sval nx x * sval ny y))
    (metered_toom3_signed_product M A nx x ny y depth)"
  apply (subst metered_toom3_signed_product.simps)
  apply (rule rbind [OF assms(1)], rule rret)
  subgoal for ds
    using assms(2) product_of_length [of x y ds]
    by (auto simp: product_of_def sval_def intro!: represents_new)
  done

lemma nonneg_product:
  assumes "meets F (rm_rel R) (product_of x y) (metered_toom3_digits M A x y depth)"
    and "bounded n v x" "bounded n w y" and "2 * n \<le> m"
  shows "meets F (rm_rel R) (represents m (int (v * w)))
    (metered_toom3_signed_product M A False x False y depth)"
  using signed_product [OF assms(1), of m False False] assms(2-4) by (simp add: bounded_def sval_def)

lemma toom3_products:
  assumes ca: "chunked k a ach" and cb: "chunked k b bch"
    and high: "length a - 2 * k \<le> k" "length b - 2 * k \<le> k"
    and k: "2 * k + 14 \<le> length a + length b" "4 * k \<le> length a + length b"
    and size: "\<And>n. n \<le> Suc (length a + length b) \<Longrightarrow> size_ok F n"
    and rec: "\<And>x y. canonical x \<Longrightarrow> canonical y \<Longrightarrow> length x + length y < length a + length b \<Longrightarrow>
      meets F (rm_rel R) (product_of x y) (metered_toom3_digits M A x y depth)"
  shows "meets F (rm_rel R) (product_of a b)
    (mbind (on_meter (metered_evaluate_toom3_chunks M A (tc_low ach) (tc_middle ach) (tc_high ach))) (\<lambda>a_values.
     mbind (on_meter (metered_evaluate_toom3_chunks M A (tc_low bch) (tc_middle bch) (tc_high bch))) (\<lambda>b_values.
     mbind (metered_toom3_signed_product M A False (tc_low ach) False (tc_low bch) depth) (\<lambda>w0.
     mbind (metered_toom3_signed_product M A False (te_at_one a_values) False (te_at_one b_values) depth) (\<lambda>w1.
     mbind (metered_toom3_signed_product M A
       (sd_negative (te_at_minus_one a_values)) (sd_digits (te_at_minus_one a_values))
       (sd_negative (te_at_minus_one b_values)) (sd_digits (te_at_minus_one b_values)) depth) (\<lambda>w_minus_one.
     mbind (metered_toom3_signed_product M A False (te_at_two a_values) False (te_at_two b_values) depth) (\<lambda>w2.
     mbind (metered_toom3_signed_product M A False (tc_high ach) False (tc_high bch) depth) (\<lambda>w4.
     mbind (on_meter (metered_interpolate_toom3 M A w0 w1 w_minus_one w2 w4)) (\<lambda>coefficients.
     on_meter (metered_recombine_toom3 M A coefficients [0, k, k * 2, k * 3, k * 4]
       (length a + length b)))))))))))"
proof -
  obtain a0 a1 a2 where ach: "ach = \<lparr>tc_low = a0, tc_middle = a1, tc_high = a2\<rparr>" by (cases ach)
  obtain b0 b1 b2 where bch: "bch = \<lparr>tc_low = b0, tc_middle = b1, tc_high = b2\<rparr>" by (cases bch)
  have sz: "size_ok F (k + 3)" "size_ok F (2 * (k + 3) + 8)" "size_ok F (Suc (length a + length b))"
    using k(1) by (auto intro!: size)
  have ba: "bounded k (dval a0) a0" "bounded k (dval a1) a1" "bounded k (dval a2) a2"
    and bb: "bounded k (dval b0) b0" "bounded k (dval b1) b1" "bounded k (dval b2) b2"
    using chunked_bounded [OF ca high(1)] chunked_bounded [OF cb high(2)] by (simp_all add: ach bch)
  note id = toom_identity [of "dval a0" "dval a1" "dval a2" "dval b0" "dval b1" "dval b2"]
  have product: "dval a * dval b = dval a0 * dval b0 + radix ^ k * (dval a0 * dval b1 + dval a1 * dval b0)
      + radix ^ (2 * k) * (dval a0 * dval b2 + dval a1 * dval b1 + dval a2 * dval b0)
      + radix ^ (3 * k) * (dval a1 * dval b2 + dval a2 * dval b1) + radix ^ (4 * k) * (dval a2 * dval b2)"
    using toom_identity(4) [of "dval a0" "radix ^ k" "dval a1" "dval a2" "dval b0" "dval b1" "dval b2"] ca cb
    by (simp add: chunked_def ach bch power_mult [symmetric] mult.commute [of k])
  have rec': "meets F (rm_rel R) (product_of x y) (metered_toom3_digits M A x y depth)"
    if "canonical x" "canonical y" "length x \<le> k + 3" "length y \<le> k + 3" for x y
    using that k(1) by (intro rec) auto
  have nonneg: "meets F (rm_rel R) (represents (2 * (k + 3)) (int (v * w)))
      (metered_toom3_signed_product M A False x False y depth)"
    if "bounded (k + 3) v x" "bounded (k + 3) w y" for x y v w
    using that by (intro nonneg_product [where n = "k + 3"] rec') (auto simp: bounded_def)
  have signed: "meets F (rm_rel R) (represents (2 * (k + 3)) (v * w))
      (metered_toom3_signed_product M A (sd_negative x) (sd_digits x) (sd_negative y) (sd_digits y) depth)"
    if "represents (k + 3) v x" "represents (k + 3) w y" for x y v w
    using that signed_product [OF rec', of "sd_digits x" "sd_digits y" "2 * (k + 3)"]
    by (auto simp: represents_def)
  note up = bounded_mono [OF _ le_add1]
  show ?thesis
    unfolding ach bch toom_chunks.simps
    apply (rule rbind [OF on_meter [OF evaluate_toom3_chunks [OF ba sz(1)]]])
    apply (rule rbind [OF on_meter [OF evaluate_toom3_chunks [OF bb sz(1)]]])
    unfolding evaluated_def
    apply (elim conjE)
    apply (rule rbind [OF nonneg [OF up [OF ba(1)] up [OF bb(1)]]])
    apply (rule rbind [OF nonneg], assumption, assumption)
    apply (rule rbind [OF signed], assumption, assumption)
    apply (rule rbind [OF nonneg], assumption, assumption)
    apply (rule rbind [OF nonneg [OF up [OF ba(3)] up [OF bb(3)]]])
    unfolding id(1-3)
    apply (rule rbind [OF on_meter [OF interpolate_toom3 [OF _ _ _ _ _ sz(2)]]],
        assumption, assumption, assumption, assumption, assumption)
    apply (rule on_meter, rule meets_post [OF recombine_toom3], assumption, rule k(2), rule sz(3), rule refl)
    using dval_mult_lt [of a b] by (simp_all only: product [symmetric] product_of_def)
qed

lemma toom3:
  assumes "canonical a" and "canonical b" and "size_ok F (depth + 4 * (length a + length b))"
  shows "meets F (rm_rel R) (product_of a b) (metered_toom3_digits M A a b depth)"
  using assms
proof (induction "length a + length b" arbitrary: a b depth rule: less_induct)
  case less
  have size: "size_ok F n" if "n \<le> depth + 4 * (length a + length b)" for n
    using less.prems(3) that by (rule size_ok_le)
  define k where "k = div_ceil (max (length a) (length b)) 3"
  have enter_ok: "meets F (rm_rel R) (\<lambda>_. True) (if depth \<noteq> 1 then rm_enter M depth else mret ())"
    using enter [OF size, of depth] by (simp add: rret)
  show ?case
  proof (cases "a = [] \<or> b = []")
    case True
    then show ?thesis
      by (subst metered_toom3_digits.simps, intro rbind [OF enter_ok]) (auto simp: product_of_def intro!: rret)
  next
    case ne: False
    then have pos: "1 \<le> length a" "1 \<le> length b" by (simp_all add: Suc_leI)
    have k4: "4 * k \<le> 4 * (length a + length b)"
      unfolding k_def div_ceil_def using pos by simp
    have cap: "meets F (rm_rel R) (\<lambda>r. r = length a + length b)
        (checked_product_capacity (length a) (length b))"
      unfolding checked_product_capacity_def by (rule rchecked_add) (rule size, simp)
    have mul: "meets F (rm_rel R) (\<lambda>r. r = k * j) (ok_or SizeOverflow (checked_mul_usize k j))"
      if "j \<le> 4" for j
    proof (rule rchecked_mul, rule size)
      have "k * j \<le> 4 * k" using that by simp
      also have "\<dots> \<le> 4 * (length a + length b)" by (rule k4)
      also have "\<dots> \<le> depth + 4 * (length a + length b)" by simp
      finally show "k * j \<le> depth + 4 * (length a + length b)" .
    qed
    have dep: "meets F (rm_rel R) (\<lambda>r. r = depth + 1) (ok_or SizeOverflow (checked_add_usize depth 1))"
      by (rule rchecked_add, rule size) (use pos in simp)
    show ?thesis
    proof (cases "max (length a) (length b) \<le> METERED_TOOM3_RECURSION_CUTOFF_DIGITS
        \<or> min (length a) (length b) \<le> k * 2")
      case True
      show ?thesis
        apply (subst metered_toom3_digits.simps)
        apply (rule rbind [OF enter_ok])
        apply (simp only: if_not_P [OF ne] Let_def k_def [symmetric])
        apply (rule rbind [OF cap], rule rbind [OF mul], simp)
        using True karatsuba_entered [OF less.prems] by simp
    next
      case deep: False
      note small = toom3_split_small [OF deep[unfolded k_def], folded k_def]
      have rec: "meets F (rm_rel R) (product_of x y) (metered_toom3_digits M A x y (depth + 1))"
        if "canonical x" "canonical y" "length x + length y < length a + length b" for x y
        using that by (intro less.hyps size) auto
      have sz: "size_ok F n" if "n \<le> Suc (length a + length b)" for n
        by (rule size) (use that pos in simp)
      have products: "meets F (rm_rel R) (product_of a b)
       (mbind (on_meter (metered_split_three_slices M a k (k * 2))) (\<lambda>ach.
        mbind (on_meter (metered_split_three_slices M b k (k * 2))) (\<lambda>bch.
        mbind (on_meter (metered_evaluate_toom3_chunks M A (tc_low ach) (tc_middle ach) (tc_high ach))) (\<lambda>a_values.
        mbind (on_meter (metered_evaluate_toom3_chunks M A (tc_low bch) (tc_middle bch) (tc_high bch))) (\<lambda>b_values.
        mbind (metered_toom3_signed_product M A False (tc_low ach) False (tc_low bch) (depth + 1)) (\<lambda>w0.
        mbind (metered_toom3_signed_product M A False (te_at_one a_values) False (te_at_one b_values) (depth + 1)) (\<lambda>w1.
        mbind (metered_toom3_signed_product M A
          (sd_negative (te_at_minus_one a_values)) (sd_digits (te_at_minus_one a_values))
          (sd_negative (te_at_minus_one b_values)) (sd_digits (te_at_minus_one b_values)) (depth + 1)) (\<lambda>w_minus_one.
        mbind (metered_toom3_signed_product M A False (te_at_two a_values) False (te_at_two b_values) (depth + 1)) (\<lambda>w2.
        mbind (metered_toom3_signed_product M A False (tc_high ach) False (tc_high bch) (depth + 1)) (\<lambda>w4.
        mbind (on_meter (metered_interpolate_toom3 M A w0 w1 w_minus_one w2 w4)) (\<lambda>coefficients.
        on_meter (metered_recombine_toom3 M A coefficients [0, k, k * 2, k * 3, k * 4]
          (length a + length b)))))))))))))"
        by (rule rbind [OF on_meter [OF split_three_slices]], use small in simp,
            rule rbind [OF on_meter [OF split_three_slices]], use small in simp)
          (rule toom3_products [OF _ _ small(2,3,1,6) sz rec])
      show ?thesis
        apply (subst metered_toom3_digits.simps)
        apply (rule rbind [OF enter_ok])
        apply (simp only: if_not_P [OF ne] Let_def k_def [symmetric])
        apply (rule rbind [OF cap], hypsubst, rule rbind [OF mul], simp, hypsubst)
        apply (simp only: if_not_P [OF deep])
        apply (rule rbind [OF mul], simp, hypsubst, rule rbind [OF mul], simp, hypsubst)
        apply (rule rbind [OF dep], hypsubst, rule rbind [where Q = "\<lambda>_. True"])
         apply (simp add: mark_toom_node_def rret)
        by (rule products)
    qed
  qed
qed

end

end
