(* ===== verification/Limb_Lanes.thy ===== *)
theory Limb_Lanes
  imports Digit_Kernels
begin

unbundle bit_operations_syntax

text \<open>
  The digit lanes of the cancellation-first scalar operations of \<open>crates/fsym-bigint/src/lib.rs\<close>:
  \<open>add_digits\<close>, \<open>copy_u32_digits\<close>, \<open>shift_left_one\<close>, \<open>compare_digits\<close>, \<open>subtract_digits\<close> and
  \<open>trim_digits\<close>. They fail only with the meter's own error; an index out of range or a failing
  \<open>debug_assert\<close> is \<open>Panic\<close>, and that neither happens is part of each lemma.
\<close>

section \<open>Operations\<close>

definition copy_u32_digits :: "'m meter \<Rightarrow> u32 list \<Rightarrow> ('m, meter_error, u32 list) metered" where
  "copy_u32_digits M ds =
     mfor ds (\<lambda>digit digits. mbind (tick M) (\<lambda>_. mret (digits @ [digit]))) []"

definition add_lane_step ::
  "'m meter \<Rightarrow> u32 list \<Rightarrow> u32 list \<Rightarrow> nat \<Rightarrow> u32 list \<times> u64 \<Rightarrow> ('m, meter_error, u32 list \<times> u64) metered"
  where
  "add_lane_step M lhs rhs index = (\<lambda>(output, carry).
     mbind (tick M) (\<lambda>_.
       let sum = widen (get_or 0 lhs index) + widen (get_or 0 rhs index) + carry
       in mret (output @ [low_digit sum], high_part sum)))"

definition add_digits :: "'m meter \<Rightarrow> u32 list \<Rightarrow> u32 list \<Rightarrow> ('m, meter_error, u32 list) metered" where
  "add_digits M lhs rhs =
     mbind (mfor [0..<max (length lhs) (length rhs)] (add_lane_step M lhs rhs) ([], 0))
       (\<lambda>(output, carry).
         if carry \<noteq> 0 then mbind (tick M) (\<lambda>_. mret (output @ [low_digit carry]))
         else mret output)"

definition shift_step ::
  "'m meter \<Rightarrow> nat \<Rightarrow> u32 list \<times> u32 \<Rightarrow> ('m, meter_error, u32 list \<times> u32) metered" where
  "shift_step M index = (\<lambda>(digits, carry).
     mbind (tick M) (\<lambda>_.
       let next_carry = drop_bit 31 (digits ! index)
       in mret (digits[index := push_bit 1 (digits ! index) OR carry], next_carry)))"

definition shift_left_one :: "'m meter \<Rightarrow> u32 list \<Rightarrow> ('m, meter_error, u32 list) metered" where
  "shift_left_one M digits =
     mbind (mfor [0..<length digits] (shift_step M) (digits, 0)) (\<lambda>(digits, carry).
       if carry \<noteq> 0 then mbind (tick M) (\<lambda>_. mret (digits @ [carry]))
       else mret digits)"

fun compare_lane :: "'m meter \<Rightarrow> (u32 \<times> u32) list \<Rightarrow> ('m, meter_error, ordering) metered" where
  "compare_lane M [] = mret Equal"
| "compare_lane M ((lhs_digit, rhs_digit) # rest) =
     mbind (tick M) (\<lambda>_.
       case compare lhs_digit rhs_digit of
         Equal \<Rightarrow> compare_lane M rest
       | other \<Rightarrow> mret other)"

definition compare_digits :: "'m meter \<Rightarrow> u32 list \<Rightarrow> u32 list \<Rightarrow> ('m, meter_error, ordering) metered" where
  "compare_digits M lhs rhs =
     (case compare (length lhs) (length rhs) of
        Equal \<Rightarrow> compare_lane M (zip (rev lhs) (rev rhs))
      | other \<Rightarrow> mret other)"

function (sequential) trim_digits :: "'m meter \<Rightarrow> u32 list \<Rightarrow> ('m, meter_error, u32 list) metered" where
  "trim_digits M digits =
     (if digits \<noteq> [] \<and> last digits = 0
      then mbind (tick M) (\<lambda>_. trim_digits M (butlast digits))
      else mret digits)"
  by pat_completeness auto
termination by (relation "measure (\<lambda>(M, digits). length digits)") auto

declare trim_digits.simps [simp del]

text \<open>\<open>u32::try_from(v).unwrap_or(0)\<close>.\<close>

definition u32_or_0 :: "u64 \<Rightarrow> u32" where
  "u32_or_0 v = (if unat v < radix then low_digit v else 0)"

definition sub_lane_step ::
  "'m meter \<Rightarrow> u32 list \<Rightarrow> nat \<Rightarrow> u32 list \<times> u64 \<Rightarrow> ('m, meter_error, u32 list \<times> u64) metered" where
  "sub_lane_step M rhs index = (\<lambda>(digits, borrow).
     mbind (tick M) (\<lambda>_.
       let rhs_digit = widen (get_or 0 rhs index);
           subtrahend = rhs_digit + borrow;
           lhs_value = widen (digits ! index)
       in if lhs_value \<ge> subtrahend
          then mret (digits[index := u32_or_0 (lhs_value - subtrahend)], 0)
          else mret (digits[index := u32_or_0 (push_bit 32 1 + lhs_value - subtrahend)], 1)))"

definition subtract_digits :: "'m meter \<Rightarrow> u32 list \<Rightarrow> u32 list \<Rightarrow> ('m, meter_error, u32 list) metered" where
  "subtract_digits M lhs rhs =
     mbind (mfor [0..<length lhs] (sub_lane_step M rhs) (lhs, 0)) (\<lambda>(digits, borrow).
       if borrow \<noteq> 0 then mpanic else trim_digits M digits)"


section \<open>What the lanes deliver\<close>

text \<open>Writing slot \<open>k\<close> of a buffer whose first \<open>k\<close> slots are done.\<close>

lemma take_Suc_update: "k < length ds \<Longrightarrow> take (Suc k) (ds[k := x]) = take k ds @ [x]"
  by (simp add: take_Suc_conv_app_nth)

lemma double_split: "m + 2 ^ 31 * q = d \<Longrightarrow> 2 * d = 2 * m + radix * (q :: nat)"
  by simp

lemma shift_digit:
  assumes "unat c \<le> 1"
  shows "unat (push_bit 1 d OR c :: u32) + radix * unat (drop_bit 31 d) = 2 * unat d + unat c"
    and "unat (drop_bit 31 d :: u32) \<le> 1"
proof -
  have d: "unat d < radix" by (rule unat_u32_lt)
  have quot: "unat (drop_bit 31 d) = unat d div 2 ^ 31"
    by (simp only: unat_drop_bit_eq) (simp add: drop_bit_eq_div)
  show "unat (drop_bit 31 d :: u32) \<le> 1" using d by (simp add: quot less_mult_imp_div_less)
  have "c = 0 \<or> c = 1" using assms by (metis le_Suc_eq le_zero_eq One_nat_def unat_1 unat_eq_zero word_unat_eq_iff)
  then have "push_bit 1 d AND c = 0"
    by (auto simp: and_one_eq mod2_eq_if)
  then have "push_bit 1 d OR c = push_bit 1 d + c" by (simp add: disjunctive_add_eq_or)
  moreover have "unat (push_bit 1 d) = (2 * unat d) mod radix"
    by (simp add: push_bit_eq_mult unat_word_ariths mult.commute)
  moreover have "(2 * unat d) mod radix = 2 * (unat d mod 2 ^ 31)"
    by (simp add: mult_mod_right)
  moreover have "2 * (unat d mod 2 ^ 31) + unat c < radix"
    using assms mod_less_divisor [of "2 ^ 31" "unat d"] by simp
  ultimately have "unat (push_bit 1 d OR c) = 2 * (unat d mod 2 ^ 31) + unat c"
    by (simp add: unat_word_ariths)
  moreover have "2 * unat d = 2 * (unat d mod 2 ^ 31) + radix * (unat d div 2 ^ 31)"
    by (rule double_split) (rule mod_mult_div_eq)
  ultimately show "unat (push_bit 1 d OR c) + radix * unat (drop_bit 31 d) = 2 * unat d + unat c"
    by (simp add: quot)
qed

text \<open>The \<open>unwrap_or(0)\<close> of a borrow step is never taken.\<close>

lemma sub_lane_no_borrow:
  assumes "unat b \<le> 1" and le: "widen l \<ge> widen r + b"
  shows "unat (u32_or_0 (widen l - (widen r + b))) + unat r + unat b = unat l"
proof -
  have "unat (widen l - (widen r + b)) \<le> unat l" using le by (simp add: unat_sub)
  then have "unat (widen l - (widen r + b)) < radix" using unat_u32_lt [of l] by simp
  then show ?thesis using sub_digit_no_borrow [OF assms] by (simp only: u32_or_0_def if_True)
qed

lemma sub_lane_borrow:
  assumes "unat b \<le> 1" and lt: "\<not> widen l \<ge> widen r + b"
  shows "unat (u32_or_0 (push_bit 32 1 + widen l - (widen r + b))) + unat r + unat b = unat l + radix"
proof -
  have less: "unat l < unat r + unat b" using assms by (simp add: word_le_nat_alt unat_subtrahend)
  have r: "unat r < radix" "unat l < radix" by (rule unat_u32_lt)+
  have one: "unat (push_bit 32 1 :: u64) = radix" by simp
  have 1: "unat (push_bit 32 1 + widen l) = radix + unat l"
    using r by (subst unat_add_exact) (simp_all add: one)
  have le: "widen r + b \<le> push_bit 32 1 + widen l"
    using assms(1) r by (simp only: word_le_nat_alt 1 unat_subtrahend)
  have "unat (push_bit 32 1 + widen l - (widen r + b)) = radix + unat l - (unat r + unat b)"
    using assms(1) by (simp only: unat_sub [OF le] 1 unat_subtrahend)
  then have "unat (push_bit 32 1 + widen l - (widen r + b)) < radix" using less by simp
  then show ?thesis using sub_digit_borrow [OF assms] by (simp only: u32_or_0_def if_True)
qed

context budget_meter
begin

lemma copy_lane: "meets E R (\<lambda>r. r = ds) (copy_u32_digits M ds)"
proof -
  have "meets E R (\<lambda>r. r = take (length ds) ds) (copy_u32_digits M ds)"
    unfolding copy_u32_digits_def
    by (rule loop [where I = "\<lambda>k r. r = take k ds"]) (auto intro!: after_tick simp: take_Suc_conv_app_nth)
  then show ?thesis by simp
qed

lemma add_lane: "meets E R (\<lambda>r. dval r = dval lhs + dval rhs) (add_digits M lhs rhs)"
proof -
  let ?n = "max (length lhs) (length rhs)"
  have "meets E R (\<lambda>(out, carry). length out = length [0..<?n] \<and> unat carry < radix \<and>
       dval out + radix ^ length [0..<?n] * unat carry
         = dval (take (length [0..<?n]) lhs) + dval (take (length [0..<?n]) rhs))
     (mfor [0..<?n] (add_lane_step M lhs rhs) ([], 0))"
  proof (rule loop [where I = "\<lambda>k (out, carry). length out = k \<and> unat carry < radix \<and>
        dval out + radix ^ k * unat carry = dval (take k lhs) + dval (take k rhs)"])
    fix k and t :: "u32 list \<times> u64"
    assume k: "k < length [0..<?n]"
      and inv: "case t of (out, carry) \<Rightarrow> length out = k \<and> unat carry < radix \<and>
        dval out + radix ^ k * unat carry = dval (take k lhs) + dval (take k rhs)"
    obtain out carry where t: "t = (out, carry)" by (cases t)
    define v where "v = widen (get_or 0 lhs k) + widen (get_or 0 rhs k) + carry"
    have v: "unat v = unat (get_or 0 lhs k) + unat (get_or 0 rhs k) + unat carry"
      using inv t by (simp add: v_def unat_add3_carry)
    have "dval (out @ [low_digit v]) + radix ^ Suc k * unat (high_part v)
        = dval (take (Suc k) lhs) + dval (take (Suc k) rhs)"
      using dval_emit [of out v] inv t by (simp add: v dval_take_Suc algebra_simps)
    then show "meets E R (\<lambda>(out, carry). length out = Suc k \<and> unat carry < radix \<and>
        dval out + radix ^ Suc k * unat carry = dval (take (Suc k) lhs) + dval (take (Suc k) rhs))
       (add_lane_step M lhs rhs ([0..<?n] ! k) t)"
      using inv t k by (auto simp: add_lane_step_def v_def [symmetric] high_part_lt intro!: after_tick)
  qed simp
  then show ?thesis
    unfolding add_digits_def
    by (rule bind) (auto simp: dval_snoc low_digit_of_carry intro!: after_tick)
qed

lemma shift_lane:
  "meets E R (\<lambda>r. dval r = 2 * dval ds \<and> (canonical ds \<longrightarrow> canonical r)) (shift_left_one M ds)"
proof -
  let ?I = "\<lambda>k (out, c). length out = length ds \<and> unat c \<le> 1 \<and> drop k out = drop k ds \<and>
      dval (take k out) + radix ^ k * unat c = 2 * dval (take k ds)"
  have "meets E R (?I (length [0..<length ds])) (mfor [0..<length ds] (shift_step M) (ds, 0))"
  proof (rule loop [where I = ?I])
    fix k and t :: "u32 list \<times> u32"
    assume "k < length [0..<length ds]" and inv: "?I k t"
    then have k: "k < length ds" by simp
    obtain out c where t: "t = (out, c)" by (cases t)
    have o: "length out = length ds" "unat c \<le> 1" "drop k out = drop k ds"
      "dval (take k out) + radix ^ k * unat c = 2 * dval (take k ds)" using inv by (simp_all add: t)
    have ok: "out ! k = ds ! k" "drop (Suc k) out = drop (Suc k) ds" "get_or 0 ds k = ds ! k"
      using o(1,3) k by (auto simp: Cons_nth_drop_Suc [symmetric] get_or_def)
    define x where "x = push_bit 1 (ds ! k) OR c"
    have "radix ^ k * (unat x + radix * unat (drop_bit 31 (ds ! k))) = radix ^ k * (2 * unat (ds ! k) + unat c)"
      by (simp only: x_def shift_digit(1) [OF o(2)])
    then have "dval (take (Suc k) (out[k := x])) + radix ^ Suc k * unat (drop_bit 31 (ds ! k))
        = 2 * dval (take (Suc k) ds)"
      using o k by (simp add: take_Suc_update dval_snoc dval_take_Suc ok algebra_simps)
    moreover have "shift_step M ([0..<length ds] ! k) t
        = mbind (tick M) (\<lambda>_. mret (out[k := x], drop_bit 31 (ds ! k)))"
      using k by (simp only: shift_step_def t prod.case Let_def x_def ok nth_upt add_0 length_upt diff_zero)
    ultimately show "meets E R (?I (Suc k)) (shift_step M ([0..<length ds] ! k) t)"
      using k o ok shift_digit(2) [OF o(2)] by (auto intro!: after_tick ret)
  qed simp
  then show ?thesis
    unfolding shift_left_one_def
  proof (rule bind, clarify)
    fix out :: "u32 list" and c :: u32
    assume out: "length out = length ds" "unat c \<le> 1"
      "dval (take (length [0..<length ds]) out) + radix ^ length [0..<length ds] * unat c
        = 2 * dval (take (length [0..<length ds]) ds)"
    have "canonical out" if "c = 0" "canonical ds"
    proof (rule canonical_of_ge)
      assume "out \<noteq> []"
      then have "radix ^ (length ds - 1) \<le> dval ds" using out that by (intro canonical_ge) auto
      then show "radix ^ (length out - 1) \<le> dval out" using out that by simp
    qed
    then show "meets E R (\<lambda>r. dval r = 2 * dval ds \<and> (canonical ds \<longrightarrow> canonical r))
        (if c \<noteq> 0 then mbind (tick M) (\<lambda>_. mret (out @ [c])) else mret out)"
      using out by (auto simp: dval_snoc intro!: after_tick)
  qed
qed

lemma compare_lane_top:
  "length xs = length ys \<Longrightarrow>
   meets E R (\<lambda>r. r = compare (dval (rev xs)) (dval (rev ys))) (compare_lane M (zip xs ys))"
proof (induction xs ys rule: list_induct2)
  case Nil
  then show ?case by (simp add: compare_def)
next
  case (Cons x xs y ys)
  then show ?case
    by (auto simp: compare_snoc intro!: after_tick split: ordering.splits)
qed

lemma compare_lanes:
  assumes "canonical xs" and "canonical ys"
  shows "meets E R (\<lambda>r. r = compare (dval xs) (dval ys)) (compare_digits M xs ys)"
proof (cases "length xs = length ys")
  case True
  then show ?thesis using compare_lane_top [of "rev xs" "rev ys"]
    by (simp add: compare_digits_def compare_def)
next
  case False
  then show ?thesis using compare_length_canonical [OF assms False]
    by (cases rule: linorder_cases [of "length xs" "length ys"]) (simp_all add: compare_digits_def)
qed

lemma trim_lane: "meets E R (trimmed ds) (trim_digits M ds)"
proof (induction ds rule: length_induct)
  case (1 ds)
  show ?case
  proof (cases "ds = [] \<or> last ds \<noteq> 0")
    case True
    then show ?thesis
      by (subst trim_digits.simps) (auto simp: trimmed_def canonical_def)
  next
    case False
    then have "meets E R (trimmed (butlast ds)) (trim_digits M (butlast ds))" using 1 by simp
    then have "meets E R (trimmed ds) (trim_digits M (butlast ds))"
      using False by (auto elim: meets_post intro: trimmed_butlast)
    then show ?thesis
      using False by (subst trim_digits.simps) (simp add: after_tick)
  qed
qed

lemma subtract_lane:
  assumes le: "dval rhs \<le> dval lhs" and len: "length rhs \<le> length lhs"
  shows "meets E R (\<lambda>r. canonical r \<and> dval r = dval lhs - dval rhs \<and> length r \<le> length lhs)
    (subtract_digits M lhs rhs)"
proof -
  let ?I = "\<lambda>k (out, b). length out = length lhs \<and> unat b \<le> 1 \<and> drop k out = drop k lhs \<and>
      dval (take k lhs) + radix ^ k * unat b = dval (take k out) + dval (take k rhs)"
  have "meets E R (?I (length [0..<length lhs])) (mfor [0..<length lhs] (sub_lane_step M rhs) (lhs, 0))"
  proof (rule loop [where I = ?I])
    fix k and t :: "u32 list \<times> u64"
    assume "k < length [0..<length lhs]" and inv: "?I k t"
    then have k: "k < length lhs" by simp
    obtain out b where t: "t = (out, b)" by (cases t)
    have o: "length out = length lhs" "unat b \<le> 1" "drop k out = drop k lhs"
      "dval (take k lhs) + radix ^ k * unat b = dval (take k out) + dval (take k rhs)"
      using inv by (simp_all add: t)
    have ok: "out ! k = lhs ! k" "drop (Suc k) out = drop (Suc k) lhs" "get_or 0 lhs k = lhs ! k"
      using o(1,3) k by (auto simp: Cons_nth_drop_Suc [symmetric] get_or_def)
    have step: "dval (take (Suc k) lhs) + radix ^ Suc k * c
        = dval (take (Suc k) (out[k := x])) + dval (take (Suc k) rhs)"
      if x: "unat x + unat (get_or 0 rhs k) + unat b = unat (lhs ! k) + radix * c" for x c
    proof -
      have "radix ^ k * (unat x + unat (get_or 0 rhs k) + unat b) = radix ^ k * (unat (lhs ! k) + radix * c)"
        by (simp only: x)
      then show ?thesis
        using o k by (simp add: take_Suc_update dval_snoc dval_take_Suc ok algebra_simps)
    qed
    show "meets E R (?I (Suc k)) (sub_lane_step M rhs ([0..<length lhs] ! k) t)"
      using step [of _ 0] step [of _ 1] sub_lane_no_borrow [OF o(2)] sub_lane_borrow [OF o(2)] k o ok
      by (auto simp: sub_lane_step_def t Let_def intro!: after_tick)
  qed simp
  then show ?thesis
    unfolding subtract_digits_def
  proof (rule bind, clarify)
    fix out :: "u32 list" and b :: u64
    assume out: "length out = length lhs" "unat b \<le> 1"
      "dval (take (length [0..<length lhs]) lhs) + radix ^ length [0..<length lhs] * unat b
        = dval (take (length [0..<length lhs]) out) + dval (take (length [0..<length lhs]) rhs)"
    have "unat b = 0"
    proof (rule ccontr)
      assume "unat b \<noteq> 0"
      then have "unat b = 1" using out(2) by simp
      then show False using out(1,3) dval_lt [of out] len le by simp
    qed
    then have "b = 0" by (simp add: unat_eq_zero)
    then show "meets E R (\<lambda>r. canonical r \<and> dval r = dval lhs - dval rhs \<and> length r \<le> length lhs)
        (if b \<noteq> 0 then mpanic else trim_digits M out)"
      using out len by (auto simp: trimmed_def intro: meets_post [OF trim_lane])
  qed
qed

end

end
