(* ===== verification/Substrate.thy ===== *)
theory Substrate
  imports Limb_Lanes
begin

text \<open>
  The provisional substrate under \<open>BigInt\<close>: \<open>num_bigint::BigInt\<close>, a third-party type that the
  crate reads through \<open>sign\<close>, \<open>iter_u32_digits\<close> and \<open>bits\<close> and builds through \<open>from_biguint\<close>,
  \<open>zero\<close>, \<open>one\<close>, \<open>from\<close> and negation. It is a parameter of the model: a record of those operations
  over an arbitrary type, with the documented behaviour as the laws of the locale \<open>substrate\<close>. The
  integers with computed digits are one instance, on which the theorems are also evaluated.

  \<open>bits\<close> is a \<open>u64\<close> in the crate; here it is the mathematical bit length, a natural number.
\<close>

datatype sign = Minus | NoSign | Plus

instantiation sign :: linorder
begin

fun sign_rank :: "sign \<Rightarrow> nat" where
  "sign_rank Minus = 0"
| "sign_rank NoSign = 1"
| "sign_rank Plus = 2"

definition less_eq_sign :: "sign \<Rightarrow> sign \<Rightarrow> bool" where
  "s \<le> t \<longleftrightarrow> sign_rank s \<le> sign_rank t"

definition less_sign :: "sign \<Rightarrow> sign \<Rightarrow> bool" where
  "s < t \<longleftrightarrow> sign_rank s < sign_rank t"

instance
proof
  fix s t u :: sign
  show "s < t \<longleftrightarrow> s \<le> t \<and> \<not> t \<le> s" by (auto simp: less_eq_sign_def less_sign_def)
  show "s \<le> s" by (simp add: less_eq_sign_def)
  show "s \<le> t \<Longrightarrow> t \<le> u \<Longrightarrow> s \<le> u" by (simp add: less_eq_sign_def)
  show "s \<le> t \<Longrightarrow> t \<le> s \<Longrightarrow> s = t" by (cases s; cases t) (simp_all add: less_eq_sign_def)
  show "s \<le> t \<or> t \<le> s" by (auto simp: less_eq_sign_def)
qed

end

fun opposite_sign :: "sign \<Rightarrow> sign" where
  "opposite_sign Minus = Plus"
| "opposite_sign NoSign = NoSign"
| "opposite_sign Plus = Minus"

text \<open>\<open>sb_from_biguint s ds\<close> is \<open>Substrate::from_biguint(s, BigUint::new(ds))\<close>.\<close>

record 'n substrate =
  sb_sign :: "'n \<Rightarrow> sign"
  sb_digits :: "'n \<Rightarrow> u32 list"
  sb_bits :: "'n \<Rightarrow> nat"
  sb_from_biguint :: "sign \<Rightarrow> u32 list \<Rightarrow> 'n"
  sb_zero :: 'n
  sb_one :: 'n
  sb_two :: 'n
  sb_neg :: "'n \<Rightarrow> 'n"

text \<open>The integer a substrate value stands for.\<close>

definition bval :: "'n substrate \<Rightarrow> 'n \<Rightarrow> int" where
  "bval S n = (if sb_sign S n = Minus then - int (dval (sb_digits S n)) else int (dval (sb_digits S n)))"

section \<open>\<open>BigInt\<close> over the substrate\<close>

definition is_zero :: "'n substrate \<Rightarrow> 'n \<Rightarrow> bool" where
  "is_zero S n \<longleftrightarrow> sb_sign S n = NoSign"

definition is_one :: "'n substrate \<Rightarrow> 'n \<Rightarrow> bool" where
  "is_one S n \<longleftrightarrow> n = sb_one S"

definition is_negative :: "'n substrate \<Rightarrow> 'n \<Rightarrow> bool" where
  "is_negative S n \<longleftrightarrow> sb_sign S n = Minus"

definition limb_count_u64 :: "nat \<Rightarrow> u64" where
  "limb_count_u64 magnitude_bits = of_nat (div_ceil magnitude_bits 64)"

definition limb_count :: "'n substrate \<Rightarrow> 'n \<Rightarrow> u64" where
  "limb_count S n = limb_count_u64 (sb_bits S n)"

definition nonzero_new :: "'n substrate \<Rightarrow> 'n \<Rightarrow> 'n option" where
  "nonzero_new S n = (if is_zero S n then None else Some n)"

section \<open>Documented behaviour\<close>

locale substrate =
  fixes S :: "'n substrate"
  assumes digits_canonical [simp]: "canonical (sb_digits S n)"
    and sign_zero: "sb_sign S n = NoSign \<longleftrightarrow> sb_digits S n = []"
    and extensional: "sb_sign S m = sb_sign S n \<Longrightarrow> sb_digits S m = sb_digits S n \<Longrightarrow> m = n"
    and from_sign: "sb_sign S (sb_from_biguint S s ds) = (if dval ds = 0 then NoSign else s)"
    and from_digits: "dval (sb_digits S (sb_from_biguint S s ds)) = (if s = NoSign then 0 else dval ds)"
    and zero: "sb_digits S (sb_zero S) = []"
    and one: "sb_sign S (sb_one S) = Plus" "sb_digits S (sb_one S) = [1]"
    and two: "sb_sign S (sb_two S) = Plus" "sb_digits S (sb_two S) = [2]"
    and neg: "sb_sign S (sb_neg S n) = opposite_sign (sb_sign S n)"
      "sb_digits S (sb_neg S n) = sb_digits S n"
    and bits_upper: "dval (sb_digits S n) < 2 ^ sb_bits S n"
    and bits_lower: "sb_bits S n = 0 \<or> 2 ^ (sb_bits S n - 1) \<le> dval (sb_digits S n)"
begin

lemma bval_eq_0_iff: "bval S n = 0 \<longleftrightarrow> sb_sign S n = NoSign"
  by (simp add: bval_def canonical_dval_0 sign_zero)

lemma bval_less_0_iff: "bval S n < 0 \<longleftrightarrow> sb_sign S n = Minus"
proof (cases "sb_sign S n")
  case Minus
  then show ?thesis using sign_zero [of n] canonical_dval_0 [of "sb_digits S n"] by (auto simp: bval_def)
qed (simp_all add: bval_def)

lemma is_zero [simp]: "is_zero S n \<longleftrightarrow> bval S n = 0"
  by (simp add: is_zero_def bval_eq_0_iff)

lemma is_negative [simp]: "is_negative S n \<longleftrightarrow> bval S n < 0"
  by (simp add: is_negative_def bval_less_0_iff)

lemma sign_pos: "sb_sign S n = Plus \<longleftrightarrow> 0 < bval S n"
  using bval_eq_0_iff [of n] bval_less_0_iff [of n] by (cases "sb_sign S n") auto

lemma sign_cases:
  "sb_sign S n = (if bval S n < 0 then Minus else if bval S n = 0 then NoSign else Plus)"
  using bval_eq_0_iff [of n] bval_less_0_iff [of n] sign_pos [of n] by auto

lemma magnitude: "int (dval (sb_digits S n)) = \<bar>bval S n\<bar>"
  by (simp add: bval_def)

lemma bval_inject: "bval S m = bval S n \<Longrightarrow> m = n"
proof (rule extensional)
  assume eq: "bval S m = bval S n"
  show "sb_sign S m = sb_sign S n" by (simp add: sign_cases eq)
  have "dval (sb_digits S m) = dval (sb_digits S n)" using magnitude [of m] magnitude [of n] eq by simp
  then show "sb_digits S m = sb_digits S n" by (intro canonical_inject) simp_all
qed

lemma bval_eq_iff: "bval S m = bval S n \<longleftrightarrow> m = n"
  using bval_inject by auto

lemma bval_from:
  "bval S (sb_from_biguint S s ds)
    = (case s of Minus \<Rightarrow> - int (dval ds) | NoSign \<Rightarrow> 0 | Plus \<Rightarrow> int (dval ds))"
  by (cases s) (simp_all add: bval_def from_sign from_digits)

lemma bval_zero [simp]: "bval S (sb_zero S) = 0"
  using zero sign_zero by (simp add: bval_def)

lemma bval_one [simp]: "bval S (sb_one S) = 1"
  by (simp add: bval_def one)

lemma bval_two [simp]: "bval S (sb_two S) = 2"
  by (simp add: bval_def two)

lemma bval_neg [simp]: "bval S (sb_neg S n) = - bval S n"
  using bval_eq_0_iff [of n] by (cases "sb_sign S n") (simp_all add: bval_def neg)

lemma is_one [simp]: "is_one S n \<longleftrightarrow> bval S n = 1"
  using bval_inject [of n "sb_one S"] by (auto simp: is_one_def)

lemma eq_minus_one: "n = sb_neg S (sb_one S) \<longleftrightarrow> bval S n = - 1"
  using bval_inject [of n "sb_neg S (sb_one S)"] by auto

lemma nonzero_new: "nonzero_new S n = (if bval S n = 0 then None else Some n)"
  by (simp add: nonzero_new_def)

lemma bits_less: "sb_bits S m < sb_bits S n \<Longrightarrow> \<bar>bval S m\<bar> < \<bar>bval S n\<bar>"
proof -
  assume less: "sb_bits S m < sb_bits S n"
  have "dval (sb_digits S m) < 2 ^ sb_bits S m" by (rule bits_upper)
  also have "\<dots> \<le> 2 ^ (sb_bits S n - 1)" using less by (intro power_increasing) auto
  also have "\<dots> \<le> dval (sb_digits S n)" using bits_lower [of n] less by auto
  finally show ?thesis using magnitude [of m] magnitude [of n] by simp
qed

end

section \<open>The integers as a substrate\<close>

fun digits_of_nat :: "nat \<Rightarrow> u32 list" where
  "digits_of_nat n = (if n = 0 then [] else of_nat (n mod radix) # digits_of_nat (n div radix))"

fun bit_length :: "nat \<Rightarrow> nat" where
  "bit_length n = (if n = 0 then 0 else Suc (bit_length (n div 2)))"

declare digits_of_nat.simps [simp del] bit_length.simps [simp del]

definition sign_of_int :: "int \<Rightarrow> sign" where
  "sign_of_int i = (if i < 0 then Minus else if i = 0 then NoSign else Plus)"

fun int_from_biguint :: "sign \<Rightarrow> u32 list \<Rightarrow> int" where
  "int_from_biguint Minus ds = - int (dval ds)"
| "int_from_biguint NoSign ds = 0"
| "int_from_biguint Plus ds = int (dval ds)"

definition int_substrate :: "int substrate" where
  "int_substrate = \<lparr>sb_sign = sign_of_int, sb_digits = (\<lambda>i. digits_of_nat (nat \<bar>i\<bar>)),
     sb_bits = (\<lambda>i. bit_length (nat \<bar>i\<bar>)), sb_from_biguint = int_from_biguint,
     sb_zero = 0, sb_one = 1, sb_two = 2, sb_neg = uminus\<rparr>"

lemma dval_digits_of_nat [simp]: "dval (digits_of_nat n) = n"
proof (induction n rule: less_induct)
  case (less n)
  show ?case
  proof (cases "n = 0")
    case False
    then have "n div radix < n" by simp
    then show ?thesis using less False
      by (subst digits_of_nat.simps) (simp add: unat_of_nat)
  qed (simp add: digits_of_nat.simps)
qed

lemma digits_of_nat_eq_Nil: "digits_of_nat n = [] \<longleftrightarrow> n = 0"
  by (subst digits_of_nat.simps) simp

lemma digits_of_small: "digits_of_nat 0 = []" "digits_of_nat (Suc 0) = [1]" "digits_of_nat 2 = [2]"
proof -
  show nil: "digits_of_nat 0 = []" by (subst digits_of_nat.simps) simp
  show "digits_of_nat (Suc 0) = [1]" by (subst digits_of_nat.simps) (simp add: nil)
  show "digits_of_nat 2 = [2]" by (subst digits_of_nat.simps) (simp add: nil)
qed

lemma canonical_digits_of_nat: "canonical (digits_of_nat n)"
proof (induction n rule: less_induct)
  case (less n)
  show ?case
  proof (cases "n = 0 \<or> n div radix = 0")
    case True
    have "(of_nat (n mod radix) :: u32) \<noteq> 0" if "n \<noteq> 0"
    proof
      assume "(of_nat (n mod radix) :: u32) = 0"
      then have "unat (of_nat (n mod radix) :: u32) = 0" by (simp only: unat_0)
      then show False using that True by (simp add: unat_of_nat)
    qed
    then show ?thesis using True
      by (subst digits_of_nat.simps) (auto simp: canonical_def digits_of_nat.simps [of 0])
  next
    case False
    then have "canonical (digits_of_nat (n div radix))" by (intro less) simp
    then show ?thesis using False
      by (subst digits_of_nat.simps) (auto simp: canonical_def digits_of_nat_eq_Nil)
  qed
qed

lemma bit_length_upper: "n < 2 ^ bit_length n"
proof (induction n rule: bit_length.induct)
  case (1 n)
  show ?case
  proof (cases "n = 0")
    case False
    then have "n div 2 < 2 ^ bit_length (n div 2)" by (rule 1)
    then show ?thesis using False by (subst bit_length.simps) simp
  qed (simp add: bit_length.simps)
qed

lemma bit_length_lower: "bit_length n = 0 \<or> 2 ^ (bit_length n - 1) \<le> n"
proof (induction n rule: bit_length.induct)
  case (1 n)
  show ?case
  proof (cases "n = 0")
    case False
    then have IH: "bit_length (n div 2) = 0 \<or> 2 ^ (bit_length (n div 2) - 1) \<le> n div 2" by (rule 1)
    have "bit_length n = Suc (bit_length (n div 2))"
      using False by (subst bit_length.simps) simp
    then show ?thesis using IH False by (cases "bit_length (n div 2)") auto
  qed (simp add: bit_length.simps)
qed

interpretation int_substrate: substrate int_substrate
proof unfold_locales
  fix m n :: int and s ds
  show "sb_sign int_substrate m = sb_sign int_substrate n \<Longrightarrow>
      sb_digits int_substrate m = sb_digits int_substrate n \<Longrightarrow> m = n"
    by (auto simp: int_substrate_def sign_of_int_def split: if_splits dest!: arg_cong [of _ _ dval])
  show "dval (sb_digits int_substrate (sb_from_biguint int_substrate s ds))
      = (if s = NoSign then 0 else dval ds)"
    by (cases s) (simp_all add: int_substrate_def)
  show "sb_sign int_substrate (sb_from_biguint int_substrate s ds) = (if dval ds = 0 then NoSign else s)"
    by (cases s) (simp_all add: int_substrate_def sign_of_int_def)
  show "sb_bits int_substrate n = 0 \<or> 2 ^ (sb_bits int_substrate n - 1) \<le> dval (sb_digits int_substrate n)"
    using bit_length_lower [of "nat \<bar>n\<bar>"] by (simp add: int_substrate_def)
qed (simp_all add: int_substrate_def canonical_digits_of_nat bit_length_upper sign_of_int_def
    digits_of_nat_eq_Nil digits_of_small)

lemma bval_int [simp]: "bval int_substrate i = i"
  by (simp add: bval_def int_substrate_def sign_of_int_def)

end
