(* ===== verification/Big_Arith.thy ===== *)
theory Big_Arith
  imports Substrate
begin

unbundle bit_operations_syntax

text \<open>
  The cancellation-first scalar operations on \<open>BigInt\<close> of \<open>crates/fsym-bigint/src/lib.rs\<close>:
  comparison, signed sum, multiplication and truncating division, each over an arbitrary meter and
  an arbitrary substrate. Every result is related to the integers its operands stand for; the
  errors that come out are the meter's own, and no index is out of range.
\<close>

section \<open>Operations\<close>

fun cmp_from_top :: "'m meter \<Rightarrow> bool \<Rightarrow> (u32 \<times> u32) list \<Rightarrow> ('m, meter_error, ordering) metered" where
  "cmp_from_top M negative [] = metered_finish M Equal"
| "cmp_from_top M negative ((left_digit, right_digit) # rest) =
     mbind (tick M) (\<lambda>_.
       case compare left_digit right_digit of
         Equal \<Rightarrow> cmp_from_top M negative rest
       | digit_order \<Rightarrow>
           metered_finish M (if negative then reverse_ordering digit_order else digit_order))"

definition metered_cmp :: "'n substrate \<Rightarrow> 'm meter \<Rightarrow> 'n \<Rightarrow> 'n \<Rightarrow> ('m, meter_error, ordering) metered" where
  "metered_cmp S M lhs rhs =
     mbind (tick M) (\<lambda>_.
       let left_sign = sb_sign S lhs;
           right_sign = sb_sign S rhs;
           sign_order = (case (left_sign, right_sign) of
               (Minus, Minus) \<Rightarrow> Equal | (NoSign, NoSign) \<Rightarrow> Equal | (Plus, Plus) \<Rightarrow> Equal
             | (Minus, _) \<Rightarrow> Less | (NoSign, Plus) \<Rightarrow> Less
             | (NoSign, Minus) \<Rightarrow> Greater | (Plus, _) \<Rightarrow> Greater)
       in if sign_order \<noteq> Equal then metered_finish M sign_order
          else if left_sign = NoSign then metered_finish M Equal
          else
            let left_digits = sb_digits S lhs;
                right_digits = sb_digits S rhs
            in mbind (tick M) (\<lambda>_.
                 let length_order = compare (length left_digits) (length right_digits)
                 in if length_order \<noteq> Equal
                    then metered_finish M
                      (if left_sign = Minus then reverse_ordering length_order else length_order)
                    else cmp_from_top M (left_sign = Minus) (zip (rev left_digits) (rev right_digits))))"

definition charge_substrate_lift :: "'m meter \<Rightarrow> u32 list \<Rightarrow> ('m, meter_error, unit) metered" where
  "charge_substrate_lift M digits =
     (let native_digits = div_ceil (length digits) 2
      in if native_digits > 1
         then
           mbind (checkpoint M) (\<lambda>_.
           mbind (charge_batch M [(MemoryBytes, saturating_mul64 (u64_from_usize native_digits) 8),
                                  (AllocationCount, 1)]) (\<lambda>_.
           checkpoint M))
         else mret ())"

text \<open>The charge for the transient digit buffers of an operation.\<close>

definition charge_digits :: "'m meter \<Rightarrow> nat \<Rightarrow> u64 \<Rightarrow> ('m, meter_error, unit) metered" where
  "charge_digits M transient_digits allocations =
     charge_batch M [(MemoryBytes, saturating_mul64 (u64_from_usize transient_digits) 4),
                     (AllocationCount, allocations)]"

subsection \<open>Addition and subtraction\<close>

definition metered_signed_sum ::
  "'n substrate \<Rightarrow> 'm meter \<Rightarrow> 'n \<Rightarrow> 'n \<Rightarrow> bool \<Rightarrow> ('m, meter_error, 'n) metered" where
  "metered_signed_sum S M lhs rhs subtract =
     mbind (checkpoint M) (\<lambda>_.
     if is_zero S lhs \<and> is_zero S rhs then metered_finish M (sb_zero S)
     else
       let lhs_len = length (sb_digits S lhs);
           rhs_len = length (sb_digits S rhs);
           output_capacity = saturating_add_usize (max lhs_len rhs_len) 1;
           transient_digits = saturating_add_usize (saturating_add_usize lhs_len rhs_len) output_capacity
       in mbind (charge_digits M transient_digits 3) (\<lambda>_.
          mbind (copy_u32_digits M (sb_digits S lhs)) (\<lambda>lhs_digits.
          mbind (copy_u32_digits M (sb_digits S rhs)) (\<lambda>rhs_digits.
            let lhs_sign = sb_sign S lhs;
                rhs_sign = (if subtract then opposite_sign (sb_sign S rhs) else sb_sign S rhs)
            in mbind
                 (if lhs_sign = rhs_sign
                  then mbind (add_digits M lhs_digits rhs_digits) (\<lambda>digits. mret (digits, lhs_sign))
                  else
                    mbind (compare_digits M lhs_digits rhs_digits) (\<lambda>cmp.
                      case cmp of
                        Greater \<Rightarrow> mbind (subtract_digits M lhs_digits rhs_digits)
                          (\<lambda>digits. mret (digits, lhs_sign))
                      | Less \<Rightarrow> mbind (subtract_digits M rhs_digits lhs_digits)
                          (\<lambda>digits. mret (digits, rhs_sign))
                      | Equal \<Rightarrow> mret ([], NoSign)))
                 (\<lambda>(digits, sign).
                   mbind (checkpoint M) (\<lambda>_.
                   mbind (charge_substrate_lift M digits) (\<lambda>_.
                     let sign = (if dval digits = 0 then NoSign else sign)
                     in metered_finish M (sb_from_biguint S sign digits))))))))"

definition metered_add :: "'n substrate \<Rightarrow> 'm meter \<Rightarrow> 'n \<Rightarrow> 'n \<Rightarrow> ('m, meter_error, 'n) metered" where
  "metered_add S M lhs rhs = metered_signed_sum S M lhs rhs False"

definition metered_subtract :: "'n substrate \<Rightarrow> 'm meter \<Rightarrow> 'n \<Rightarrow> 'n \<Rightarrow> ('m, meter_error, 'n) metered" where
  "metered_subtract S M lhs rhs = metered_signed_sum S M lhs rhs True"

subsection \<open>Multiplication\<close>

definition mul_step ::
  "'m meter \<Rightarrow> nat \<Rightarrow> u32 \<Rightarrow> nat \<times> u32 \<Rightarrow> u32 list \<times> u64 \<Rightarrow> ('m, meter_error, u32 list \<times> u64) metered"
  where
  "mul_step M i a_digit = (\<lambda>(j, b_digit) (product, carry).
     mbind (tick M) (\<lambda>_.
       let index = i + j
       in if index < length product
          then let v = widen (product ! index) + widen a_digit * widen b_digit + carry
               in mret (product[index := low_digit v], high_part v)
          else mpanic))"

function mul_carry :: "'m meter \<Rightarrow> u32 list \<Rightarrow> nat \<Rightarrow> u64 \<Rightarrow> ('m, meter_error, u32 list) metered" where
  "mul_carry M product index carry =
     (if carry = 0 then mret product
      else mbind (tick M) (\<lambda>_.
        if index < length product
        then let v = widen (product ! index) + carry
             in mul_carry M (product[index := low_digit v]) (index + 1) (high_part v)
        else mpanic))"
  by pat_completeness auto
termination
  by (relation "measure (\<lambda>(M, product, index, carry). length product - index)") auto

declare mul_carry.simps [simp del]

definition mul_row ::
  "'m meter \<Rightarrow> u32 list \<Rightarrow> nat \<times> u32 \<Rightarrow> u32 list \<Rightarrow> ('m, meter_error, u32 list) metered" where
  "mul_row M b_digits = (\<lambda>(i, a_digit) product.
     mbind (mfor (List.enumerate 0 b_digits) (mul_step M i a_digit) (product, 0)) (\<lambda>(product, carry).
     mul_carry M product (i + length b_digits) carry))"

text \<open>
  The product buffer has \<open>a_len + b_len\<close> slots: a \<open>Vec<u32>\<close> has fewer than \<open>2 ^ 61\<close> elements, so
  the code's saturating sum is the sum for operands that exist in memory.
\<close>

text \<open>\<open>while product.last() == Some(&0) { product.pop(); }\<close>.\<close>

definition pop_zeros :: "u32 list \<Rightarrow> u32 list" where
  "pop_zeros ds = rev (dropWhile (\<lambda>d. d = 0) (rev ds))"

definition metered_multiply :: "'n substrate \<Rightarrow> 'm meter \<Rightarrow> 'n \<Rightarrow> 'n \<Rightarrow> ('m, meter_error, 'n) metered" where
  "metered_multiply S M a b =
     mbind (checkpoint M) (\<lambda>_.
     if is_zero S a \<or> is_zero S b then metered_finish M (sb_zero S)
     else
       let a_len = length (sb_digits S a);
           b_len = length (sb_digits S b);
           output_len = saturating_add_usize a_len b_len;
           transient_digits = saturating_add_usize (saturating_add_usize a_len b_len) output_len
       in mbind (charge_digits M transient_digits 3) (\<lambda>_.
          mbind (copy_u32_digits M (sb_digits S a)) (\<lambda>a_digits.
          mbind (copy_u32_digits M (sb_digits S b)) (\<lambda>b_digits.
          mbind (mfor (List.enumerate 0 a_digits) (mul_row M b_digits) (replicate (a_len + b_len) 0))
            (\<lambda>product.
          mbind (checkpoint M) (\<lambda>_.
            let product = pop_zeros product
            in mbind (charge_substrate_lift M product) (\<lambda>_.
               let sign = (if sb_sign S a = sb_sign S b then Plus else Minus)
               in metered_finish M (sb_from_biguint S sign product))))))))"

subsection \<open>Division\<close>

text \<open>One bit of the binary long division, for the dividend digit at \<open>index\<close>.\<close>

definition divide_bit ::
  "'m meter \<Rightarrow> u32 list \<Rightarrow> u32 \<Rightarrow> nat \<Rightarrow> nat \<Rightarrow> u32 list \<times> u32 list
    \<Rightarrow> ('m, meter_error, u32 list \<times> u32 list) metered" where
  "divide_bit M divisor_digits dividend_digit index shift = (\<lambda>(quotient_digits, remainder_digits).
     mbind (tick M) (\<lambda>_.
     mbind (shift_left_one M remainder_digits) (\<lambda>remainder_digits.
       let remainder_digits =
             (if dividend_digit AND push_bit shift 1 \<noteq> 0
              then (if remainder_digits = [] then [1]
                    else remainder_digits[0 := remainder_digits ! 0 OR 1])
              else remainder_digits)
       in mbind (compare_digits M remainder_digits divisor_digits) (\<lambda>cmp.
            if cmp \<noteq> Less
            then mbind (subtract_digits M remainder_digits divisor_digits) (\<lambda>remainder_digits.
                 mret (quotient_digits[index := quotient_digits ! index OR push_bit shift 1], remainder_digits))
            else mret (quotient_digits, remainder_digits)))))"

definition divide_digit ::
  "'m meter \<Rightarrow> u32 list \<Rightarrow> u32 list \<Rightarrow> nat \<Rightarrow> u32 list \<times> u32 list
    \<Rightarrow> ('m, meter_error, u32 list \<times> u32 list) metered" where
  "divide_digit M divisor_digits dividend_digits index =
     mfor (rev [0..<32]) (divide_bit M divisor_digits (dividend_digits ! index) index)"

definition metered_div_rem_nonzero ::
  "'n substrate \<Rightarrow> 'm meter \<Rightarrow> 'n \<Rightarrow> 'n \<Rightarrow> ('m, meter_error, 'n \<times> 'n) metered" where
  "metered_div_rem_nonzero S M dividend divisor =
     mbind (checkpoint M) (\<lambda>_.
     if is_zero S dividend then metered_finish M (sb_zero S, sb_zero S)
     else if sb_bits S dividend < sb_bits S divisor
     then
       mbind (charge_batch M [(MemoryBytes, saturating_mul64 (limb_count S dividend) 8), (AllocationCount, 1)])
         (\<lambda>_.
       mbind (checkpoint M) (\<lambda>_.
       metered_finish M (sb_zero S, dividend)))
     else
       let dividend_len = length (sb_digits S dividend);
           divisor_len = length (sb_digits S divisor);
           remainder_capacity = saturating_add_usize (min divisor_len dividend_len) 1;
           transient_digits = saturating_add_usize
             (saturating_add_usize (saturating_mul_usize dividend_len 2) divisor_len) remainder_capacity
       in mbind (charge_digits M transient_digits 4) (\<lambda>_.
          mbind (copy_u32_digits M (sb_digits S dividend)) (\<lambda>dividend_digits.
          mbind (copy_u32_digits M (sb_digits S divisor)) (\<lambda>divisor_digits.
          mbind (mfor (rev [0..<dividend_len]) (divide_digit M divisor_digits dividend_digits)
              (replicate dividend_len 0, [])) (\<lambda>(quotient_digits, remainder_digits).
          mbind (checkpoint M) (\<lambda>_.
          mbind (trim_digits M quotient_digits) (\<lambda>quotient_digits.
          mbind (trim_digits M remainder_digits) (\<lambda>remainder_digits.
          mbind (charge_substrate_lift M quotient_digits) (\<lambda>_.
          mbind (charge_substrate_lift M remainder_digits) (\<lambda>_.
            let quotient_sign = (if dval quotient_digits = 0 then NoSign
                  else if sb_sign S dividend = sb_sign S divisor then Plus else Minus);
                remainder_sign = (if dval remainder_digits = 0 then NoSign else sb_sign S dividend)
            in metered_finish M
                 (sb_from_biguint S quotient_sign quotient_digits,
                  sb_from_biguint S remainder_sign remainder_digits)))))))))))"

definition metered_div_rem ::
  "'n substrate \<Rightarrow> 'm meter \<Rightarrow> 'n \<Rightarrow> 'n \<Rightarrow> ('m, meter_error, ('n \<times> 'n) option) metered" where
  "metered_div_rem S M dividend divisor =
     mbind (checkpoint M) (\<lambda>_.
       case nonzero_new S divisor of
         None \<Rightarrow> metered_finish M None
       | Some divisor \<Rightarrow>
           mbind (metered_div_rem_nonzero S M dividend divisor) (\<lambda>result.
           metered_finish M (Some result)))"

definition metered_exact_div ::
  "'n substrate \<Rightarrow> 'm meter \<Rightarrow> 'n \<Rightarrow> 'n \<Rightarrow> ('m, meter_error, 'n option) metered" where
  "metered_exact_div S M a b =
     mbind (metered_div_rem S M a b) (\<lambda>r.
       case r of
         None \<Rightarrow> metered_finish M None
       | Some (quot, remainder) \<Rightarrow>
           metered_finish M (if is_zero S remainder then Some quot else None))"


section \<open>Comparison\<close>

locale big_meter = budget_meter M E R + substrate S
  for M :: "'m meter" and E :: "meter_error set" and R :: "'m \<Rightarrow> 'm \<Rightarrow> bool" and S :: "'n substrate"
begin

lemma cmp_from_top:
  "length xs = length ys \<Longrightarrow>
   meets E R (\<lambda>r. r = (let c = compare (dval (rev xs)) (dval (rev ys))
      in if negative then reverse_ordering c else c)) (cmp_from_top M negative (zip xs ys))"
proof (induction xs ys rule: list_induct2)
  case Nil
  then show ?case by (simp add: finish Let_def)
next
  case (Cons x xs y ys)
  then show ?case
    by (auto simp: compare_snoc Let_def intro!: after_tick finish split: ordering.splits)
qed

lemma compare_uminus: "compare (- a) (- b :: int) = reverse_ordering (compare a b)"
  by (simp add: compare_def)

lemma compare_int: "compare (int a) (int b) = compare a b"
  by (simp add: compare_def)

lemma cmp:
  shows "meets E R (\<lambda>r. r = compare (bval S lhs) (bval S rhs)) (metered_cmp S M lhs rhs)"
proof (cases "sb_sign S lhs = sb_sign S rhs \<and> sb_sign S lhs \<noteq> NoSign")
  case False
  then show ?thesis
    using bval_eq_0_iff [of lhs] bval_eq_0_iff [of rhs] bval_less_0_iff [of lhs] bval_less_0_iff [of rhs]
      sign_pos [of lhs] sign_pos [of rhs]
    unfolding metered_cmp_def Let_def
    by (cases "sb_sign S lhs"; cases "sb_sign S rhs") (auto intro!: after_tick finish)
next
  case True
  let ?neg = "sb_sign S lhs = Minus"
  let ?x = "sb_digits S lhs" and ?y = "sb_digits S rhs"
  have goal: "compare (bval S lhs) (bval S rhs)
      = (if ?neg then reverse_ordering (compare (dval ?x) (dval ?y)) else compare (dval ?x) (dval ?y))"
    using True by (simp add: bval_def compare_uminus compare_int)
  have len: "length ?x \<noteq> length ?y \<Longrightarrow> compare (dval ?x) (dval ?y) = compare (length ?x) (length ?y)"
    by (rule compare_length_canonical) simp_all
  have top: "length ?x = length ?y \<Longrightarrow> meets E R (\<lambda>r. r = compare (bval S lhs) (bval S rhs))
      (cmp_from_top M ?neg (zip (rev ?x) (rev ?y)))"
    using cmp_from_top [of "rev ?x" "rev ?y" ?neg] by (simp add: goal Let_def)
  show ?thesis
    using True top unfolding metered_cmp_def Let_def
    by (cases "sb_sign S lhs"; cases "sb_sign S rhs") (auto simp: goal len intro!: after_tick finish)
qed

lemma lift: "meets E R (\<lambda>_. True) (charge_substrate_lift M ds)"
  unfolding charge_substrate_lift_def Let_def
  by (auto intro!: after_checkpoint after_batch checkpoint)

lemma after_digits: "meets E R P c \<Longrightarrow> meets E R P (mbind (charge_digits M n k) (\<lambda>_. c))"
  unfolding charge_digits_def by (rule after_batch)

lemma after_lift: "meets E R P c \<Longrightarrow> meets E R P (mbind (charge_substrate_lift M ds) (\<lambda>_. c))"
  by (rule bind [OF lift])

lemma after_copy: "meets E R P (f ds) \<Longrightarrow> meets E R P (mbind (copy_u32_digits M ds) f)"
  by (rule bind [OF copy_lane]) simp

section \<open>Signed sums\<close>

lemma signed_sum_digits:
  fixes lhs_sign rhs_sign :: sign
  assumes can: "canonical x" "canonical y"
    and sx: "lhs_sign = NoSign \<longleftrightarrow> x = []" and sy: "rhs_sign = NoSign \<longleftrightarrow> y = []"
  defines "v \<equiv> \<lambda>s ds. case s of Minus \<Rightarrow> - int (dval ds) | NoSign \<Rightarrow> 0 | Plus \<Rightarrow> int (dval ds)"
  shows "meets E R (\<lambda>(ds, s). v s ds = v lhs_sign x + v rhs_sign y)
    (if lhs_sign = rhs_sign
     then mbind (add_digits M x y) (\<lambda>digits. mret (digits, lhs_sign))
     else
       mbind (compare_digits M x y) (\<lambda>cmp.
         case cmp of
           Greater \<Rightarrow> mbind (subtract_digits M x y) (\<lambda>digits. mret (digits, lhs_sign))
         | Less \<Rightarrow> mbind (subtract_digits M y x) (\<lambda>digits. mret (digits, rhs_sign))
         | Equal \<Rightarrow> mret ([], NoSign)))"
proof (cases "lhs_sign = rhs_sign")
  case True
  then show ?thesis
    by (auto simp: v_def intro!: bind [OF add_lane] split: sign.split)
next
  case False
  have shorter: "length b \<le> length a" if "canonical b" "dval b < dval a" for a b :: "u32 list"
    using dval_less_of_length [OF that(1), of a] that(2) by force
  have "meets E R (\<lambda>(ds, s). v s ds = v lhs_sign x + v rhs_sign y) (case c of
           Greater \<Rightarrow> mbind (subtract_digits M x y) (\<lambda>digits. mret (digits, lhs_sign))
         | Less \<Rightarrow> mbind (subtract_digits M y x) (\<lambda>digits. mret (digits, rhs_sign))
         | Equal \<Rightarrow> mret ([], NoSign))" if c: "c = compare (dval x) (dval y)" for c
  proof (cases c)
    case Less
    then have less: "dval x < dval y" using c by simp
    then show ?thesis
      using False Less shorter [OF can(1) less] sx sy canonical_dval_0 [OF can(1)]
      by (auto simp: v_def intro!: bind [OF subtract_lane] split: sign.splits)
  next
    case Equal
    then have "dval x = dval y" using c by simp
    then show ?thesis
      using False Equal sx sy can canonical_dval_0 [OF can(1)] canonical_dval_0 [OF can(2)]
      by (auto simp: v_def split: sign.splits)
  next
    case Greater
    then have less: "dval y < dval x" using c by simp
    then show ?thesis
      using False Greater shorter [OF can(2) less] sx sy canonical_dval_0 [OF can(2)]
      by (auto simp: v_def intro!: bind [OF subtract_lane] split: sign.splits)
  qed
  then show ?thesis using False by (auto intro!: bind [OF compare_lanes [OF can]])
qed

lemma signed_sum:
  "meets E R (\<lambda>r. bval S r = bval S lhs + (if subtract then - bval S rhs else bval S rhs))
    (metered_signed_sum S M lhs rhs subtract)"
proof (cases "is_zero S lhs \<and> is_zero S rhs")
  case True
  then show ?thesis by (auto simp: metered_signed_sum_def intro!: after_checkpoint finish)
next
  case nz: False
  define rs where "rs = (if subtract then opposite_sign (sb_sign S rhs) else sb_sign S rhs)"
  let ?v = "\<lambda>s ds. case s of Minus \<Rightarrow> - int (dval ds) | NoSign \<Rightarrow> 0 | Plus \<Rightarrow> int (dval ds)"
  have vl: "?v (sb_sign S lhs) (sb_digits S lhs) = bval S lhs"
    using sign_zero [of lhs] by (auto simp: bval_def split: sign.split)
  have vr: "?v rs (sb_digits S rhs) = (if subtract then - bval S rhs else bval S rhs)"
    using sign_zero [of rhs] by (cases "sb_sign S rhs") (auto simp: bval_def rs_def)
  have rz: "rs = NoSign \<longleftrightarrow> sb_digits S rhs = []"
    using sign_zero [of rhs] by (cases "sb_sign S rhs") (auto simp: rs_def)
  note core = signed_sum_digits [OF digits_canonical [of lhs] digits_canonical [of rhs] sign_zero rz,
      unfolded vl vr]
  show ?thesis
    unfolding metered_signed_sum_def Let_def if_not_P [OF nz] rs_def [symmetric]
    by (intro after_checkpoint after_digits after_copy bind [OF core])
      (auto simp: bval_from intro!: after_checkpoint after_lift finish split: sign.splits)
qed

lemma add: "meets E R (\<lambda>r. bval S r = bval S lhs + bval S rhs) (metered_add S M lhs rhs)"
  unfolding metered_add_def using signed_sum [of lhs False rhs] by simp

lemma subtract: "meets E R (\<lambda>r. bval S r = bval S lhs - bval S rhs) (metered_subtract S M lhs rhs)"
  unfolding metered_subtract_def using signed_sum [of lhs True rhs] by simp

end

section \<open>Multiplication\<close>

lemma pop_zeros: "trimmed ds (pop_zeros ds)"
proof (induction ds rule: rev_induct)
  case Nil
  then show ?case by (simp add: pop_zeros_def trimmed_def)
next
  case (snoc d ds)
  show ?case
  proof (cases "d = 0")
    case True
    then have "pop_zeros (ds @ [d]) = pop_zeros ds" by (simp add: pop_zeros_def)
    then show ?thesis using snoc True by (simp add: trimmed_def dval_snoc)
  next
    case False
    then show ?thesis by (simp add: pop_zeros_def trimmed_def)
  qed
qed

context big_meter
begin

lemma mul_carry:
  assumes "dval ds + radix ^ i * unat c < radix ^ length ds" and "unat c < radix"
  shows "meets E R (\<lambda>r. length r = length ds \<and> dval r = dval ds + radix ^ i * unat c) (mul_carry M ds i c)"
  using assms
proof (induction "length ds - i" arbitrary: ds i c rule: less_induct)
  case less
  show ?case
  proof (cases "c = 0")
    case True
    then show ?thesis by (subst mul_carry.simps) simp
  next
    case False
    then have c: "1 \<le> unat c" by (simp add: unat_gt_0 Suc_leI)
    have i: "i < length ds"
    proof (rule ccontr)
      assume "\<not> i < length ds"
      then have "radix ^ length ds \<le> radix ^ i" by (intro power_increasing) auto
      also have "\<dots> \<le> radix ^ i * unat c" using c by simp
      finally show False using less.prems(1) by simp
    qed
    define v where "v = widen (ds ! i) + c"
    have v: "unat v = unat (ds ! i) + unat c"
      using less.prems(2) by (simp add: v_def unat_add_carry)
    have acc: "dval (ds[i := low_digit v]) + radix ^ Suc i * unat (high_part v)
        = dval ds + radix ^ i * unat c"
      using dval_accumulate [OF i v] by simp
    have rec: "meets E R (\<lambda>r. length r = length ds \<and> dval r = dval ds + radix ^ i * unat c)
        (mul_carry M (ds[i := low_digit v]) (Suc i) (high_part v))"
      using less.hyps [of "ds[i := low_digit v]" "Suc i" "high_part v"] less.prems(1) i
      by (simp only: length_list_update acc) (simp add: high_part_lt)
    show ?thesis
      using False i by (subst mul_carry.simps) (auto simp: v_def [symmetric] Let_def rec intro!: after_tick)
  qed
qed

lemma mul_loop:
  assumes fit: "i + length rhs \<le> length p"
  shows "meets E R (\<lambda>(q, carry). length q = length p \<and> unat carry < radix \<and>
       dval q + radix ^ (i + length rhs) * unat carry = dval p + radix ^ i * (unat d * dval rhs))
     (mfor (List.enumerate 0 rhs) (mul_step M i d) (p, 0))"
proof -
  let ?I = "\<lambda>k (q, carry). length q = length p \<and> unat carry < radix \<and>
       dval q + radix ^ (i + k) * unat carry = dval p + radix ^ i * (unat d * dval (take k rhs))"
  have "meets E R (?I (length (List.enumerate 0 rhs))) (mfor (List.enumerate 0 rhs) (mul_step M i d) (p, 0))"
  proof (rule loop [where I = ?I])
    fix k and t :: "u32 list \<times> u64"
    assume k: "k < length (List.enumerate 0 rhs)" and inv: "?I k t"
    obtain q c where t: "t = (q, c)" by (cases t)
    have lt: "i + k < length q" and g: "get_or 0 rhs k = rhs ! k"
      using k fit inv t by (auto simp: get_or_def)
    define v where "v = widen (q ! (i + k)) + widen d * widen (rhs ! k) + c"
    have v: "unat v = unat (q ! (i + k)) + unat d * unat (rhs ! k) + unat c"
      using inv t by (simp add: v_def unat_mac)
    have "dval (q[i + k := low_digit v]) + radix ^ (i + Suc k) * unat (high_part v)
        = dval p + radix ^ i * (unat d * dval (take (Suc k) rhs))"
      using accumulate_step [OF lt _ v] inv t by (simp add: dval_take_Suc g algebra_simps)
    then show "meets E R (?I (Suc k)) (mul_step M i d (List.enumerate 0 rhs ! k) t)"
      using inv t k lt by (auto simp: mul_step_def nth_enumerate_eq Let_def v_def [symmetric] high_part_lt
          intro!: after_tick)
  qed simp
  then show ?thesis by simp
qed

lemma mul_rows:
  assumes cap: "length p = length lhs + length rhs" and zero: "dval p = 0"
  shows "meets E R (\<lambda>q. length q = length p \<and> dval q = dval lhs * dval rhs)
     (mfor (List.enumerate 0 lhs) (mul_row M rhs) p)"
proof -
  let ?I = "\<lambda>k q. length q = length p \<and> dval q = dval (take k lhs) * dval rhs"
  have "meets E R (?I (length (List.enumerate 0 lhs))) (mfor (List.enumerate 0 lhs) (mul_row M rhs) p)"
  proof (rule loop [where I = ?I])
    fix k q
    assume "k < length (List.enumerate 0 lhs)" and inv: "?I k q"
    then have k: "k < length lhs" by simp
    have g: "get_or 0 lhs k = lhs ! k" using k by (simp add: get_or_def)
    have fit: "k + length rhs \<le> length q" using k inv cap by simp
    have bound: "dval (take (Suc k) lhs) * dval rhs < radix ^ length q"
    proof -
      have "dval (take (Suc k) lhs) * dval rhs < radix ^ (length (take (Suc k) lhs) + length rhs)"
        by (rule dval_mult_lt)
      also have "\<dots> \<le> radix ^ length q" using k inv cap by (intro power_increasing) auto
      finally show ?thesis .
    qed
    have row: "dval q + radix ^ k * (unat (lhs ! k) * dval rhs) = dval (take (Suc k) lhs) * dval rhs"
      using inv by (simp add: dval_take_Suc g algebra_simps)
    show "meets E R (?I (Suc k)) (mul_row M rhs (List.enumerate 0 lhs ! k) q)"
      unfolding mul_row_def nth_enumerate_eq [OF k] prod.case add_0
    proof (rule bind [OF mul_loop [OF fit]], clarify)
      fix r :: "u32 list" and carry :: u64
      assume r: "length r = length q" "unat carry < radix"
        "dval r + radix ^ (k + length rhs) * unat carry = dval q + radix ^ k * (unat (lhs ! k) * dval rhs)"
      have "meets E R (\<lambda>s. length s = length r \<and> dval s = dval r + radix ^ (k + length rhs) * unat carry)
          (mul_carry M r (k + length rhs) carry)"
        using r row bound inv by (intro mul_carry) simp_all
      then show "meets E R (?I (Suc k)) (mul_carry M r (k + length rhs) carry)"
        by (rule meets_post) (use r row inv in auto)
    qed
  qed (use zero in simp)
  then show ?thesis by simp
qed

lemma multiply: "meets E R (\<lambda>r. bval S r = bval S a * bval S b) (metered_multiply S M a b)"
proof (cases "is_zero S a \<or> is_zero S b")
  case True
  then show ?thesis by (auto simp: metered_multiply_def intro!: after_checkpoint finish)
next
  case nz: False
  have sgn: "bval S a * bval S b = (if sb_sign S a = sb_sign S b then 1 else - 1)
      * int (dval (sb_digits S a) * dval (sb_digits S b))"
    using nz bval_eq_0_iff [of a] bval_eq_0_iff [of b]
    by (cases "sb_sign S a"; cases "sb_sign S b") (simp_all add: bval_def)
  note rows = mul_rows [of "replicate (length (sb_digits S a) + length (sb_digits S b)) 0"
      "sb_digits S a" "sb_digits S b"]
  show ?thesis
    unfolding metered_multiply_def Let_def if_not_P [OF nz]
  proof (intro after_checkpoint after_digits after_copy bind [OF rows] after_lift finish, goal_cases)
    case (3 p)
    then show ?case using pop_zeros [of p] by (simp add: bval_from sgn trimmed_def)
  qed simp_all
qed

end

section \<open>Division\<close>

lemma bit_unat: "bit (x :: u32) b \<longleftrightarrow> odd (unat x div 2 ^ b)"
proof -
  have "bit (unat x) b \<longleftrightarrow> bit x b" by (simp add: bit_unsigned_iff)
  then show ?thesis by (simp add: bit_iff_odd)
qed

lemma and_push_bit:
  assumes "b < 32"
  shows "x AND push_bit b 1 \<noteq> 0 \<longleftrightarrow> bit (x :: u32) b"
proof -
  have "x AND push_bit b 1 = (if bit x b then push_bit b 1 else 0)"
    using assms by (intro bit_word_eqI) (auto simp: bit_and_iff bit_exp_iff)
  moreover have "(push_bit b 1 :: u32) \<noteq> 0"
  proof
    assume "(push_bit b 1 :: u32) = 0"
    then have "bit (push_bit b 1 :: u32) b = bit (0 :: u32) b" by (rule arg_cong)
    then show False using assms by (simp add: bit_exp_iff)
  qed
  ultimately show ?thesis by auto
qed

lemma unat_or_push_bit:
  assumes "unat (x :: u32) = y * 2 ^ Suc b" and "b < 32"
  shows "unat (x OR push_bit b 1) = (2 * y + 1) * 2 ^ b"
proof -
  have "unat x div 2 ^ b = 2 * y" using assms(1) by simp
  then have "\<not> bit x b" by (simp add: bit_unat)
  then have "x AND push_bit b 1 = 0" using and_push_bit [OF assms(2), of x] by blast
  then have "x OR push_bit b 1 = x + push_bit b 1" by (simp add: disjunctive_add_eq_or)
  moreover have "unat (push_bit b 1 :: u32) = 2 ^ b"
  proof -
    have "(2 :: nat) ^ b < 2 ^ 32" using assms(2) by (rule power_strict_increasing) simp
    then show ?thesis by (simp only: unsigned_push_bit_eq) (simp add: take_bit_eq_mod)
  qed
  moreover have "unat x + 2 ^ b < radix"
  proof -
    have "y < 2 ^ (31 - b)"
    proof -
      have "y * 2 ^ Suc b < 2 ^ (31 - b) * 2 ^ Suc b"
        using unat_u32_lt [of x] assms(2) by (simp add: assms(1) power_add [symmetric] del: power_Suc)
      then show ?thesis by simp
    qed
    then have "(y + 1) * 2 ^ Suc b \<le> 2 ^ (31 - b) * 2 ^ Suc b" by (intro mult_le_mono1) simp
    also have "\<dots> = radix" using assms(2) by (simp add: power_add [symmetric] del: power_Suc)
    finally have "y * 2 ^ Suc b + 2 * 2 ^ b \<le> radix" by (simp add: distrib_right)
    moreover have "(0 :: nat) < 2 ^ b" by simp
    ultimately show ?thesis unfolding assms(1) by linarith
  qed
  ultimately show ?thesis by (simp add: unat_word_ariths assms(1))
qed

lemma set_low_bit:
  assumes "canonical ds" and "even (dval ds)"
  defines "r \<equiv> (if ds = [] then [1] else ds[0 := ds ! 0 OR 1])"
  shows "canonical r" and "dval r = dval ds + 1"
proof -
  show val: "dval r = dval ds + 1"
  proof (cases ds)
    case Nil
    then show ?thesis by (simp add: r_def)
  next
    case (Cons d es)
    then have "even (unat d)" using assms(2) by simp
    then have "unat d = (unat d div 2) * 2 ^ Suc 0" by simp
    then have "unat (d OR push_bit 0 1) = (2 * (unat d div 2) + 1) * 2 ^ 0" by (rule unat_or_push_bit) simp
    then have "unat (d OR 1) = unat d + 1" using \<open>even (unat d)\<close> by simp
    then show ?thesis by (simp add: r_def Cons)
  qed
  show "canonical r"
  proof (rule canonical_of_ge)
    have "length r \<le> 1 \<or> radix ^ (length r - 1) \<le> dval ds"
      using canonical_ge [OF assms(1)] by (auto simp: r_def)
    then show "radix ^ (length r - 1) \<le> dval r" using val by auto
  qed
qed

context big_meter
begin

lemma divide_bit:
  assumes rem: "canonical r" "dval r < dval D" and D: "canonical D" and b: "b < 32" and i: "i < length q"
    and x: "unat (q ! i) = y * 2 ^ Suc b"
  shows "meets E R (\<lambda>(q', r'). \<exists>z y'. q' = q[i := z] \<and> unat z = y' * 2 ^ b \<and> canonical r' \<and> dval r' < dval D
      \<and> y' * dval D + dval r' = 2 * y * dval D + 2 * dval r + (unat d div 2 ^ b) mod 2)
    (divide_bit M D d i b (q, r))"
proof -
  let ?P = "\<lambda>(q', r'). \<exists>z y'. q' = q[i := z] \<and> unat z = y' * 2 ^ b \<and> canonical r' \<and> dval r' < dval D
      \<and> y' * dval D + dval r' = 2 * y * dval D + 2 * dval r + (unat d div 2 ^ b) mod 2"
  have test: "d AND push_bit b 1 \<noteq> 0 \<longleftrightarrow> odd (unat d div 2 ^ b)" using and_push_bit [OF b] bit_unat by blast
  have tail: "meets E R ?P (mbind (compare_digits M s D) (\<lambda>cmp.
      if cmp \<noteq> Less
      then mbind (subtract_digits M s D) (\<lambda>s. mret (q[i := q ! i OR push_bit b 1], s))
      else mret (q, s)))"
    if s: "canonical s" "dval s = 2 * dval r + (unat d div 2 ^ b) mod 2" for s
  proof (rule bind [OF compare_lanes [OF s(1) D]])
    fix cmp assume cmp: "cmp = compare (dval s) (dval D)"
    show "meets E R ?P (if cmp \<noteq> Less
      then mbind (subtract_digits M s D) (\<lambda>s. mret (q[i := q ! i OR push_bit b 1], s))
      else mret (q, s))"
    proof (cases "dval s < dval D")
      case True
      then have "?P (q, s)" using s x by (auto intro!: exI [of _ "q ! i"] exI [of _ "2 * y"])
      then show ?thesis using True cmp by simp
    next
      case False
      then have le: "dval D \<le> dval s" by simp
      have len: "length D \<le> length s" using dval_less_of_length [OF D, of s] le by force
      have lt: "dval s - dval D < dval D" using s(2) rem(2) le by (cases "even (unat d div 2 ^ b)") (auto simp: odd_iff_mod_2_eq_one)
      have "?P (q[i := q ! i OR push_bit b 1], t)" if "canonical t" "dval t = dval s - dval D" for t
      proof -
        have "(2 * y + 1) * dval D + dval t = 2 * y * dval D + 2 * dval r + (unat d div 2 ^ b) mod 2"
          using that le s(2) by (simp add: distrib_right)
        then show ?thesis using that lt unat_or_push_bit [OF x b]
          by (auto intro!: exI [of _ "q ! i OR push_bit b 1"] exI [of _ "2 * y + 1"] simp del: push_bit_of_1)
      qed
      then show ?thesis
        using False cmp by (auto intro!: bind [OF subtract_lane [OF le len]] ret)
    qed
  qed
  show ?thesis
    unfolding divide_bit_def prod.case Let_def
  proof (intro after_tick bind [OF shift_lane] tail, goal_cases)
    case (1 s)
    then show ?case using set_low_bit [of s] rem(1) by auto
  next
    case (2 s)
    then show ?case using set_low_bit [of s] rem(1) test
      by (auto simp: odd_iff_mod_2_eq_one even_iff_mod_2_eq_zero)
  qed
qed

lemma divide_digit:
  assumes rem: "canonical r" "dval r < dval D" and D: "canonical D" and i: "i < length q"
    and x: "q ! i = 0"
  shows "meets E R (\<lambda>(q', r'). \<exists>z. q' = q[i := z] \<and> canonical r' \<and> dval r' < dval D
      \<and> unat z * dval D + dval r' = radix * dval r + unat (ds ! i))
    (divide_digit M D ds i (q, r))"
proof -
  let ?d = "unat (ds ! i)"
  let ?I = "\<lambda>k (q', r'). \<exists>z y. q' = q[i := z] \<and> unat z = y * 2 ^ (32 - k) \<and> canonical r' \<and> dval r' < dval D
      \<and> y * dval D + dval r' = 2 ^ k * dval r + ?d div 2 ^ (32 - k)"
  have "meets E R (?I (length (rev [0..<32]))) (mfor (rev [0..<32]) (divide_bit M D (ds ! i) i) (q, r))"
  proof (rule loop [where I = ?I])
    have "q[i := 0] = q" using x by (metis list_update_id)
    moreover have "?d div 2 ^ 32 = 0" using unat_u32_lt [of "ds ! i"] by simp
    ultimately show "?I 0 (q, r)" using rem by (auto intro!: exI [of _ "0 :: u32"] exI [of _ "0 :: nat"])
    fix k and t :: "u32 list \<times> u32 list"
    assume "k < length (rev [0..<32])" and inv: "?I k t"
    then have k: "k < 32" by simp
    define b where "b = 31 - k"
    have b: "b < 32" "32 - k = Suc b" "32 - Suc k = b" "rev [0..<32] ! k = b"
      using k by (simp_all add: b_def rev_nth)
    obtain z y r' where t: "t = (q[i := z], r')" and z: "unat z = y * 2 ^ Suc b"
      and r': "canonical r'" "dval r' < dval D"
      and eq: "y * dval D + dval r' = 2 ^ k * dval r + ?d div 2 ^ Suc b"
      using inv by (cases t) (auto simp: b(2))
    have zi: "unat (q[i := z] ! i) = y * 2 ^ Suc b" using i z by simp
    have half: "2 * (?d div 2 ^ Suc b) + (?d div 2 ^ b) mod 2 = ?d div 2 ^ b"
      by (simp only: power_Suc2 div_mult2_eq) simp
    have doubled: "2 * y * dval D + 2 * dval r' = 2 ^ Suc k * dval r + 2 * (?d div 2 ^ Suc b)"
    proof -
      have "2 * (y * dval D + dval r') = 2 * (2 ^ k * dval r + ?d div 2 ^ Suc b)" by (simp only: eq)
      then show ?thesis by (simp add: distrib_left mult.assoc)
    qed
    have "i < length (q[i := z])" using i by simp
    then show "meets E R (?I (Suc k)) (divide_bit M D (ds ! i) i (rev [0..<32] ! k) t)"
      unfolding b(3,4) t
    proof (rule meets_post [OF divide_bit [OF r' D b(1) _ zi]], clarify)
      fix z' :: u32 and y' r''
      assume "unat z' = y' * 2 ^ b" "canonical r''" "dval r'' < dval D"
        "y' * dval D + dval r'' = 2 * y * dval D + 2 * dval r' + ?d div 2 ^ b mod 2"
      moreover from this have "y' * dval D + dval r'' = 2 ^ Suc k * dval r + ?d div 2 ^ b"
        using doubled half by linarith
      ultimately show "\<exists>z'' y. q[i := z, i := z'] = q[i := z''] \<and> unat z'' = y * 2 ^ b \<and> canonical r'' \<and> dval r'' < dval D
          \<and> y * dval D + dval r'' = 2 ^ Suc k * dval r + ?d div 2 ^ b"
        by auto
    qed
  qed
  then show ?thesis unfolding divide_digit_def
    by (rule meets_post) auto
qed

lemma divide_digits:
  assumes D: "canonical D" "0 < dval D"
  shows "meets E R (\<lambda>(q, r). canonical r \<and> dval r < dval D \<and> dval q * dval D + dval r = dval ds)
    (mfor (rev [0..<length ds]) (divide_digit M D ds) (replicate (length ds) 0, []))"
proof -
  let ?n = "length ds"
  let ?I = "\<lambda>k (q, r). length q = ?n \<and> (\<forall>i < ?n - k. q ! i = 0) \<and> canonical r \<and> dval r < dval D
      \<and> dval (drop (?n - k) q) * dval D + dval r = dval (drop (?n - k) ds)"
  have "meets E R (?I (length (rev [0..<?n]))) (mfor (rev [0..<?n]) (divide_digit M D ds) (replicate ?n 0, []))"
  proof (rule loop [where I = ?I])
    show "?I 0 (replicate ?n 0, [])" using D by simp
    fix k and t :: "u32 list \<times> u32 list"
    assume k: "k < length (rev [0..<?n])" and inv: "?I k t"
    obtain q r where t: "t = (q, r)" by (cases t)
    define i where "i = ?n - Suc k"
    have i: "?n - k = Suc i" "i < ?n" "?n - Suc k = i" "rev [0..<?n] ! k = i"
      using k by (simp_all add: i_def rev_nth)
    have q: "length q = ?n" "\<forall>j < Suc i. q ! j = 0" "canonical r" "dval r < dval D"
      "dval (drop (Suc i) q) * dval D + dval r = dval (drop (Suc i) ds)"
      using inv by (simp_all add: t i)
    have iq: "i < length q" "q ! i = 0" using q i by simp_all
    show "meets E R (?I (Suc k)) (divide_digit M D ds (rev [0..<?n] ! k) t)"
      unfolding i(3,4) t
    proof (rule meets_post [OF divide_digit [OF q(3,4) D(1) iq]], clarify)
      fix z :: u32 and r'
      assume r': "canonical r'" "dval r' < dval D"
        "unat z * dval D + dval r' = radix * dval r + unat (ds ! i)"
      have "drop i (q[i := z]) = z # drop (Suc i) q"
        using iq by (simp add: drop_update_swap Cons_nth_drop_Suc [symmetric])
      moreover have "dval (drop i ds) = unat (ds ! i) + radix * dval (drop (Suc i) ds)"
        using i(2) by (simp add: Cons_nth_drop_Suc [symmetric])
      moreover have "(unat z + radix * dval (drop (Suc i) q)) * dval D + dval r'
          = unat (ds ! i) + radix * dval (drop (Suc i) ds)"
        by (rule divide_accumulate [OF _ q(5)]) (use r'(3) in \<open>simp add: mult.commute\<close>)
      ultimately show "length (q[i := z]) = ?n \<and> (\<forall>j<i. q[i := z] ! j = 0) \<and> canonical r' \<and> dval r' < dval D
          \<and> dval (drop i (q[i := z])) * dval D + dval r' = dval (drop i ds)"
        using q r' by simp
    qed
  qed
  then show ?thesis by (rule meets_post) auto
qed

end

text \<open>The magnitudes and the signs together: truncation toward zero.\<close>

definition truncated :: "int \<Rightarrow> int \<Rightarrow> int \<Rightarrow> int \<Rightarrow> bool" where
  "truncated a b q r \<longleftrightarrow> a = q * b + r \<and> \<bar>r\<bar> < \<bar>b\<bar> \<and> (r = 0 \<or> (r < 0 \<longleftrightarrow> a < 0))"


definition unit_of :: "sign \<Rightarrow> int" where
  "unit_of s = (if s = Minus then - 1 else 1)"

lemma truncated_signs:
  assumes "q' * b' + r' = a'" and "r' < (b' :: nat)"
    and "a = unit_of sa * int a'" and "b = unit_of sb * int b'"
    and "q = unit_of sa * unit_of sb * int q'" and "r = unit_of sa * int r'"
  shows "truncated a b q r"
proof -
  have "int a' = int q' * int b' + int r'" using assms(1) by (metis of_nat_add of_nat_mult)
  then have "a = q * b + r" by (simp add: assms(3-6) unit_of_def)
  moreover have "\<bar>r\<bar> < \<bar>b\<bar>" using assms(2) by (simp add: assms(4,6) unit_of_def)
  moreover have "r = 0 \<or> (r < 0 \<longleftrightarrow> a < 0)"
    using assms(1) by (cases "r' = 0") (auto simp: assms(3,6) unit_of_def)
  ultimately show ?thesis by (simp add: truncated_def)
qed

context big_meter
begin

lemma div_rem_nonzero:
  assumes nz: "bval S b \<noteq> 0"
  shows "meets E R (\<lambda>(q, r). truncated (bval S a) (bval S b) (bval S q) (bval S r))
    (metered_div_rem_nonzero S M a b)"
proof -
  let ?P = "\<lambda>(q, r). truncated (bval S a) (bval S b) (bval S q) (bval S r)"
  consider "is_zero S a" | "\<not> is_zero S a" "sb_bits S a < sb_bits S b"
    | "\<not> is_zero S a" "\<not> sb_bits S a < sb_bits S b" by blast
  then show ?thesis
  proof cases
    case 1
    then show ?thesis using nz
      by (auto simp: metered_div_rem_nonzero_def truncated_def intro!: after_checkpoint finish)
  next
    case 2
    then show ?thesis using bits_less [OF 2(2)]
      by (auto simp: metered_div_rem_nonzero_def truncated_def intro!: after_checkpoint after_batch finish)
  next
    case 3
    let ?a = "sb_digits S a" and ?b = "sb_digits S b"
    have D: "canonical ?b" "0 < dval ?b" using nz magnitude [of b] by simp_all
    have sign_nz: "sb_sign S a \<noteq> NoSign" "sb_sign S b \<noteq> NoSign"
      using 3(1) nz by (simp_all add: bval_eq_0_iff)
    have signs: "?P (sb_from_biguint S (if dval q = 0 then NoSign
              else if sb_sign S a = sb_sign S b then Plus else Minus) q,
          sb_from_biguint S (if dval r = 0 then NoSign else sb_sign S a) r)"
      if "dval q * dval ?b + dval r = dval ?a" "dval r < dval ?b" for q r
      unfolding prod.case
    proof (rule truncated_signs [OF that])
      show "bval S a = unit_of (sb_sign S a) * int (dval ?a)" "bval S b = unit_of (sb_sign S b) * int (dval ?b)"
        by (simp_all add: bval_def unit_of_def)
      show "bval S (sb_from_biguint S (if dval q = 0 then NoSign
            else if sb_sign S a = sb_sign S b then Plus else Minus) q)
          = unit_of (sb_sign S a) * unit_of (sb_sign S b) * int (dval q)"
        using sign_nz by (cases "sb_sign S a"; cases "sb_sign S b") (simp_all add: bval_from unit_of_def)
      show "bval S (sb_from_biguint S (if dval r = 0 then NoSign else sb_sign S a) r)
          = unit_of (sb_sign S a) * int (dval r)"
        using sign_nz by (cases "sb_sign S a") (simp_all add: bval_from unit_of_def)
    qed
    show ?thesis
      unfolding metered_div_rem_nonzero_def Let_def if_not_P [OF 3(1)] if_not_P [OF 3(2)]
    proof (intro after_checkpoint after_digits after_copy bind [OF divide_digits [OF D]], clarify)
      fix q r :: "u32 list"
      assume qr: "canonical r" "dval r < dval ?b" "dval q * dval ?b + dval r = dval ?a"
      show "meets E R ?P (mbind (checkpoint M) (\<lambda>_.
          mbind (trim_digits M q) (\<lambda>q. mbind (trim_digits M r) (\<lambda>r.
          mbind (charge_substrate_lift M q) (\<lambda>_. mbind (charge_substrate_lift M r) (\<lambda>_.
          metered_finish M
           (sb_from_biguint S (if dval q = 0 then NoSign
              else if sb_sign S a = sb_sign S b then Plus else Minus) q,
            sb_from_biguint S (if dval r = 0 then NoSign else sb_sign S a) r)))))))"
      proof (intro after_checkpoint bind [OF trim_lane] after_lift finish)
        fix q' r' assume "trimmed q q'" "trimmed r r'"
        then show "?P (sb_from_biguint S (if dval q' = 0 then NoSign
              else if sb_sign S a = sb_sign S b then Plus else Minus) q',
            sb_from_biguint S (if dval r' = 0 then NoSign else sb_sign S a) r')"
          using qr by (intro signs) (simp_all add: trimmed_def)
      qed
    qed
  qed
qed

lemma div_rem:
  "meets E R (\<lambda>x. case x of None \<Rightarrow> bval S b = 0
      | Some (q, r) \<Rightarrow> bval S b \<noteq> 0 \<and> truncated (bval S a) (bval S b) (bval S q) (bval S r))
    (metered_div_rem S M a b)"
  unfolding metered_div_rem_def
  by (cases "bval S b = 0")
    (auto simp: nonzero_new intro!: after_checkpoint finish bind [OF div_rem_nonzero])

lemma truncated_dvd:
  assumes "truncated a b q r"
  shows "r = 0 \<longleftrightarrow> b dvd a" and "r = 0 \<Longrightarrow> a = q * b"
proof -
  show "r = 0 \<longleftrightarrow> b dvd a"
  proof
    assume "b dvd a"
    then have "b dvd r" using assms by (auto simp: truncated_def dvd_add_right_iff)
    then show "r = 0" using assms zdvd_not_zless [of "\<bar>r\<bar>" "\<bar>b\<bar>"] by (auto simp: truncated_def)
  qed (use assms in \<open>simp add: truncated_def\<close>)
qed (use assms in \<open>simp add: truncated_def\<close>)

lemma exact_div:
  "meets E R (\<lambda>x. case x of None \<Rightarrow> bval S b = 0 \<or> \<not> bval S b dvd bval S a
      | Some q \<Rightarrow> bval S b \<noteq> 0 \<and> bval S q * bval S b = bval S a)
    (metered_exact_div S M a b)"
  unfolding metered_exact_div_def
proof (rule bind [OF div_rem], goal_cases)
  case (1 x)
  show ?case
  proof (cases x)
    case None
    then show ?thesis using 1 by (simp add: finish)
  next
    case (Some p)
    obtain q r where p: "p = (q, r)" by (cases p)
    have t: "truncated (bval S a) (bval S b) (bval S q) (bval S r)" and nz: "bval S b \<noteq> 0"
      using 1 by (simp_all add: Some p)
    show ?thesis
    proof (cases "bval S b dvd bval S a")
      case True
      then show ?thesis using truncated_dvd [OF t] nz by (simp add: Some p finish)
    next
      case False
      then show ?thesis using truncated_dvd [OF t] nz by (simp add: Some p finish)
    qed
  qed
qed

end

text \<open>The integers on the unbounded meter and on the ledger.\<close>

interpretation unbounded_int: big_meter unbounded "{}" "(=)" int_substrate
  by unfold_locales

interpretation ledger_int: big_meter ledger_meter "range MeterBudget" only_spends int_substrate
  by unfold_locales

end
