(* ===== verification/Candidates.thy ===== *)
theory Candidates
  imports Toom3_Lane Big_Arith
begin

text \<open>
  Product candidates of \<open>crates/fsym-bigint/src/lib.rs\<close>: \<open>metered_karatsuba_candidate\<close> and
  \<open>metered_toom3_candidate\<close> run the recursive digit kernels on the magnitudes of two integers under
  one recursion meter; \<open>into_bigint\<close> lifts a candidate back to an integer.
\<close>

record product_candidate =
  pc_negative :: bool
  pc_digits :: "u32 list"

definition metered_copy_magnitude ::
  "'n substrate \<Rightarrow> 'm meter \<Rightarrow> ('m \<Rightarrow> nat \<Rightarrow> bool) \<Rightarrow> 'n \<Rightarrow> ('m, mul_error, u32 list) metered" where
  "metered_copy_magnitude S M A v =
     mbind (mlift Meter (checkpoint M)) (\<lambda>_.
       let capacity = length (sb_digits S v)
       in mbind (charge_vec_capacities M [capacity]) (\<lambda>_.
          mbind (try_u32_vec A capacity) (\<lambda>digits.
          mfor (sb_digits S v) (\<lambda>digit digits. mbind (ktick M) (\<lambda>_. mret (digits @ [digit]))) digits)))"

text \<open>A fresh \<open>RecursiveMeter\<close> around the caller's meter, with no depth entered yet.\<close>

definition with_recursion :: "('m recursive_meter, 'e, 'a) metered \<Rightarrow> ('m, 'e, 'a) metered" where
  "with_recursion c = (\<lambda>m. case c \<lparr>rm_meter = m, rm_max_depth = 0\<rparr> of (r, s) \<Rightarrow> (r, rm_meter s))"

definition metered_karatsuba_candidate ::
  "'n substrate \<Rightarrow> 'm meter \<Rightarrow> ('m \<Rightarrow> nat \<Rightarrow> bool) \<Rightarrow> 'n \<Rightarrow> 'n
    \<Rightarrow> ('m, mul_error, product_candidate) metered" where
  "metered_karatsuba_candidate S M A a b = with_recursion (
     mbind (rm_enter M 1) (\<lambda>_.
     if is_zero S a \<or> is_zero S b then
       mbind (on_meter (mlift Meter (checkpoint M))) (\<lambda>_. mret \<lparr>pc_negative = False, pc_digits = []\<rparr>)
     else
       let negative = (is_negative S a \<noteq> is_negative S b)
       in mbind (on_meter (metered_copy_magnitude S M A a)) (\<lambda>a_digits.
          mbind (on_meter (metered_copy_magnitude S M A b)) (\<lambda>b_digits.
          mbind (metered_karatsuba_digits M A a_digits b_digits 1) (\<lambda>digits.
          if digits = [] \<or> last digits = 0 then mfail InvariantViolation
          else mbind (on_meter (mlift Meter (checkpoint M))) (\<lambda>_.
            mret \<lparr>pc_negative = negative, pc_digits = digits\<rparr>))))))"

definition metered_toom3_candidate ::
  "'n substrate \<Rightarrow> 'm meter \<Rightarrow> ('m \<Rightarrow> nat \<Rightarrow> bool) \<Rightarrow> 'n \<Rightarrow> 'n
    \<Rightarrow> ('m, mul_error, product_candidate) metered" where
  "metered_toom3_candidate S M A a b = with_recursion (
     mbind (rm_enter M 1) (\<lambda>_.
     if is_zero S a \<or> is_zero S b then
       mbind (on_meter (mlift Meter (checkpoint M))) (\<lambda>_. mret \<lparr>pc_negative = False, pc_digits = []\<rparr>)
     else
       let negative = (is_negative S a \<noteq> is_negative S b)
       in mbind (on_meter (metered_copy_magnitude S M A a)) (\<lambda>a_digits.
          mbind (on_meter (metered_copy_magnitude S M A b)) (\<lambda>b_digits.
          mbind (metered_toom3_digits M A a_digits b_digits 1) (\<lambda>digits.
          if digits = [] \<or> last digits = 0 then mfail InvariantViolation
          else mbind (on_meter (mlift Meter (checkpoint M))) (\<lambda>_.
            mret \<lparr>pc_negative = negative, pc_digits = digits\<rparr>))))))"

definition into_bigint ::
  "'n substrate \<Rightarrow> 'm meter \<Rightarrow> product_candidate \<Rightarrow> ('m, meter_error, 'n) metered" where
  "into_bigint S M c =
     mbind (checkpoint M) (\<lambda>_.
     mbind (charge_substrate_lift M (pc_digits c)) (\<lambda>_.
     mbind (if pc_digits c \<noteq> [] then charge M ComputeSteps (u64_from_usize (length (pc_digits c)))
            else mret ()) (\<lambda>_.
     mbind (checkpoint M) (\<lambda>_.
       let sign = (if pc_digits c = [] then NoSign else if pc_negative c then Minus else Plus)
       in metered_finish M (sb_from_biguint S sign (pc_digits c))))))"

section \<open>Correctness\<close>

text \<open>A canonical candidate for the integer \<open>v\<close>.\<close>

definition candidate_for :: "int \<Rightarrow> product_candidate \<Rightarrow> bool" where
  "candidate_for v c \<longleftrightarrow> canonical (pc_digits c) \<and> sval (pc_negative c) (pc_digits c) = v
     \<and> (pc_digits c = [] \<longrightarrow> \<not> pc_negative c)"

lemma with_recursion:
  assumes "meets F (rm_rel R) P c"
  shows "meets F R P (with_recursion c)"
proof (rule meetsI)
  fix m r m'
  assume run: "with_recursion c m = (r, m')"
  obtain r1 s where c: "c \<lparr>rm_meter = m, rm_max_depth = 0\<rparr> = (r1, s)"
    by (cases "c \<lparr>rm_meter = m, rm_max_depth = 0\<rparr>")
  show "R m m' \<and> result_in F P r"
    using run meetsD [OF assms c] by (simp add: with_recursion_def c rm_rel_def)
qed

locale kernel_big = kernel_meter M E R A F + substrate S
  for M :: "'m meter" and E :: "meter_error set" and R :: "'m \<Rightarrow> 'm \<Rightarrow> bool"
    and A :: "'m \<Rightarrow> nat \<Rightarrow> bool" and F :: "mul_error set" and S :: "'n substrate"
begin

lemma copy_magnitude:
  assumes "size_ok F (length (sb_digits S v))"
  shows "meets F R (\<lambda>r. r = sb_digits S v) (metered_copy_magnitude S M A v)"
  unfolding metered_copy_magnitude_def Let_def
  using copy_digit_slice [OF assms, unfolded metered_copy_digit_slice_def]
  by (rule bind [OF lifted [OF checkpoint]])

lemma bval_sval: "bval S n = sval (is_negative S n) (sb_digits S n)"
  by (simp add: bval_def sval_def is_negative_def)

text \<open>From the digit kernel to the candidate: the sign and the nonzero check.\<close>

lemma candidate:
  assumes K: "\<And>a b. canonical a \<Longrightarrow> canonical b \<Longrightarrow> size_ok F (1 + 4 * (length a + length b)) \<Longrightarrow>
      meets F (rm_rel R) (product_of a b) (K a b)"
    and size: "size_ok F (1 + 4 * (length (sb_digits S a) + length (sb_digits S b)))"
  shows "meets F R (candidate_for (bval S a * bval S b)) (with_recursion (
     mbind (rm_enter M 1) (\<lambda>_.
     if is_zero S a \<or> is_zero S b then
       mbind (on_meter (mlift Meter (checkpoint M))) (\<lambda>_. mret \<lparr>pc_negative = False, pc_digits = []\<rparr>)
     else
       let negative = (is_negative S a \<noteq> is_negative S b)
       in mbind (on_meter (metered_copy_magnitude S M A a)) (\<lambda>a_digits.
          mbind (on_meter (metered_copy_magnitude S M A b)) (\<lambda>b_digits.
          mbind (K a_digits b_digits) (\<lambda>digits.
          if digits = [] \<or> last digits = 0 then mfail InvariantViolation
          else mbind (on_meter (mlift Meter (checkpoint M))) (\<lambda>_.
            mret \<lparr>pc_negative = negative, pc_digits = digits\<rparr>)))))))"
proof (rule with_recursion, rule rbind [OF enter])
  show "size_ok F 1" by (rule size_ok_le [OF size]) simp
  note last_check = on_meter [OF lifted [OF checkpoint]]
  let ?P = "candidate_for (bval S a * bval S b)"
  show "meets F (rm_rel R) ?P
    (if is_zero S a \<or> is_zero S b then
       mbind (on_meter (mlift Meter (checkpoint M))) (\<lambda>_. mret \<lparr>pc_negative = False, pc_digits = []\<rparr>)
     else
       let negative = (is_negative S a \<noteq> is_negative S b)
       in mbind (on_meter (metered_copy_magnitude S M A a)) (\<lambda>a_digits.
          mbind (on_meter (metered_copy_magnitude S M A b)) (\<lambda>b_digits.
          mbind (K a_digits b_digits) (\<lambda>digits.
          if digits = [] \<or> last digits = 0 then mfail InvariantViolation
          else mbind (on_meter (mlift Meter (checkpoint M))) (\<lambda>_.
            mret \<lparr>pc_negative = negative, pc_digits = digits\<rparr>)))))"
  proof (cases "is_zero S a \<or> is_zero S b")
    case True
    then show ?thesis by (auto simp: candidate_for_def sval_def intro!: rbind [OF last_check] rret)
  next
    case nz: False
    have sz: "size_ok F (length (sb_digits S a))" "size_ok F (length (sb_digits S b))"
      by (rule size_ok_le [OF size], simp)+
    have ok: "meets F (rm_rel R) ?P
      (if ds = [] \<or> last ds = 0 then mfail InvariantViolation
       else mbind (on_meter (mlift Meter (checkpoint M))) (\<lambda>_.
            mret \<lparr>pc_negative = (is_negative S a \<noteq> is_negative S b), pc_digits = ds\<rparr>))"
      if ds: "product_of (sb_digits S a) (sb_digits S b) ds" for ds
    proof -
      have eq: "int (dval ds) = \<bar>bval S a\<bar> * \<bar>bval S b\<bar>"
        using ds magnitude [of a] magnitude [of b] by (simp add: product_of_def)
      have ne: "ds \<noteq> []"
      proof
        assume "ds = []"
        then show False using eq nz by simp
      qed
      then have "last ds \<noteq> 0" using ds by (simp add: product_of_def canonical_def)
      moreover have "?P \<lparr>pc_negative = (is_negative S a \<noteq> is_negative S b), pc_digits = ds\<rparr>"
      proof -
        have "sval (is_negative S a \<noteq> is_negative S b) ds = bval S a * bval S b"
          using ds by (simp only: bval_sval product_of_def) (simp add: sval_def del: is_negative)
        then show ?thesis using ds ne by (simp add: candidate_for_def product_of_def del: is_negative)
      qed
      ultimately show ?thesis using ne by (auto intro!: rbind [OF last_check] rret)
    qed
    show ?thesis
      unfolding if_not_P [OF nz] Let_def
      apply (rule rbind [OF on_meter [OF copy_magnitude [OF sz(1)]]], hypsubst)
      apply (rule rbind [OF on_meter [OF copy_magnitude [OF sz(2)]]], hypsubst)
      by (rule rbind [OF K [OF digits_canonical digits_canonical size] ok])
  qed
qed

lemma karatsuba_candidate:
  "size_ok F (1 + 4 * (length (sb_digits S a) + length (sb_digits S b))) \<Longrightarrow>
   meets F R (candidate_for (bval S a * bval S b)) (metered_karatsuba_candidate S M A a b)"
  unfolding metered_karatsuba_candidate_def by (rule candidate [OF karatsuba])

lemma toom3_candidate:
  "size_ok F (1 + 4 * (length (sb_digits S a) + length (sb_digits S b))) \<Longrightarrow>
   meets F R (candidate_for (bval S a * bval S b)) (metered_toom3_candidate S M A a b)"
  unfolding metered_toom3_candidate_def by (rule candidate [OF toom3])

end

context big_meter
begin

lemma into_bigint:
  assumes "candidate_for v c"
  shows "meets E R (\<lambda>r. bval S r = v) (into_bigint S M c)"
proof -
  have "meets E R (\<lambda>_. True) (if pc_digits c \<noteq> [] then charge M ComputeSteps (u64_from_usize (length (pc_digits c)))
      else mret ())"
    by (auto intro: charge)
  then show ?thesis
    unfolding into_bigint_def Let_def
    by (intro after_checkpoint after_lift bind [OF \<open>meets E R (\<lambda>_. True) _\<close>] finish)
      (use assms in \<open>auto simp: candidate_for_def bval_from sval_def\<close>)
qed

end

text \<open>
  The kernels on the unbounded meter with an allocator that never refuses: no error is left for
  operands far below the size of the address space. On the ledger, the budget's refusals and the
  allocator's refusal come out, and \<open>SizeOverflow\<close> for operands without a bound.
\<close>

interpretation unbounded_kernel: kernel_big unbounded "{}" "(=)" "\<lambda>_ _. True" "{}" int_substrate
  by unfold_locales simp_all

interpretation ledger_kernel: kernel_big ledger_meter "range MeterBudget" only_spends A
    "{SizeOverflow, AllocationFailure} \<union> range (\<lambda>e. Meter (MeterBudget e))" int_substrate for A
  by unfold_locales auto

end
