(* ===== verification/Big_Euclid.thy ===== *)
theory Big_Euclid
  imports Big_Arith
begin

unbundle bit_operations_syntax

text \<open>
  Exponentiation and the Euclidean algorithms of \<open>crates/fsym-bigint/src/lib.rs\<close>:
  \<open>metered_pow\<close>, \<open>metered_gcd\<close> and \<open>metered_extended_gcd\<close>.

  The \<open>while let\<close> loops of the two gcds end because the substrate's remainders shrink, which is a
  law of the substrate and not of the loop's text, so they run on fuel: \<open>Out_of_fuel\<close> marks a run
  that needed more. The lemmas show that any fuel of at least the divisor's magnitude is enough.
\<close>

section \<open>Exponentiation\<close>

lemma unat_halve: "unat (drop_bit 1 (w :: u32)) = unat w div 2"
  by (simp only: unat_drop_bit_eq) (simp add: drop_bit_eq_div)

lemma odd_and_1: "w AND 1 = 1 \<longleftrightarrow> odd (unat (w :: u32))"
proof -
  have "w AND 1 = of_bool (odd w)" by (simp add: and_one_eq mod2_eq_if)
  moreover have "odd w \<longleftrightarrow> odd (unat w)" using bit_unat [of w 0] by (simp add: bit_0)
  ultimately show ?thesis by simp
qed

function pow_loop :: "'n substrate \<Rightarrow> 'm meter \<Rightarrow> u32 \<Rightarrow> 'n \<Rightarrow> 'n \<Rightarrow> ('m, meter_error, 'n) metered" where
  "pow_loop S M left result factor =
     (if left = 0 then mret result
      else
        mbind (checkpoint M) (\<lambda>_.
        mbind (if left AND 1 = 1 then metered_multiply S M result factor else mret result) (\<lambda>result.
        let left' = drop_bit 1 left
        in mbind (if left' \<noteq> 0 then metered_multiply S M factor factor else mret factor) (\<lambda>factor.
           pow_loop S M left' result factor))))"
  by pat_completeness auto

termination
  by (relation "measure (\<lambda>(S, M, left, result, factor). unat left)")
    (auto simp: unat_halve [simplified] unat_gt_0)

declare pow_loop.simps [simp del]

definition metered_pow :: "'n substrate \<Rightarrow> 'm meter \<Rightarrow> 'n \<Rightarrow> u32 \<Rightarrow> ('m, meter_error, 'n) metered" where
  "metered_pow S M base exponent =
     mbind (checkpoint M) (\<lambda>_.
     if exponent = 0 then metered_finish M (sb_one S)
     else if is_zero S base then metered_finish M (sb_zero S)
     else if is_one S base then metered_finish M (sb_one S)
     else if base = sb_neg S (sb_one S) then
       metered_finish M (if unat exponent mod 2 = 0 then sb_one S else sb_neg S (sb_one S))
     else
       mbind (charge M ComputeSteps (of_nat (bit_length (unat exponent)))) (\<lambda>_.
       mbind (charge_batch M
         [(MemoryBytes, saturating_mul64 (saturating_add64 (max (limb_count S base) 1) 1) 8),
          (AllocationCount, 2)]) (\<lambda>_.
       mbind (checkpoint M) (\<lambda>_.
       mbind (checkpoint M) (\<lambda>_.
       mbind (pow_loop S M exponent (sb_one S) base) (\<lambda>result.
       metered_finish M result))))))"

section \<open>Greatest common divisors\<close>

fun gcd_loop :: "'n substrate \<Rightarrow> 'm meter \<Rightarrow> nat \<Rightarrow> 'n \<Rightarrow> 'n \<Rightarrow> ('m, meter_error, 'n) metered" where
  "gcd_loop S M fuel a b =
     (case nonzero_new S b of
        None \<Rightarrow> mret a
      | Some divisor \<Rightarrow>
          (case fuel of
             0 \<Rightarrow> mfuel
           | Suc n \<Rightarrow>
               mbind (checkpoint M) (\<lambda>_.
               mbind (metered_div_rem_nonzero S M a divisor) (\<lambda>(_, remainder).
               gcd_loop S M n b remainder))))"

definition metered_gcd ::
  "nat \<Rightarrow> 'n substrate \<Rightarrow> 'm meter \<Rightarrow> 'n \<Rightarrow> 'n \<Rightarrow> ('m, meter_error, 'n) metered" where
  "metered_gcd fuel S M a b =
     mbind (checkpoint M) (\<lambda>_.
     mbind (charge_batch M
       [(MemoryBytes, saturating_mul64 (saturating_add64 (max (limb_count S a) 1) (max (limb_count S b) 1)) 8),
        (AllocationCount, 2)]) (\<lambda>_.
     mbind (gcd_loop S M fuel a b) (\<lambda>a.
     mbind (checkpoint M) (\<lambda>_.
       let result = (if is_negative S a then sb_neg S a else a)
       in metered_finish M result))))"

fun extended_gcd_loop ::
  "'n substrate \<Rightarrow> 'm meter \<Rightarrow> nat \<Rightarrow> 'n \<times> 'n \<Rightarrow> 'n \<times> 'n \<Rightarrow> 'n \<times> 'n
    \<Rightarrow> ('m, meter_error, 'n \<times> 'n \<times> 'n) metered" where
  "extended_gcd_loop S M fuel (old_r, r) (old_s, s) (old_t, t) =
     (case nonzero_new S r of
        None \<Rightarrow> mret (old_r, old_s, old_t)
      | Some divisor \<Rightarrow>
          (case fuel of
             0 \<Rightarrow> mfuel
           | Suc n \<Rightarrow>
               mbind (checkpoint M) (\<lambda>_.
               mbind (metered_div_rem_nonzero S M old_r divisor) (\<lambda>(q, remainder).
               mbind (metered_multiply S M q s) (\<lambda>quotient_times_s.
               mbind (metered_subtract S M old_s quotient_times_s) (\<lambda>next_s.
               mbind (metered_multiply S M q t) (\<lambda>quotient_times_t.
               mbind (metered_subtract S M old_t quotient_times_t) (\<lambda>next_t.
               extended_gcd_loop S M n (r, remainder) (s, next_s) (t, next_t)))))))))"

declare gcd_loop.simps [simp del] extended_gcd_loop.simps [simp del]

definition metered_extended_gcd ::
  "nat \<Rightarrow> 'n substrate \<Rightarrow> 'm meter \<Rightarrow> 'n \<Rightarrow> 'n \<Rightarrow> ('m, meter_error, 'n \<times> 'n \<times> 'n) metered" where
  "metered_extended_gcd fuel S M a b =
     mbind (checkpoint M) (\<lambda>_.
     mbind (charge_batch M
       [(MemoryBytes, saturating_mul64 (saturating_add64 (saturating_add64 (limb_count S a) (limb_count S b)) 4) 8),
        (AllocationCount, 6)]) (\<lambda>_.
     mbind (extended_gcd_loop S M fuel (a, b) (sb_one S, sb_zero S) (sb_zero S, sb_one S))
       (\<lambda>(old_r, old_s, old_t).
         let result = (if is_negative S old_r then (sb_neg S old_r, sb_neg S old_s, sb_neg S old_t)
                       else (old_r, old_s, old_t))
         in metered_finish M result)))"

section \<open>What they compute\<close>

lemma truncated_gcd: "truncated a b q r \<Longrightarrow> gcd a b = gcd b r"
  by (metis gcd.commute gcd_add_mult truncated_def)

lemma truncated_fuel: "truncated a b q r \<Longrightarrow> nat \<bar>b\<bar> \<le> Suc n \<Longrightarrow> nat \<bar>r\<bar> \<le> n"
  by (auto simp: truncated_def nat_le_iff)

context big_meter
begin

lemma pow_loop:
  "meets E R (\<lambda>r. bval S r = bval S result * bval S factor ^ unat left)
    (pow_loop S M left result factor)"
proof (induction "unat left" arbitrary: left result factor rule: less_induct)
  case less
  show ?case
  proof (cases "left = 0")
    case True
    then show ?thesis by (subst pow_loop.simps) simp
  next
    case nz: False
    let ?h = "drop_bit 1 left"
    have h: "unat ?h = unat left div 2" "unat ?h < unat left"
      using nz by (simp_all add: unat_halve [simplified] unat_gt_0)
    have rem: "unat left = 2 * unat ?h + (if odd (unat left) then 1 else 0)"
      by (cases "odd (unat left)") (simp_all add: h(1) [simplified])
    show ?thesis
      apply (subst pow_loop.simps)
      apply (simp only: if_not_P [OF nz] Let_def)
      apply (rule after_checkpoint)
      apply (rule bind [where Q = "\<lambda>r. bval S r = bval S result * (if odd (unat left) then bval S factor else 1)"])
      subgoal using multiply [of result factor] by (simp add: odd_and_1)
      subgoal for res
        apply (rule bind [where Q = "\<lambda>f. ?h = 0 \<or> bval S f = bval S factor * bval S factor"])
        subgoal using multiply [of factor factor] by (auto elim: meets_post)
        subgoal for f
          apply (rule meets_post [OF less [OF h(2)]])
          apply (subst rem)
          by (auto simp: power_add power_mult power2_eq_square)
        done
      done
  qed
qed

lemma pow: "meets E R (\<lambda>r. bval S r = bval S base ^ unat exponent) (metered_pow S M base exponent)"
  unfolding metered_pow_def
  by (auto simp: eq_minus_one zero_power unat_gt_0 unat_eq_zero even_iff_mod_2_eq_zero
      intro!: after_checkpoint after_charge after_batch finish bind [OF pow_loop] split del: if_split split: if_splits)

lemma gcd_loop:
  assumes "nat \<bar>bval S b\<bar> \<le> fuel"
  shows "meets E R (\<lambda>r. \<bar>bval S r\<bar> = gcd (bval S a) (bval S b)) (gcd_loop S M fuel a b)"
  using assms
proof (induction fuel arbitrary: a b)
  case 0
  then show ?case by (subst gcd_loop.simps) (simp add: nonzero_new)
next
  case (Suc n)
  show ?case
  proof (cases "bval S b = 0")
    case True
    then show ?thesis by (subst gcd_loop.simps) (simp add: nonzero_new)
  next
    case False
    have "meets E R (\<lambda>g. \<bar>bval S g\<bar> = gcd (bval S a) (bval S b)) (gcd_loop S M n b r)"
      if "truncated (bval S a) (bval S b) (bval S q) (bval S r)" for q r
      using Suc.IH [OF truncated_fuel [OF that Suc.prems], of b] truncated_gcd [OF that] by simp
    then show ?thesis
      using False by (subst gcd_loop.simps)
        (auto simp: nonzero_new intro!: after_checkpoint bind [OF div_rem_nonzero])
  qed
qed

lemma gcd:
  assumes "nat \<bar>bval S b\<bar> \<le> fuel"
  shows "meets E R (\<lambda>r. bval S r = gcd (bval S a) (bval S b)) (metered_gcd fuel S M a b)"
  unfolding metered_gcd_def Let_def
  by (intro after_checkpoint after_batch bind [OF gcd_loop [OF assms]] finish) auto

lemma extended_gcd_loop:
  assumes "nat \<bar>bval S r\<bar> \<le> fuel"
    and "bval S old_r = bval S old_s * a + bval S old_t * b" and "bval S r = bval S s * a + bval S t * b"
  shows "meets E R (\<lambda>(g, x, y). \<bar>bval S g\<bar> = gcd (bval S old_r) (bval S r)
      \<and> bval S g = bval S x * a + bval S y * b)
    (extended_gcd_loop S M fuel (old_r, r) (old_s, s) (old_t, t))"
  using assms
proof (induction fuel arbitrary: old_r r old_s s old_t t)
  case 0
  then show ?case by (subst extended_gcd_loop.simps) (simp add: nonzero_new)
next
  case (Suc n)
  show ?case
  proof (cases "bval S r = 0")
    case True
    then show ?thesis using Suc.prems by (subst extended_gcd_loop.simps) (simp add: nonzero_new)
  next
    case False
    have "meets E R (\<lambda>(g, x, y). \<bar>bval S g\<bar> = gcd (bval S old_r) (bval S r)
        \<and> bval S g = bval S x * a + bval S y * b)
      (extended_gcd_loop S M n (r, r') (s, s') (t, t'))"
      if tr: "truncated (bval S old_r) (bval S r) (bval S q) (bval S r')"
        and s': "bval S s' = bval S old_s - bval S q * bval S s"
        and t': "bval S t' = bval S old_t - bval S q * bval S t" for q r' s' t'
    proof -
      have "bval S r' = bval S old_r - bval S q * bval S r" using tr by (simp add: truncated_def)
      then have "bval S r' = bval S s' * a + bval S t' * b"
        by (simp add: s' t' Suc.prems(2,3) algebra_simps)
      from Suc.IH [OF truncated_fuel [OF tr Suc.prems(1)] Suc.prems(3) this] truncated_gcd [OF tr]
      show ?thesis by simp
    qed
    then show ?thesis
      using False by (subst extended_gcd_loop.simps)
        (auto simp: nonzero_new intro!: after_checkpoint bind [OF div_rem_nonzero] bind [OF multiply]
          bind [OF subtract])
  qed
qed

lemma extended_gcd:
  assumes "nat \<bar>bval S b\<bar> \<le> fuel"
  shows "meets E R (\<lambda>(g, x, y). bval S g = gcd (bval S a) (bval S b)
      \<and> bval S x * bval S a + bval S y * bval S b = bval S g)
    (metered_extended_gcd fuel S M a b)"
  unfolding metered_extended_gcd_def Let_def
proof (intro after_checkpoint after_batch bind [OF extended_gcd_loop [OF assms, of _ _ "bval S a" _ "bval S b"]],
    goal_cases)
  case (3 x)
  obtain g u v where x: "x = (g, u, v)" by (cases x)
  then show ?case using 3
    by (cases "bval S g < 0") (simp_all add: finish algebra_simps)
qed simp_all

end

end
