(* ===== verification/Big_Roots.thy ===== *)
theory Big_Roots
  imports Big_Euclid
begin

unbundle bit_operations_syntax

text \<open>
  The integer roots of \<open>crates/fsym-bigint/src/lib.rs\<close>: the Newton square root, the capped power
  comparison, the binary search for the positive \<open>n\<close>th root, \<open>metered_nth_root_floor\<close> and the
  search for the greatest perfect power. The loops that end because an iterate decreases run on
  fuel; the lemmas give fuel that is enough. A \<open>debug_assert\<close> or \<open>expect\<close> that fails is \<open>Panic\<close>.
\<close>

section \<open>Square roots\<close>

fun sqrt_loop :: "'n substrate \<Rightarrow> 'm meter \<Rightarrow> nat \<Rightarrow> 'n \<Rightarrow> 'n \<Rightarrow> ('m, meter_error, 'n option) metered" where
  "sqrt_loop S M 0 v current = mfuel"
| "sqrt_loop S M (Suc fuel) v current =
     mbind (tick M) (\<lambda>_.
     mbind (expect (nonzero_new S current)) (\<lambda>current_divisor.
     mbind (metered_div_rem_nonzero S M v current_divisor) (\<lambda>(q, _).
     mbind (metered_add S M current q) (\<lambda>sum.
     mbind (metered_div_rem_nonzero S M sum (sb_two S)) (\<lambda>(next_value, _).
     mbind (metered_cmp S M next_value current) (\<lambda>cmp.
       if cmp \<noteq> Less then metered_finish M (Some current)
       else sqrt_loop S M fuel v next_value))))))"

definition charge_clone :: "'n substrate \<Rightarrow> 'm meter \<Rightarrow> 'n \<Rightarrow> u64 \<Rightarrow> ('m, meter_error, unit) metered" where
  "charge_clone S M v allocations =
     mbind (charge_batch M
       [(MemoryBytes, saturating_mul64 (saturating_add64 (max (limb_count S v) 1) 1) 8),
        (AllocationCount, allocations)]) (\<lambda>_.
     checkpoint M)"

definition metered_sqrt_floor ::
  "nat \<Rightarrow> 'n substrate \<Rightarrow> 'm meter \<Rightarrow> 'n \<Rightarrow> ('m, meter_error, 'n option) metered" where
  "metered_sqrt_floor fuel S M v =
     mbind (checkpoint M) (\<lambda>_.
     if is_negative S v then metered_finish M None
     else if is_zero S v then metered_finish M (Some (sb_zero S))
     else
       mbind (charge_clone S M v 2) (\<lambda>_.
       mbind (checkpoint M) (\<lambda>_.
       mbind (expect (nonzero_new S (sb_two S))) (\<lambda>_.
       sqrt_loop S M fuel v v))))"

section \<open>Powers against a limit\<close>

definition metered_root_clone :: "'n substrate \<Rightarrow> 'm meter \<Rightarrow> 'n \<Rightarrow> ('m, meter_error, 'n) metered" where
  "metered_root_clone S M v = mbind (charge_clone S M v 1) (\<lambda>_. mret v)"

definition metered_multiply_capped ::
  "'n substrate \<Rightarrow> 'm meter \<Rightarrow> 'n \<Rightarrow> 'n \<Rightarrow> 'n \<Rightarrow> ('m, meter_error, 'n option) metered" where
  "metered_multiply_capped S M lhs rhs limit =
     mbind (tick M) (\<lambda>_.
     mbind (expect (nonzero_new S rhs)) (\<lambda>rhs_divisor.
     mbind (metered_div_rem_nonzero S M limit rhs_divisor) (\<lambda>(q, _).
     mbind (metered_cmp S M lhs q) (\<lambda>cmp.
       if cmp = Greater then mret None
       else mbind (metered_multiply S M lhs rhs) (\<lambda>p. mret (Some p))))))"

function compare_power_loop ::
  "'n substrate \<Rightarrow> 'm meter \<Rightarrow> 'n \<Rightarrow> u32 \<Rightarrow> 'n \<Rightarrow> 'n \<Rightarrow> ('m, meter_error, ordering) metered" where
  "compare_power_loop S M limit left result factor =
     (if left = 0 then metered_cmp S M result limit
      else
        mbind (tick M) (\<lambda>_.
        mbind (if left AND 1 = 1 then metered_multiply_capped S M result factor limit
               else mret (Some result)) (\<lambda>product.
          case product of
            None \<Rightarrow> mret Greater
          | Some result \<Rightarrow>
              let left' = drop_bit 1 left
              in mbind (if left' \<noteq> 0 then metered_multiply_capped S M factor factor limit
                        else mret (Some factor)) (\<lambda>square.
                   case square of
                     None \<Rightarrow> mret Greater
                   | Some factor \<Rightarrow> compare_power_loop S M limit left' result factor))))"
  by pat_completeness auto
termination
  by (relation "measure (\<lambda>(S, M, limit, left, result, factor). unat left)")
    (auto simp: unat_halve [simplified] unat_gt_0)

declare compare_power_loop.simps [simp del]

text \<open>\<open>debug_assert!(c)\<close>.\<close>

definition debug_assert :: "bool \<Rightarrow> ('m, meter_error, unit) metered" where
  "debug_assert c = (if c then mret () else mpanic)"

definition metered_compare_power_to_limit ::
  "'n substrate \<Rightarrow> 'm meter \<Rightarrow> 'n \<Rightarrow> u32 \<Rightarrow> 'n \<Rightarrow> ('m, meter_error, ordering) metered" where
  "metered_compare_power_to_limit S M base exponent limit =
     mbind (debug_assert (bval S base > 0)) (\<lambda>_.
     mbind (debug_assert (exponent > 0)) (\<lambda>_.
     mbind (debug_assert (bval S limit > 0)) (\<lambda>_.
     mbind (metered_root_clone S M base) (\<lambda>factor.
     compare_power_loop S M limit exponent (sb_one S) factor))))"

section \<open>Roots of any degree\<close>

fun root_search ::
  "'n substrate \<Rightarrow> 'm meter \<Rightarrow> nat \<Rightarrow> 'n \<Rightarrow> u32 \<Rightarrow> 'n \<Rightarrow> 'n \<Rightarrow> ('m, meter_error, 'n \<times> bool) metered" where
  "root_search S M 0 magnitude degree low high = mfuel"
| "root_search S M (Suc fuel) magnitude degree low high =
     mbind (tick M) (\<lambda>_.
     mbind (metered_add S M low high) (\<lambda>sum.
     mbind (metered_div_rem_nonzero S M sum (sb_two S)) (\<lambda>(midpoint, _).
     mbind (metered_cmp S M midpoint low) (\<lambda>cmp.
       if cmp = Equal then mret (low, False)
       else
         mbind (metered_compare_power_to_limit S M midpoint degree magnitude) (\<lambda>cmp.
           case cmp of
             Less \<Rightarrow> root_search S M fuel magnitude degree midpoint high
           | Equal \<Rightarrow> mret (midpoint, True)
           | Greater \<Rightarrow> root_search S M fuel magnitude degree low midpoint)))))"

definition double_bound ::
  "'n substrate \<Rightarrow> 'm meter \<Rightarrow> nat \<Rightarrow> ('m, meter_error, 'n) metered" where
  "double_bound S M upper_bits =
     mfor [0..<upper_bits] (\<lambda>_ bound. mbind (tick M) (\<lambda>_. metered_add S M bound bound)) (sb_one S)"

definition metered_positive_nth_root_floor ::
  "nat \<Rightarrow> 'n substrate \<Rightarrow> 'm meter \<Rightarrow> 'n \<Rightarrow> u32 \<Rightarrow> ('m, meter_error, 'n \<times> bool) metered" where
  "metered_positive_nth_root_floor fuel S M magnitude degree =
     mbind (debug_assert (bval S magnitude > 1)) (\<lambda>_.
     mbind (debug_assert (degree \<ge> 3)) (\<lambda>_.
     mbind (debug_assert (unat degree < sb_bits S magnitude)) (\<lambda>_.
       let upper_bits = div_ceil (sb_bits S magnitude) (unat degree)
       in mbind (if upper_bits < radix then metered_pow S M (sb_two S) (of_nat upper_bits)
                 else double_bound S M upper_bits) (\<lambda>high.
          mbind (expect (nonzero_new S (sb_two S))) (\<lambda>_.
          root_search S M fuel magnitude degree (sb_one S) high)))))"

definition metered_nth_root_floor ::
  "nat \<Rightarrow> 'n substrate \<Rightarrow> 'm meter \<Rightarrow> 'n \<Rightarrow> u32 \<Rightarrow> ('m, meter_error, ('n \<times> bool) option) metered" where
  "metered_nth_root_floor fuel S M v degree =
     mbind (checkpoint M) (\<lambda>_.
     if degree = 0 \<or> is_negative S v \<and> unat degree mod 2 = 0 then metered_finish M None
     else if degree = 1 then
       mbind (metered_root_clone S M v) (\<lambda>result. metered_finish M (Some (result, True)))
     else if is_zero S v then metered_finish M (Some (sb_zero S, True))
     else if v = sb_one S \<or> v = sb_neg S (sb_one S) then
       mbind (metered_root_clone S M v) (\<lambda>result. metered_finish M (Some (result, True)))
     else
       let negative = is_negative S v
       in mbind (if negative then metered_subtract S M (sb_zero S) v else mret v) (\<lambda>magnitude.
          mbind
            (if degree = 2 then
               mbind (metered_sqrt_floor fuel S M magnitude) (\<lambda>root.
               mbind (expect root) (\<lambda>root.
               mbind (metered_multiply S M root root) (\<lambda>square.
               mbind (metered_cmp S M square magnitude) (\<lambda>cmp. mret (root, cmp = Equal)))))
             else if unat degree \<ge> sb_bits S magnitude then mret (sb_one S, False)
             else metered_positive_nth_root_floor fuel S M magnitude degree)
            (\<lambda>(magnitude_root, exact).
              mbind
                (if \<not> negative then mret magnitude_root
                 else if exact then metered_subtract S M (sb_zero S) magnitude_root
                 else mbind (metered_add S M magnitude_root (sb_one S)) (\<lambda>ceiling.
                      metered_subtract S M (sb_zero S) ceiling))
                (\<lambda>result. metered_finish M (Some (result, exact))))))"

section \<open>Perfect powers\<close>

definition greatest_possible_power_degree :: "'n substrate \<Rightarrow> 'n \<Rightarrow> u32 \<Rightarrow> u32 option" where
  "greatest_possible_power_degree S v max_degree =
     (if max_degree < 2 \<or> sb_bits S v \<le> 1 then None
      else
        let magnitude_bound = (if sb_bits S v - 1 < radix then of_nat (sb_bits S v - 1) else - 1);
            upper = min max_degree magnitude_bound;
            upper = (if is_negative S v \<and> unat upper mod 2 = 0 then upper - 1 else upper);
            minimum = (if is_negative S v then 3 else 2)
        in if upper \<ge> minimum then Some upper else None)"

text \<open>The descending scan; the degree step is two for a negative value.\<close>

definition degree_step :: "bool \<Rightarrow> u32" where
  "degree_step negative = (if negative then 2 else 1)"

lemma unat_step_back:
  "degree > degree_step negative \<Longrightarrow>
   unat (degree - degree_step negative) = unat degree - (if negative then 2 else 1)"
  by (simp add: degree_step_def unat_sub split: if_splits)

function power_search ::
  "nat \<Rightarrow> 'n substrate \<Rightarrow> 'm meter \<Rightarrow> 'n \<Rightarrow> bool \<Rightarrow> u32 \<Rightarrow> ('m, meter_error, ('n \<times> u32) option) metered" where
  "power_search fuel S M v negative degree =
     (if degree > degree_step negative
      then
        mbind (tick M) (\<lambda>_.
        mbind (metered_nth_root_floor fuel S M v degree) (\<lambda>root.
        mbind (expect root) (\<lambda>root.
          if snd root then metered_finish M (Some (fst root, degree))
          else power_search fuel S M v negative (degree - degree_step negative))))
      else metered_finish M None)"
  by pat_completeness auto
termination
proof (relation "measure (\<lambda>(fuel, S, M, v, negative, degree). unat degree)", goal_cases)
  case (2 fuel S M v negative degree)
  then have "0 < unat degree" by (metis word_less_nat_alt gr_implies_not0 neq0_conv)
  then show ?case using unat_step_back [OF 2(1)] by simp
qed simp

declare power_search.simps [simp del]

definition metered_greatest_perfect_power_up_to ::
  "nat \<Rightarrow> 'n substrate \<Rightarrow> 'm meter \<Rightarrow> 'n \<Rightarrow> u32 \<Rightarrow> ('m, meter_error, ('n \<times> u32) option) metered" where
  "metered_greatest_perfect_power_up_to fuel S M v max_degree =
     mbind (checkpoint M) (\<lambda>_.
       case greatest_possible_power_degree S v max_degree of
         None \<Rightarrow> metered_finish M None
       | Some degree \<Rightarrow> power_search fuel S M v (is_negative S v) degree)"

section \<open>What the roots are\<close>

text \<open>\<open>r\<close> is the floor of the real \<open>d\<close>th root of \<open>v\<close>, and \<open>exact\<close> says whether it is one.\<close>

definition floor_root :: "int \<Rightarrow> nat \<Rightarrow> int \<Rightarrow> bool \<Rightarrow> bool" where
  "floor_root v d r exact \<longleftrightarrow> r ^ d \<le> v \<and> v < (r + 1) ^ d \<and> (exact \<longleftrightarrow> r ^ d = v)"

lemma truncated_pos:
  assumes "truncated a b q r" and "0 \<le> a" and "0 < b"
  shows "q = a div b"
proof -
  have "0 \<le> r" "r < b" "a = q * b + r" using assms by (auto simp: truncated_def)
  then show ?thesis using assms(3) by (simp add: div_pos_pos_trivial)
qed

text \<open>One Newton step from above keeps the iterate above the root, and stops on it.\<close>

lemma half_bounds: "2 * (x div 2) \<le> x" "x + 1 \<le> 2 * (x div 2 + 1)" for x :: int
  by presburger+

lemma newton_step:
  fixes v c :: int
  assumes v: "0 < v" and c: "0 < c" and above: "v < (c + 1) ^ 2"
  defines "n \<equiv> (c + v div c) div 2"
  shows "v < (n + 1) ^ 2" and "0 < n" and "\<not> n < c \<Longrightarrow> c ^ 2 \<le> v"
proof -
  let ?q = "v div c"
  have q: "c * ?q \<le> v" "v < c * (?q + 1)"
    using pos_mod_bound [OF c, of v] pos_mod_sign [OF c, of v] mult_div_mod_eq [of c v]
    unfolding distrib_left mult_1_right by linarith+
  have n: "2 * n \<le> c + ?q" "c + ?q + 1 \<le> 2 * (n + 1)" unfolding n_def by (rule half_bounds)+
  have q0: "0 \<le> ?q" using v c by (simp add: pos_imp_zdiv_nonneg_iff)
  have "4 * (c * (?q + 1)) \<le> (c + ?q + 1) ^ 2"
    using zero_le_power2 [of "c - (?q + 1)"] by (simp add: power2_eq_square algebra_simps)
  also have "\<dots> \<le> (2 * (n + 1)) ^ 2" using n(2) q0 c by (intro power_mono) simp_all
  also have "\<dots> = 4 * (n + 1) ^ 2" by (simp add: power2_eq_square algebra_simps)
  finally show lt: "v < (n + 1) ^ 2" using q(2) by simp
  have "0 \<le> n" unfolding n_def using q0 c by simp
  moreover have "n \<noteq> 0" using lt v by (intro notI) simp
  ultimately show "0 < n" by simp
  assume "\<not> n < c"
  then have "c \<le> ?q" using n(1) by linarith
  then have "c * c \<le> c * ?q" using c by (intro mult_left_mono) simp_all
  then show "c ^ 2 \<le> v" using q(1) by (simp add: power2_eq_square)
qed

lemma le_div_iff_int:
  assumes b: "0 < (b :: int)"
  shows "a \<le> l div b \<longleftrightarrow> a * b \<le> l"
proof
  assume "a \<le> l div b"
  then have "a * b \<le> l div b * b" using b by (intro mult_right_mono) simp_all
  also have "\<dots> \<le> l" using pos_mod_sign [OF b, of l] div_mult_mod_eq [of l b] by linarith
  finally show "a * b \<le> l" .
next
  assume "a * b \<le> l"
  from zdiv_mono1 [OF this b] b show "a \<le> l div b" by simp
qed

context big_meter
begin

lemma nonzero_expect:
  "bval S n \<noteq> 0 \<Longrightarrow> (\<And>m. m = n \<Longrightarrow> meets E R P (f m)) \<Longrightarrow> meets E R P (mbind (expect (nonzero_new S n)) f)"
  by (auto simp: nonzero_new expect_def)

lemma after_assert: "c \<Longrightarrow> meets E R P f \<Longrightarrow> meets E R P (mbind (debug_assert c) (\<lambda>_. f))"
  by (simp add: debug_assert_def)

lemma after_clone: "meets E R P c \<Longrightarrow> meets E R P (mbind (charge_clone S M v k) (\<lambda>_. c))"
proof -
  assume "meets E R P c"
  moreover have "meets E R (\<lambda>_. True) (charge_clone S M v k)"
    unfolding charge_clone_def by (intro after_batch checkpoint)
  ultimately show ?thesis by (rule bind [rotated])
qed

lemma root_clone: "meets E R (\<lambda>r. r = v) (metered_root_clone S M v)"
  unfolding metered_root_clone_def by (intro after_clone ret) simp

lemma divide_pos:
  assumes "0 \<le> bval S a" and "0 < bval S b"
  shows "meets E R (\<lambda>(q, r). bval S q = bval S a div bval S b) (metered_div_rem_nonzero S M a b)"
  using truncated_pos [OF _ assms] assms(2) by (intro meets_post [OF div_rem_nonzero]) auto

lemma sqrt_loop:
  assumes "0 < bval S v" and "0 < bval S c" and "bval S v < (bval S c + 1) ^ 2" and "nat (bval S c) \<le> fuel"
  shows "meets E R (\<lambda>r. \<exists>s. r = Some s \<and> 0 < bval S s \<and> bval S s ^ 2 \<le> bval S v \<and> bval S v < (bval S s + 1) ^ 2)
    (sqrt_loop S M fuel v c)"
  using assms(2-)
proof (induction fuel arbitrary: c)
  case 0
  then show ?case by simp
next
  case (Suc fuel)
  note step = newton_step [OF assms(1) Suc.prems(1,2)]
  have q0: "0 \<le> bval S v div bval S c" using assms(1) Suc.prems(1) by (simp add: pos_imp_zdiv_nonneg_iff)
  show ?case
    unfolding sqrt_loop.simps
  proof (rule after_tick, rule nonzero_expect, use Suc.prems in simp, hypsubst,
      rule bind [OF divide_pos], use assms Suc.prems in simp, use Suc.prems in simp, clarify,
      rule bind [OF add], rule bind [OF divide_pos], use Suc.prems q0 in simp, simp, clarify,
      rule bind [OF cmp], goal_cases)
    case (1 x q r sum n r' cmp)
    then have n: "bval S n = (bval S c + bval S v div bval S c) div 2" by simp
    show ?case
    proof (cases "bval S n < bval S c")
      case True
      then have "meets E R (\<lambda>r. \<exists>s. r = Some s \<and> 0 < bval S s \<and> bval S s ^ 2 \<le> bval S v \<and> bval S v < (bval S s + 1) ^ 2)
          (sqrt_loop S M fuel v n)"
        using Suc.IH [of n] Suc.prems(3) step(1,2) by (simp add: n)
      then show ?thesis using True 1 by simp
    next
      case False
      then show ?thesis using 1 step(3) Suc.prems by (auto simp: n intro!: finish)
    qed
  qed
qed

lemma sqrt_floor:
  assumes "nat (bval S v) \<le> fuel"
  shows "meets E R (\<lambda>r. case r of None \<Rightarrow> bval S v < 0
      | Some s \<Rightarrow> 0 \<le> bval S s \<and> bval S s ^ 2 \<le> bval S v \<and> bval S v < (bval S s + 1) ^ 2)
    (metered_sqrt_floor fuel S M v)"
proof -
  have "meets E R (\<lambda>r. case r of None \<Rightarrow> bval S v < 0
      | Some s \<Rightarrow> 0 \<le> bval S s \<and> bval S s ^ 2 \<le> bval S v \<and> bval S v < (bval S s + 1) ^ 2)
    (sqrt_loop S M fuel v v)" if "0 < bval S v"
  proof -
    have "bval S v + 1 \<le> (bval S v + 1) ^ 2" using that by (intro self_le_power) simp_all
    then have "bval S v < (bval S v + 1) ^ 2" by linarith
    then show ?thesis by (rule meets_post [OF sqrt_loop [OF that that _ assms]]) auto
  qed
  then show ?thesis
    unfolding metered_sqrt_floor_def
    by (auto intro!: after_checkpoint finish after_clone nonzero_expect)
qed

text \<open>The capped product is refused exactly when it would exceed the limit.\<close>

lemma multiply_capped:
  assumes "0 < bval S y" and "0 \<le> bval S limit"
  shows "meets E R (\<lambda>r. case r of None \<Rightarrow> bval S limit < bval S x * bval S y
      | Some p \<Rightarrow> bval S p = bval S x * bval S y \<and> bval S p \<le> bval S limit)
    (metered_multiply_capped S M x y limit)"
proof -
  have fits: "bval S x \<le> bval S limit div bval S y \<longleftrightarrow> bval S x * bval S y \<le> bval S limit"
    using assms(1) by (rule le_div_iff_int)
  show ?thesis
    unfolding metered_multiply_capped_def
  proof (rule after_tick, rule nonzero_expect, use assms in simp, hypsubst,
      rule bind [OF divide_pos [OF assms(2,1)]], clarify, rule bind [OF cmp], goal_cases)
    case (1 q r c)
    show ?case
    proof (cases "bval S x \<le> bval S limit div bval S y")
      case True
      then show ?thesis using 1 fits by (auto simp: compare_def intro!: bind [OF multiply])
    next
      case False
      then show ?thesis using 1 fits by simp
    qed
  qed
qed

lemma compare_power_loop:
  assumes "0 < bval S result" and "0 < bval S factor" and "0 \<le> bval S limit"
  shows "meets E R (\<lambda>r. r = compare (bval S result * bval S factor ^ unat left) (bval S limit))
    (compare_power_loop S M limit left result factor)"
  using assms(1,2)
proof (induction "unat left" arbitrary: left result factor rule: less_induct)
  case less
  let ?L = "bval S limit"
  show ?case
  proof (cases "left = 0")
    case True
    then show ?thesis using cmp [of result limit] by (subst compare_power_loop.simps) simp
  next
    case nz: False
    let ?h = "drop_bit 1 left"
    have h: "unat ?h < unat left" using nz by (simp add: unat_halve [simplified] unat_gt_0)
    have split: "unat left = 2 * unat ?h + (if odd (unat left) then 1 else 0)"
      by (cases "odd (unat left)") (simp_all add: unat_halve [simplified])
    define g where "g = (if odd (unat left) then bval S result * bval S factor else bval S result)"
    have whole: "bval S result * bval S factor ^ unat left = g * (bval S factor * bval S factor) ^ unat ?h"
      by (subst split) (simp add: g_def power_add power_mult power2_eq_square)
    have g: "0 < g" using less.prems by (simp add: g_def)
    have pow1: "1 \<le> (bval S factor * bval S factor) ^ n" for n
    proof (rule one_le_power)
      show "1 \<le> bval S factor * bval S factor"
        using mult_pos_pos [OF less.prems(2) less.prems(2)] by linarith
    qed
    have big1: "?L < bval S result * bval S factor ^ unat left" if "?L < g"
      using that g mult_mono [OF order_refl pow1, of g] whole by (simp add: order_less_le_trans)
    have big2: "?L < bval S result * bval S factor ^ unat left"
      if sq: "?L < bval S factor * bval S factor" and h0: "?h \<noteq> 0"
    proof -
      obtain n where n: "unat ?h = Suc n" using h0 by (metis not0_implies_Suc unat_eq_zero)
      have "bval S factor * bval S factor * 1 \<le> bval S factor * bval S factor * (bval S factor * bval S factor) ^ n"
        by (rule mult_left_mono [OF pow1]) simp
      also have "\<dots> \<le> g * (bval S factor * bval S factor * (bval S factor * bval S factor) ^ n)"
        using mult_right_mono [of 1 g "bval S factor * bval S factor * (bval S factor * bval S factor) ^ n"]
          g pow1 [of "Suc n"] by simp
      finally show ?thesis using sq by (simp only: whole n power_Suc)
    qed
    show ?thesis
      apply (subst compare_power_loop.simps)
      apply (simp only: if_not_P [OF nz] Let_def)
      apply (rule after_tick)
      apply (rule bind [where Q = "\<lambda>p. case p of None \<Rightarrow> ?L < g | Some x \<Rightarrow> bval S x = g"])
      subgoal
        using multiply_capped [OF less.prems(2) assms(3), of result]
        by (auto simp: odd_and_1 g_def elim!: meets_post split: option.splits)
      subgoal for p
        apply (cases p)
        subgoal using big1 by simp
        subgoal for x
          apply (hypsubst, simp only: option.case)
          apply (rule bind [where Q = "\<lambda>q. case q of None \<Rightarrow> ?h \<noteq> 0 \<and> ?L < bval S factor * bval S factor
              | Some f \<Rightarrow> 0 < bval S f \<and> (?h = 0 \<or> bval S f = bval S factor * bval S factor)"])
          subgoal
            using multiply_capped [OF less.prems(2) assms(3), of factor] mult_pos_pos [OF less.prems(2) less.prems(2)]
              less.prems(2)
            by (auto elim!: meets_post split: option.splits)
          subgoal for q
            apply (cases q)
            subgoal using big2 by simp
            subgoal for f
              apply (hypsubst, simp only: option.case)
              apply (rule meets_post [OF less.hyps [OF h]])
              using g whole by auto
            done
          done
        done
      done
  qed
qed

lemma compare_power_to_limit:
  assumes "0 < bval S base" and "0 < exponent" and "0 < bval S limit"
  shows "meets E R (\<lambda>r. r = compare (bval S base ^ unat exponent) (bval S limit))
    (metered_compare_power_to_limit S M base exponent limit)"
  using compare_power_loop [of "sb_one S" base limit exponent] assms
  by (auto simp: metered_compare_power_to_limit_def debug_assert_def intro!: bind [OF root_clone])

lemma root_search:
  assumes d: "0 < degree"
    and "0 < bval S low" and "bval S low < bval S high"
    and "bval S low ^ unat degree < bval S m" and "bval S m < bval S high ^ unat degree"
    and "nat (bval S high - bval S low) \<le> fuel"
  shows "meets E R (\<lambda>(r, exact). 0 < bval S r \<and> floor_root (bval S m) (unat degree) (bval S r) exact)
    (root_search S M fuel m degree low high)"
  using assms(2-)
proof (induction fuel arbitrary: low high)
  case 0
  then show ?case by simp
next
  case (Suc fuel)
  let ?lo = "bval S low" and ?hi = "bval S high" and ?m = "bval S m" and ?d = "unat degree"
  have d0: "0 < ?d" using d by (simp add: word_less_nat_alt)
  define mid where "mid = (?lo + ?hi) div 2"
  have mid: "?lo \<le> mid" "mid < ?hi" using Suc.prems(2) unfolding mid_def by presburger+
  have m0: "0 < ?m" using Suc.prems(1,3) zero_less_power [of ?lo ?d] by linarith
  show ?case
    unfolding root_search.simps
  proof (rule after_tick, rule bind [OF add], rule bind [OF divide_pos], use Suc.prems in simp, simp, clarify,
      rule bind [OF cmp], goal_cases)
    case (1 sum x r cmp)
    then have x: "bval S x = mid" by (simp add: mid_def)
    show ?case
    proof (cases "mid = ?lo")
      case True
      then have "?hi = ?lo + 1" using Suc.prems(2) unfolding mid_def by presburger
      then have "floor_root ?m ?d ?lo False" using Suc.prems(3,4) by (simp add: floor_root_def)
      then show ?thesis using 1 True x Suc.prems(1) by simp
    next
      case False
      then have low: "?lo < mid" using mid by simp
      then have pos: "0 < bval S x" using Suc.prems(1) x by simp
      have "meets E R (\<lambda>(r, exact). 0 < bval S r \<and> floor_root ?m ?d (bval S r) exact)
          (case c of Less \<Rightarrow> root_search S M fuel m degree x high | Equal \<Rightarrow> mret (x, True)
           | Greater \<Rightarrow> root_search S M fuel m degree low x)" if c: "c = compare (mid ^ ?d) ?m" for c
      proof (cases c)
        case Less
        then show ?thesis
          using Suc.IH [of x high] Suc.prems mid low c by (simp add: x)
      next
        case Equal
        then have eq: "mid ^ ?d = ?m" using c by simp
        have "mid ^ ?d < (mid + 1) ^ ?d" using low Suc.prems(1) d0 by (intro power_strict_mono) simp_all
        then show ?thesis using Equal eq pos by (simp add: floor_root_def x)
      next
        case Greater
        then show ?thesis
          using Suc.IH [of low x] Suc.prems mid low c by (simp add: x)
      qed
      then show ?thesis
        using 1 False x by (auto intro!: bind [OF compare_power_to_limit [OF pos d m0]])
    qed
  qed
qed

lemma double_bound: "meets E R (\<lambda>r. bval S r = 2 ^ n) (double_bound S M n)"
proof -
  have "meets E R (\<lambda>r. bval S r = 2 ^ length [0..<n]) (double_bound S M n)"
    unfolding double_bound_def
    by (rule loop [where I = "\<lambda>k r. bval S r = 2 ^ k"]) (auto intro!: after_tick meets_post [OF add])
  then show ?thesis by simp
qed

lemma bits_bounds:
  assumes "0 < bval S v"
  shows "bval S v < 2 ^ sb_bits S v" and "2 ^ sb_bits S v \<le> 2 * bval S v" and "0 < sb_bits S v"
proof -
  have v: "int (dval (sb_digits S v)) = bval S v" using magnitude [of v] assms by simp
  have "int (dval (sb_digits S v)) < int (2 ^ sb_bits S v)" using bits_upper by (simp only: of_nat_less_iff)
  then show up: "bval S v < 2 ^ sb_bits S v" by (simp add: v)
  show pos: "0 < sb_bits S v" using up assms by (cases "sb_bits S v") simp_all
  have "int (2 ^ (sb_bits S v - 1)) \<le> int (dval (sb_digits S v))"
    using bits_lower [of v] pos by (simp only: of_nat_le_iff) simp
  then have "2 ^ (sb_bits S v - 1) \<le> bval S v" by (simp add: v)
  then show "2 ^ sb_bits S v \<le> 2 * bval S v" using pos by (cases "sb_bits S v") simp_all
qed

lemma positive_nth_root_floor:
  assumes m: "1 < bval S m" and d: "3 \<le> degree" and small: "unat degree < sb_bits S m"
    and fuel: "nat (2 * bval S m) \<le> fuel"
  shows "meets E R (\<lambda>(r, exact). 0 < bval S r \<and> floor_root (bval S m) (unat degree) (bval S r) exact)
    (metered_positive_nth_root_floor fuel S M m degree)"
proof -
  let ?n = "div_ceil (sb_bits S m) (unat degree)"
  have d0: "0 < degree" "0 < unat degree" using d by (simp_all add: word_le_nat_alt word_less_nat_alt)
  have m0: "0 < bval S m" using m by simp
  note bits = bits_bounds [OF m0]
  have n: "sb_bits S m \<le> ?n * unat degree" "?n \<le> sb_bits S m" "0 < ?n"
  proof -
    show up: "sb_bits S m \<le> ?n * unat degree" by (rule div_ceil_mult [OF d0(2)])
    show "?n \<le> sb_bits S m" by (rule div_ceil_le [OF d0(2)])
    show "0 < ?n" using up bits(3) by (cases ?n) simp_all
  qed
  have high: "meets E R (\<lambda>h. bval S h = 2 ^ ?n)
      (if ?n < radix then metered_pow S M (sb_two S) (of_nat ?n) else double_bound S M ?n)"
  proof (cases "?n < radix")
    case True
    then have "unat (of_nat ?n :: u32) = ?n" by (simp add: unat_of_nat)
    then show ?thesis using True pow [of "sb_two S" "of_nat ?n"] by simp
  qed (simp add: double_bound)
  show ?thesis
    unfolding metered_positive_nth_root_floor_def Let_def
  proof (rule after_assert [OF m], rule after_assert [OF d], rule after_assert [OF small], rule bind [OF high], rule nonzero_expect, simp, goal_cases)
    case (1 h t)
    have "bval S m < (2 ^ ?n) ^ unat degree"
    proof -
      note bits(1)
      also have "(2 :: int) ^ sb_bits S m \<le> 2 ^ (?n * unat degree)" using n(1) by (intro power_increasing) simp_all
      finally show ?thesis by (simp add: power_mult)
    qed
    moreover have "(2 :: int) ^ ?n \<le> 2 * bval S m"
      by (rule order_trans [OF power_increasing [OF n(2)] bits(2)]) simp
    moreover have "(1 :: int) < 2 ^ ?n" using n(3) by simp
    ultimately show ?case
      using 1 m fuel by (intro root_search d0) simp_all
  qed
qed

end

text \<open>What the rounding and the domain refusals of \<open>nth_root_floor\<close> promise.\<close>

definition root_answer :: "int \<Rightarrow> nat \<Rightarrow> (int \<times> bool) option \<Rightarrow> bool" where
  "root_answer v degree r \<longleftrightarrow> (case r of
       None \<Rightarrow> degree = 0 \<or> v < 0 \<and> even degree
     | Some (root, exact) \<Rightarrow> degree \<noteq> 0 \<and> (v < 0 \<longrightarrow> odd degree) \<and> floor_root v degree root exact)"

lemma floor_root_negative:
  assumes "floor_root m d r exact" and d: "odd d" and r: "0 < r"
  shows "floor_root (- m) d (if exact then - r else - (r + 1)) exact"
proof (cases exact)
  case True
  then have eq: "r ^ d = m" using assms(1) by (simp add: floor_root_def)
  have "(r - 1) ^ d < r ^ d" using r d by (intro power_strict_mono) (auto simp: odd_pos)
  moreover have "(1 - r) ^ d = - ((r - 1) ^ d)" using d by (metis minus_diff_eq power_minus_odd)
  ultimately show ?thesis using True eq d by (simp add: floor_root_def)
next
  case False
  then have "r ^ d < m" "m < (r + 1) ^ d" using assms(1) by (auto simp: floor_root_def)
  moreover have "(- r - 1) ^ d = - ((r + 1) ^ d)"
    using d power_minus_odd [of d "r + 1"] by simp
  ultimately show ?thesis using False d by (simp add: floor_root_def)
qed

context big_meter
begin

lemma magnitude_root:
  assumes m: "1 < bval S m" and d: "1 < unat degree" and fuel: "nat (2 * bval S m) \<le> fuel"
  shows "meets E R (\<lambda>(r, exact). 0 < bval S r \<and> floor_root (bval S m) (unat degree) (bval S r) exact)
    (if degree = 2 then
       mbind (metered_sqrt_floor fuel S M m) (\<lambda>root.
       mbind (expect root) (\<lambda>root.
       mbind (metered_multiply S M root root) (\<lambda>square.
       mbind (metered_cmp S M square m) (\<lambda>cmp. mret (root, cmp = Equal)))))
     else if unat degree \<ge> sb_bits S m then mret (sb_one S, False)
     else metered_positive_nth_root_floor fuel S M m degree)"
proof -
  consider "degree = 2" | "degree \<noteq> 2" "unat degree \<ge> sb_bits S m"
    | "degree \<noteq> 2" "\<not> unat degree \<ge> sb_bits S m" by blast
  then show ?thesis
  proof cases
    case 1
    have "nat (bval S m) \<le> fuel" using fuel m by simp
    note root = sqrt_floor [OF this]
    show ?thesis
      unfolding if_P [OF 1]
    proof (rule bind [OF root], goal_cases)
      case (1 x)
      then obtain s where s: "x = Some s" "0 \<le> bval S s" "bval S s ^ 2 \<le> bval S m" "bval S m < (bval S s + 1) ^ 2"
        using m by (cases x) auto
      have "bval S s \<noteq> 0" using s(4) m by (intro notI) simp
      then have "0 < bval S s" using s(2) by simp
      then show ?case using s
        by (auto simp: expect_def floor_root_def \<open>degree = 2\<close> power2_eq_square
            intro!: bind [OF multiply] bind [OF cmp] ret)
    qed
  next
    case 2
    have "bval S m < 2 ^ sb_bits S m" using bits_bounds [of m] m by simp
    also have "\<dots> \<le> 2 ^ unat degree" using 2 by (intro power_increasing) simp_all
    finally show ?thesis using 2 m by (simp add: floor_root_def)
  next
    case 3
    have "unat degree \<noteq> 2" using 3(1) by (auto simp: word_unat_eq_iff)
    then have "3 \<le> degree" using d by (simp add: word_le_nat_alt)
    then show ?thesis using 3 positive_nth_root_floor [OF m _ _ fuel, of degree] by simp
  qed
qed

lemma nth_root_floor:
  assumes fuel: "nat (2 * \<bar>bval S v\<bar>) \<le> fuel"
  shows "meets E R (\<lambda>r. root_answer (bval S v) (unat degree) (map_option (map_prod (bval S) id) r))
    (metered_nth_root_floor fuel S M v degree)"
proof -
  let ?v = "bval S v" and ?d = "unat degree"
  let ?P = "\<lambda>r. root_answer ?v ?d (map_option (map_prod (bval S) id) r)"
  have even_mod: "?d mod 2 = 0 \<longleftrightarrow> even ?d" by (rule even_iff_mod_2_eq_zero [symmetric])
  have one: "unat degree = 1 \<longleftrightarrow> degree = 1" by (metis unat_1 word_unat_eq_iff)
  consider (refuse) "degree = 0 \<or> is_negative S v \<and> ?d mod 2 = 0"
    | (trivial) "\<not> (degree = 0 \<or> is_negative S v \<and> ?d mod 2 = 0)" "degree = 1 \<or> ?v \<in> {0, 1, - 1}"
    | (deep) "\<not> (degree = 0 \<or> is_negative S v \<and> ?d mod 2 = 0)" "\<not> (degree = 1 \<or> ?v \<in> {0, 1, - 1})"
    by blast
  then show ?thesis
  proof cases
    case refuse
    then show ?thesis unfolding metered_nth_root_floor_def if_P [OF refuse]
      by (auto simp: root_answer_def even_mod intro!: after_checkpoint finish)
  next
    case trivial
    have d: "0 < ?d" using trivial(1) by (simp add: unat_gt_0)
    have root: "?P (Some (r, True))" if "bval S r = ?v" for r
      using trivial d that
      by (auto simp: root_answer_def floor_root_def even_mod zero_power one)
    show ?thesis
      unfolding metered_nth_root_floor_def if_not_P [OF trivial(1)]
      using trivial(2) root bval_inject [of v "sb_one S"]
      by (auto simp: eq_minus_one bval_eq_iff [symmetric] intro!: after_checkpoint finish bind [OF root_clone])
  next
    case deep
    have d: "1 < ?d" using deep one by (metis less_one linorder_neqE_nat unat_eq_zero)
    have odd: "?v < 0 \<Longrightarrow> odd ?d" using deep(1) even_mod by simp
    have nz: "degree \<noteq> 1" "?v \<noteq> 0" "?v \<noteq> 1" "?v \<noteq> - 1" using deep(2) by simp_all
    have pm: "\<not> (v = sb_one S \<or> v = sb_neg S (sb_one S))"
      using nz by (auto simp: eq_minus_one)
    have zero: "\<not> is_zero S v" using nz by simp
    have mag: "meets E R (\<lambda>m. bval S m = \<bar>?v\<bar>)
        (if is_negative S v then metered_subtract S M (sb_zero S) v else mret v)"
      using subtract [of "sb_zero S" v] by (auto elim!: meets_post)
    show ?thesis
      unfolding metered_nth_root_floor_def if_not_P [OF deep(1)] if_not_P [OF nz(1)] if_not_P [OF zero]
        if_not_P [OF pm] Let_def
    proof (rule after_checkpoint, rule bind [OF mag], rule bind [OF magnitude_root [OF _ d]], goal_cases)
      case (1 m)
      then show ?case using nz by linarith
    next
      case (2 m)
      then show ?case using fuel by simp
    next
      case (3 m x)
      obtain r exact where x: "x = (r, exact)" by (cases x)
      have r: "0 < bval S r" "floor_root \<bar>?v\<bar> ?d (bval S r) exact" using 3 by (simp_all add: x)
      show ?case
      proof (cases "?v < 0")
        case True
        have "floor_root ?v ?d (if exact then - bval S r else - (bval S r + 1)) exact"
          using floor_root_negative [OF r(2) odd [OF True] r(1)] True by simp
        then have "?P (Some (y, exact))" if "bval S y = (if exact then - bval S r else - (bval S r + 1))" for y
          using that d odd by (simp add: root_answer_def)
        moreover have "meets E R (\<lambda>y. bval S y = (if exact then - bval S r else - (bval S r + 1)))
            (if exact then metered_subtract S M (sb_zero S) r
             else mbind (metered_add S M r (sb_one S)) (\<lambda>ceiling. metered_subtract S M (sb_zero S) ceiling))"
          using subtract [of "sb_zero S" r]
          by (auto intro!: bind [OF add] elim!: meets_post intro: meets_post [OF subtract])
        ultimately show ?thesis using True
          by (auto simp only: x prod.case is_negative simp_thms if_False intro!: bind finish)
      next
        case False
        then show ?thesis using r d by (auto simp: x root_answer_def intro!: finish)
      qed
    qed
  qed
qed

end

section \<open>Perfect powers are found\<close>

text \<open>No integer power strictly above degree \<open>d\<close> and up to \<open>m\<close> is \<open>v\<close>.\<close>

definition no_power_above :: "int \<Rightarrow> nat \<Rightarrow> nat \<Rightarrow> bool" where
  "no_power_above v d m \<longleftrightarrow> (\<forall>r e. d < e \<longrightarrow> 2 \<le> e \<longrightarrow> e \<le> m \<longrightarrow> r ^ e \<noteq> v)"

definition power_answer :: "int \<Rightarrow> nat \<Rightarrow> (int \<times> nat) option \<Rightarrow> bool" where
  "power_answer v m r \<longleftrightarrow> (case r of
       None \<Rightarrow> \<bar>v\<bar> \<le> 1 \<or> no_power_above v 1 m
     | Some (b, d) \<Rightarrow> b ^ d = v \<and> 2 \<le> d \<and> d \<le> m \<and> no_power_above v d m)"

lemma floor_root_inexact:
  fixes v r x :: int
  assumes "floor_root v d r False" and d: "0 < d" and neg: "v < 0 \<Longrightarrow> odd d"
  shows "x ^ d \<noteq> v"
proof -
  have lt: "r ^ d < v" "v < (r + 1) ^ d" using assms(1) by (auto simp: floor_root_def)
  show ?thesis
  proof (cases "odd d")
    case True
    have "x ^ d \<le> r ^ d \<or> (r + 1) ^ d \<le> x ^ d"
      using power_mono_odd [OF True, of x r] power_mono_odd [OF True, of "r + 1" x] by linarith
    then show ?thesis using lt by auto
  next
    case False
    have r: "0 \<le> r"
    proof (rule ccontr)
      assume "\<not> 0 \<le> r"
      then have "\<bar>r + 1\<bar> ^ d \<le> \<bar>r\<bar> ^ d" by (intro power_mono) simp_all
      then show False using lt False by (simp add: power_even_abs)
    qed
    have "\<bar>x\<bar> ^ d \<le> r ^ d \<or> (r + 1) ^ d \<le> \<bar>x\<bar> ^ d"
      using power_mono [of "\<bar>x\<bar>" r d] power_mono [of "r + 1" "\<bar>x\<bar>" d] r by linarith
    then show ?thesis using lt False by (auto simp: power_even_abs)
  qed
qed

lemma no_power_step:
  assumes above: "no_power_above v d m" and root: "floor_root v d r False" and d: "0 < d"
    and neg: "v < 0 \<longrightarrow> odd d" and k: "k = (if v < 0 then 2 else 1 :: nat)" "k < d"
  shows "no_power_above v (d - k) m"
  unfolding no_power_above_def
proof (intro allI impI)
  fix x e assume e: "d - k < e" "2 \<le> e" "e \<le> m"
  consider "d < e" | "e = d" | "v < 0" "e = d - 1" using e(1) k by (cases "v < 0"; simp) linarith+
  then show "x ^ e \<noteq> v"
  proof cases
    case 1
    then show ?thesis using above e by (simp add: no_power_above_def)
  next
    case 2
    then show ?thesis using floor_root_inexact [OF root d] neg by simp
  next
    case 3
    then have "even e" using neg d by simp
    then show ?thesis using 3(1) zero_le_even_power [of e x] by auto
  qed
qed

context big_meter
begin

lemma power_degree:
  assumes v: "1 < \<bar>bval S v\<bar>" and e: "2 \<le> e" and r: "r ^ e = bval S v"
  shows "e < sb_bits S v" and "bval S v < 0 \<longrightarrow> odd e"
proof -
  have "2 \<le> \<bar>r\<bar>"
  proof (rule ccontr)
    assume "\<not> 2 \<le> \<bar>r\<bar>"
    then have "\<bar>r\<bar> ^ e \<le> 1" by (intro power_le_one) simp_all
    then show False using v by (simp add: r [symmetric] power_abs)
  qed
  then have "2 ^ e \<le> \<bar>r\<bar> ^ e" by (intro power_mono) simp_all
  also have "\<dots> = \<bar>bval S v\<bar>" by (simp add: power_abs [symmetric] r)
  also have "\<dots> = int (dval (sb_digits S v))" by (rule magnitude [symmetric])
  also have "\<dots> < int (2 ^ sb_bits S v)" using bits_upper by (simp only: of_nat_less_iff)
  finally have "(2 :: int) ^ e < 2 ^ sb_bits S v" by simp
  then show "e < sb_bits S v" by simp
  show "bval S v < 0 \<longrightarrow> odd e" using r zero_le_even_power [of e r] by auto
qed

lemma bits_big: "1 < sb_bits S v \<longleftrightarrow> 1 < \<bar>bval S v\<bar>"
proof
  assume b: "1 < sb_bits S v"
  have "(2 :: nat) ^ 1 \<le> 2 ^ (sb_bits S v - 1)" using b by (intro power_increasing) simp_all
  also have "\<dots> \<le> dval (sb_digits S v)" using bits_lower [of v] b by simp
  finally show "1 < \<bar>bval S v\<bar>" using magnitude [of v] by simp
next
  assume v: "1 < \<bar>bval S v\<bar>"
  show "1 < sb_bits S v"
  proof (rule ccontr)
    assume "\<not> 1 < sb_bits S v"
    then have "(2 :: nat) ^ sb_bits S v \<le> 2 ^ 1" by (intro power_increasing) simp_all
    then show False using bits_upper [of v] magnitude [of v] v by simp
  qed
qed

lemma degree_bound:
  "case greatest_possible_power_degree S v m of
     None \<Rightarrow> \<bar>bval S v\<bar> \<le> 1 \<or> no_power_above (bval S v) 1 (unat m)
   | Some d \<Rightarrow> 2 \<le> unat d \<and> unat d \<le> unat m \<and> (bval S v < 0 \<longrightarrow> odd (unat d))
       \<and> no_power_above (bval S v) (unat d) (unat m)"
proof (cases "m < 2 \<or> sb_bits S v \<le> 1")
  case True
  then have "\<bar>bval S v\<bar> \<le> 1 \<or> unat m < 2"
    using bits_big [of v] by (auto simp: word_less_nat_alt)
  then show ?thesis using True
    by (auto simp: greatest_possible_power_degree_def no_power_above_def)
next
  case False
  then have v: "1 < \<bar>bval S v\<bar>" and m: "2 \<le> unat m" using bits_big [of v] by (auto simp: word_less_nat_alt)
  define B where "B = (if sb_bits S v - 1 < radix then of_nat (sb_bits S v - 1) else - 1 :: u32)"
  have max: "unat (- 1 :: u32) = radix - 1" by (simp add: unsigned_minus_1_eq_mask mask_eq_exp_minus_1)
  have small: "n < radix \<Longrightarrow> unat (of_nat n :: u32) = n" for n by (simp add: unat_of_nat)
  have uB: "unat B = (if sb_bits S v - 1 < radix then sb_bits S v - 1 else radix - 1)"
    unfolding B_def using max small [of "sb_bits S v - 1"] by presburger
  have B: "1 \<le> unat B" "e \<le> unat m \<Longrightarrow> e < sb_bits S v \<Longrightarrow> e \<le> unat B" for e
    using False unat_u32_lt [of m] by (auto simp: uB)
  define u where "u = min m B"
  have u: "unat u = min (unat m) (unat B)" by (simp add: u_def min_def word_le_nat_alt)
  define w where "w = (if is_negative S v \<and> unat u mod 2 = 0 then u - 1 else u)"
  have "1 \<le> unat u" using u B(1) m by simp
  then have w: "unat w = (if bval S v < 0 \<and> even (unat u) then unat u - 1 else unat u)"
    by (auto simp: w_def unat_sub word_le_nat_alt even_iff_mod_2_eq_zero)
  have w_le: "unat w \<le> unat m" using u w by auto
  have w_odd: "bval S v < 0 \<longrightarrow> odd (unat w)" using w \<open>1 \<le> unat u\<close> by auto
  have bound: "e \<le> unat w" if e: "2 \<le> e" "e \<le> unat m" "r ^ e = bval S v" for r e
  proof -
    have "e \<le> unat u" "bval S v < 0 \<longrightarrow> odd e"
      using power_degree [OF v e(1,3)] B(2) [OF e(2)] e(2) by (simp_all add: u)
    then show ?thesis using w by (cases "e = unat u") auto
  qed
  then have above: "no_power_above (bval S v) (unat w) (unat m)"
    by (auto simp: no_power_above_def not_less [symmetric])
  have eq: "greatest_possible_power_degree S v m
      = (if w \<ge> (if is_negative S v then 3 else 2) then Some w else None)"
    by (simp only: greatest_possible_power_degree_def if_not_P [OF False] Let_def w_def u_def B_def)
  show ?thesis
  proof (cases "(if bval S v < 0 then 3 else 2) \<le> unat w")
    case True
    then have "w \<ge> (if is_negative S v then 3 else 2)" by (auto simp: word_le_nat_alt split: if_splits)
    then show ?thesis using True above w_le w_odd by (auto simp: eq split: if_splits)
  next
    case False
    then have "\<not> w \<ge> (if is_negative S v then 3 else 2)" by (auto simp: word_le_nat_alt split: if_splits)
    moreover have "no_power_above (bval S v) 1 (unat m)"
      unfolding no_power_above_def
    proof (intro allI impI notI)
      fix r e assume e: "1 < e" "2 \<le> e" "e \<le> unat m" "r ^ e = bval S v"
      have "e \<le> unat w" by (rule bound [OF e(2-4)])
      then have "bval S v < 0" "e = 2" using False e(2) by (auto split: if_splits)
      then show False using power_degree(2) [OF v e(2,4)] by simp
    qed
    ultimately show ?thesis by (simp add: eq)
  qed
qed

lemma power_search:
  assumes fuel: "nat (2 * \<bar>bval S v\<bar>) \<le> fuel" and neg: "negative \<longleftrightarrow> bval S v < 0"
    and d: "d \<le> m" and odd: "negative \<longrightarrow> odd (unat d)" and above: "no_power_above (bval S v) (unat d) (unat m)"
  shows "meets E R (\<lambda>x. power_answer (bval S v) (unat m) (map_option (map_prod (bval S) unat) x))
    (power_search fuel S M v negative d)"
  using d odd above
proof (induction "unat d" arbitrary: d rule: less_induct)
  case less
  let ?v = "bval S v" and ?k = "if negative then 2 else 1 :: nat"
  let ?P = "\<lambda>x. power_answer ?v (unat m) (map_option (map_prod (bval S) unat) x)"
  have step: "degree_step negative < d \<longleftrightarrow> ?k < unat d"
    by (simp add: degree_step_def word_less_nat_alt)
  show ?case
  proof (cases "degree_step negative < d")
    case False
    have "no_power_above ?v 1 (unat m)"
      unfolding no_power_above_def
    proof (intro allI impI notI)
      fix r e assume e: "1 < e" "2 \<le> e" "e \<le> unat m" "r ^ e = ?v"
      then have "\<not> unat d < e" using less.prems(3) by (auto simp: no_power_above_def)
      moreover have "unat d \<le> ?k" using False step by simp
      ultimately have "negative" "unat d = 2" using e(2) by (auto split: if_splits)
      then show False using less.prems(2) by simp
    qed
    then show ?thesis using False
      by (subst power_search.simps) (auto simp: power_answer_def intro!: finish)
  next
    case True
    then have k: "?k < unat d" using step by simp
    have smaller: "unat (d - degree_step negative) = unat d - ?k" by (rule unat_step_back [OF True])
    have d0: "0 < unat d" using k by simp
    show ?thesis
      apply (subst power_search.simps)
      apply (simp only: if_P [OF True])
      apply (rule after_tick, rule bind [OF nth_root_floor [OF fuel]])
      subgoal for x
      proof -
        assume x: "root_answer ?v (unat d) (map_option (map_prod (bval S) id) x)"
        have "x \<noteq> None" using x d0 less.prems(2) neg by (cases x) (auto simp: root_answer_def)
        then obtain r exact where r: "x = Some (r, exact)" by auto
        have root: "floor_root ?v (unat d) (bval S r) exact" using x by (simp add: r root_answer_def)
        show ?thesis
        proof (cases exact)
          case True
          then have "bval S r ^ unat d = ?v" using root by (simp add: floor_root_def)
          then have "?P (Some (r, d))"
            using less.prems k by (auto simp: power_answer_def word_le_nat_alt split: if_splits)
          then show ?thesis by (auto simp: r True expect_def intro!: finish)
        next
          case False
          have "no_power_above ?v (unat d - ?k) (unat m)"
            by (rule no_power_step [OF less.prems(3) _ d0])
              (use root False neg less.prems(2) k in \<open>auto split: if_splits\<close>)
          then have "meets E R ?P (power_search fuel S M v negative (d - degree_step negative))"
          proof (intro less.hyps)
            show "unat (d - degree_step negative) < unat d" using k by (simp add: smaller)
            show "d - degree_step negative \<le> m" using less.prems(1) by (simp add: smaller word_le_nat_alt)
            show "negative \<longrightarrow> odd (unat (d - degree_step negative))"
              unfolding smaller using less.prems(2) k by auto
          qed (simp add: smaller)
          then show ?thesis by (simp add: r False expect_def)
        qed
      qed
      done
  qed
qed

lemma greatest_perfect_power:
  assumes "nat (2 * \<bar>bval S v\<bar>) \<le> fuel"
  shows "meets E R (\<lambda>x. power_answer (bval S v) (unat m) (map_option (map_prod (bval S) unat) x))
    (metered_greatest_perfect_power_up_to fuel S M v m)"
  unfolding metered_greatest_perfect_power_up_to_def
proof (rule after_checkpoint, cases "greatest_possible_power_degree S v m")
  case None
  then show "meets E R (\<lambda>x. power_answer (bval S v) (unat m) (map_option (map_prod (bval S) unat) x))
      (case greatest_possible_power_degree S v m of None \<Rightarrow> metered_finish M None
       | Some degree \<Rightarrow> power_search fuel S M v (is_negative S v) degree)"
    using degree_bound [of v m] by (simp add: power_answer_def finish)
next
  case (Some d)
  then show "meets E R (\<lambda>x. power_answer (bval S v) (unat m) (map_option (map_prod (bval S) unat) x))
      (case greatest_possible_power_degree S v m of None \<Rightarrow> metered_finish M None
       | Some degree \<Rightarrow> power_search fuel S M v (is_negative S v) degree)"
    using degree_bound [of v m] power_search [OF assms, of "bval S v < 0" d m]
    by (simp add: word_le_nat_alt)
qed

end

end
