(* ===== verification/Outcome.thy ===== *)
theory Outcome
  imports FS_Prelude
begin

text \<open>
  The outcome vocabulary of \<open>crates/fsym-outcome/src/lib.rs\<close>: the evidence classes with their
  registry properties, the discharge capabilities, the non-evidence outcomes and the refusal,
  cancellation, resource and fault kinds, each with its registry names; \<open>MathOutcome\<close> with its
  guarded constructors; \<open>ExecutionOutcome\<close>. The registry names are the contract of the locale
  \<open>registry\<close>, interpreted for each of the seven enums.
\<close>

section \<open>Registry names\<close>

locale registry =
  fixes as_str :: "'a \<Rightarrow> string" and parse :: "string \<Rightarrow> 'a option"
  assumes name_parses: "parse (as_str c) = Some c"
    and parsed_name: "parse t = Some c \<Longrightarrow> t = as_str c"
begin

lemma parse_iff: "parse t = Some c \<longleftrightarrow> t = as_str c"
  using name_parses parsed_name by blast

lemma fails_closed: "t \<notin> range as_str \<longleftrightarrow> parse t = None"
  using name_parses by (cases "parse t") (auto dest: parsed_name)

lemma names_distinct: "as_str a = as_str b \<longleftrightarrow> a = b"
  using name_parses by (metis option.inject)

end

datatype evidence_class =
    KernelProved
  | CertificateVerified
  | ExactCrossChecked
  | CertifiedNumeric
  | OracleConformant
  | UserAsserted
  | HeuristicCandidate

fun evidence_class_as_str :: "evidence_class \<Rightarrow> string" where
  "evidence_class_as_str evidence_class.KernelProved = ''kernel_proved''"
| "evidence_class_as_str evidence_class.CertificateVerified = ''certificate_verified''"
| "evidence_class_as_str evidence_class.ExactCrossChecked = ''exact_cross_checked''"
| "evidence_class_as_str evidence_class.CertifiedNumeric = ''certified_numeric''"
| "evidence_class_as_str evidence_class.OracleConformant = ''oracle_conformant''"
| "evidence_class_as_str evidence_class.UserAsserted = ''user_asserted''"
| "evidence_class_as_str evidence_class.HeuristicCandidate = ''heuristic_candidate''"

definition evidence_class_parse :: "string \<Rightarrow> evidence_class option" where
  "evidence_class_parse text =
     (if text = ''kernel_proved'' then Some evidence_class.KernelProved
      else if text = ''certificate_verified'' then Some evidence_class.CertificateVerified
      else if text = ''exact_cross_checked'' then Some evidence_class.ExactCrossChecked
      else if text = ''certified_numeric'' then Some evidence_class.CertifiedNumeric
      else if text = ''oracle_conformant'' then Some evidence_class.OracleConformant
      else if text = ''user_asserted'' then Some evidence_class.UserAsserted
      else if text = ''heuristic_candidate'' then Some evidence_class.HeuristicCandidate
      else None)"

interpretation evidence_class: registry evidence_class_as_str evidence_class_parse
proof
  show "evidence_class_parse (evidence_class_as_str c) = Some c" for c
    by (cases c) (simp_all add: evidence_class_parse_def)
  show "evidence_class_parse t = Some c \<Longrightarrow> t = evidence_class_as_str c" for t c
    by (auto simp: evidence_class_parse_def split: if_splits)
qed

datatype discharge =
    Yes
  | ClaimDependent
  | PolicyDependent
  | InsideDeclaredContextOnly
  | No

fun discharge_as_str :: "discharge \<Rightarrow> string" where
  "discharge_as_str discharge.Yes = ''yes''"
| "discharge_as_str discharge.ClaimDependent = ''claim_dependent''"
| "discharge_as_str discharge.PolicyDependent = ''policy_dependent''"
| "discharge_as_str discharge.InsideDeclaredContextOnly = ''inside_declared_context_only''"
| "discharge_as_str discharge.No = ''no''"

definition discharge_parse :: "string \<Rightarrow> discharge option" where
  "discharge_parse text =
     (if text = ''yes'' then Some discharge.Yes
      else if text = ''claim_dependent'' then Some discharge.ClaimDependent
      else if text = ''policy_dependent'' then Some discharge.PolicyDependent
      else if text = ''inside_declared_context_only'' then Some discharge.InsideDeclaredContextOnly
      else if text = ''no'' then Some discharge.No
      else None)"

interpretation discharge: registry discharge_as_str discharge_parse
proof
  show "discharge_parse (discharge_as_str c) = Some c" for c
    by (cases c) (simp_all add: discharge_parse_def)
  show "discharge_parse t = Some c \<Longrightarrow> t = discharge_as_str c" for t c
    by (auto simp: discharge_parse_def split: if_splits)
qed

datatype non_evidence_outcome =
    Conditional
  | Inconclusive
  | Refused
  | Cancelled
  | TimedOut
  | ResourceExhausted
  | Unsupported
  | InternalFault

fun non_evidence_outcome_as_str :: "non_evidence_outcome \<Rightarrow> string" where
  "non_evidence_outcome_as_str non_evidence_outcome.Conditional = ''conditional''"
| "non_evidence_outcome_as_str non_evidence_outcome.Inconclusive = ''inconclusive''"
| "non_evidence_outcome_as_str non_evidence_outcome.Refused = ''refused''"
| "non_evidence_outcome_as_str non_evidence_outcome.Cancelled = ''cancelled''"
| "non_evidence_outcome_as_str non_evidence_outcome.TimedOut = ''timed_out''"
| "non_evidence_outcome_as_str non_evidence_outcome.ResourceExhausted = ''resource_exhausted''"
| "non_evidence_outcome_as_str non_evidence_outcome.Unsupported = ''unsupported''"
| "non_evidence_outcome_as_str non_evidence_outcome.InternalFault = ''internal_fault''"

definition non_evidence_outcome_parse :: "string \<Rightarrow> non_evidence_outcome option" where
  "non_evidence_outcome_parse text =
     (if text = ''conditional'' then Some non_evidence_outcome.Conditional
      else if text = ''inconclusive'' then Some non_evidence_outcome.Inconclusive
      else if text = ''refused'' then Some non_evidence_outcome.Refused
      else if text = ''cancelled'' then Some non_evidence_outcome.Cancelled
      else if text = ''timed_out'' then Some non_evidence_outcome.TimedOut
      else if text = ''resource_exhausted'' then Some non_evidence_outcome.ResourceExhausted
      else if text = ''unsupported'' then Some non_evidence_outcome.Unsupported
      else if text = ''internal_fault'' then Some non_evidence_outcome.InternalFault
      else None)"

interpretation non_evidence_outcome: registry non_evidence_outcome_as_str non_evidence_outcome_parse
proof
  show "non_evidence_outcome_parse (non_evidence_outcome_as_str c) = Some c" for c
    by (cases c) (simp_all add: non_evidence_outcome_parse_def)
  show "non_evidence_outcome_parse t = Some c \<Longrightarrow> t = non_evidence_outcome_as_str c" for t c
    by (auto simp: non_evidence_outcome_parse_def split: if_splits)
qed

datatype refusal_kind =
    PolicyForbidden
  | CapabilityMissing
  | DomainViolation
  | InputShapeRejected

fun refusal_kind_as_str :: "refusal_kind \<Rightarrow> string" where
  "refusal_kind_as_str refusal_kind.PolicyForbidden = ''policy_forbidden''"
| "refusal_kind_as_str refusal_kind.CapabilityMissing = ''capability_missing''"
| "refusal_kind_as_str refusal_kind.DomainViolation = ''domain_violation''"
| "refusal_kind_as_str refusal_kind.InputShapeRejected = ''input_shape_rejected''"

definition refusal_kind_parse :: "string \<Rightarrow> refusal_kind option" where
  "refusal_kind_parse text =
     (if text = ''policy_forbidden'' then Some refusal_kind.PolicyForbidden
      else if text = ''capability_missing'' then Some refusal_kind.CapabilityMissing
      else if text = ''domain_violation'' then Some refusal_kind.DomainViolation
      else if text = ''input_shape_rejected'' then Some refusal_kind.InputShapeRejected
      else None)"

interpretation refusal_kind: registry refusal_kind_as_str refusal_kind_parse
proof
  show "refusal_kind_parse (refusal_kind_as_str c) = Some c" for c
    by (cases c) (simp_all add: refusal_kind_parse_def)
  show "refusal_kind_parse t = Some c \<Longrightarrow> t = refusal_kind_as_str c" for t c
    by (auto simp: refusal_kind_parse_def split: if_splits)
qed

datatype cancellation_point =
    RequestCancelled
  | ParentCancelled
  | BudgetRevoked

fun cancellation_point_as_str :: "cancellation_point \<Rightarrow> string" where
  "cancellation_point_as_str cancellation_point.RequestCancelled = ''request_cancelled''"
| "cancellation_point_as_str cancellation_point.ParentCancelled = ''parent_cancelled''"
| "cancellation_point_as_str cancellation_point.BudgetRevoked = ''budget_revoked''"

definition cancellation_point_parse :: "string \<Rightarrow> cancellation_point option" where
  "cancellation_point_parse text =
     (if text = ''request_cancelled'' then Some cancellation_point.RequestCancelled
      else if text = ''parent_cancelled'' then Some cancellation_point.ParentCancelled
      else if text = ''budget_revoked'' then Some cancellation_point.BudgetRevoked
      else None)"

interpretation cancellation_point: registry cancellation_point_as_str cancellation_point_parse
proof
  show "cancellation_point_parse (cancellation_point_as_str c) = Some c" for c
    by (cases c) (simp_all add: cancellation_point_parse_def)
  show "cancellation_point_parse t = Some c \<Longrightarrow> t = cancellation_point_as_str c" for t c
    by (auto simp: cancellation_point_parse_def split: if_splits)
qed

datatype resource_class =
    MemoryBytes
  | ComputeSteps
  | AllocationCount
  | DepthLimit
  | RandomDraws
  | TimeBudget

fun resource_class_as_str :: "resource_class \<Rightarrow> string" where
  "resource_class_as_str resource_class.MemoryBytes = ''memory_bytes''"
| "resource_class_as_str resource_class.ComputeSteps = ''compute_steps''"
| "resource_class_as_str resource_class.AllocationCount = ''allocation_count''"
| "resource_class_as_str resource_class.DepthLimit = ''depth_limit''"
| "resource_class_as_str resource_class.RandomDraws = ''random_draws''"
| "resource_class_as_str resource_class.TimeBudget = ''time_budget''"

definition resource_class_parse :: "string \<Rightarrow> resource_class option" where
  "resource_class_parse text =
     (if text = ''memory_bytes'' then Some resource_class.MemoryBytes
      else if text = ''compute_steps'' then Some resource_class.ComputeSteps
      else if text = ''allocation_count'' then Some resource_class.AllocationCount
      else if text = ''depth_limit'' then Some resource_class.DepthLimit
      else if text = ''random_draws'' then Some resource_class.RandomDraws
      else if text = ''time_budget'' then Some resource_class.TimeBudget
      else None)"

interpretation resource_class: registry resource_class_as_str resource_class_parse
proof
  show "resource_class_parse (resource_class_as_str c) = Some c" for c
    by (cases c) (simp_all add: resource_class_parse_def)
  show "resource_class_parse t = Some c \<Longrightarrow> t = resource_class_as_str c" for t c
    by (auto simp: resource_class_parse_def split: if_splits)
qed

datatype internal_fault_kind =
    InvariantViolation
  | SchemaViolation
  | AssertionViolation

fun internal_fault_kind_as_str :: "internal_fault_kind \<Rightarrow> string" where
  "internal_fault_kind_as_str internal_fault_kind.InvariantViolation = ''invariant_violation''"
| "internal_fault_kind_as_str internal_fault_kind.SchemaViolation = ''schema_violation''"
| "internal_fault_kind_as_str internal_fault_kind.AssertionViolation = ''assertion_violation''"

definition internal_fault_kind_parse :: "string \<Rightarrow> internal_fault_kind option" where
  "internal_fault_kind_parse text =
     (if text = ''invariant_violation'' then Some internal_fault_kind.InvariantViolation
      else if text = ''schema_violation'' then Some internal_fault_kind.SchemaViolation
      else if text = ''assertion_violation'' then Some internal_fault_kind.AssertionViolation
      else None)"

interpretation internal_fault_kind: registry internal_fault_kind_as_str internal_fault_kind_parse
proof
  show "internal_fault_kind_parse (internal_fault_kind_as_str c) = Some c" for c
    by (cases c) (simp_all add: internal_fault_kind_parse_def)
  show "internal_fault_kind_parse t = Some c \<Longrightarrow> t = internal_fault_kind_as_str c" for t c
    by (auto simp: internal_fault_kind_parse_def split: if_splits)
qed

section \<open>Properties of the evidence classes\<close>

definition is_terminal :: "evidence_class \<Rightarrow> bool" where
  "is_terminal c \<longleftrightarrow> c \<noteq> HeuristicCandidate"

definition is_mathematical :: "evidence_class \<Rightarrow> bool" where
  "is_mathematical c \<longleftrightarrow>
     c \<in> set [KernelProved, CertificateVerified, ExactCrossChecked, CertifiedNumeric]"

fun can_discharge_exact_equality :: "evidence_class \<Rightarrow> discharge" where
  "can_discharge_exact_equality KernelProved = Yes"
| "can_discharge_exact_equality CertificateVerified = ClaimDependent"
| "can_discharge_exact_equality ExactCrossChecked = PolicyDependent"
| "can_discharge_exact_equality UserAsserted = InsideDeclaredContextOnly"
| "can_discharge_exact_equality _ = No"

fun can_discharge_numeric_enclosure :: "evidence_class \<Rightarrow> discharge" where
  "can_discharge_numeric_enclosure CertifiedNumeric = Yes"
| "can_discharge_numeric_enclosure CertificateVerified = ClaimDependent"
| "can_discharge_numeric_enclosure _ = No"

definition can_certify_compatibility :: "evidence_class \<Rightarrow> bool" where
  "can_certify_compatibility c \<longleftrightarrow> c = OracleConformant"

section \<open>Outcomes\<close>

datatype 'a math_outcome =
    Established 'a evidence_class
  | Candidate 'a evidence_class
  | Conditional 'a
  | Refused refusal_kind
  | Cancelled cancellation_point
  | TimedOut
  | ResourceExhausted resource_class
  | Unsupported string
  | Inconclusive string
  | InternalFault internal_fault_kind

record promotion_error =
  attempted :: evidence_class

definition promotion_error_display :: "promotion_error \<Rightarrow> string" where
  "promotion_error_display e =
     ''cannot attach evidence class '' @ evidence_class_as_str (attempted e) @ '' to this outcome''"

definition established :: "'a \<Rightarrow> evidence_class \<Rightarrow> promotion_error + 'a math_outcome" where
  "established v evidence =
     (if is_mathematical evidence then Inr (Established v evidence)
      else Inl \<lparr>attempted = evidence\<rparr>)"

definition candidate :: "'a \<Rightarrow> evidence_class \<Rightarrow> promotion_error + 'a math_outcome" where
  "candidate v evidence =
     (if \<not> is_mathematical evidence then Inr (Candidate v evidence)
      else Inl \<lparr>attempted = evidence\<rparr>)"

fun outcome_evidence :: "'a math_outcome \<Rightarrow> evidence_class option" where
  "outcome_evidence (Established _ evidence) = Some evidence"
| "outcome_evidence (Candidate _ evidence) = Some evidence"
| "outcome_evidence _ = None"

fun outcome_is_terminal :: "'a math_outcome \<Rightarrow> bool" where
  "outcome_is_terminal (Candidate _ evidence) = is_terminal evidence"
| "outcome_is_terminal (Conditional _) = False"
| "outcome_is_terminal (Inconclusive _) = False"
| "outcome_is_terminal _ = True"

fun outcome_map :: "('a \<Rightarrow> 'b) \<Rightarrow> 'a math_outcome \<Rightarrow> 'b math_outcome" where
  "outcome_map f (Established v evidence) = Established (f v) evidence"
| "outcome_map f (Candidate v evidence) = Candidate (f v) evidence"
| "outcome_map f (Conditional v) = Conditional (f v)"
| "outcome_map f (Refused kind) = Refused kind"
| "outcome_map f (Cancelled at) = Cancelled at"
| "outcome_map f TimedOut = TimedOut"
| "outcome_map f (ResourceExhausted class) = ResourceExhausted class"
| "outcome_map f (Unsupported detail) = Unsupported detail"
| "outcome_map f (Inconclusive detail) = Inconclusive detail"
| "outcome_map f (InternalFault kind) = InternalFault kind"

record 'a execution_outcome =
  math :: "'a math_outcome"
  controlled_orphans :: u64
  published_unverified :: bool

definition execution_finish :: "'a math_outcome \<Rightarrow> 'a execution_outcome" where
  "execution_finish m = \<lparr>math = m, controlled_orphans = 0, published_unverified = False\<rparr>"

definition is_clean_return :: "'a execution_outcome \<Rightarrow> bool" where
  "is_clean_return e \<longleftrightarrow> controlled_orphans e = 0 \<and> \<not> published_unverified e"

section \<open>Outcomes that the constructors can build\<close>

text \<open>
  The invariant the guarded constructors establish: an established value carries mathematical
  evidence, a candidate does not.
\<close>

fun evidence_consistent :: "'a math_outcome \<Rightarrow> bool" where
  "evidence_consistent (Established _ evidence) = is_mathematical evidence"
| "evidence_consistent (Candidate _ evidence) = (\<not> is_mathematical evidence)"
| "evidence_consistent _ = True"

inductive constructed :: "'a math_outcome \<Rightarrow> bool" where
  via_established: "established v evidence = Inr m \<Longrightarrow> constructed m"
| via_candidate: "candidate v evidence = Inr m \<Longrightarrow> constructed m"
| via_conditional: "constructed (Conditional v)"
| via_refused: "constructed (Refused kind)"
| via_cancelled: "constructed (Cancelled at)"
| via_timed_out: "constructed TimedOut"
| via_resource: "constructed (ResourceExhausted class)"
| via_unsupported: "constructed (Unsupported detail)"
| via_inconclusive: "constructed (Inconclusive detail)"
| via_fault: "constructed (InternalFault kind)"
| via_map: "constructed m \<Longrightarrow> constructed (outcome_map f m)"

lemma outcome_map_evidence [simp]:
  "outcome_evidence (outcome_map f m) = outcome_evidence m"
  "outcome_is_terminal (outcome_map f m) = outcome_is_terminal m"
  "evidence_consistent (outcome_map f m) = evidence_consistent m"
  by (cases m; simp)+

lemma outcome_map_compose: "outcome_map g (outcome_map f m) = outcome_map (g \<circ> f) m"
  by (cases m) simp_all

lemma constructed_consistent: "constructed m \<Longrightarrow> evidence_consistent m"
  by (induction rule: constructed.induct) (auto simp: established_def candidate_def split: if_splits)

end
