(* ===== verification/Evidence_Lattice.thy ===== *)
theory Evidence_Lattice
  imports Outcome
begin

text \<open>
  The non-conversion rules between evidence classes, \<open>crates/fsym-evidence/src/lattice.rs\<close>, as a
  check of one transition and as the step relation of chains of admitted transitions.
\<close>

datatype lattice_error = IllegalPromotion evidence_class evidence_class

definition validate_evidence_transition :: "evidence_class \<Rightarrow> evidence_class \<Rightarrow> lattice_error + unit" where
  "validate_evidence_transition source target =
     (if source = target then Inr ()
      else if \<not> is_mathematical source \<and> is_mathematical target
        then Inl (IllegalPromotion source target)
      else if source = HeuristicCandidate \<and> is_terminal target
        then Inl (IllegalPromotion source target)
      else if source = OracleConformant \<and> target = KernelProved
        then Inl (IllegalPromotion source target)
      else if source = CertifiedNumeric \<and> target = KernelProved
        then Inl (IllegalPromotion source target)
      else Inr ())"

inductive promotes :: "evidence_class \<Rightarrow> evidence_class \<Rightarrow> bool" where
  stay: "promotes c c"
| step: "promotes a b \<Longrightarrow> validate_evidence_transition b c = Inr () \<Longrightarrow> promotes a c"

inductive_cases promotesE: "promotes a c"

lemma transition_ok:
  "validate_evidence_transition a b = Inr () \<longleftrightarrow>
     a = b \<or> a \<noteq> HeuristicCandidate \<and> (is_mathematical b \<longrightarrow> is_mathematical a)
       \<and> \<not> (a = CertifiedNumeric \<and> b = KernelProved)"
  by (cases a; cases b) (simp_all add: validate_evidence_transition_def is_mathematical_def is_terminal_def)

lemma transition_cases: "validate_evidence_transition a b \<in> {Inr (), Inl (IllegalPromotion a b)}"
  by (simp add: validate_evidence_transition_def)

text \<open>The third check never decides: a non-mathematical source was refused before it.\<close>

lemma oracle_check_unreachable:
  assumes "a \<noteq> b" and "\<not> (\<not> is_mathematical a \<and> is_mathematical b)"
    and "\<not> (a = HeuristicCandidate \<and> is_terminal b)"
  shows "\<not> (a = OracleConformant \<and> b = KernelProved)"
  using assms by (auto simp: is_mathematical_def)

lemma promotes_mathematical: "promotes a b \<Longrightarrow> is_mathematical b \<Longrightarrow> is_mathematical a"
  by (induction rule: promotes.induct) (auto simp: transition_ok)

lemma promotes_heuristic: "promotes a b \<Longrightarrow> a = HeuristicCandidate \<Longrightarrow> b = HeuristicCandidate"
  by (induction rule: promotes.induct) (auto simp: transition_ok)

text \<open>The refusal of \<open>CertifiedNumeric\<close> to \<open>KernelProved\<close> is not closed under chaining.\<close>

lemma certified_numeric_two_steps: "promotes CertifiedNumeric KernelProved"
proof -
  have "promotes CertifiedNumeric ExactCrossChecked"
    by (rule promotes.step [OF promotes.stay]) (simp add: transition_ok is_mathematical_def)
  then show ?thesis
    by (rule promotes.step) (simp add: transition_ok is_mathematical_def)
qed

end
