(* ===== verification/Predicates.thy ===== *)
theory Predicates
  imports FS_Prelude
begin

text \<open>
  The predicate lattice of \<open>crates/fsym-assumptions/src/predicate.rs\<close>: direct consequences, the
  worklist that closes a predicate under them, entailment and contradiction, and
  \<open>has_contradiction_in_set\<close> of \<open>lib.rs\<close>, which walks a \<open>BTreeSet\<close> in the derived order.
\<close>

datatype predicate =
    Complex | Real | Rational | Integer | Algebraic | Transcendental
  | Positive | Negative | NonNegative | NonPositive | Zero | NonZero
  | Prime | Even | Odd | Finite | Infinite

fun discriminant :: "predicate \<Rightarrow> nat" where
  "discriminant Complex = 0"
| "discriminant Real = 1"
| "discriminant Rational = 2"
| "discriminant Integer = 3"
| "discriminant Algebraic = 4"
| "discriminant Transcendental = 5"
| "discriminant Positive = 6"
| "discriminant Negative = 7"
| "discriminant NonNegative = 8"
| "discriminant NonPositive = 9"
| "discriminant Zero = 10"
| "discriminant NonZero = 11"
| "discriminant Prime = 12"
| "discriminant Even = 13"
| "discriminant Odd = 14"
| "discriminant Finite = 15"
| "discriminant Infinite = 16"

text \<open>The derived order is the order of the constructors, which the discriminant agrees with.\<close>

instantiation predicate :: linorder
begin

definition less_eq_predicate :: "predicate \<Rightarrow> predicate \<Rightarrow> bool" where
  "a \<le> b \<longleftrightarrow> discriminant a \<le> discriminant b"

definition less_predicate :: "predicate \<Rightarrow> predicate \<Rightarrow> bool" where
  "a < b \<longleftrightarrow> discriminant a < discriminant b"

lemma discriminant_inject [simp]: "discriminant a = discriminant b \<longleftrightarrow> a = b"
  by (cases a; cases b) simp_all

instance
  by standard (auto simp: less_eq_predicate_def less_predicate_def)

end

definition all_predicates :: "predicate list" where
  "all_predicates = [Complex, Real, Rational, Integer, Algebraic, Transcendental, Positive, Negative,
     NonNegative, NonPositive, Zero, NonZero, Prime, Even, Odd, Finite, Infinite]"

lemma all_predicates: "set all_predicates = UNIV"
proof -
  have "p \<in> set all_predicates" for p by (cases p) (simp_all add: all_predicates_def)
  then show ?thesis by auto
qed

lemma predicate_forall: "(\<forall>p. P p) \<longleftrightarrow> list_all P all_predicates"
  using all_predicates by (auto simp: list_all_iff)

lemma finite_predicate [simp]: "finite (A :: predicate set)"
  by (rule finite_subset [OF _ finite_set [of all_predicates]]) (simp add: all_predicates)

fun direct_consequences :: "predicate \<Rightarrow> predicate list" where
  "direct_consequences Complex = []"
| "direct_consequences Real = [Complex]"
| "direct_consequences Rational = [Real, Complex, Algebraic, Finite]"
| "direct_consequences Integer = [Rational, Real, Complex, Algebraic, Finite]"
| "direct_consequences Algebraic = [Complex]"
| "direct_consequences Transcendental = [Complex]"
| "direct_consequences Even = [Integer, Rational, Real, Complex, Algebraic, Finite]"
| "direct_consequences Odd = [Integer, Rational, Real, Complex, Algebraic, Finite]"
| "direct_consequences Prime =
     [Integer, Positive, NonNegative, NonZero, Rational, Real, Complex, Algebraic, Finite]"
| "direct_consequences Positive = [NonNegative, NonZero, Real, Complex]"
| "direct_consequences Negative = [NonPositive, NonZero, Real, Complex]"
| "direct_consequences NonNegative = [Real, Complex]"
| "direct_consequences NonPositive = [Real, Complex]"
| "direct_consequences Zero =
     [NonNegative, NonPositive, Rational, Real, Complex, Algebraic, Finite, Even]"
| "direct_consequences NonZero = [Complex]"
| "direct_consequences Finite = [Complex]"
| "direct_consequences Infinite = [Complex]"

text \<open>The inner loop inserts each consequence and pushes the new ones on the end of the queue.\<close>

fun push_new :: "predicate list \<Rightarrow> predicate set \<times> predicate list \<Rightarrow> predicate set \<times> predicate list" where
  "push_new [] state = state"
| "push_new (n # ns) (seen, queue) =
     (if n \<in> seen then push_new ns (seen, queue) else push_new ns (insert n seen, queue @ [n]))"

lemma push_new_fst: "fst (push_new ns (seen, queue)) = seen \<union> set ns"
  by (induction ns arbitrary: seen queue) auto

lemma push_new_snd: "set (snd (push_new ns (seen, queue))) = set queue \<union> (set ns - seen)"
  by (induction ns arbitrary: seen queue) auto

lemma push_new_measure:
  "card (- fst (push_new ns (seen, queue))) + length (snd (push_new ns (seen, queue)))
     = card (- seen) + length queue"
proof (induction ns arbitrary: seen queue)
  case (Cons n ns)
  show ?case
  proof (cases "n \<in> seen")
    case True
    then show ?thesis using Cons by simp
  next
    case False
    have "- seen = insert n (- insert n seen)" using False by auto
    then have "card (- seen) = Suc (card (- insert n seen))"
      by (metis ComplD card_insert_disjoint finite_predicate insertI1)
    then show ?thesis using False Cons [of "insert n seen" "queue @ [n]"] by simp
  qed
qed simp

function closure_loop :: "predicate set \<times> predicate list \<Rightarrow> predicate set" where
  "closure_loop (seen, queue) =
     (if queue = [] then seen
      else closure_loop (push_new (direct_consequences (last queue)) (seen, butlast queue)))"
  by pat_completeness auto

termination
proof (relation "measure (\<lambda>(seen, queue). card (- seen) + length queue)")
  fix seen :: "predicate set" and queue :: "predicate list"
  assume "queue \<noteq> []"
  then show "(push_new (direct_consequences (last queue)) (seen, butlast queue), seen, queue)
      \<in> measure (\<lambda>(seen, queue). card (- seen) + length queue)"
    using push_new_measure [of "direct_consequences (last queue)" seen "butlast queue"]
    by (simp add: case_prod_beta)
qed simp

declare closure_loop.simps [simp del]

definition closure :: "predicate \<Rightarrow> predicate set" where
  "closure p = closure_loop ({p}, [p])"

definition entails :: "predicate \<Rightarrow> predicate \<Rightarrow> bool" where
  "entails a b \<longleftrightarrow> b \<in> closure a"

fun direct_contradictions :: "predicate \<Rightarrow> predicate list" where
  "direct_contradictions Zero = [NonZero, Positive, Negative, Infinite]"
| "direct_contradictions NonZero = [Zero]"
| "direct_contradictions Positive = [Negative, Zero, NonPositive]"
| "direct_contradictions Negative = [Positive, Zero, NonNegative]"
| "direct_contradictions Even = [Odd]"
| "direct_contradictions Odd = [Even]"
| "direct_contradictions Algebraic = [Transcendental]"
| "direct_contradictions Transcendental = [Algebraic, Rational, Integer, Prime, Even, Odd]"
| "direct_contradictions Finite = [Infinite]"
| "direct_contradictions Infinite = [Finite, Zero, Integer, Rational, Prime]"
| "direct_contradictions _ = []"

definition contradicts :: "predicate \<Rightarrow> predicate \<Rightarrow> bool" where
  "contradicts a b \<longleftrightarrow> (\<exists>x \<in> closure a. \<exists>c \<in> set (direct_contradictions x). c \<in> closure b)"

text \<open>\<open>lib.rs\<close>: every pair of members, the smaller one first.\<close>

definition has_contradiction_in_set :: "predicate set \<Rightarrow> bool" where
  "has_contradiction_in_set known \<longleftrightarrow> (\<exists>a \<in> known. \<exists>b \<in> known. a < b \<and> contradicts a b)"

section \<open>The closure is the reflexive-transitive closure\<close>

definition licenses :: "predicate \<Rightarrow> predicate \<Rightarrow> bool" where
  "licenses a b \<longleftrightarrow> b \<in> set (direct_consequences a)"

text \<open>Everything in \<open>seen\<close> but the queue has its consequences in \<open>seen\<close>.\<close>

definition worklist_ok :: "predicate set \<Rightarrow> predicate list \<Rightarrow> bool" where
  "worklist_ok seen queue \<longleftrightarrow>
     set queue \<subseteq> seen \<and> (\<forall>a \<in> seen - set queue. set (direct_consequences a) \<subseteq> seen)"

lemma worklist_ok_step:
  assumes "worklist_ok seen queue" and "queue \<noteq> []"
    and "push_new (direct_consequences (last queue)) (seen, butlast queue) = (seen', queue')"
  shows "worklist_ok seen' queue'"
proof -
  have queue: "set queue = insert (last queue) (set (butlast queue))"
    using assms(2) by (metis append_butlast_last_id list.simps(15) rotate1.simps(2) set_rotate1)
  have "seen' = seen \<union> set (direct_consequences (last queue))"
    and "set queue' = set (butlast queue) \<union> (set (direct_consequences (last queue)) - seen)"
    using push_new_fst [of "direct_consequences (last queue)" seen "butlast queue"]
      push_new_snd [of "direct_consequences (last queue)" seen "butlast queue"] assms(3) by simp_all
  then show ?thesis using assms(1) queue unfolding worklist_ok_def by auto
qed

lemma closure_loop_closed:
  "worklist_ok seen queue \<Longrightarrow>
     seen \<subseteq> closure_loop (seen, queue) \<and> worklist_ok (closure_loop (seen, queue)) []"
proof (induction "(seen, queue)" arbitrary: seen queue rule: closure_loop.induct)
  case (1 seen queue)
  show ?case
  proof (cases "queue = []")
    case True
    then show ?thesis using 1(2) by (subst (1 2) closure_loop.simps) simp
  next
    case False
    obtain seen' queue' where
      step: "push_new (direct_consequences (last queue)) (seen, butlast queue) = (seen', queue')"
      by (cases "push_new (direct_consequences (last queue)) (seen, butlast queue)")
    have "seen \<subseteq> seen'"
      using push_new_fst [of "direct_consequences (last queue)" seen "butlast queue"] step by auto
    then show ?thesis
      using 1(1) [OF False step worklist_ok_step [OF 1(2) False step]] False
      by (subst (1 2) closure_loop.simps) (auto simp: step)
  qed
qed

lemma closure_loop_sound:
  "\<forall>b \<in> seen. licenses\<^sup>*\<^sup>* p b \<Longrightarrow> set queue \<subseteq> seen \<Longrightarrow> b \<in> closure_loop (seen, queue) \<Longrightarrow> licenses\<^sup>*\<^sup>* p b"
proof (induction "(seen, queue)" arbitrary: seen queue rule: closure_loop.induct)
  case (1 seen queue)
  show ?case
  proof (cases "queue = []")
    case True
    then show ?thesis using 1(2,4) by (simp add: closure_loop.simps)
  next
    case False
    obtain seen' queue' where
      step: "push_new (direct_consequences (last queue)) (seen, butlast queue) = (seen', queue')"
      by (cases "push_new (direct_consequences (last queue)) (seen, butlast queue)")
    have last: "last queue \<in> seen" using False 1(3) last_in_set by blast
    have seen': "seen' = seen \<union> set (direct_consequences (last queue))"
      and queue': "set queue' = set (butlast queue) \<union> (set (direct_consequences (last queue)) - seen)"
      using push_new_fst [of "direct_consequences (last queue)" seen "butlast queue"]
        push_new_snd [of "direct_consequences (last queue)" seen "butlast queue"] step by simp_all
    have "\<forall>b \<in> seen'. licenses\<^sup>*\<^sup>* p b"
      using 1(2) last seen' by (auto simp: licenses_def intro: rtranclp.rtrancl_into_rtrancl)
    moreover have "set queue' \<subseteq> seen'"
      using seen' queue' 1(3) by (auto dest: in_set_butlastD)
    moreover have "b \<in> closure_loop (seen', queue')"
      using 1(4) False step by (simp add: closure_loop.simps [of seen queue])
    ultimately show ?thesis using 1(1) [OF False step] by blast
  qed
qed

lemma closure_iff: "b \<in> closure a \<longleftrightarrow> licenses\<^sup>*\<^sup>* a b"
proof
  show "b \<in> closure a \<Longrightarrow> licenses\<^sup>*\<^sup>* a b"
    unfolding closure_def by (rule closure_loop_sound [of "{a}" a "[a]"]) simp_all
  have ok: "{a} \<subseteq> closure a \<and> worklist_ok (closure a) []"
    unfolding closure_def by (rule closure_loop_closed) (simp add: worklist_ok_def)
  assume "licenses\<^sup>*\<^sup>* a b"
  then show "b \<in> closure a"
    by (induction rule: rtranclp_induct) (use ok in \<open>auto simp: worklist_ok_def licenses_def\<close>)
qed

lemma closure_refl [simp, intro]: "a \<in> closure a"
  by (simp add: closure_iff)

lemma closure_trans: "b \<in> closure a \<Longrightarrow> c \<in> closure b \<Longrightarrow> c \<in> closure a"
  by (simp add: closure_iff)

lemma closure_mono: "b \<in> closure a \<Longrightarrow> closure b \<subseteq> closure a"
  using closure_trans by blast

lemma contradicts_mono:
  "contradicts a b \<Longrightarrow> a \<in> closure a' \<Longrightarrow> b \<in> closure b' \<Longrightarrow> contradicts a' b'"
  unfolding contradicts_def by (meson closure_trans)

section \<open>The tables\<close>

lemma closure_table:
  "closure Complex = {Complex}"
  "closure Real = {Complex, Real}"
  "closure Rational = {Complex, Real, Rational, Algebraic, Finite}"
  "closure Integer = {Complex, Real, Rational, Integer, Algebraic, Finite}"
  "closure Algebraic = {Complex, Algebraic}"
  "closure Transcendental = {Complex, Transcendental}"
  "closure Positive = {Complex, Real, Positive, NonNegative, NonZero}"
  "closure Negative = {Complex, Real, Negative, NonPositive, NonZero}"
  "closure NonNegative = {Complex, Real, NonNegative}"
  "closure NonPositive = {Complex, Real, NonPositive}"
  "closure Zero = {Complex, Real, Rational, Integer, Algebraic, NonNegative, NonPositive, Zero, Even, Finite}"
  "closure NonZero = {Complex, NonZero}"
  "closure Prime = {Complex, Real, Rational, Integer, Algebraic, Positive, NonNegative, NonZero, Prime, Finite}"
  "closure Even = {Complex, Real, Rational, Integer, Algebraic, Even, Finite}"
  "closure Odd = {Complex, Real, Rational, Integer, Algebraic, Odd, Finite}"
  "closure Finite = {Complex, Finite}"
  "closure Infinite = {Complex, Infinite}"
  by (simp_all add: closure_def closure_loop.simps insert_commute)

lemma contradicts_asymmetry:
  "contradicts a b \<noteq> contradicts b a \<longleftrightarrow>
     {a, b} \<in> {{NonNegative, Negative}, {NonPositive, Positive}, {NonPositive, Prime}}"
  by (cases a; cases b) (simp_all add: contradicts_def closure_table doubleton_eq_iff)

lemma contradicts_irrefl: "\<not> contradicts a a"
  by (cases a) (simp_all add: contradicts_def closure_table)

lemma direct_contradiction_detected:
  "c \<in> set (direct_contradictions x) \<Longrightarrow> x < c \<or> c < x \<and> contradicts c x"
  by (cases x) (auto simp: contradicts_def closure_table less_predicate_def)

section \<open>Closed fact sets\<close>

definition closed_facts :: "predicate set \<Rightarrow> bool" where
  "closed_facts known \<longleftrightarrow> (\<forall>a \<in> known. closure a \<subseteq> known)"

lemma closed_facts_closure [intro]: "closed_facts (\<Union>a \<in> A. closure a)"
  using closure_mono unfolding closed_facts_def by blast

lemma closed_facts_Un [intro]: "closed_facts A \<Longrightarrow> closed_facts B \<Longrightarrow> closed_facts (A \<union> B)"
  unfolding closed_facts_def by blast

lemma closed_facts_one [intro]: "closed_facts (closure a)"
  using closed_facts_closure [of "{a}"] by simp

lemma closed_facts_empty [intro]: "closed_facts {}"
  by (simp add: closed_facts_def)

text \<open>On a closed set the order in which the pairs are visited does not matter.\<close>

lemma has_contradiction_closed:
  assumes "closed_facts known"
  shows "has_contradiction_in_set known \<longleftrightarrow> (\<exists>a \<in> known. \<exists>b \<in> known. contradicts a b)"
proof
  assume "\<exists>a \<in> known. \<exists>b \<in> known. contradicts a b"
  then obtain x c where "x \<in> known" and "c \<in> known" and "c \<in> set (direct_contradictions x)"
    using assms unfolding closed_facts_def contradicts_def by blast
  then show "has_contradiction_in_set known"
    using direct_contradiction_detected [of c x] unfolding has_contradiction_in_set_def contradicts_def
    by blast
qed (auto simp: has_contradiction_in_set_def)

end
