(* ===== verification/Truth.thy ===== *)
theory Truth
  imports FS_Prelude
begin

text \<open>
  The four-valued truth model of \<open>crates/fsym-assumptions/src/truth.rs\<close>, with the refinement order
  that says what it means to lose information: \<open>Unknown\<close> may become any value.
\<close>

datatype truth_value = EntailedTrue | EntailedFalse | Unknown | Contradictory

instantiation truth_value :: linorder
begin

fun truth_rank :: "truth_value \<Rightarrow> nat" where
  "truth_rank EntailedTrue = 0"
| "truth_rank EntailedFalse = 1"
| "truth_rank Unknown = 2"
| "truth_rank Contradictory = 3"

definition less_eq_truth_value :: "truth_value \<Rightarrow> truth_value \<Rightarrow> bool" where
  "a \<le> b \<longleftrightarrow> truth_rank a \<le> truth_rank b"

definition less_truth_value :: "truth_value \<Rightarrow> truth_value \<Rightarrow> bool" where
  "a < b \<longleftrightarrow> truth_rank a < truth_rank b"

instance
proof
  fix a b c :: truth_value
  show "a < b \<longleftrightarrow> a \<le> b \<and> \<not> b \<le> a" by (auto simp: less_eq_truth_value_def less_truth_value_def)
  show "a \<le> a" by (simp add: less_eq_truth_value_def)
  show "a \<le> b \<Longrightarrow> b \<le> c \<Longrightarrow> a \<le> c" by (simp add: less_eq_truth_value_def)
  show "a \<le> b \<Longrightarrow> b \<le> a \<Longrightarrow> a = b" by (cases a; cases b) (simp_all add: less_eq_truth_value_def)
  show "a \<le> b \<or> b \<le> a" by (auto simp: less_eq_truth_value_def)
qed

end

definition is_entailed_true :: "truth_value \<Rightarrow> bool" where
  "is_entailed_true v \<longleftrightarrow> v = EntailedTrue"

definition is_entailed_false :: "truth_value \<Rightarrow> bool" where
  "is_entailed_false v \<longleftrightarrow> v = EntailedFalse"

definition is_unknown :: "truth_value \<Rightarrow> bool" where
  "is_unknown v \<longleftrightarrow> v = Unknown"

definition is_contradictory :: "truth_value \<Rightarrow> bool" where
  "is_contradictory v \<longleftrightarrow> v = Contradictory"

definition is_decided :: "truth_value \<Rightarrow> bool" where
  "is_decided v \<longleftrightarrow> v = EntailedTrue \<or> v = EntailedFalse"

fun to_option_bool :: "truth_value \<Rightarrow> bool option" where
  "to_option_bool EntailedTrue = Some True"
| "to_option_bool EntailedFalse = Some False"
| "to_option_bool Unknown = None"
| "to_option_bool Contradictory = None"

definition from_bool :: "bool \<Rightarrow> truth_value" where
  "from_bool b = (if b then EntailedTrue else EntailedFalse)"

fun from_option_bool :: "bool option \<Rightarrow> truth_value" where
  "from_option_bool (Some True) = EntailedTrue"
| "from_option_bool (Some False) = EntailedFalse"
| "from_option_bool None = Unknown"

fun truth_and :: "truth_value \<Rightarrow> truth_value \<Rightarrow> truth_value" where
  "truth_and Contradictory _ = Contradictory"
| "truth_and _ Contradictory = Contradictory"
| "truth_and EntailedFalse _ = EntailedFalse"
| "truth_and _ EntailedFalse = EntailedFalse"
| "truth_and EntailedTrue EntailedTrue = EntailedTrue"
| "truth_and _ _ = Unknown"

fun truth_or :: "truth_value \<Rightarrow> truth_value \<Rightarrow> truth_value" where
  "truth_or Contradictory _ = Contradictory"
| "truth_or _ Contradictory = Contradictory"
| "truth_or EntailedTrue _ = EntailedTrue"
| "truth_or _ EntailedTrue = EntailedTrue"
| "truth_or EntailedFalse EntailedFalse = EntailedFalse"
| "truth_or _ _ = Unknown"

fun truth_not :: "truth_value \<Rightarrow> truth_value" where
  "truth_not EntailedTrue = EntailedFalse"
| "truth_not EntailedFalse = EntailedTrue"
| "truth_not Unknown = Unknown"
| "truth_not Contradictory = Contradictory"

definition truth_implies :: "truth_value \<Rightarrow> truth_value \<Rightarrow> truth_value" where
  "truth_implies a b = truth_or (truth_not a) b"

fun truth_display :: "truth_value \<Rightarrow> string" where
  "truth_display EntailedTrue = ''True''"
| "truth_display EntailedFalse = ''False''"
| "truth_display Unknown = ''Unknown''"
| "truth_display Contradictory = ''Contradictory''"

section \<open>Algebra and soundness\<close>

text \<open>The possible classical values of a truth value; a contradiction leaves none.\<close>

definition possible :: "truth_value \<Rightarrow> bool set" where
  "possible v = (case v of EntailedTrue \<Rightarrow> {True} | EntailedFalse \<Rightarrow> {False}
     | Unknown \<Rightarrow> {True, False} | Contradictory \<Rightarrow> {})"

lemma possible_inject: "possible a = possible b \<longleftrightarrow> a = b"
  by (cases a; cases b) (auto simp: possible_def)

text \<open>The connectives are exactly the pointwise connectives on possible values.\<close>

lemma possible_not: "possible (truth_not a) = Not ` possible a"
  by (cases a) (auto simp: possible_def)

lemma possible_and: "possible (truth_and a b) = {x \<and> y | x y. x \<in> possible a \<and> y \<in> possible b}"
  by (cases a; cases b) (auto simp: possible_def)

lemma possible_or: "possible (truth_or a b) = {x \<or> y | x y. x \<in> possible a \<and> y \<in> possible b}"
  by (cases a; cases b) (auto simp: possible_def)

end
