(* ===== verification/Domains.thy ===== *)
theory Domains
  imports FS_Prelude "HOL-Library.Char_ord" "HOL-Library.List_Lexorder" "HOL-Library.Option_ord"
begin

text \<open>
  The coercion graph of \<open>crates/fsym-assumptions/src/domain.rs\<close>: domains, the receipts of the
  coercions between them, the common superdomain, the validating constructors, and the byte
  string a domain contributes to a context digest.  Symbols are those of
  \<open>crates/fsym-core/src/lib.rs\<close>; a \<open>string\<close> is read as its bytes, as \<open>String::len\<close> does.
\<close>

section \<open>Symbols and domains\<close>

datatype symbol = Symbol (sym_name: string) (sym_identity: "8 word list option")

text \<open>The derived order: by name, then by identity, a symbol without one first.\<close>

instantiation symbol :: linorder
begin

definition less_eq_symbol :: "symbol \<Rightarrow> symbol \<Rightarrow> bool" where
  "a \<le> b \<longleftrightarrow> sym_name a < sym_name b \<or> sym_name a = sym_name b \<and> sym_identity a \<le> sym_identity b"

definition less_symbol :: "symbol \<Rightarrow> symbol \<Rightarrow> bool" where
  "a < b \<longleftrightarrow> sym_name a < sym_name b \<or> sym_name a = sym_name b \<and> sym_identity a < sym_identity b"

instance
  by standard (auto simp: less_eq_symbol_def less_symbol_def intro: symbol.expand)

end

datatype domain =
    ZZ | QQ | RR | CC
  | PolyRing domain "symbol list"
  | FractionField domain "symbol list"
  | FiniteField u64
  | ExpressionDomain

datatype coercion_kind =
    ExactSubdomain | PolynomialEmbedding | FractionEmbedding | BaseCoercion | ExpressionPromotion

record coercion_receipt =
  cr_from :: domain
  cr_to :: domain
  cr_kind :: coercion_kind
  cr_exact :: bool

datatype domain_error =
    CoercionFailed string string string
  | NoCommonDomain string string
  | InvalidGenerators string
  | InvalidCharacteristic u64

fun is_exact :: "domain \<Rightarrow> bool" where
  "is_exact RR = False"
| "is_exact CC = False"
| "is_exact (PolyRing base _) = is_exact base"
| "is_exact (FractionField base _) = is_exact base"
| "is_exact _ = True"

fun is_field :: "domain \<Rightarrow> bool" where
  "is_field QQ = True"
| "is_field RR = True"
| "is_field CC = True"
| "is_field (FractionField _ _) = True"
| "is_field (FiniteField _) = True"
| "is_field _ = False"

fun is_ordered :: "domain \<Rightarrow> bool" where
  "is_ordered ZZ = True"
| "is_ordered QQ = True"
| "is_ordered RR = True"
| "is_ordered _ = False"

fun characteristic :: "domain \<Rightarrow> u64" where
  "characteristic (FiniteField p) = p"
| "characteristic (PolyRing base _) = characteristic base"
| "characteristic (FractionField base _) = characteristic base"
| "characteristic _ = 0"

section \<open>Coercions\<close>

definition receipt :: "domain \<Rightarrow> domain \<Rightarrow> coercion_kind \<Rightarrow> bool \<Rightarrow> coercion_receipt" where
  "receipt d target kind exact = \<lparr>cr_from = d, cr_to = target, cr_kind = kind, cr_exact = exact\<rparr>"

fun coercion_to :: "domain \<Rightarrow> domain \<Rightarrow> coercion_receipt option" where
  "coercion_to d target =
     (if d = target then Some (receipt d target ExactSubdomain (is_exact d))
      else if target = ExpressionDomain then Some (receipt d target ExpressionPromotion True)
      else (case (d, target) of
          (ZZ, QQ) \<Rightarrow> Some (receipt d target ExactSubdomain (is_exact d \<and> is_exact target))
        | (ZZ, RR) \<Rightarrow> Some (receipt d target ExactSubdomain (is_exact d \<and> is_exact target))
        | (ZZ, CC) \<Rightarrow> Some (receipt d target ExactSubdomain (is_exact d \<and> is_exact target))
        | (QQ, RR) \<Rightarrow> Some (receipt d target ExactSubdomain (is_exact d \<and> is_exact target))
        | (QQ, CC) \<Rightarrow> Some (receipt d target ExactSubdomain (is_exact d \<and> is_exact target))
        | (RR, CC) \<Rightarrow> Some (receipt d target ExactSubdomain (is_exact d \<and> is_exact target))
        | (PolyRing b1 g1, PolyRing b2 g2) \<Rightarrow>
            if coercion_to b1 b2 \<noteq> None \<and> set g1 \<subseteq> set g2
            then Some (receipt d target (if b1 = b2 then PolynomialEmbedding else BaseCoercion)
                   (is_exact d \<and> is_exact target))
            else None
        | (_, PolyRing base _) \<Rightarrow>
            if d = base \<or> coercion_to d base \<noteq> None
            then Some (receipt d target PolynomialEmbedding (is_exact d)) else None
        | (PolyRing base gens, FractionField f_base f_gens) \<Rightarrow>
            if base = f_base \<and> gens = f_gens then Some (receipt d target FractionEmbedding True)
            else if (coercion_to base f_base \<noteq> None \<or> base = QQ \<and> f_base = ZZ) \<and> set gens \<subseteq> set f_gens
            then Some (receipt d target BaseCoercion (is_exact d)) else None
        | (FractionField b1 g1, FractionField b2 g2) \<Rightarrow>
            if (coercion_to b1 b2 \<noteq> None \<or> b1 = QQ \<and> b2 = ZZ) \<and> set g1 \<subseteq> set g2
            then Some (receipt d target BaseCoercion (is_exact d \<and> is_exact target)) else None
        | (_, FractionField base _) \<Rightarrow>
            if d = base \<or> coercion_to d base \<noteq> None \<or> d = QQ \<and> base = ZZ
            then Some (receipt d target FractionEmbedding (is_exact d)) else None
        | _ \<Rightarrow> None))"

declare coercion_to.simps [simp del]

definition can_coerce_to :: "domain \<Rightarrow> domain \<Rightarrow> bool" where
  "can_coerce_to d target \<longleftrightarrow> coercion_to d target \<noteq> None"

text \<open>The merge loop appends the generators not yet present.\<close>

fun merge_gens :: "symbol list \<Rightarrow> symbol list \<Rightarrow> symbol list" where
  "merge_gens merged [] = merged"
| "merge_gens merged (g # gs) = merge_gens (if g \<in> set merged then merged else merged @ [g]) gs"

function common_domain :: "domain \<Rightarrow> domain \<Rightarrow> domain option" where
  "common_domain a b =
     (if a = b then Some a
      else if can_coerce_to a b then Some b
      else if can_coerce_to b a then Some a
      else (case (a, b) of
          (PolyRing b1 g1, PolyRing b2 g2) \<Rightarrow>
            (case common_domain b1 b2 of None \<Rightarrow> None
             | Some common \<Rightarrow> Some (PolyRing common (merge_gens g1 g2)))
        | (PolyRing base gens, other) \<Rightarrow>
            (case common_domain base other of None \<Rightarrow> None
             | Some common \<Rightarrow> Some (PolyRing common gens))
        | (other, PolyRing base gens) \<Rightarrow>
            (case common_domain base other of None \<Rightarrow> None
             | Some common \<Rightarrow> Some (PolyRing common gens))
        | _ \<Rightarrow> Some ExpressionDomain))"
  by pat_completeness auto

termination by (relation "measure (\<lambda>(a, b). size a + size b)") auto

declare common_domain.simps [simp del]

section \<open>Validating constructors\<close>

fun first_duplicate :: "symbol set \<Rightarrow> symbol list \<Rightarrow> symbol option" where
  "first_duplicate seen [] = None"
| "first_duplicate seen (g # gs) =
     (if g \<in> seen then Some g else first_duplicate (insert g seen) gs)"

definition check_generators :: "symbol list \<Rightarrow> domain_error + unit" where
  "check_generators gens =
     (if gens = [] then Inl (InvalidGenerators ''Generator list cannot be empty'')
      else case first_duplicate {} gens of
        Some g \<Rightarrow> Inl (InvalidGenerators (''Duplicate generator: '' @ sym_name g))
      | None \<Rightarrow> Inr ())"

definition try_poly_ring :: "domain \<Rightarrow> symbol list \<Rightarrow> domain_error + domain" where
  "try_poly_ring base gens = (case check_generators gens of Inl e \<Rightarrow> Inl e | Inr _ \<Rightarrow> Inr (PolyRing base gens))"

definition try_fraction_field :: "domain \<Rightarrow> symbol list \<Rightarrow> domain_error + domain" where
  "try_fraction_field base gens =
     (case check_generators gens of Inl e \<Rightarrow> Inl e | Inr _ \<Rightarrow> Inr (FractionField base gens))"

section \<open>The digest preimage\<close>

definition to_le_bytes :: "u64 \<Rightarrow> 8 word list" where
  "to_le_bytes w = map (\<lambda>i. ucast (drop_bit (8 * i) w)) [0..<8]"

definition name_bytes :: "string \<Rightarrow> 8 word list" where
  "name_bytes s = map of_char s"

text \<open>A generator contributes its length-prefixed name; its identity is not hashed.\<close>

definition generator_preimage :: "symbol \<Rightarrow> 8 word list" where
  "generator_preimage g =
     to_le_bytes (word_of_nat (length (sym_name g))) @ name_bytes (sym_name g)"

fun hash_canonical :: "domain \<Rightarrow> 8 word list" where
  "hash_canonical ZZ = [0]"
| "hash_canonical QQ = [1]"
| "hash_canonical RR = [2]"
| "hash_canonical CC = [3]"
| "hash_canonical (PolyRing base gens) =
     [4] @ hash_canonical base @ to_le_bytes (word_of_nat (length gens))
       @ concat (map generator_preimage gens)"
| "hash_canonical (FractionField base gens) =
     [5] @ hash_canonical base @ to_le_bytes (word_of_nat (length gens))
       @ concat (map generator_preimage gens)"
| "hash_canonical (FiniteField p) = [6] @ to_le_bytes p"
| "hash_canonical ExpressionDomain = [7]"

section \<open>Facts about coercions\<close>

lemma coercion_receipt:
  "coercion_to d t = Some r \<Longrightarrow> cr_from r = d \<and> cr_to r = t"
  by (subst (asm) coercion_to.simps) (auto simp: receipt_def split: if_splits domain.splits)

lemma coercion_to_refl [simp]: "coercion_to d d = Some (receipt d d ExactSubdomain (is_exact d))"
  by (subst coercion_to.simps) simp

lemma can_coerce_refl [simp]: "can_coerce_to d d"
  by (simp add: can_coerce_to_def)

lemma can_coerce_expression [simp]: "can_coerce_to d ExpressionDomain"
  unfolding can_coerce_to_def by (subst coercion_to.simps) simp

lemma can_coerce_poly:
  "can_coerce_to (PolyRing b1 g1) (PolyRing b2 g2) \<longleftrightarrow>
     b1 = b2 \<and> g1 = g2 \<or> can_coerce_to b1 b2 \<and> set g1 \<subseteq> set g2"
  unfolding can_coerce_to_def by (subst coercion_to.simps) (auto simp: can_coerce_to_def)

definition is_poly :: "domain \<Rightarrow> bool" where
  "is_poly d \<longleftrightarrow> (\<exists>b g. d = PolyRing b g)"

lemma can_coerce_into_poly:
  "\<not> is_poly d \<Longrightarrow> can_coerce_to d (PolyRing base g) \<longleftrightarrow> can_coerce_to d base"
  unfolding can_coerce_to_def
  by (subst coercion_to.simps, cases d; cases "d = base")
    (simp_all add: is_poly_def can_coerce_to_def [symmetric])

lemma can_coerce_fraction:
  "can_coerce_to (FractionField b1 g1) (FractionField b2 g2) \<longleftrightarrow>
     b1 = b2 \<and> g1 = g2 \<or> (can_coerce_to b1 b2 \<or> b1 = QQ \<and> b2 = ZZ) \<and> set g1 \<subseteq> set g2"
  unfolding can_coerce_to_def by (subst coercion_to.simps) (auto simp: can_coerce_to_def)

lemma can_coerce_poly_fraction:
  "can_coerce_to (PolyRing b1 g1) (FractionField b2 g2) \<longleftrightarrow>
     b1 = b2 \<and> g1 = g2 \<or> (can_coerce_to b1 b2 \<or> b1 = QQ \<and> b2 = ZZ) \<and> set g1 \<subseteq> set g2"
  unfolding can_coerce_to_def by (subst coercion_to.simps) (auto simp: can_coerce_to_def)

definition is_fraction :: "domain \<Rightarrow> bool" where
  "is_fraction d \<longleftrightarrow> (\<exists>b g. d = FractionField b g)"

lemma can_coerce_into_fraction:
  "\<not> is_poly d \<Longrightarrow> \<not> is_fraction d \<Longrightarrow>
     can_coerce_to d (FractionField base g) \<longleftrightarrow> can_coerce_to d base \<or> d = QQ \<and> base = ZZ"
  unfolding can_coerce_to_def
  by (subst coercion_to.simps, cases d; cases "d = base")
    (auto simp: is_poly_def is_fraction_def can_coerce_to_def [symmetric])

text \<open>Into a domain without generators and other than \<open>EX\<close>: the numeric tower.\<close>

lemma can_coerce_tower:
  "can_coerce_to d ZZ \<longleftrightarrow> d = ZZ"
  "can_coerce_to d QQ \<longleftrightarrow> d \<in> {ZZ, QQ}"
  "can_coerce_to d RR \<longleftrightarrow> d \<in> {ZZ, QQ, RR}"
  "can_coerce_to d CC \<longleftrightarrow> d \<in> {ZZ, QQ, RR, CC}"
  "can_coerce_to d (FiniteField p) \<longleftrightarrow> d = FiniteField p"
  unfolding can_coerce_to_def by (subst coercion_to.simps, cases d; simp)+

lemmas can_coerce_simps = can_coerce_refl can_coerce_expression can_coerce_poly can_coerce_into_poly
  can_coerce_fraction can_coerce_poly_fraction can_coerce_into_fraction can_coerce_tower
  is_poly_def is_fraction_def

fun mentions_expression :: "domain \<Rightarrow> bool" where
  "mentions_expression ExpressionDomain = True"
| "mentions_expression (PolyRing base _) = mentions_expression base"
| "mentions_expression (FractionField base _) = mentions_expression base"
| "mentions_expression _ = False"

text \<open>A coercion into a polynomial ring or a fraction field rests on one into its base.\<close>

lemma coercion_into_base:
  assumes "can_coerce_to d t" and "t = PolyRing base g \<or> t = FractionField base g"
  shows "\<exists>d'. can_coerce_to d' base \<and> characteristic d' = characteristic d \<and> is_exact d' = is_exact d"
proof (cases d)
  case (PolyRing b1 g1)
  then have "b1 = base \<or> can_coerce_to b1 base \<or> b1 = QQ \<and> base = ZZ"
    using assms by (auto simp: can_coerce_simps)
  then show ?thesis
  proof (elim disjE conjE)
    assume "b1 = QQ" and "base = ZZ"
    then show ?thesis using PolyRing by (intro exI [of _ ZZ]) simp
  qed (use PolyRing in \<open>auto intro!: exI [of _ b1]\<close>)
next
  case (FractionField b1 g1)
  show ?thesis
  proof (cases "can_coerce_to d base")
    case False
    then have "b1 = base \<or> can_coerce_to b1 base \<or> b1 = QQ \<and> base = ZZ"
      using assms FractionField by (auto simp: can_coerce_simps)
    then show ?thesis
    proof (elim disjE conjE)
      assume "b1 = QQ" and "base = ZZ"
      then show ?thesis using FractionField by (intro exI [of _ ZZ]) simp
    qed (use FractionField in \<open>auto intro!: exI [of _ b1]\<close>)
  qed blast
next
  case QQ
  then have "can_coerce_to d base \<or> base = ZZ" using assms by (auto simp: can_coerce_simps)
  then show ?thesis
  proof
    assume "base = ZZ"
    then show ?thesis using QQ by (intro exI [of _ ZZ]) simp
  qed blast
qed (use assms in \<open>auto simp: can_coerce_simps intro!: exI [of _ d]\<close>)

lemma coercion_characteristic:
  "can_coerce_to d t \<Longrightarrow> \<not> mentions_expression t \<Longrightarrow> characteristic d = characteristic t"
proof (induction t arbitrary: d)
  case (PolyRing base g)
  then obtain d' where "can_coerce_to d' base" and "characteristic d' = characteristic d"
    and "is_exact d' = is_exact d" using coercion_into_base [of d _ base g] by blast
  then show ?case using PolyRing.IH [of d'] PolyRing.prems by simp
next
  case (FractionField base g)
  then obtain d' where "can_coerce_to d' base" and "characteristic d' = characteristic d"
    and "is_exact d' = is_exact d" using coercion_into_base [of d _ base g] by blast
  then show ?case using FractionField.IH [of d'] FractionField.prems by simp
qed (auto simp: can_coerce_simps)

lemma coercion_exactness:
  "can_coerce_to d t \<Longrightarrow> \<not> mentions_expression t \<Longrightarrow> is_exact t \<Longrightarrow> is_exact d"
proof (induction t arbitrary: d)
  case (PolyRing base g)
  then obtain d' where "can_coerce_to d' base" and "characteristic d' = characteristic d"
    and "is_exact d' = is_exact d" using coercion_into_base [of d _ base g] by blast
  then show ?case using PolyRing.IH [of d'] PolyRing.prems by simp
next
  case (FractionField base g)
  then obtain d' where "can_coerce_to d' base" and "characteristic d' = characteristic d"
    and "is_exact d' = is_exact d" using coercion_into_base [of d _ base g] by blast
  then show ?case using FractionField.IH [of d'] FractionField.prems by simp
qed (auto simp: can_coerce_simps)

section \<open>The common superdomain\<close>

lemma merge_gens_set: "set (merge_gens g1 g2) = set g1 \<union> set g2"
  by (induction g1 g2 rule: merge_gens.induct) auto

lemma merge_gens_distinct: "distinct g1 \<Longrightarrow> distinct (merge_gens g1 g2)"
  by (induction g1 g2 rule: merge_gens.induct) auto

lemma common_domain_upper:
  "\<exists>c. common_domain a b = Some c \<and> can_coerce_to a c \<and> can_coerce_to b c"
proof (induction a b rule: common_domain.induct)
  case (1 a b)
  note IH = 1
  show ?case
  proof (cases "a = b \<or> can_coerce_to a b \<or> can_coerce_to b a")
    case True
    then show ?thesis by (subst common_domain.simps) auto
  next
    case False
    then have ne: "a \<noteq> b" "\<not> can_coerce_to a b" "\<not> can_coerce_to b a" by simp_all
    note IH = IH [OF ne]
    show ?thesis
    proof (cases "is_poly a \<or> is_poly b")
      case True
      then consider (both) b1 g1 b2 g2 where "a = PolyRing b1 g1" "b = PolyRing b2 g2"
        | (left) base g where "a = PolyRing base g" "\<not> is_poly b"
        | (right) base g where "b = PolyRing base g" "\<not> is_poly a"
        by (metis is_poly_def)
      then show ?thesis
      proof cases
        case both
        then have "\<exists>c. common_domain b1 b2 = Some c \<and> can_coerce_to b1 c \<and> can_coerce_to b2 c"
          using IH by simp
        then show ?thesis using ne both
          by (subst common_domain.simps) (auto simp: can_coerce_poly merge_gens_set)
      next
        case left
        then have "\<exists>c. common_domain base b = Some c \<and> can_coerce_to base c \<and> can_coerce_to b c"
          using IH by (cases b) (simp_all add: is_poly_def)
        then show ?thesis using ne left
          by (subst common_domain.simps, cases b) (auto simp: can_coerce_poly can_coerce_into_poly is_poly_def)
      next
        case right
        then have "\<exists>c. common_domain base a = Some c \<and> can_coerce_to base c \<and> can_coerce_to a c"
          using IH by (cases a) (simp_all add: is_poly_def)
        then show ?thesis using ne right
          by (subst common_domain.simps, cases a) (auto simp: can_coerce_poly can_coerce_into_poly is_poly_def)
      qed
    next
      case neither: False
      have "common_domain a b = Some ExpressionDomain"
        using ne neither by (subst common_domain.simps, cases a; cases b) (simp_all add: is_poly_def)
      then show ?thesis by simp
    qed
  qed
qed

section \<open>The validating constructors\<close>

lemma first_duplicate_None: "first_duplicate seen gs = None \<longleftrightarrow> distinct gs \<and> set gs \<inter> seen = {}"
  by (induction gs arbitrary: seen) auto

lemma check_generators_ok: "check_generators gens = Inr () \<longleftrightarrow> gens \<noteq> [] \<and> distinct gens"
  using first_duplicate_None [of "{}" gens] by (auto simp: check_generators_def split: option.splits)

section \<open>The preimage is injective up to symbol identity\<close>

lemma length_to_le_bytes [simp]: "length (to_le_bytes w) = 8"
  by (simp add: to_le_bytes_def)

lemma to_le_bytes_inject: "to_le_bytes v = to_le_bytes w \<Longrightarrow> v = w"
proof (rule bit_word_eqI)
  fix n assume eq: "to_le_bytes v = to_le_bytes w" and n: "n < LENGTH(64)"
  have "to_le_bytes v ! (n div 8) = to_le_bytes w ! (n div 8)" by (simp add: eq)
  then have "(ucast (drop_bit (8 * (n div 8)) v) :: 8 word) = ucast (drop_bit (8 * (n div 8)) w)"
    using n by (simp add: to_le_bytes_def less_mult_imp_div_less)
  then have "bit (ucast (drop_bit (8 * (n div 8)) v) :: 8 word) (n mod 8)
      = bit (ucast (drop_bit (8 * (n div 8)) w) :: 8 word) (n mod 8)" by simp
  then show "bit v n = bit w n" by (simp add: bit_simps)
qed

lemma name_bytes_inject: "name_bytes s = name_bytes t \<Longrightarrow> s = t"
proof -
  have "(of_char c :: 8 word) = of_char d \<Longrightarrow> c = d" for c d
  proof -
    assume "(of_char c :: 8 word) = of_char d"
    then have "unat (of_char c :: 8 word) = unat (of_char d :: 8 word)" by simp
    moreover have "unat (of_char e :: 8 word) = of_char e" for e :: char
    proof -
      have "(of_char e :: 8 word) = of_nat (of_char e)" by (rule of_nat_of_char [symmetric])
      moreover have "(of_char e :: nat) < 2 ^ LENGTH(8)" using nat_of_char_less_256 [of e] by simp
      ultimately show ?thesis by (metis unat_of_nat mod_less)
    qed
    ultimately show "c = d" by simp
  qed
  then show "name_bytes s = name_bytes t \<Longrightarrow> s = t"
    unfolding name_bytes_def by (metis injI map_injective)
qed

definition erase_symbol :: "symbol \<Rightarrow> symbol" where
  "erase_symbol g = Symbol (sym_name g) None"

fun erase_identity :: "domain \<Rightarrow> domain" where
  "erase_identity (PolyRing base gens) = PolyRing (erase_identity base) (map erase_symbol gens)"
| "erase_identity (FractionField base gens) = FractionField (erase_identity base) (map erase_symbol gens)"
| "erase_identity d = d"

text \<open>Lengths fit a \<open>u64\<close>, which every \<open>Vec\<close> and \<open>String\<close> satisfies.\<close>

fun sized :: "domain \<Rightarrow> bool" where
  "sized (PolyRing base gens) \<longleftrightarrow>
     sized base \<and> length gens < 2 ^ 64 \<and> (\<forall>g \<in> set gens. length (sym_name g) < 2 ^ 64)"
| "sized (FractionField base gens) \<longleftrightarrow>
     sized base \<and> length gens < 2 ^ 64 \<and> (\<forall>g \<in> set gens. length (sym_name g) < 2 ^ 64)"
| "sized _ \<longleftrightarrow> True"

lemma length_prefix_inject:
  assumes "m < 2 ^ 64" and "n < 2 ^ 64"
    and "to_le_bytes (word_of_nat m) @ r = to_le_bytes (word_of_nat n) @ r'"
  shows "m = n \<and> r = r'"
proof -
  have "to_le_bytes (word_of_nat m) = to_le_bytes (word_of_nat n)" and r: "r = r'"
    using assms(3) by (simp_all add: append_eq_append_conv)
  then have "(word_of_nat m :: u64) = word_of_nat n" by (intro to_le_bytes_inject)
  then have "unat (word_of_nat m :: u64) = unat (word_of_nat n :: u64)" by simp
  then have "m = n" using assms(1,2) by (simp add: unat_of_nat)
  then show ?thesis using r by simp
qed

lemma generator_preimage_inject:
  assumes "length (sym_name g) < 2 ^ 64" and "length (sym_name h) < 2 ^ 64"
    and "generator_preimage g @ r = generator_preimage h @ r'"
  shows "erase_symbol g = erase_symbol h \<and> r = r'"
proof -
  have "length (sym_name g) = length (sym_name h)
      \<and> name_bytes (sym_name g) @ r = name_bytes (sym_name h) @ r'"
    using length_prefix_inject [OF assms(1,2)] assms(3) by (simp add: generator_preimage_def)
  then show ?thesis
    using name_bytes_inject by (auto simp: append_eq_append_conv name_bytes_def erase_symbol_def)
qed

lemma generators_preimage_inject:
  "length gs = length hs \<Longrightarrow> \<forall>g \<in> set gs. length (sym_name g) < 2 ^ 64
     \<Longrightarrow> \<forall>h \<in> set hs. length (sym_name h) < 2 ^ 64
     \<Longrightarrow> concat (map generator_preimage gs) @ r = concat (map generator_preimage hs) @ r'
     \<Longrightarrow> map erase_symbol gs = map erase_symbol hs \<and> r = r'"
proof (induction gs hs rule: list_induct2)
  case (Cons g gs h hs)
  have "erase_symbol g = erase_symbol h
      \<and> concat (map generator_preimage gs) @ r = concat (map generator_preimage hs) @ r'"
    using generator_preimage_inject [of g h "concat (map generator_preimage gs) @ r"
        "concat (map generator_preimage hs) @ r'"] Cons.prems by simp
  then show ?case using Cons by simp
qed simp

lemma generic_tail_inject:
  assumes base: "\<And>r r'. hash_canonical b @ r = hash_canonical b' @ r' \<Longrightarrow>
        erase_identity b = erase_identity b' \<and> r = r'"
    and "length gs < 2 ^ 64" and "length hs < 2 ^ 64"
    and "\<forall>g \<in> set gs. length (sym_name g) < 2 ^ 64" and "\<forall>h \<in> set hs. length (sym_name h) < 2 ^ 64"
    and "hash_canonical b @ to_le_bytes (word_of_nat (length gs)) @ concat (map generator_preimage gs) @ r
       = hash_canonical b' @ to_le_bytes (word_of_nat (length hs)) @ concat (map generator_preimage hs) @ r'"
  shows "erase_identity b = erase_identity b' \<and> map erase_symbol gs = map erase_symbol hs \<and> r = r'"
  using base [OF assms(6)] length_prefix_inject [OF assms(2,3)] generators_preimage_inject [OF _ assms(4,5)]
  by blast

lemma hash_canonical_prefix:
  "sized d \<Longrightarrow> sized d' \<Longrightarrow> hash_canonical d @ r = hash_canonical d' @ r' \<Longrightarrow>
     erase_identity d = erase_identity d' \<and> r = r'"
proof (induction d arbitrary: d' r r')
  case (PolyRing base gens)
  obtain base' gens' where d': "d' = PolyRing base' gens'" using PolyRing.prems(3) by (cases d') auto
  have "erase_identity base = erase_identity base' \<and> map erase_symbol gens = map erase_symbol gens' \<and> r = r'"
    by (rule generic_tail_inject) (use PolyRing d' in auto)
  then show ?case by (simp add: d')
next
  case (FractionField base gens)
  obtain base' gens' where d': "d' = FractionField base' gens'" using FractionField.prems(3) by (cases d') auto
  have "erase_identity base = erase_identity base' \<and> map erase_symbol gens = map erase_symbol gens' \<and> r = r'"
    by (rule generic_tail_inject) (use FractionField d' in auto)
  then show ?case by (simp add: d')
next
  case (FiniteField p)
  then obtain q where "d' = FiniteField q" by (cases d') auto
  then show ?case using FiniteField to_le_bytes_inject by (auto simp: append_eq_append_conv)
qed (case_tac d'; simp)+

lemma hash_canonical_erase: "hash_canonical (erase_identity d) = hash_canonical d"
proof -
  have "map generator_preimage (map erase_symbol gs) = map generator_preimage gs" for gs
    by (simp add: generator_preimage_def erase_symbol_def)
  then show ?thesis by (induction d) (simp_all del: map_map)
qed

section \<open>Display\<close>

text \<open>Decimal digits of a number, as \<open>write!\<close> prints it.\<close>

fun decimal :: "nat \<Rightarrow> string" where
  "decimal n = (if n < 10 then [char_of (48 + n)] else decimal (n div 10) @ [char_of (48 + n mod 10)])"

declare decimal.simps [simp del]

fun join_names :: "symbol list \<Rightarrow> string" where
  "join_names [] = []"
| "join_names [g] = sym_name g"
| "join_names (g # gs) = sym_name g @ '', '' @ join_names gs"

fun domain_display :: "domain \<Rightarrow> string" where
  "domain_display ZZ = ''ZZ''"
| "domain_display QQ = ''QQ''"
| "domain_display RR = ''RR''"
| "domain_display CC = ''CC''"
| "domain_display (PolyRing base gens) = domain_display base @ ''['' @ join_names gens @ '']''"
| "domain_display (FractionField base gens) = domain_display base @ ''('' @ join_names gens @ '')''"
| "domain_display (FiniteField p) = ''GF('' @ decimal (unat p) @ '')''"
| "domain_display ExpressionDomain = ''EX''"

end
