(* ===== verification/Contexts.thy ===== *)
theory Contexts
  imports Predicates Truth Domains "HOL-Library.AList" "HOL-Library.Multiset"
begin

text \<open>
  Assumption contexts of \<open>crates/fsym-assumptions/src/lib.rs\<close>: the mutable builder
  \<open>AssumptionsContext\<close> and the immutable, hierarchical \<open>ImmutableAssumptionsSnapshot\<close>.

  A \<open>HashMap\<close> is an association list with distinct keys; its order is the iteration order, which
  Rust leaves open, so every statement about a map holds for every order. BLAKE3 is the parameter
  \<open>H\<close> from the bytes fed to the hasher to the digest.
\<close>

datatype assumption_error =
    Contradiction
  | DomainConflict string string string
  | UnknownSymbol string

record assumptions =
  as_facts :: "(symbol \<times> predicate list) list"
  as_domains :: "(symbol \<times> domain) list"

definition assumptions_new :: assumptions where
  "assumptions_new = \<lparr>as_facts = [], as_domains = []\<rparr>"

section \<open>Deductions\<close>

text \<open>The facts a domain assignment implies.\<close>

fun domain_facts :: "domain \<Rightarrow> predicate set" where
  "domain_facts ZZ = closure Integer"
| "domain_facts QQ = closure Rational"
| "domain_facts RR = closure Real"
| "domain_facts CC = closure Complex"
| "domain_facts _ = {}"

definition stated_facts :: "(symbol \<times> predicate list) list \<Rightarrow> (symbol \<times> domain) list \<Rightarrow> symbol \<Rightarrow> predicate set"
  where
  "stated_facts facts domains symb =
     (case map_of facts symb of None \<Rightarrow> {} | Some preds \<Rightarrow> (\<Union>p \<in> set preds. closure p))
     \<union> (case map_of domains symb of None \<Rightarrow> {} | Some assigned \<Rightarrow> domain_facts assigned)"

definition deductions :: "assumptions \<Rightarrow> symbol \<Rightarrow> predicate set" where
  "deductions ctx symb = stated_facts (as_facts ctx) (as_domains ctx) symb"

definition domain_of :: "assumptions \<Rightarrow> symbol \<Rightarrow> domain option" where
  "domain_of ctx symb = map_of (as_domains ctx) symb"

section \<open>Recording assumptions\<close>

definition push_fact :: "symbol \<Rightarrow> predicate \<Rightarrow> (symbol \<times> predicate list) list \<Rightarrow> (symbol \<times> predicate list) list"
  where
  "push_fact symb pred facts =
     AList.update symb ((case map_of facts symb of None \<Rightarrow> [] | Some preds \<Rightarrow> preds) @ [pred]) facts"

definition assume_fact :: "symbol \<Rightarrow> predicate \<Rightarrow> assumptions \<Rightarrow> assumptions \<times> (assumption_error + unit)" where
  "assume_fact symb pred ctx =
     (if \<exists>fact \<in> deductions ctx symb. contradicts fact pred then (ctx, Inl Contradiction)
      else (ctx\<lparr>as_facts := push_fact symb pred (as_facts ctx)\<rparr>, Inr ()))"

definition assume_domain :: "symbol \<Rightarrow> domain \<Rightarrow> assumptions \<Rightarrow> assumptions \<times> (assumption_error + unit)" where
  "assume_domain symb domain ctx =
     (case map_of (as_domains ctx) symb of
        Some existing \<Rightarrow>
          if existing \<noteq> domain then
            (case common_domain existing domain of
               Some common \<Rightarrow>
                 if common = ExpressionDomain \<and> existing \<noteq> ExpressionDomain
                 then (ctx, Inl (DomainConflict (sym_name symb) (domain_display existing) (domain_display domain)))
                 else (ctx\<lparr>as_domains := AList.update symb common (as_domains ctx)\<rparr>, Inr ())
             | None \<Rightarrow>
                 (ctx, Inl (DomainConflict (sym_name symb) (domain_display existing) (domain_display domain))))
          else (ctx, Inr ())
      | None \<Rightarrow> (ctx\<lparr>as_domains := AList.update symb domain (as_domains ctx)\<rparr>, Inr ()))"

text \<open>The pairs of a vector, earlier element first.\<close>

fun contradicting_pair :: "predicate list \<Rightarrow> bool" where
  "contradicting_pair [] = False"
| "contradicting_pair (a # bs) \<longleftrightarrow> (\<exists>b \<in> set bs. contradicts a b) \<or> contradicting_pair bs"

definition check_consistency :: "assumptions \<Rightarrow> assumption_error + unit" where
  "check_consistency ctx =
     (if \<exists>(symb, preds) \<in> set (as_facts ctx). contradicting_pair preds then Inl Contradiction else Inr ())"

section \<open>Answers\<close>

text \<open>The decision at the end of \<open>query\<close>, from the deduced facts of the expression.\<close>

definition answer :: "predicate set \<Rightarrow> predicate \<Rightarrow> truth_value" where
  "answer known pred =
     (if has_contradiction_in_set known then Contradictory
      else
        let has_pred = (pred \<in> known);
            has_contradiction = (\<exists>fact \<in> known. contradicts fact pred)
        in if has_pred \<and> has_contradiction then Contradictory
           else if has_pred then EntailedTrue
           else if has_contradiction then EntailedFalse
           else Unknown)"

fun negated_answer :: "truth_value \<Rightarrow> bool option" where
  "negated_answer EntailedFalse = Some True"
| "negated_answer EntailedTrue = Some False"
| "negated_answer Unknown = None"
| "negated_answer Contradictory = None"

section \<open>Snapshots\<close>

datatype snapshot =
  Snapshot (snap_id: u64) (snap_digest: "8 word list") (snap_parent: "snapshot option")
    (snap_facts: "(symbol \<times> predicate list) list") (snap_domains: "(symbol \<times> domain) list")
    (snap_provenance: string)

definition from_le_bytes :: "8 word list \<Rightarrow> u64" where
  "from_le_bytes bs = foldr (\<lambda>b acc. ucast b OR push_bit 8 acc) bs 0"

text \<open>The context identifier is the first eight digest bytes, with zero replaced by one.\<close>

definition context_id_of :: "8 word list \<Rightarrow> u64" where
  "context_id_of digest = (let raw = from_le_bytes (take 8 digest) in if raw = 0 then 1 else raw)"

definition snapshot_empty :: "(8 word list \<Rightarrow> 8 word list) \<Rightarrow> snapshot" where
  "snapshot_empty H =
     (let digest = H (name_bytes ''fsym.context.empty.v1'')
      in Snapshot (context_id_of digest) digest None [] [] ''root'')"

fun snapshot_domain_of :: "snapshot \<Rightarrow> symbol \<Rightarrow> domain option" where
  "snapshot_domain_of (Snapshot i d parent facts domains prov) symb =
     (case map_of domains symb of
        Some assigned \<Rightarrow> Some assigned
      | None \<Rightarrow> (case parent of Some p \<Rightarrow> snapshot_domain_of p symb | None \<Rightarrow> None))"

fun snapshot_deductions :: "snapshot \<Rightarrow> symbol \<Rightarrow> predicate set" where
  "snapshot_deductions (Snapshot i d parent facts domains prov) symb =
     (case parent of Some p \<Rightarrow> snapshot_deductions p symb | None \<Rightarrow> {}) \<union> stated_facts facts domains symb"

text \<open>The bytes fed to the hasher for one symbol, one fact entry and one domain entry.\<close>

definition symbol_bytes :: "symbol \<Rightarrow> 8 word list" where
  "symbol_bytes symb = generator_preimage symb @
     (case sym_identity symb of Some identity \<Rightarrow> 1 # identity | None \<Rightarrow> [0])"

definition sorted_facts :: "predicate list \<Rightarrow> predicate list" where
  "sorted_facts preds = remdups_adj (sort preds)"

definition fact_bytes :: "symbol \<times> predicate list \<Rightarrow> 8 word list" where
  "fact_bytes = (\<lambda>(symb, preds). name_bytes ''fact:'' @ symbol_bytes symb @
     to_le_bytes (word_of_nat (length (sorted_facts preds)))
     @ map (\<lambda>p. word_of_nat (discriminant p)) (sorted_facts preds))"

definition domain_bytes :: "symbol \<times> domain \<Rightarrow> 8 word list" where
  "domain_bytes = (\<lambda>(symb, assigned). name_bytes ''dom:'' @ symbol_bytes symb @ hash_canonical assigned)"

definition context_preimage ::
  "8 word list \<Rightarrow> (symbol \<times> predicate list) list \<Rightarrow> (symbol \<times> domain) list \<Rightarrow> 8 word list" where
  "context_preimage digest facts domains =
     name_bytes ''fsym.context.v2:'' @ digest
     @ concat (map fact_bytes (sort_key fst facts)) @ concat (map domain_bytes (sort_key fst domains))"

text \<open>The validation loop: the first conflicting entry in iteration order is reported.\<close>

fun domain_conflict :: "snapshot \<Rightarrow> (symbol \<times> domain) list \<Rightarrow> assumption_error option" where
  "domain_conflict parent [] = None"
| "domain_conflict parent ((symb, assigned) # rest) =
     (case snapshot_domain_of parent symb of
        Some parent_dom \<Rightarrow>
          if parent_dom \<noteq> assigned \<and> \<not> can_coerce_to assigned parent_dom \<and> \<not> can_coerce_to parent_dom assigned
          then Some (DomainConflict (sym_name symb) (domain_display parent_dom) (domain_display assigned))
          else domain_conflict parent rest
      | None \<Rightarrow> domain_conflict parent rest)"

definition derive_child ::
  "(8 word list \<Rightarrow> 8 word list) \<Rightarrow> snapshot \<Rightarrow> (symbol \<times> predicate list) list \<Rightarrow> (symbol \<times> domain) list
    \<Rightarrow> string \<Rightarrow> assumption_error + snapshot" where
  "derive_child H parent facts domains provenance =
     (case domain_conflict parent domains of
        Some e \<Rightarrow> Inl e
      | None \<Rightarrow>
          let digest = H (context_preimage (snap_digest parent) facts domains)
          in Inr (Snapshot (context_id_of digest) digest (Some parent) facts domains provenance))"

text \<open>\<open>AssumptionsContext::snapshot\<close>; \<open>None\<close> is the panic of its \<open>expect\<close>.\<close>

definition snapshot_of :: "(8 word list \<Rightarrow> 8 word list) \<Rightarrow> assumptions \<Rightarrow> snapshot option" where
  "snapshot_of H ctx =
     (case derive_child H (snapshot_empty H) (as_facts ctx) (as_domains ctx) ''snapshot'' of
        Inl _ \<Rightarrow> None
      | Inr child \<Rightarrow> Some child)"

section \<open>What the builder promises\<close>

lemma stated_facts_empty [simp]: "stated_facts [] [] symb = {}"
  by (simp add: stated_facts_def)

lemma domain_facts_closed: "closed_facts (domain_facts d)"
  by (cases d) auto

lemma stated_facts_closed: "closed_facts (stated_facts facts domains symb)"
  unfolding stated_facts_def
  by (intro closed_facts_Un) (auto split: option.splits intro: domain_facts_closed)

lemma deductions_closed: "closed_facts (deductions ctx symb)"
  by (simp add: deductions_def stated_facts_closed)

lemma map_of_push_fact:
  "map_of (push_fact symb pred facts) =
     (map_of facts)(symb \<mapsto> (case map_of facts symb of None \<Rightarrow> [] | Some preds \<Rightarrow> preds) @ [pred])"
  by (simp add: push_fact_def update_conv')

lemma assume_fact_deductions:
  assumes "assume_fact symb pred ctx = (ctx', Inr ())"
  shows "deductions ctx' s = (if s = symb then deductions ctx s \<union> closure pred else deductions ctx s)"
proof -
  have "ctx' = ctx\<lparr>as_facts := push_fact symb pred (as_facts ctx)\<rparr>"
    using assms by (auto simp: assume_fact_def split: if_splits)
  then show ?thesis
    by (auto simp: deductions_def stated_facts_def map_of_push_fact split: option.splits)
qed

lemma assume_fact_refuses:
  "snd (assume_fact symb pred ctx) = Inl Contradiction \<longleftrightarrow> (\<exists>fact \<in> deductions ctx symb. contradicts fact pred)"
  by (simp add: assume_fact_def)

text \<open>
  A fact that contradicts \<open>pred\<close> in either direction: in a closed set it is found directly unless it
  is one of the one-sided pairs.
\<close>

lemma contradicts_either:
  "contradicts a b \<Longrightarrow> contradicts b a \<or>
     (a, b) \<in> {(Negative, NonNegative), (Positive, NonPositive), (Prime, NonPositive)}"
  by (cases a; cases b) (simp_all add: contradicts_def closure_table)

section \<open>Monotonicity of answers\<close>

text \<open>What more facts may do to an answer: it may become decided or contradictory, nothing else.\<close>

definition refines_answer :: "truth_value \<Rightarrow> truth_value \<Rightarrow> bool" where
  "refines_answer v w \<longleftrightarrow> v = Unknown \<or> w = Contradictory \<or> v = w"

lemma has_contradiction_mono: "A \<subseteq> B \<Longrightarrow> has_contradiction_in_set A \<Longrightarrow> has_contradiction_in_set B"
  by (auto simp: has_contradiction_in_set_def)

lemma answer_mono: "A \<subseteq> B \<Longrightarrow> refines_answer (answer A p) (answer B p)"
  using has_contradiction_mono [of A B]
  by (auto simp: answer_def refines_answer_def Let_def)

lemma answer_EntailedTrue:
  "answer known p = EntailedTrue \<longleftrightarrow> p \<in> known \<and> \<not> has_contradiction_in_set known
     \<and> \<not> (\<exists>fact \<in> known. contradicts fact p)"
  by (simp add: answer_def Let_def)

section \<open>Snapshots\<close>

lemma snapshot_deductions_closed: "closed_facts (snapshot_deductions s symb)"
proof (induction s)
  case (Snapshot i d parent facts domains prov)
  then show ?case
    by (cases parent) (auto intro!: closed_facts_Un stated_facts_closed)
qed

lemma derive_child_snapshot:
  assumes "derive_child H parent facts domains prov = Inr child"
  shows "snap_parent child = Some parent" and "snap_facts child = facts" and "snap_domains child = domains"
    and "snapshot_deductions child symb = snapshot_deductions parent symb \<union> stated_facts facts domains symb"
  using assms by (auto simp: derive_child_def Let_def split: option.splits)

lemma snapshot_of_Some: "\<exists>s. snapshot_of H ctx = Some s
    \<and> snapshot_deductions s = deductions ctx \<and> snapshot_domain_of s = domain_of ctx"
proof -
  have "domain_conflict (snapshot_empty H) ds = None" for ds
    by (induction ds) (auto simp: snapshot_empty_def Let_def)
  then show ?thesis
    by (auto simp: snapshot_of_def derive_child_def Let_def snapshot_empty_def deductions_def
        domain_of_def fun_eq_iff split: option.splits)
qed

lemma domain_conflict_None:
  "domain_conflict parent ds = None \<longleftrightarrow>
     (\<forall>(symb, assigned) \<in> set ds. \<forall>p. snapshot_domain_of parent symb = Some p \<longrightarrow>
        p = assigned \<or> can_coerce_to assigned p \<or> can_coerce_to p assigned)"
  by (induction parent ds rule: domain_conflict.induct) (auto split: option.splits)

section \<open>The context digest\<close>

text \<open>The order in which the maps are iterated does not matter.\<close>

lemma sort_entries:
  fixes xs ys :: "(symbol \<times> 'a) list"
  assumes "mset xs = mset ys" and "distinct (map fst xs)"
  shows "sort_key fst xs = sort_key fst ys"
proof (rule sort_key_inj_key_eq)
  show "mset xs = mset (sort_key fst ys)" using assms(1) by simp
  show "inj_on fst (set xs)" using assms(2) by (simp add: distinct_map)
qed simp

lemma context_preimage_order:
  fixes facts :: "(symbol \<times> predicate list) list" and domains :: "(symbol \<times> domain) list"
  assumes "mset facts = mset facts'" and "distinct (map fst facts)"
    and "mset domains = mset domains'" and "distinct (map fst domains)"
  shows "context_preimage d facts domains = context_preimage d facts' domains'"
  by (simp add: context_preimage_def sort_entries [OF assms(1,2)] sort_entries [OF assms(3,4)])

lemma sorted_facts_set [simp]: "set (sorted_facts preds) = set preds"
  by (simp add: sorted_facts_def)

lemma sorted_facts_sorted: "sorted (sorted_facts preds)"
  by (simp add: sorted_facts_def)

lemma distinct_sorted_facts [simp]: "distinct (sorted_facts preds)"
proof -
  have "sorted xs \<Longrightarrow> distinct (remdups_adj xs)" for xs :: "predicate list"
    by (induction xs rule: remdups_adj.induct) auto
  then show ?thesis by (simp add: sorted_facts_def)
qed

lemma sorted_facts_eq: "set ps = set qs \<Longrightarrow> sorted_facts ps = sorted_facts qs"
proof -
  have "sorted_facts xs = sorted_list_of_set (set xs)" for xs
    by (rule sorted_distinct_set_unique)
      (simp_all add: sorted_facts_sorted)
  then show "set ps = set qs \<Longrightarrow> sorted_facts ps = sorted_facts qs" by simp
qed

text \<open>
  Prefix-free items: a concatenation determines the normal form of every item and the tail, when
  each item begins with a byte the tail does not begin with.
\<close>

lemma concat_items_inject:
  assumes item: "\<And>x y r r'. x \<in> A \<Longrightarrow> y \<in> A \<Longrightarrow> enc x @ r = enc y @ r' \<Longrightarrow> nf x = nf y \<and> r = r'"
    and tag: "\<And>x. x \<in> A \<Longrightarrow> enc x \<noteq> [] \<and> hd (enc x) = c"
  shows "set xs \<subseteq> A \<Longrightarrow> set ys \<subseteq> A \<Longrightarrow> t = [] \<or> hd t \<noteq> c \<Longrightarrow> t' = [] \<or> hd t' \<noteq> c \<Longrightarrow>
    concat (map enc xs) @ t = concat (map enc ys) @ t' \<Longrightarrow> map nf xs = map nf ys \<and> t = t'"
proof (induction xs arbitrary: ys)
  case Nil
  show ?case
  proof (cases ys)
    case (Cons y ys')
    then have "enc y \<noteq> [] \<and> hd (enc y) = c" using Nil tag by simp
    then have "t \<noteq> [] \<and> hd t = c" using Nil(5) Cons by simp
    then show ?thesis using Nil(3) by simp
  qed (use Nil in simp)
next
  case (Cons x xs)
  have x: "x \<in> A" "enc x \<noteq> []" "hd (enc x) = c" using Cons.prems(1) tag [of x] by simp_all
  show ?case
  proof (cases ys)
    case Nil
    then have "t' \<noteq> [] \<and> hd t' = c" using Cons.prems(5) x by (metis append_is_Nil_conv concat.simps(1,2) hd_append2 list.simps(8,9) self_append_conv2)
    then show ?thesis using Cons.prems(4) by simp
  next
    case ys: (Cons y ys')
    have "y \<in> A" using Cons.prems(2) ys by simp
    then have "nf x = nf y \<and> concat (map enc xs) @ t = concat (map enc ys') @ t'"
      using item [OF x(1)] Cons.prems(5) ys by simp
    then show ?thesis using Cons.IH [of ys'] Cons.prems ys by simp
  qed
qed

text \<open>Lengths fit a \<open>u64\<close> and identities are 32 bytes.\<close>

definition symbol_ok :: "symbol \<Rightarrow> bool" where
  "symbol_ok s \<longleftrightarrow> length (sym_name s) < 2 ^ 64 \<and> (\<forall>i. sym_identity s = Some i \<longrightarrow> length i = 32)"

lemma symbol_bytes_inject:
  assumes "symbol_ok s" and "symbol_ok u" and "symbol_bytes s @ r = symbol_bytes u @ r'"
  shows "s = u \<and> r = r'"
proof -
  have name: "sym_name s = sym_name u"
    and rest: "(case sym_identity s of Some i \<Rightarrow> 1 # i | None \<Rightarrow> [0]) @ r
        = (case sym_identity u of Some i \<Rightarrow> 1 # i | None \<Rightarrow> [0]) @ r'"
    using generator_preimage_inject [of s u] assms
    by (simp_all add: symbol_ok_def symbol_bytes_def erase_symbol_def)
  have "sym_identity s = sym_identity u \<and> r = r'"
    using rest assms(1,2)
    by (auto simp: symbol_ok_def append_eq_append_conv split: option.splits)
  then show ?thesis using name by (auto intro: symbol.expand)
qed

lemma discriminant_byte_inject: "map (\<lambda>p. word_of_nat (discriminant p) :: 8 word) ps = map (\<lambda>p. word_of_nat (discriminant p)) qs \<Longrightarrow> ps = qs"
proof -
  have "(word_of_nat (discriminant p) :: 8 word) = word_of_nat (discriminant q) \<Longrightarrow> p = q" for p q
    by (cases p; cases q) simp_all
  then show "map (\<lambda>p. word_of_nat (discriminant p) :: 8 word) ps = map (\<lambda>p. word_of_nat (discriminant p)) qs \<Longrightarrow> ps = qs"
    by (metis (mono_tags, lifting) injI map_injective)
qed

lemma sorted_facts_length: "length (sorted_facts ps) < 2 ^ 64"
proof -
  have "length (sorted_facts ps) = card (set ps)" using distinct_card [OF distinct_sorted_facts [of ps]] by simp
  also have "\<dots> \<le> card (UNIV :: predicate set)" by (rule card_mono) simp_all
  also have "\<dots> \<le> length all_predicates" using card_length [of all_predicates] by (simp add: all_predicates)
  finally show ?thesis by (simp add: all_predicates_def)
qed

lemma fact_bytes_inject:
  assumes "symbol_ok (fst e)" and "symbol_ok (fst e')" and "fact_bytes e @ r = fact_bytes e' @ r'"
  shows "(fst e, set (snd e)) = (fst e', set (snd e')) \<and> r = r'"
proof -
  obtain s ps u qs where e: "e = (s, ps)" "e' = (u, qs)" by (cases e; cases e')
  let ?tail = "\<lambda>ps r. to_le_bytes (word_of_nat (length (sorted_facts ps)))
     @ map (\<lambda>p. word_of_nat (discriminant p)) (sorted_facts ps) @ r"
  have "symbol_bytes s @ ?tail ps r = symbol_bytes u @ ?tail qs r'"
    using assms(3) by (simp add: e fact_bytes_def)
  moreover have "symbol_ok s" "symbol_ok u" using assms(1,2) e by simp_all
  ultimately have su: "s = u" and tail: "?tail ps r = ?tail qs r'"
    using symbol_bytes_inject by blast+
  note parts = length_prefix_inject [OF sorted_facts_length sorted_facts_length tail]
  have "map (\<lambda>p. word_of_nat (discriminant p) :: 8 word) (sorted_facts ps)
        = map (\<lambda>p. word_of_nat (discriminant p)) (sorted_facts qs) \<and> r = r'"
    by (rule iffD1 [OF append_eq_append_conv conjunct2 [OF parts]]) (simp add: conjunct1 [OF parts])
  then have "sorted_facts ps = sorted_facts qs \<and> r = r'"
    using discriminant_byte_inject by blast
  then show ?thesis using su e sorted_facts_set [of ps] sorted_facts_set [of qs] by simp
qed

lemma domain_bytes_inject:
  assumes "symbol_ok (fst e) \<and> sized (snd e)" and "symbol_ok (fst e') \<and> sized (snd e')"
    and "domain_bytes e @ r = domain_bytes e' @ r'"
  shows "(fst e, erase_identity (snd e)) = (fst e', erase_identity (snd e')) \<and> r = r'"
proof -
  obtain s d u d' where e: "e = (s, d)" "e' = (u, d')" by (cases e; cases e')
  have "symbol_bytes s @ hash_canonical d @ r = symbol_bytes u @ hash_canonical d' @ r'"
    using assms(3) by (simp add: e domain_bytes_def)
  moreover have ok: "symbol_ok s" "symbol_ok u" "sized d" "sized d'" using assms(1,2) e by simp_all
  ultimately have "s = u" and "hash_canonical d @ r = hash_canonical d' @ r'"
    using symbol_bytes_inject by blast+
  then show ?thesis using hash_canonical_prefix [OF ok(3,4)] e by simp
qed

definition context_normal ::
  "(symbol \<times> predicate list) list \<Rightarrow> (symbol \<times> domain) list \<Rightarrow> (symbol \<times> predicate set) set \<times> (symbol \<times> domain) set"
  where
  "context_normal facts domains =
     ((\<lambda>(s, ps). (s, set ps)) ` set facts, (\<lambda>(s, d). (s, erase_identity d)) ` set domains)"

definition context_ok :: "(symbol \<times> predicate list) list \<Rightarrow> (symbol \<times> domain) list \<Rightarrow> bool" where
  "context_ok facts domains \<longleftrightarrow> (\<forall>e \<in> set facts. symbol_ok (fst e))
     \<and> (\<forall>e \<in> set domains. symbol_ok (fst e) \<and> sized (snd e))"

lemma context_preimage_inject:
  assumes ok: "context_ok facts domains" "context_ok facts' domains'"
    and len: "length digest = 32" "length digest' = 32"
    and eq: "context_preimage digest facts domains = context_preimage digest' facts' domains'"
  shows "digest = digest' \<and> context_normal facts domains = context_normal facts' domains'"
proof -
  let ?F = "\<lambda>fs. concat (map fact_bytes (sort_key fst fs))"
  let ?D = "\<lambda>ds. concat (map domain_bytes (sort_key fst ds))"
  have d: "digest = digest'" and rest: "?F facts @ ?D domains = ?F facts' @ ?D domains'"
    using eq len by (simp_all add: context_preimage_def append_eq_append_conv)
  have ftag: "fact_bytes e \<noteq> [] \<and> hd (fact_bytes e) = 102" for e
    by (cases e) (simp add: fact_bytes_def name_bytes_def)
  have dtag: "domain_bytes e \<noteq> [] \<and> hd (domain_bytes e) = 100" for e
    by (cases e) (simp add: domain_bytes_def name_bytes_def)
  have other: "?D ds = [] \<or> hd (?D ds) \<noteq> 102" for ds
    using dtag by (cases "sort_key fst ds") auto
  have facts_ok: "set (sort_key fst facts) \<subseteq> {e. symbol_ok (fst e)}"
      "set (sort_key fst facts') \<subseteq> {e. symbol_ok (fst e)}"
    and domains_ok: "set (sort_key fst domains) \<subseteq> {e. symbol_ok (fst e) \<and> sized (snd e)}"
      "set (sort_key fst domains') \<subseteq> {e. symbol_ok (fst e) \<and> sized (snd e)}"
    using ok by (simp_all add: context_ok_def subset_iff)
  have "map (\<lambda>e. (fst e, set (snd e))) (sort_key fst facts) = map (\<lambda>e. (fst e, set (snd e))) (sort_key fst facts')
      \<and> ?D domains = ?D domains'"
  proof (rule concat_items_inject [OF _ _ facts_ok other other rest])
    show "fact_bytes e \<noteq> [] \<and> hd (fact_bytes e) = 102" for e by (rule ftag)
    show "(fst e, set (snd e)) = (fst e', set (snd e')) \<and> r = r'"
      if "e \<in> {e. symbol_ok (fst e)}" "e' \<in> {e. symbol_ok (fst e)}" "fact_bytes e @ r = fact_bytes e' @ r'"
      for e e' r r'
      by (rule fact_bytes_inject) (use that in simp_all)
  qed
  note F = this
  have D: "map (\<lambda>e. (fst e, erase_identity (snd e))) (sort_key fst domains)
      = map (\<lambda>e. (fst e, erase_identity (snd e))) (sort_key fst domains') \<and> [] = ([] :: 8 word list)"
  proof (rule concat_items_inject [where enc = domain_bytes and c = 100, OF _ _ domains_ok])
    show "domain_bytes e \<noteq> [] \<and> hd (domain_bytes e) = 100" for e by (rule dtag)
    show "(fst e, erase_identity (snd e)) = (fst e', erase_identity (snd e')) \<and> r = r'"
      if "e \<in> {e. symbol_ok (fst e) \<and> sized (snd e)}" "e' \<in> {e. symbol_ok (fst e) \<and> sized (snd e)}"
        "domain_bytes e @ r = domain_bytes e' @ r'" for e e' r r'
      by (rule domain_bytes_inject) (use that in simp_all)
    show "?D domains @ [] = ?D domains' @ []" using F by simp
  qed simp_all
  have "(\<lambda>e. (fst e, set (snd e))) ` set facts = (\<lambda>e. (fst e, set (snd e))) ` set facts'"
    using arg_cong [OF conjunct1 [OF F], of set] by simp
  moreover have "(\<lambda>e. (fst e, erase_identity (snd e))) ` set domains = (\<lambda>e. (fst e, erase_identity (snd e))) ` set domains'"
    using arg_cong [OF conjunct1 [OF D], of set] by simp
  ultimately show ?thesis using d by (simp add: context_normal_def case_prod_beta')
qed

end
