(* ===== verification/Expressions.thy ===== *)
theory Expressions
  imports Domains "HOL-Library.Product_Lexorder" Complex_Main
begin

text \<open>
  The expression language of \<open>crates/fsym-core/src/lib.rs\<close>: \<open>Constant\<close>, \<open>Expr\<close>, the literal tests,
  the derived total order that keys every \<open>BTreeMap\<close> and \<open>BTreeSet\<close> of expressions, and
  \<open>free_symbols\<close>.

  \<open>BigInt\<close> is \<open>int\<close> and \<open>BigRational\<close>, whose fractions are kept in lowest terms with a positive
  denominator and compared by value, is \<open>rat\<close>. The variants \<open>Integer\<close> and \<open>Rational\<close> are
  \<open>IntegerLit\<close> and \<open>RationalLit\<close> here, to stay apart from the predicates of the same names, and
  the constants carry the prefix \<open>C\<close>.
\<close>

section \<open>Expressions\<close>

datatype math_constant =
  CPi | CE | CI | CInfinity | CNegativeInfinity | CComplexInfinity | CNaN

datatype expr =
    Sym symbol
  | IntegerLit int
  | RationalLit rat
  | Const math_constant
  | Add "expr list"
  | Mul "expr list"
  | Pow expr expr
  | Function string "expr list"

definition from_i64 :: "int \<Rightarrow> expr" where
  "from_i64 n = IntegerLit n"

fun is_zero_expr :: "expr \<Rightarrow> bool" where
  "is_zero_expr (IntegerLit n) = (n = 0)"
| "is_zero_expr (RationalLit r) = (r = 0)"
| "is_zero_expr _ = False"

fun is_one_expr :: "expr \<Rightarrow> bool" where
  "is_one_expr (IntegerLit n) = (n = 1)"
| "is_one_expr (RationalLit r) = (r = 1)"
| "is_one_expr _ = False"

section \<open>The derived order\<close>

fun constant_index :: "math_constant \<Rightarrow> nat" where
  "constant_index CPi = 0"
| "constant_index CE = 1"
| "constant_index CI = 2"
| "constant_index CInfinity = 3"
| "constant_index CNegativeInfinity = 4"
| "constant_index CComplexInfinity = 5"
| "constant_index CNaN = 6"

fun variant_index :: "expr \<Rightarrow> nat" where
  "variant_index (Sym _) = 0"
| "variant_index (IntegerLit _) = 1"
| "variant_index (RationalLit _) = 2"
| "variant_index (Const _) = 3"
| "variant_index (Add _) = 4"
| "variant_index (Mul _) = 5"
| "variant_index (Pow _ _) = 6"
| "variant_index (Function _ _) = 7"

definition then_with :: "ordering \<Rightarrow> ordering \<Rightarrow> ordering" where
  "then_with a b = (case a of Equal \<Rightarrow> b | _ \<Rightarrow> a)"

text \<open>\<open>#[derive(Ord)]\<close>: the variants in order, then their fields lexicographically.\<close>

fun cmp_expr :: "expr \<Rightarrow> expr \<Rightarrow> ordering" and cmp_exprs :: "expr list \<Rightarrow> expr list \<Rightarrow> ordering" where
  "cmp_expr (Sym a) e = (case e of Sym b \<Rightarrow> compare a b | _ \<Rightarrow> compare 0 (variant_index e))"
| "cmp_expr (IntegerLit a) e = (case e of IntegerLit b \<Rightarrow> compare a b | _ \<Rightarrow> compare 1 (variant_index e))"
| "cmp_expr (RationalLit a) e = (case e of RationalLit b \<Rightarrow> compare a b | _ \<Rightarrow> compare 2 (variant_index e))"
| "cmp_expr (Const a) e =
     (case e of Const b \<Rightarrow> compare (constant_index a) (constant_index b) | _ \<Rightarrow> compare 3 (variant_index e))"
| "cmp_expr (Add as) e = (case e of Add bs \<Rightarrow> cmp_exprs as bs | _ \<Rightarrow> compare 4 (variant_index e))"
| "cmp_expr (Mul as) e = (case e of Mul bs \<Rightarrow> cmp_exprs as bs | _ \<Rightarrow> compare 5 (variant_index e))"
| "cmp_expr (Pow a a') e =
     (case e of Pow b b' \<Rightarrow> then_with (cmp_expr a b) (cmp_expr a' b') | _ \<Rightarrow> compare 6 (variant_index e))"
| "cmp_expr (Function f as) e =
     (case e of Function g bs \<Rightarrow> then_with (compare f g) (cmp_exprs as bs) | _ \<Rightarrow> compare 7 (variant_index e))"
| "cmp_exprs [] bs = (case bs of [] \<Rightarrow> Equal | _ \<Rightarrow> Less)"
| "cmp_exprs (a # as) bs =
     (case bs of [] \<Rightarrow> Greater | b # bs' \<Rightarrow> then_with (cmp_expr a b) (cmp_exprs as bs'))"

lemma constant_index_inject [simp]: "constant_index a = constant_index b \<longleftrightarrow> a = b"
  by (cases a; cases b) simp_all

lemma then_with_simps [simp]:
  "then_with a b = Equal \<longleftrightarrow> a = Equal \<and> b = Equal"
  "then_with Equal b = b"
  "then_with a b = Less \<longleftrightarrow> a = Less \<or> a = Equal \<and> b = Less"
  "reverse_ordering (then_with a b) = then_with (reverse_ordering a) (reverse_ordering b)"
  by (cases a; simp add: then_with_def)+

lemma compare_iff [simp]:
  "compare a b = Equal \<longleftrightarrow> a = b"
  "compare a b = Less \<longleftrightarrow> a < b"
  "compare a b = Greater \<longleftrightarrow> b < a"
  "reverse_ordering (compare a b) = compare b a"
  by (auto simp: compare_def)

lemma cmp_expr_Equal:
  "cmp_expr a b = Equal \<longleftrightarrow> a = b"
  "cmp_exprs as bs = Equal \<longleftrightarrow> as = bs"
proof (induction a b and as bs rule: cmp_expr_cmp_exprs.induct)
qed (auto split: expr.splits list.splits)

lemma cmp_expr_reverse:
  "reverse_ordering (cmp_expr a b) = cmp_expr b a"
  "reverse_ordering (cmp_exprs as bs) = cmp_exprs bs as"
proof (induction a b and as bs rule: cmp_expr_cmp_exprs.induct)
qed (auto split: expr.splits list.splits)

lemma cmp_expr_trans:
  "cmp_expr a b = Less \<Longrightarrow> cmp_expr b c = Less \<Longrightarrow> cmp_expr a c = Less"
  "cmp_exprs as bs = Less \<Longrightarrow> cmp_exprs bs cs = Less \<Longrightarrow> cmp_exprs as cs = Less"
proof (induction a b and as bs arbitrary: c and cs rule: cmp_expr_cmp_exprs.induct)
qed (auto simp: cmp_expr_Equal split: expr.splits list.splits)

text \<open>An order given by a comparison function, as \<open>PartialOrd\<close> derives \<open>\<le>\<close> from \<open>cmp\<close>.\<close>

instantiation expr :: linorder
begin

definition less_eq_expr :: "expr \<Rightarrow> expr \<Rightarrow> bool" where
  "a \<le> b \<longleftrightarrow> cmp_expr a b \<noteq> Greater"

definition less_expr :: "expr \<Rightarrow> expr \<Rightarrow> bool" where
  "a < b \<longleftrightarrow> cmp_expr a b = Less"

lemma cmp_expr_Greater: "cmp_expr a b = Greater \<longleftrightarrow> cmp_expr b a = Less"
  using cmp_expr_reverse(1) [of a b] by (cases "cmp_expr a b") auto

instance
proof
  fix a b c :: expr
  have Less_or: "a \<le> b \<longleftrightarrow> a = b \<or> cmp_expr a b = Less" for a b :: expr
    unfolding less_eq_expr_def cmp_expr_Equal(1) [symmetric] by (cases "cmp_expr a b") auto
  have irrefl: "cmp_expr a a \<noteq> Less" for a :: expr
    using cmp_expr_Equal(1) [of a a] by simp
  show "a < b \<longleftrightarrow> a \<le> b \<and> \<not> b \<le> a"
    using irrefl cmp_expr_trans(1) unfolding less_expr_def Less_or by blast
  show "a \<le> a" by (simp add: Less_or)
  show "a \<le> b \<Longrightarrow> b \<le> c \<Longrightarrow> a \<le> c"
    using cmp_expr_trans(1) unfolding Less_or by blast
  show "a \<le> b \<Longrightarrow> b \<le> a \<Longrightarrow> a = b"
    using irrefl cmp_expr_trans(1) unfolding Less_or by blast
  show "a \<le> b \<or> b \<le> a"
    using cmp_expr_Greater unfolding less_eq_expr_def by fastforce
qed

end

section \<open>Binding forms\<close>

text \<open>A list of symbols, or nothing when another expression is among them.\<close>

fun as_symbols :: "expr list \<Rightarrow> symbol list option" where
  "as_symbols [] = Some []"
| "as_symbols (Sym s # es) = map_option (Cons s) (as_symbols es)"
| "as_symbols (_ # es) = None"

fun tuple_items :: "expr \<Rightarrow> expr list option" where
  "tuple_items (Function t items) = (if t = ''Tuple'' \<and> items \<noteq> [] then Some items else None)"
| "tuple_items _ = None"

definition lambda_variables :: "string \<Rightarrow> expr list \<Rightarrow> (symbol list \<times> expr) option" where
  "lambda_variables name args =
     (if name \<noteq> ''Lambda'' \<or> length args < 2 then None
      else
        case if length args = 2 then tuple_items (hd args) else None of
          Some items \<Rightarrow> map_option (\<lambda>out. (out, args ! 1)) (as_symbols items)
        | None \<Rightarrow> map_option (\<lambda>out. (out, last args)) (as_symbols (butlast args)))"

fun limit_variable :: "expr \<Rightarrow> symbol option" where
  "limit_variable (Sym v) = Some v"
| "limit_variable (Function t items) =
     (if t = ''Tuple'' \<and> items \<noteq> [] then (case hd items of Sym v \<Rightarrow> Some v | _ \<Rightarrow> None) else None)"
| "limit_variable _ = None"

definition binder_variables :: "string \<Rightarrow> expr list \<Rightarrow> symbol list option" where
  "binder_variables name args =
     (if name \<notin> {''Sum'', ''Product'', ''Integral''} \<or> length args < 2 then None
      else those (map limit_variable (tl args)))"

fun subs_parts :: "expr list \<Rightarrow> (symbol list \<times> expr list) option" where
  "subs_parts [_, Function tv vars, Function tp points] =
     (if tv \<noteq> ''Tuple'' \<or> tp \<noteq> ''Tuple'' \<or> length vars \<noteq> length points then None
      else map_option (\<lambda>syms. (syms, points)) (as_symbols vars))"
| "subs_parts _ = None"

lemma lambda_variables_body: "lambda_variables name args = Some (vars, body) \<Longrightarrow> body \<in> set args"
proof -
  assume some: "lambda_variables name args = Some (vars, body)"
  then have "2 \<le> length args" by (auto simp: lambda_variables_def split: if_splits)
  moreover have "body = args ! 1 \<or> body = last args"
    using some by (auto simp: lambda_variables_def split: if_splits option.splits)
  ultimately show ?thesis by (auto intro: nth_mem last_in_set)
qed

lemma subs_parts_Some:
  "subs_parts args = Some (vars, points) \<Longrightarrow>
     hd args \<in> set args \<and> (\<exists>t. Function t points \<in> set args)"
  by (induction args rule: subs_parts.induct) (auto split: if_splits)

lemma size_arg: "e \<in> set es \<Longrightarrow> size e < Suc (size_list size es)"
  by (rule le_imp_less_Suc, rule size_list_estimation') auto

lemma size_arg_item: "Function t items \<in> set es \<Longrightarrow> e \<in> set items \<Longrightarrow> size e < Suc (size_list size es)"
  using size_arg [of e items] size_arg [of "Function t items" es] by simp

lemma in_tl: "x \<in> set (tl xs) \<Longrightarrow> x \<in> set xs"
  by (cases xs) simp_all

lemma size_tl_item:
  "Function t items \<in> set (tl es) \<Longrightarrow> e \<in> set (tl items) \<Longrightarrow> size e < Suc (size_list size es)"
  by (rule size_arg_item [of t items es e]) (simp_all add: in_tl)

lemma subs_parts_size:
  assumes "subs_parts args = Some (vars, points)"
  shows "size (hd args) < Suc (size_list size args)"
    and "e \<in> set points \<Longrightarrow> size e < Suc (size_list size args)"
  using subs_parts_Some [OF assms] by (auto intro: size_arg size_arg_item)

section \<open>Free symbols\<close>

text \<open>
  What \<open>collect_symbols\<close> pushes on the accumulator, under the scope \<open>bound\<close>. A limit without
  bounds leaves the variable of an \<open>Integral\<close> free.
\<close>

function collect_symbols :: "expr \<Rightarrow> symbol list \<Rightarrow> symbol list" where
  "collect_symbols (Sym s) bound = (if s \<in> set bound then [] else [s])"
| "collect_symbols (IntegerLit _) bound = []"
| "collect_symbols (RationalLit _) bound = []"
| "collect_symbols (Const _) bound = []"
| "collect_symbols (Add ts) bound = concat (map (\<lambda>t. collect_symbols t bound) ts)"
| "collect_symbols (Mul ts) bound = concat (map (\<lambda>t. collect_symbols t bound) ts)"
| "collect_symbols (Pow b e) bound = collect_symbols b bound @ collect_symbols e bound"
| "collect_symbols (Function name args) bound =
     (case lambda_variables name args of
        Some (vars, body) \<Rightarrow> collect_symbols body (bound @ vars)
      | None \<Rightarrow>
     (case if name = ''Subs'' then subs_parts args else None of
        Some (vars, points) \<Rightarrow>
          collect_symbols (hd args) (bound @ vars) @ concat (map (\<lambda>p. collect_symbols p bound) points)
      | None \<Rightarrow>
      if binder_variables name args \<noteq> None then
        (let single = (\<lambda>v (bound, acc).
               if name = ''Integral'' then (bound, if v \<in> set bound then acc else acc @ [v])
               else (bound @ [v], acc));
             (bound', acc) = fold (\<lambda>lim (bound, acc).
               case lim of
                 Function t items \<Rightarrow>
                   if t = ''Tuple'' \<and> 2 \<le> length items then
                     (case hd items of
                        Sym v \<Rightarrow> (bound @ [v], acc @ concat (map (\<lambda>b. collect_symbols b bound) (tl items)))
                      | _ \<Rightarrow> (bound, acc @ concat (map (\<lambda>b. collect_symbols b bound) (tl items))))
                   else if t = ''Tuple'' \<and> length items = 1 then
                     (case hd items of Sym v \<Rightarrow> single v (bound, acc) | _ \<Rightarrow> (bound, acc))
                   else (bound, acc)
               | Sym v \<Rightarrow> single v (bound, acc)
               | _ \<Rightarrow> (bound, acc)) (rev (tl args)) (bound, [])
         in acc @ (if args = [] then [] else collect_symbols (hd args) bound'))
      else concat (map (\<lambda>a. collect_symbols a bound) args)))"
  by pat_completeness auto
termination
  by (relation "measure (\<lambda>(e, _). size e)")
    (auto intro: size_arg size_tl_item subs_parts_size dest: lambda_variables_body split: if_splits)

definition free_symbols_of :: "expr \<Rightarrow> symbol list" where
  "free_symbols_of e = remdups_adj (sort (collect_symbols e []))"

end
