(* ===== verification/Results.thy ===== *)
theory Results
  imports Main
begin

text \<open>
  \<open>Result\<close> values of the pure code: \<open>Inl\<close> an error, \<open>Inr\<close> a value. \<open>rbind\<close> is \<open>?\<close>, \<open>rtraverse\<close> is
  \<open>.map(f).collect::<Result<Vec<_>, _>>()?\<close>, which stops at the first error, and \<open>rfold\<close> is a
  \<open>for\<close> loop whose body may return early with an error. \<open>rmap_err\<close> is \<open>map_err\<close>.
\<close>

definition rbind :: "'e + 'a \<Rightarrow> ('a \<Rightarrow> 'e + 'b) \<Rightarrow> 'e + 'b" where
  "rbind r f = (case r of Inl e \<Rightarrow> Inl e | Inr x \<Rightarrow> f x)"

definition rmap_err :: "('e \<Rightarrow> 'f) \<Rightarrow> 'e + 'a \<Rightarrow> 'f + 'a" where
  "rmap_err g r = (case r of Inl e \<Rightarrow> Inl (g e) | Inr x \<Rightarrow> Inr x)"

definition rguard :: "bool \<Rightarrow> 'e \<Rightarrow> 'e + unit" where
  "rguard ok e = (if ok then Inr () else Inl e)"

fun rtraverse :: "('a \<Rightarrow> 'e + 'b) \<Rightarrow> 'a list \<Rightarrow> 'e + 'b list" where
  "rtraverse f [] = Inr []"
| "rtraverse f (x # xs) = rbind (f x) (\<lambda>y. rbind (rtraverse f xs) (\<lambda>ys. Inr (y # ys)))"

fun rfold :: "('a \<Rightarrow> 's \<Rightarrow> 'e + 's) \<Rightarrow> 'a list \<Rightarrow> 's \<Rightarrow> 'e + 's" where
  "rfold f [] s = Inr s"
| "rfold f (x # xs) s = rbind (f x s) (rfold f xs)"

lemma rbind_cong [fundef_cong]:
  "r = r' \<Longrightarrow> (\<And>x. r' = Inr x \<Longrightarrow> f x = g x) \<Longrightarrow> rbind r f = rbind r' g"
  by (auto simp: rbind_def split: sum.splits)

lemma rtraverse_cong [fundef_cong]:
  "xs = ys \<Longrightarrow> (\<And>x. x \<in> set ys \<Longrightarrow> f x = g x) \<Longrightarrow> rtraverse f xs = rtraverse g ys"
  by (induction ys arbitrary: xs) auto

lemma rfold_cong [fundef_cong]:
  "xs = ys \<Longrightarrow> s = t \<Longrightarrow> (\<And>x s. x \<in> set ys \<Longrightarrow> f x s = g x s) \<Longrightarrow> rfold f xs s = rfold g ys t"
  by (induction ys arbitrary: xs s t) (auto simp: rbind_def split: sum.splits)

lemma rbind_simps [simp]:
  "rbind (Inr x) f = f x"
  "rbind (Inl e) f = Inl e"
  by (simp_all add: rbind_def)

lemma rbind_Inr_iff [simp]: "rbind r f = Inr y \<longleftrightarrow> (\<exists>x. r = Inr x \<and> f x = Inr y)"
  by (cases r) simp_all

lemma rbind_Inl_iff: "rbind r f = Inl e \<longleftrightarrow> r = Inl e \<or> (\<exists>x. r = Inr x \<and> f x = Inl e)"
  by (cases r) simp_all

lemma rmap_err_iff [simp]:
  "rmap_err g r = Inr x \<longleftrightarrow> r = Inr x"
  "rmap_err g r = Inl e \<longleftrightarrow> (\<exists>e'. r = Inl e' \<and> e = g e')"
  by (auto simp: rmap_err_def split: sum.splits)

lemma rguard_iff [simp]:
  "rguard ok e = Inr u \<longleftrightarrow> ok"
  "rguard ok e = Inl e' \<longleftrightarrow> \<not> ok \<and> e = e'"
  by (auto simp: rguard_def)

lemma rtraverse_Inr_iff: "rtraverse f xs = Inr ys \<longleftrightarrow> list_all2 (\<lambda>x y. f x = Inr y) xs ys"
  by (induction xs arbitrary: ys) (auto simp: list_all2_Cons1)

lemma rtraverse_Inr_map: "rtraverse f xs = Inr ys \<Longrightarrow> map f xs = map Inr ys"
  by (induction xs arbitrary: ys) auto

lemma rtraverse_map:
  "rtraverse f xs = Inr ys \<Longrightarrow> (\<And>x y. x \<in> set xs \<Longrightarrow> f x = Inr y \<Longrightarrow> y = g x) \<Longrightarrow> ys = map g xs"
  by (induction xs arbitrary: ys) auto

lemma rtraverse_error: "rtraverse f xs = Inl e \<Longrightarrow> \<exists>x \<in> set xs. f x = Inl e"
  by (induction xs) (auto simp: rbind_Inl_iff)

lemma rfold_append: "rfold f (xs @ ys) s = rbind (rfold f xs s) (rfold f ys)"
  by (induction xs arbitrary: s) (auto simp: rbind_def split: sum.splits)

lemma list_all2_map_eq:
  assumes "list_all2 R xs ys" and "\<And>x y. x \<in> set xs \<Longrightarrow> R x y \<Longrightarrow> f y = g x"
  shows "map f ys = map g xs"
  using assms by (induction rule: list_all2_induct) auto

lemma rfold_each: "rfold f xs s = Inr t \<Longrightarrow> x \<in> set xs \<Longrightarrow> \<exists>s t. f x s = Inr t"
  by (induction xs arbitrary: s) auto

text \<open>The invariant rule of the early-return loop.\<close>

lemma rfold_invariant:
  assumes "rfold f xs s = Inr t" and "P s" and "\<And>x s t. x \<in> set xs \<Longrightarrow> P s \<Longrightarrow> f x s = Inr t \<Longrightarrow> P t"
  shows "P t"
  using assms
proof (induction xs arbitrary: s)
  case (Cons x xs)
  obtain u where u: "f x s = Inr u" "rfold f xs u = Inr t" using Cons.prems(1) by auto
  have "P u" by (rule Cons.prems(3) [of x s u]) (use Cons.prems(2) u in auto)
  then show "P t" by (rule Cons.IH [OF u(2)]) (use Cons.prems(3) in auto)
qed simp

end
