(* ===== verification/Bindings.thy ===== *)
theory Bindings
  imports Expressions Results
begin

text \<open>
  Scoped variables of \<open>crates/fsym-assumptions/src/bindings.rs\<close>: the recognised binders, free
  symbols, De Bruijn terms and capture-avoiding substitution, with the depth limit that every
  traversal refuses to pass. A \<open>BTreeSet<Symbol>\<close> is a set. The recursive functions recurse on the
  expressions that \<open>try_from_expr\<close> builds, so they end because the size shrinks or, where a body
  has been renamed first, because the depth is bounded.
\<close>

datatype binding_error =
    DepthExceeded nat
  | NonAlphaRenamingRequired string
  | UnsupportedOperatorVariableReplacement string

datatype binder_node =
    Lambda symbol expr
  | Integral symbol expr "(expr \<times> expr) option"
  | Derivative symbol expr

section \<open>Binders\<close>

fun to_expr :: "binder_node \<Rightarrow> expr" where
  "to_expr (Lambda param body) = Function ''Lambda'' [Sym param, body]"
| "to_expr (Integral var body (Some (lower, upper))) = Function ''Integral'' [body, Sym var, lower, upper]"
| "to_expr (Integral var body None) = Function ''Integral'' [body, Sym var]"
| "to_expr (Derivative var body) = Function ''Derivative'' [body, Sym var]"

definition has_distinct_symbol_parameters :: "expr list \<Rightarrow> bool" where
  "has_distinct_symbol_parameters parameters =
     (case as_symbols parameters of None \<Rightarrow> False | Some syms \<Rightarrow> distinct syms)"

fun try_parse_lambda :: "expr list \<Rightarrow> binder_node option" where
  "try_parse_lambda [Sym param, body] = Some (Lambda param body)"
| "try_parse_lambda [Function tname targs, body] =
     (if tname \<noteq> ''Tuple'' then None
      else
        (case targs of
           [] \<Rightarrow> None
         | [targ] \<Rightarrow> (case targ of Sym param \<Rightarrow> Some (Lambda param body) | _ \<Rightarrow> None)
         | first # rest \<Rightarrow>
             if has_distinct_symbol_parameters targs then
               (case first of
                  Sym param \<Rightarrow>
                    let rest_tuple = (if length targs = 2 then hd rest else Function ''Tuple'' rest)
                    in Some (Lambda param (Function ''Lambda'' [rest_tuple, body]))
                | _ \<Rightarrow> None)
             else None))"
| "try_parse_lambda args =
     (if length args > 2 then
        if has_distinct_symbol_parameters (butlast args) then
          (case hd args of Sym first \<Rightarrow> Some (Lambda first (Function ''Lambda'' (tl args))) | _ \<Rightarrow> None)
        else None
      else None)"

fun try_from_expr :: "expr \<Rightarrow> binder_node option" where
  "try_from_expr (Function name args) =
     (if name = ''Lambda'' then try_parse_lambda args
      else if name = ''Integral'' then
        (case args of
           [body, Sym var] \<Rightarrow> Some (Integral var body None)
         | [body, Sym var, lower, upper] \<Rightarrow> Some (Integral var body (Some (lower, upper)))
         | _ \<Rightarrow> None)
      else if name = ''Derivative'' then
        (case args of [body, Sym var] \<Rightarrow> Some (Derivative var body) | _ \<Rightarrow> None)
      else None)"
| "try_from_expr _ = None"

fun bound_variable :: "binder_node \<Rightarrow> symbol" where
  "bound_variable (Lambda param _) = param"
| "bound_variable (Integral var _ _) = var"
| "bound_variable (Derivative var _) = var"

fun binder_body :: "binder_node \<Rightarrow> expr" where
  "binder_body (Lambda _ body) = body"
| "binder_body (Integral _ body _) = body"
| "binder_body (Derivative _ body) = body"

fun binder_limits :: "binder_node \<Rightarrow> expr list" where
  "binder_limits (Integral _ _ (Some (lower, upper))) = [lower, upper]"
| "binder_limits _ = []"

lemma try_parse_lambda_Some:
  "try_parse_lambda args = Some node \<Longrightarrow>
     \<exists>param body. node = Lambda param body \<and> size body < Suc (size_list size args)"
  by (induction args rule: try_parse_lambda.induct)
    (auto simp: Let_def split: if_splits list.splits expr.splits)

lemma try_from_expr_size:
  assumes "try_from_expr e = Some node"
  shows "size (binder_body node) < size e" and "x \<in> set (binder_limits node) \<Longrightarrow> size x < size e"
proof -
  have "size (binder_body node) < size e \<and> (\<forall>x \<in> set (binder_limits node). size x < size e)"
    using assms
    by (cases e) (auto dest: try_parse_lambda_Some split: if_splits list.splits expr.splits)
  then show "size (binder_body node) < size e" "x \<in> set (binder_limits node) \<Longrightarrow> size x < size e" by auto
qed

section \<open>Depth\<close>

definition MAX_BINDING_DEPTH :: nat where
  "MAX_BINDING_DEPTH = 256"

fun preflight_binding_depth :: "expr \<Rightarrow> nat \<Rightarrow> binding_error + unit" where
  "preflight_binding_depth e depth =
     rbind (rguard (depth \<le> MAX_BINDING_DEPTH) (DepthExceeded MAX_BINDING_DEPTH)) (\<lambda>_.
     case e of
       Add args \<Rightarrow> rfold (\<lambda>arg _. preflight_binding_depth arg (depth + 1)) args ()
     | Mul args \<Rightarrow> rfold (\<lambda>arg _. preflight_binding_depth arg (depth + 1)) args ()
     | Function _ args \<Rightarrow> rfold (\<lambda>arg _. preflight_binding_depth arg (depth + 1)) args ()
     | Pow base exponent \<Rightarrow>
         rbind (preflight_binding_depth base (depth + 1)) (\<lambda>_.
         preflight_binding_depth exponent (depth + 1))
     | _ \<Rightarrow> Inr ())"

declare preflight_binding_depth.simps [simp del]

section \<open>Free symbols\<close>

text \<open>The symbols that \<open>collect_free_symbols\<close> inserts into \<open>free\<close>, under the scope \<open>bound\<close>.\<close>

definition union_all :: "'a set list \<Rightarrow> 'a set" where
  "union_all sets = foldr (\<union>) sets {}"

lemma union_all [simp]: "union_all sets = \<Union> (set sets)"
  by (induction sets) (simp_all add: union_all_def)

function collect_free_symbols :: "expr \<Rightarrow> symbol set \<Rightarrow> nat \<Rightarrow> binding_error + symbol set" where
  "collect_free_symbols e bound depth =
     rbind (rguard (depth \<le> MAX_BINDING_DEPTH) (DepthExceeded MAX_BINDING_DEPTH)) (\<lambda>_.
     case e of
       Sym s \<Rightarrow> Inr (if s \<in> bound then {} else {s})
     | Add args \<Rightarrow>
         rbind (rtraverse (\<lambda>arg. collect_free_symbols arg bound (depth + 1)) args) (\<lambda>fs. Inr (union_all fs))
     | Mul args \<Rightarrow>
         rbind (rtraverse (\<lambda>arg. collect_free_symbols arg bound (depth + 1)) args) (\<lambda>fs. Inr (union_all fs))
     | Pow b x \<Rightarrow>
         rbind (collect_free_symbols b bound (depth + 1)) (\<lambda>f.
         rbind (collect_free_symbols x bound (depth + 1)) (\<lambda>g. Inr (f \<union> g)))
     | Function _ args \<Rightarrow>
         (case try_from_expr e of
            Some (Lambda param body) \<Rightarrow> collect_free_symbols body (insert param bound) (depth + 1)
          | Some (Integral var body (Some (lower, upper))) \<Rightarrow>
              rbind (collect_free_symbols body (insert var bound) (depth + 1)) (\<lambda>f.
              rbind (collect_free_symbols lower bound (depth + 1)) (\<lambda>g.
              rbind (collect_free_symbols upper bound (depth + 1)) (\<lambda>h. Inr (f \<union> g \<union> h))))
          | Some (Integral var body None) \<Rightarrow>
              rbind (collect_free_symbols body bound (depth + 1)) (\<lambda>f.
              Inr (if var \<in> bound then f else insert var f))
          | Some (Derivative _ body) \<Rightarrow> collect_free_symbols body bound (depth + 1)
          | None \<Rightarrow>
              rbind (rtraverse (\<lambda>arg. collect_free_symbols arg bound (depth + 1)) args) (\<lambda>fs. Inr (union_all fs)))
     | _ \<Rightarrow> Inr {})"
  by pat_completeness auto
termination
  by (relation "measure (\<lambda>(_, _, depth). MAX_BINDING_DEPTH + 1 - depth)") auto

declare collect_free_symbols.simps [simp del]

definition free_symbols :: "expr \<Rightarrow> binding_error + symbol set" where
  "free_symbols e =
     rbind (preflight_binding_depth e 0) (\<lambda>_. collect_free_symbols e {} 0)"

fun collect_all_symbols :: "expr \<Rightarrow> nat \<Rightarrow> binding_error + symbol set" where
  "collect_all_symbols e depth =
     rbind (rguard (depth \<le> MAX_BINDING_DEPTH) (DepthExceeded MAX_BINDING_DEPTH)) (\<lambda>_.
     case e of
       Sym s \<Rightarrow> Inr {s}
     | Add args \<Rightarrow> rbind (rtraverse (\<lambda>arg. collect_all_symbols arg (depth + 1)) args) (\<lambda>fs. Inr (union_all fs))
     | Mul args \<Rightarrow> rbind (rtraverse (\<lambda>arg. collect_all_symbols arg (depth + 1)) args) (\<lambda>fs. Inr (union_all fs))
     | Function _ args \<Rightarrow>
         rbind (rtraverse (\<lambda>arg. collect_all_symbols arg (depth + 1)) args) (\<lambda>fs. Inr (union_all fs))
     | Pow base exponent \<Rightarrow>
         rbind (collect_all_symbols base (depth + 1)) (\<lambda>f.
         rbind (collect_all_symbols exponent (depth + 1)) (\<lambda>g. Inr (f \<union> g)))
     | _ \<Rightarrow> Inr {})"

declare collect_all_symbols.simps [simp del]

definition all_symbols :: "expr \<Rightarrow> binding_error + symbol set" where
  "all_symbols e = collect_all_symbols e 0"

fun binder_free_symbols :: "binder_node \<Rightarrow> binding_error + symbol set" where
  "binder_free_symbols (Lambda param body) =
     rbind (free_symbols body) (\<lambda>free. Inr (free - {param}))"
| "binder_free_symbols (Integral var body (Some (lower, upper))) =
     rbind (free_symbols body) (\<lambda>free.
     rbind (free_symbols lower) (\<lambda>lower_free.
     rbind (free_symbols upper) (\<lambda>upper_free. Inr ((free - {var}) \<union> lower_free \<union> upper_free))))"
| "binder_free_symbols (Integral var body None) =
     rbind (free_symbols body) (\<lambda>free. Inr (insert var free))"
| "binder_free_symbols (Derivative _ body) = free_symbols body"

section \<open>Fresh symbols\<close>

definition decimal_value :: "string \<Rightarrow> nat" where
  "decimal_value s = foldl (\<lambda>v c. 10 * v + (of_char c - 48)) 0 s"

lemma decimal_value_decimal: "decimal_value (decimal n) = n"
proof (induction n rule: less_induct)
  case (less n)
  have digit: "of_char (char_of (48 + d) :: char) - 48 = d" if "d < 10" for d :: nat
    using that by simp
  show ?case
  proof (cases "n < 10")
    case True
    then show ?thesis using digit [of n] by (subst decimal.simps) (simp add: decimal_value_def)
  next
    case False
    then have "decimal_value (decimal n) = 10 * decimal_value (decimal (n div 10)) + n mod 10"
      using digit [of "n mod 10"] by (subst decimal.simps) (simp add: decimal_value_def)
    then show ?thesis using less.IH [of "n div 10"] False by simp
  qed
qed

lemma decimal_inject [simp]: "decimal a = decimal b \<longleftrightarrow> a = b"
  by (metis decimal_value_decimal)

text \<open>
  The search of \<open>fresh_symbol\<close>. A \<open>BTreeSet\<close> is finite, so the search ends; for an infinite HOL set,
  which no run can have, the first candidate is returned.
\<close>

function fresh_from :: "string \<Rightarrow> symbol set \<Rightarrow> nat \<Rightarrow> symbol" where
  "fresh_from base avoid index =
     (let candidate = Symbol (base @ ''_'' @ decimal index) None
      in if finite avoid \<and> candidate \<in> avoid then fresh_from base avoid (index + 1) else candidate)"
  by pat_completeness auto
termination
proof (relation "measure (\<lambda>(base, avoid, index).
    card {s \<in> avoid. \<exists>i \<ge> index. s = Symbol (base @ ''_'' @ decimal i) None})", goal_cases)
  case (2 base avoid index candidate)
  let ?later = "\<lambda>index. {s \<in> avoid. \<exists>i \<ge> index. s = Symbol (base @ ''_'' @ decimal i) None}"
  have "candidate \<in> ?later index" "candidate \<notin> ?later (index + 1)" using 2 by auto
  moreover have "?later (index + 1) \<subseteq> ?later index" by auto
  ultimately have "?later (index + 1) \<subset> ?later index" by blast
  then have "card (?later (index + 1)) < card (?later index)"
    by (rule psubset_card_mono [rotated]) (use 2 in simp)
  then show ?case by simp
qed simp

declare fresh_from.simps [simp del]

lemma infinite_symbols: "\<not> finite (UNIV :: symbol set)"
proof
  assume fin: "finite (UNIV :: symbol set)"
  have inj: "inj (\<lambda>n. Symbol (replicate n CHR ''a'') None)" by (rule injI) (simp add: replicate_eq_replicate)
  have "finite (UNIV :: nat set)"
    by (rule finite_imageD [OF finite_subset [OF subset_UNIV fin] inj])
  then show False by simp
qed

lemma fresh_from_code [code]:
  "fresh_from base (set xs) index =
     (let candidate = Symbol (base @ ''_'' @ decimal index) None
      in if candidate \<in> set xs then fresh_from base (set xs) (index + 1) else candidate)"
  "fresh_from base (List.coset xs) index = Symbol (base @ ''_'' @ decimal index) None"
  using infinite_symbols by (subst fresh_from.simps, simp add: Let_def Compl_eq_Diff_UNIV)+

definition fresh_symbol :: "string \<Rightarrow> symbol set \<Rightarrow> symbol" where
  "fresh_symbol base avoid =
     (let base_sym = Symbol base None
      in if base_sym \<notin> avoid then base_sym else fresh_from base avoid 1)"

lemma fresh_from: "finite avoid \<Longrightarrow> fresh_from base avoid index \<notin> avoid"
  by (induction base avoid index rule: fresh_from.induct) (subst fresh_from.simps, simp add: Let_def)

lemma fresh_symbol: "finite avoid \<Longrightarrow> fresh_symbol base avoid \<notin> avoid"
  by (simp add: fresh_symbol_def fresh_from Let_def)

section \<open>De Bruijn terms\<close>

datatype de_bruijn =
    DFree symbol
  | DBound nat
  | DInteger int
  | DRational rat
  | DConst math_constant
  | DAdd "de_bruijn list"
  | DMul "de_bruijn list"
  | DPow de_bruijn de_bruijn
  | DFunction string "de_bruijn list"
  | DBinder string de_bruijn
  | DBinderWithArguments string de_bruijn "de_bruijn list"

text \<open>\<open>scope.iter().rev().position(..)\<close>; the scope is kept innermost first.\<close>

fun position :: "symbol list \<Rightarrow> symbol \<Rightarrow> nat option" where
  "position [] s = None"
| "position (x # xs) s = (if x = s then Some 0 else map_option Suc (position xs s))"

function expr_to_de_bruijn :: "expr \<Rightarrow> symbol list \<Rightarrow> nat \<Rightarrow> binding_error + de_bruijn" where
  "expr_to_de_bruijn e scope depth =
     rbind (rguard (depth \<le> MAX_BINDING_DEPTH) (DepthExceeded MAX_BINDING_DEPTH)) (\<lambda>_.
     case e of
       Sym s \<Rightarrow> (case position scope s of Some pos \<Rightarrow> Inr (DBound pos) | None \<Rightarrow> Inr (DFree s))
     | IntegerLit n \<Rightarrow> Inr (DInteger n)
     | RationalLit q \<Rightarrow> Inr (DRational q)
     | Const c \<Rightarrow> Inr (DConst c)
     | Add terms \<Rightarrow>
         rbind (rtraverse (\<lambda>t. expr_to_de_bruijn t scope (depth + 1)) terms) (\<lambda>ds. Inr (DAdd ds))
     | Mul terms \<Rightarrow>
         rbind (rtraverse (\<lambda>t. expr_to_de_bruijn t scope (depth + 1)) terms) (\<lambda>ds. Inr (DMul ds))
     | Pow b x \<Rightarrow>
         rbind (expr_to_de_bruijn b scope (depth + 1)) (\<lambda>d.
         rbind (expr_to_de_bruijn x scope (depth + 1)) (\<lambda>d'. Inr (DPow d d')))
     | Function name args \<Rightarrow>
         (case try_from_expr e of
            Some (Lambda param body) \<Rightarrow>
              rbind (expr_to_de_bruijn body (param # scope) (depth + 1)) (\<lambda>d. Inr (DBinder ''Lambda'' d))
          | Some (Integral var body (Some (lower, upper))) \<Rightarrow>
              rbind (expr_to_de_bruijn body (var # scope) (depth + 1)) (\<lambda>d.
              rbind (expr_to_de_bruijn lower scope (depth + 1)) (\<lambda>l.
              rbind (expr_to_de_bruijn upper scope (depth + 1)) (\<lambda>u.
              Inr (DBinderWithArguments ''Integral'' d [l, u]))))
          | Some (Integral var body None) \<Rightarrow>
              rbind (expr_to_de_bruijn body scope (depth + 1)) (\<lambda>d.
              rbind (expr_to_de_bruijn (Sym var) scope (depth + 1)) (\<lambda>v. Inr (DFunction ''Integral'' [d, v])))
          | Some (Derivative var body) \<Rightarrow>
              rbind (expr_to_de_bruijn body scope (depth + 1)) (\<lambda>d.
              rbind (expr_to_de_bruijn (Sym var) scope (depth + 1)) (\<lambda>v. Inr (DFunction ''Derivative'' [d, v])))
          | None \<Rightarrow>
              rbind (rtraverse (\<lambda>a. expr_to_de_bruijn a scope (depth + 1)) args) (\<lambda>ds. Inr (DFunction name ds))))"
  by pat_completeness auto
termination
  by (relation "measure (\<lambda>(_, _, depth). MAX_BINDING_DEPTH + 1 - depth)") auto

declare expr_to_de_bruijn.simps [simp del]

definition to_de_bruijn :: "expr \<Rightarrow> binding_error + de_bruijn" where
  "to_de_bruijn e = rbind (preflight_binding_depth e 0) (\<lambda>_. expr_to_de_bruijn e [] 0)"

definition alpha_equivalent :: "expr \<Rightarrow> expr \<Rightarrow> binding_error + bool" where
  "alpha_equivalent a b =
     rbind (to_de_bruijn a) (\<lambda>da. rbind (to_de_bruijn b) (\<lambda>db. Inr (da = db)))"

definition is_alpha_equivalent :: "binder_node \<Rightarrow> binder_node \<Rightarrow> binding_error + bool" where
  "is_alpha_equivalent self other = alpha_equivalent (to_expr self) (to_expr other)"

section \<open>Substitution\<close>

text \<open>
  The body of a scoped binder, under its possibly renamed variable. \<open>subs\<close> is the recursive call
  at the next depth, with its target, replacement and the free symbols of the replacement.
\<close>

definition subs_scoped ::
  "(expr \<Rightarrow> symbol \<Rightarrow> expr \<Rightarrow> symbol set \<Rightarrow> binding_error + expr)
    \<Rightarrow> symbol \<Rightarrow> expr \<Rightarrow> symbol \<Rightarrow> expr \<Rightarrow> symbol set \<Rightarrow> binding_error + (symbol \<times> expr)" where
  "subs_scoped subs bound_var body target replacement repl_free =
     rbind (free_symbols body) (\<lambda>body_free.
     if target \<notin> body_free then Inr (bound_var, body)
     else if bound_var \<in> repl_free then
       rbind (all_symbols body) (\<lambda>symbols.
       let avoid = insert target (symbols \<union> repl_free);
           fresh = fresh_symbol (sym_name bound_var) avoid
       in rbind (subs body bound_var (Sym fresh) {fresh}) (\<lambda>renamed_body.
          rbind (subs renamed_body target replacement repl_free) (\<lambda>new_body.
          Inr (fresh, new_body))))
     else rbind (subs body target replacement repl_free) (\<lambda>new_body. Inr (bound_var, new_body)))"

function subs_internal :: "expr \<Rightarrow> symbol \<Rightarrow> expr \<Rightarrow> symbol set \<Rightarrow> nat \<Rightarrow> binding_error + expr" where
  "subs_internal e target replacement repl_free depth =
     rbind (rguard (depth \<le> MAX_BINDING_DEPTH) (DepthExceeded MAX_BINDING_DEPTH)) (\<lambda>_.
     case e of
       Sym s \<Rightarrow> Inr (if s = target then replacement else e)
     | Add args \<Rightarrow>
         rbind (rtraverse (\<lambda>a. subs_internal a target replacement repl_free (depth + 1)) args) (\<lambda>as. Inr (Add as))
     | Mul args \<Rightarrow>
         rbind (rtraverse (\<lambda>a. subs_internal a target replacement repl_free (depth + 1)) args) (\<lambda>as. Inr (Mul as))
     | Pow b x \<Rightarrow>
         rbind (subs_internal b target replacement repl_free (depth + 1)) (\<lambda>b'.
         rbind (subs_internal x target replacement repl_free (depth + 1)) (\<lambda>x'. Inr (Pow b' x')))
     | Function name args \<Rightarrow>
         (case try_from_expr e of
            Some (Derivative var body) \<Rightarrow>
              rbind (free_symbols body) (\<lambda>body_free.
              if var = target then
                (case replacement of
                   Sym new_var \<Rightarrow>
                     if new_var \<noteq> var \<and> new_var \<in> body_free
                     then Inl (NonAlphaRenamingRequired ''Derivative'')
                     else rbind (subs_internal body target replacement repl_free (depth + 1)) (\<lambda>b.
                          Inr (to_expr (Derivative new_var b)))
                 | _ \<Rightarrow> Inl (UnsupportedOperatorVariableReplacement ''Derivative''))
              else if target \<notin> body_free then Inr e
              else if var \<in> repl_free then Inl (NonAlphaRenamingRequired ''Derivative'')
              else rbind (subs_internal body target replacement repl_free (depth + 1)) (\<lambda>b.
                   Inr (to_expr (Derivative var b))))
          | Some (Integral var body None) \<Rightarrow>
              rbind (free_symbols body) (\<lambda>body_free.
              if var = target then
                (case replacement of
                   Sym new_var \<Rightarrow>
                     rbind (subs_internal body target replacement repl_free (depth + 1)) (\<lambda>b.
                     Inr (to_expr (Integral new_var b None)))
                 | _ \<Rightarrow> Inl (UnsupportedOperatorVariableReplacement ''Integral''))
              else if target \<notin> body_free then Inr e
              else rbind (subs_internal body target replacement repl_free (depth + 1)) (\<lambda>b.
                   Inr (to_expr (Integral var b None))))
          | Some (Lambda param body) \<Rightarrow>
              if param = target then Inr e
              else rbind (subs_scoped (\<lambda>b t r f. subs_internal b t r f (depth + 1)) param body target replacement repl_free)
                     (\<lambda>(new_bound_var, new_body). Inr (to_expr (Lambda new_bound_var new_body)))
          | Some (Integral var body (Some (lower, upper))) \<Rightarrow>
              rbind (if var = target then Inr (var, body)
                     else subs_scoped (\<lambda>b t r f. subs_internal b t r f (depth + 1)) var body target replacement repl_free)
                (\<lambda>(new_bound_var, new_body).
                  rbind (subs_internal lower target replacement repl_free (depth + 1)) (\<lambda>l.
                  rbind (subs_internal upper target replacement repl_free (depth + 1)) (\<lambda>u.
                  Inr (to_expr (Integral new_bound_var new_body (Some (l, u)))))))
          | None \<Rightarrow>
              rbind (rtraverse (\<lambda>a. subs_internal a target replacement repl_free (depth + 1)) args)
                (\<lambda>as. Inr (Function name as)))
     | _ \<Rightarrow> Inr e)"
  by pat_completeness auto
termination
  by (relation "measure (\<lambda>(_, _, _, _, depth). MAX_BINDING_DEPTH + 1 - depth)") auto

declare subs_internal.simps [simp del]

definition capture_avoiding_subs :: "expr \<Rightarrow> symbol \<Rightarrow> expr \<Rightarrow> binding_error + expr" where
  "capture_avoiding_subs e target replacement =
     rbind (preflight_binding_depth e 0) (\<lambda>_.
     rbind (free_symbols replacement) (\<lambda>repl_free.
     subs_internal e target replacement repl_free 0))"

end
