(* ===== verification/Expr_Semantics.thy ===== *)
theory Expr_Semantics
  imports Bindings
begin

text \<open>
  What an expression means: its value at a valuation of the symbols in the complex numbers, if it
  has one. Operators are strict, so an undefined part makes the whole undefined; infinities and
  \<open>NaN\<close> have no value; a power with exponent zero is one, and other powers take the principal
  branch. Applications and the binding constructs are read through an interpretation, which the
  specification leaves open: a named function is a partial function of its arguments' values, and
  a binder acts on the function that its body is of the bound variable.
\<close>

section \<open>Interpretations and values\<close>

type_synonym valuation = "symbol \<Rightarrow> complex"

record interp =
  i_fun :: "string \<Rightarrow> complex list \<Rightarrow> complex option"
  i_lambda :: "(complex \<Rightarrow> complex option) \<Rightarrow> complex option"
  i_definite :: "(complex \<Rightarrow> complex option) \<Rightarrow> complex option \<Rightarrow> complex option \<Rightarrow> complex option"
  i_primitive :: "(complex \<Rightarrow> complex option) \<Rightarrow> complex \<Rightarrow> complex option"
  i_derivative :: "(complex \<Rightarrow> complex option) \<Rightarrow> complex \<Rightarrow> complex option"

text \<open>The derivative of a constant function is the same everywhere.\<close>

definition constant_derivative :: "interp \<Rightarrow> bool" where
  "constant_derivative I \<longleftrightarrow> (\<forall>c z w. i_derivative I (\<lambda>_. c) z = i_derivative I (\<lambda>_. c) w)"

definition principal_log :: "complex \<Rightarrow> complex" where
  "principal_log z = Complex (ln (cmod z)) (Arg z)"

definition power_value :: "complex \<Rightarrow> complex \<Rightarrow> complex option" where
  "power_value z w =
     (if w \<in> \<int> then
        (if w = 0 then Some 1
         else if z = 0 \<and> Re w < 0 then None
         else Some (z powi \<lfloor>Re w\<rfloor>))
      else if z = 0 then (if 0 < Re w then Some 0 else None)
      else Some (exp (w * principal_log z)))"

fun constant_value :: "math_constant \<Rightarrow> complex option" where
  "constant_value CPi = Some (of_real pi)"
| "constant_value CE = Some (exp 1)"
| "constant_value CI = Some \<i>"
| "constant_value _ = None"

definition strict :: "(complex list \<Rightarrow> complex option) \<Rightarrow> complex option list \<Rightarrow> complex option" where
  "strict f vs = Option.bind (those vs) f"

lemma size_binder:
  "try_from_expr e = Some (Lambda p b) \<Longrightarrow> size b < size e"
  "try_from_expr e = Some (Integral v b lims) \<Longrightarrow> size b < size e"
  "try_from_expr e = Some (Integral v b (Some (l, u))) \<Longrightarrow> size l < size e \<and> size u < size e"
  "try_from_expr e = Some (Derivative v b) \<Longrightarrow> size b < size e"
  using try_from_expr_size [of e] by fastforce+

function eval :: "interp \<Rightarrow> expr \<Rightarrow> valuation \<Rightarrow> complex option" where
  "eval I (Sym s) \<sigma> = Some (\<sigma> s)"
| "eval I (IntegerLit n) \<sigma> = Some (of_int n)"
| "eval I (RationalLit q) \<sigma> = Some (of_rat q)"
| "eval I (Const c) \<sigma> = constant_value c"
| "eval I (Add ts) \<sigma> = strict (\<lambda>vs. Some (sum_list vs)) (map (\<lambda>t. eval I t \<sigma>) ts)"
| "eval I (Mul ts) \<sigma> = strict (\<lambda>vs. Some (prod_list vs)) (map (\<lambda>t. eval I t \<sigma>) ts)"
| "eval I (Pow b e) \<sigma> =
     Option.bind (eval I b \<sigma>) (\<lambda>z. Option.bind (eval I e \<sigma>) (\<lambda>w. power_value z w))"
| "eval I (Function name args) \<sigma> =
     (case try_from_expr (Function name args) of
        Some (Lambda p b) \<Rightarrow> i_lambda I (\<lambda>z. eval I b (\<sigma>(p := z)))
      | Some (Integral v b (Some (l, u))) \<Rightarrow>
          i_definite I (\<lambda>z. eval I b (\<sigma>(v := z))) (eval I l \<sigma>) (eval I u \<sigma>)
      | Some (Integral v b None) \<Rightarrow> i_primitive I (\<lambda>z. eval I b (\<sigma>(v := z))) (\<sigma> v)
      | Some (Derivative v b) \<Rightarrow> i_derivative I (\<lambda>z. eval I b (\<sigma>(v := z))) (\<sigma> v)
      | None \<Rightarrow> strict (i_fun I name) (map (\<lambda>a. eval I a \<sigma>) args))"
  by pat_completeness auto

termination
  by (relation "measure (\<lambda>(_, e, _). size e)")
    (auto simp: size_arg dest: size_binder simp del: try_from_expr.simps)

declare eval.simps(8) [simp del]

text \<open>The five readings of an application, by what it is recognised as.\<close>

lemma try_from_expr_Function: "try_from_expr e = Some node \<Longrightarrow> \<exists>name args. e = Function name args"
  by (cases e) auto

lemma eval_binder:
  "try_from_expr e = Some (Lambda p b) \<Longrightarrow> eval I e \<sigma> = i_lambda I (\<lambda>z. eval I b (\<sigma>(p := z)))"
  "try_from_expr e = Some (Integral v b (Some (l, u))) \<Longrightarrow>
     eval I e \<sigma> = i_definite I (\<lambda>z. eval I b (\<sigma>(v := z))) (eval I l \<sigma>) (eval I u \<sigma>)"
  "try_from_expr e = Some (Integral v b None) \<Longrightarrow>
     eval I e \<sigma> = i_primitive I (\<lambda>z. eval I b (\<sigma>(v := z))) (\<sigma> v)"
  "try_from_expr e = Some (Derivative v b) \<Longrightarrow>
     eval I e \<sigma> = i_derivative I (\<lambda>z. eval I b (\<sigma>(v := z))) (\<sigma> v)"
  by (frule try_from_expr_Function, auto simp: eval.simps(8) simp del: try_from_expr.simps)+

lemma eval_application:
  "try_from_expr (Function name args) = None \<Longrightarrow>
     eval I (Function name args) \<sigma> = strict (i_fun I name) (map (\<lambda>a. eval I a \<sigma>) args)"
  by (simp add: eval.simps(8) del: try_from_expr.simps)

lemma try_from_to_expr: "try_from_expr (to_expr node) = Some node"
  by (cases node rule: to_expr.cases) simp_all

lemma eval_to_expr [simp]:
  "eval I (to_expr (Lambda p b)) \<sigma> = i_lambda I (\<lambda>z. eval I b (\<sigma>(p := z)))"
  "eval I (to_expr (Integral v b (Some (l, u)))) \<sigma>
     = i_definite I (\<lambda>z. eval I b (\<sigma>(v := z))) (eval I l \<sigma>) (eval I u \<sigma>)"
  "eval I (to_expr (Integral v b None)) \<sigma> = i_primitive I (\<lambda>z. eval I b (\<sigma>(v := z))) (\<sigma> v)"
  "eval I (to_expr (Derivative v b)) \<sigma> = i_derivative I (\<lambda>z. eval I b (\<sigma>(v := z))) (\<sigma> v)"
  by (rule eval_binder, rule try_from_to_expr)+

declare to_expr.simps [simp del] try_from_expr.simps [simp del]

end
