(* ===== verification/Bindings_Sound.thy ===== *)
theory Bindings_Sound
  imports Expr_Semantics
begin

text \<open>
  What the binding operations mean. Free symbols: the value of an expression depends on nothing
  else. Substitution: \<open>subst_value\<close> says what the result of a substitution is worth, with the
  capture that indefinite integrals allow, and substituting values that agree everywhere gives
  results that agree everywhere. De Bruijn terms: they have the value of the expression they come
  from, so alpha-equivalent expressions have the same value.
\<close>

section \<open>Free and occurring symbols without a depth limit\<close>

function free_in :: "expr \<Rightarrow> symbol set" where
  "free_in (Sym s) = {s}"
| "free_in (IntegerLit _) = {}"
| "free_in (RationalLit _) = {}"
| "free_in (Const _) = {}"
| "free_in (Add ts) = (\<Union>t \<in> set ts. free_in t)"
| "free_in (Mul ts) = (\<Union>t \<in> set ts. free_in t)"
| "free_in (Pow b e) = free_in b \<union> free_in e"
| "free_in (Function name args) =
     (case try_from_expr (Function name args) of
        Some (Lambda p b) \<Rightarrow> free_in b - {p}
      | Some (Integral v b (Some (l, u))) \<Rightarrow> (free_in b - {v}) \<union> free_in l \<union> free_in u
      | Some (Integral v b None) \<Rightarrow> insert v (free_in b)
      | Some (Derivative v b) \<Rightarrow> free_in b
      | None \<Rightarrow> (\<Union>a \<in> set args. free_in a))"
  by pat_completeness auto
termination
  by (relation "measure size") (auto simp: size_arg dest: size_binder)

declare free_in.simps(8) [simp del]

lemma binder_cases [case_names application lambda definite indefinite derivative]:
  assumes "node = None \<Longrightarrow> P" and "\<And>p b. node = Some (Lambda p b) \<Longrightarrow> P"
    and "\<And>v b l u. node = Some (Integral v b (Some (l, u))) \<Longrightarrow> P"
    and "\<And>v b. node = Some (Integral v b None) \<Longrightarrow> P"
    and "\<And>v b. node = Some (Derivative v b) \<Longrightarrow> P"
  shows P
proof (cases node)
  case (Some n)
  then show P using assms by (cases n rule: to_expr.cases) auto
qed (rule assms)

lemma free_in_binder:
  "try_from_expr e = Some (Lambda p b) \<Longrightarrow> free_in e = free_in b - {p}"
  "try_from_expr e = Some (Integral v b (Some (l, u))) \<Longrightarrow> free_in e = (free_in b - {v}) \<union> free_in l \<union> free_in u"
  "try_from_expr e = Some (Integral v b None) \<Longrightarrow> free_in e = insert v (free_in b)"
  "try_from_expr e = Some (Derivative v b) \<Longrightarrow> free_in e = free_in b"
  by (frule try_from_expr_Function, auto simp: free_in.simps(8))+

lemma free_in_application:
  "try_from_expr (Function name args) = None \<Longrightarrow> free_in (Function name args) = (\<Union>a \<in> set args. free_in a)"
  by (simp add: free_in.simps(8))

lemma free_in_to_expr [simp]:
  "free_in (to_expr (Lambda p b)) = free_in b - {p}"
  "free_in (to_expr (Integral v b (Some (l, u)))) = (free_in b - {v}) \<union> free_in l \<union> free_in u"
  "free_in (to_expr (Integral v b None)) = insert v (free_in b)"
  "free_in (to_expr (Derivative v b)) = free_in b"
  by (rule free_in_binder, rule try_from_to_expr)+

fun symbols_in :: "expr \<Rightarrow> symbol set" where
  "symbols_in (Sym s) = {s}"
| "symbols_in (Add ts) = (\<Union>t \<in> set ts. symbols_in t)"
| "symbols_in (Mul ts) = (\<Union>t \<in> set ts. symbols_in t)"
| "symbols_in (Pow b e) = symbols_in b \<union> symbols_in e"
| "symbols_in (Function name args) = (\<Union>a \<in> set args. symbols_in a)"
| "symbols_in _ = {}"

lemma as_symbols_in: "as_symbols es = Some syms \<Longrightarrow> (\<Union>e \<in> set es. symbols_in e) = set syms"
  by (induction es arbitrary: syms rule: as_symbols.induct) (simp_all, clarsimp)

lemma try_parse_lambda_symbols:
  "try_parse_lambda args = Some (Lambda p b) \<Longrightarrow> insert p (symbols_in b) = (\<Union>a \<in> set args. symbols_in a)"
proof (induction args rule: try_parse_lambda.induct)
  case (2 tname targs body)
  then show ?case
    by (auto simp: Let_def has_distinct_symbol_parameters_def split: if_splits list.splits expr.splits option.splits)
qed (auto simp: Let_def split: if_splits list.splits expr.splits)

lemma symbols_in_binder:
  "try_from_expr e = Some (Lambda p b) \<Longrightarrow> symbols_in e = insert p (symbols_in b)"
  "try_from_expr e = Some (Integral v b (Some (l, u))) \<Longrightarrow>
     symbols_in e = insert v (symbols_in b \<union> symbols_in l \<union> symbols_in u)"
  "try_from_expr e = Some (Integral v b None) \<Longrightarrow> symbols_in e = insert v (symbols_in b)"
  "try_from_expr e = Some (Derivative v b) \<Longrightarrow> symbols_in e = insert v (symbols_in b)"
     by (cases e, auto simp: try_from_expr.simps dest: try_parse_lambda_symbols try_parse_lambda_Some
       split: if_splits list.splits expr.splits)+

lemma finite_symbols_in [simp]: "finite (symbols_in e)"
  by (induction e) auto

lemma expr_binder_induct [case_names Sym IntegerLit RationalLit Const Add Mul Pow application lambda definite indefinite derivative]:
  assumes "\<And>s. P (Sym s)" "\<And>n. P (IntegerLit n)" "\<And>q. P (RationalLit q)" "\<And>c. P (Const c)"
    and "\<And>ts. (\<And>t. t \<in> set ts \<Longrightarrow> P t) \<Longrightarrow> P (Add ts)"
    and "\<And>ts. (\<And>t. t \<in> set ts \<Longrightarrow> P t) \<Longrightarrow> P (Mul ts)"
    and "\<And>b x. P b \<Longrightarrow> P x \<Longrightarrow> P (Pow b x)"
    and "\<And>name args. try_from_expr (Function name args) = None \<Longrightarrow> (\<And>a. a \<in> set args \<Longrightarrow> P a) \<Longrightarrow> P (Function name args)"
    and "\<And>e p b. try_from_expr e = Some (Lambda p b) \<Longrightarrow> P b \<Longrightarrow> P e"
    and "\<And>e v b l u. try_from_expr e = Some (Integral v b (Some (l, u))) \<Longrightarrow> P b \<Longrightarrow> P l \<Longrightarrow> P u \<Longrightarrow> P e"
    and "\<And>e v b. try_from_expr e = Some (Integral v b None) \<Longrightarrow> P b \<Longrightarrow> P e"
    and "\<And>e v b. try_from_expr e = Some (Derivative v b) \<Longrightarrow> P b \<Longrightarrow> P e"
  shows "P e"
proof (induction e rule: measure_induct_rule [of size])
  case (less e)
  show ?case
  proof (cases e)
    case (Function name args)
    show ?thesis
    proof (cases "try_from_expr e" rule: binder_cases)
      case application
      then show ?thesis unfolding Function using less by (intro assms(8)) (auto simp: Function size_arg)
    next
      case (definite v b l u)
      then show ?thesis using size_binder(2,3) [of e] by (intro assms(10) [OF definite] less) auto
    next
      case (lambda p b)
      then show ?thesis by (rule assms(9)) (rule less, rule size_binder(1) [OF lambda])
    next
      case (indefinite v b)
      then show ?thesis by (rule assms(11)) (rule less, rule size_binder(2) [OF indefinite])
    next
      case (derivative v b)
      then show ?thesis by (rule assms(12)) (rule less, rule size_binder(4) [OF derivative])
    qed
  next
    case (Add ts)
    show ?thesis unfolding Add by (rule assms(5)) (rule less, simp add: Add size_arg)
  next
    case (Mul ts)
    show ?thesis unfolding Mul by (rule assms(6)) (rule less, simp add: Mul size_arg)
  next
    case (Pow b x)
    show ?thesis unfolding Pow by (rule assms(7)) (rule less, simp add: Pow)+
  qed (simp_all add: assms(1-4))
qed

lemma free_in_symbols: "free_in e \<subseteq> symbols_in e"
  by (induction e rule: expr_binder_induct)
    (auto simp: free_in_application free_in_binder symbols_in_binder)

lemma collect_free_symbols_deep:
  "collect_free_symbols e bound depth = Inr F \<Longrightarrow> rguard (depth \<le> MAX_BINDING_DEPTH) (DepthExceeded MAX_BINDING_DEPTH) = Inr ()"
  by (subst (asm) collect_free_symbols.simps) simp

lemma collect_free_symbols: "collect_free_symbols e bound depth = Inr F \<Longrightarrow> F = free_in e - bound"
proof (induction e arbitrary: bound depth F rule: expr_binder_induct)
  case (Add ts)
  then show ?case
    using collect_free_symbols_deep [OF Add.prems] collect_free_symbols.simps [of "Add ts" bound depth]
    by (auto dest!: rtraverse_map [where g = "\<lambda>t. free_in t - bound"])
next
  case (Mul ts)
  then show ?case
    using collect_free_symbols_deep [OF Mul.prems] collect_free_symbols.simps [of "Mul ts" bound depth]
    by (auto dest!: rtraverse_map [where g = "\<lambda>t. free_in t - bound"])
next
  case (application name args)
  then show ?case
    using collect_free_symbols_deep [OF application.prems]
      collect_free_symbols.simps [of "Function name args" bound depth]
    by (auto simp: free_in_application dest!: rtraverse_map [where g = "\<lambda>t. free_in t - bound"])
next
  case (Pow b x)
  show ?case
    using Pow.prems collect_free_symbols_deep [OF Pow.prems] collect_free_symbols.simps [of "Pow b x" bound depth]
    by (auto dest!: Pow.IH)
next
  case (lambda e p b)
  show ?case
    using lambda.prems lambda.hyps collect_free_symbols_deep [OF lambda.prems] collect_free_symbols.simps [of e bound depth]
      try_from_expr_Function [OF lambda.hyps] by (auto simp: free_in_binder dest!: lambda.IH)
next
  case (definite e v b l u)
  show ?case
    using definite.prems definite.hyps collect_free_symbols_deep [OF definite.prems] collect_free_symbols.simps [of e bound depth]
      try_from_expr_Function [OF definite.hyps] by (auto simp: free_in_binder dest!: definite.IH)
next
  case (indefinite e v b)
  show ?case
    using indefinite.prems indefinite.hyps collect_free_symbols_deep [OF indefinite.prems] collect_free_symbols.simps [of e bound depth]
      try_from_expr_Function [OF indefinite.hyps] by (auto simp: free_in_binder dest!: indefinite.IH split: if_splits)
next
  case (derivative e v b)
  show ?case
    using derivative.prems derivative.hyps collect_free_symbols_deep [OF derivative.prems] collect_free_symbols.simps [of e bound depth]
      try_from_expr_Function [OF derivative.hyps] by (auto simp: free_in_binder dest!: derivative.IH)
next
  case (Sym s)
  then show ?case using collect_free_symbols.simps [of "Sym s" bound depth] by (auto split: if_splits)
next
  case (IntegerLit n)
  then show ?case using collect_free_symbols.simps [of "IntegerLit n" bound depth] by auto
next
  case (RationalLit q)
  then show ?case using collect_free_symbols.simps [of "RationalLit q" bound depth] by auto
next
  case (Const c)
  then show ?case using collect_free_symbols.simps [of "Const c" bound depth] by auto
qed

lemma free_symbols: "free_symbols e = Inr F \<Longrightarrow> F = free_in e"
  using collect_free_symbols by (force simp: free_symbols_def)

lemma binder_free_symbols: "binder_free_symbols node = Inr F \<Longrightarrow> F = free_in (to_expr node)"
  by (cases node rule: to_expr.cases) (auto dest!: free_symbols)

lemma collect_all_symbols: "collect_all_symbols e depth = Inr F \<Longrightarrow> F = symbols_in e"
proof (induction e arbitrary: depth F)
  case (Add ts)
  then show ?case using collect_all_symbols.simps [of "Add ts" depth]
    by (auto dest!: rtraverse_map [where g = symbols_in])
next
  case (Mul ts)
  then show ?case using collect_all_symbols.simps [of "Mul ts" depth]
    by (auto dest!: rtraverse_map [where g = symbols_in])
next
  case (Function name args)
  then show ?case using collect_all_symbols.simps [of "Function name args" depth]
    by (auto dest!: rtraverse_map [where g = symbols_in])
next
  case (Pow b x)
  show ?case using Pow.prems collect_all_symbols.simps [of "Pow b x" depth] by (auto dest!: Pow.IH)
next
  case (Sym s)
  then show ?case using collect_all_symbols.simps [of "Sym s" depth] by auto
next
  case (IntegerLit n)
  then show ?case using collect_all_symbols.simps [of "IntegerLit n" depth] by auto
next
  case (RationalLit q)
  then show ?case using collect_all_symbols.simps [of "RationalLit q" depth] by auto
next
  case (Const c)
  then show ?case using collect_all_symbols.simps [of "Const c" depth] by auto
qed

lemma all_symbols: "all_symbols e = Inr F \<Longrightarrow> F = symbols_in e"
  unfolding all_symbols_def by (rule collect_all_symbols)

section \<open>Values depend on the free symbols only\<close>

lemma strict_map_cong: "(\<And>a. a \<in> set args \<Longrightarrow> f a = g a) \<Longrightarrow> strict h (map f args) = strict h (map g args)"
  by (rule arg_cong [of _ _ "strict h"], rule map_cong) simp_all

lemma eval_free:
  assumes "constant_derivative I"
  shows "(\<And>s. s \<in> free_in e \<Longrightarrow> \<sigma> s = \<tau> s) \<Longrightarrow> eval I e \<sigma> = eval I e \<tau>"
proof (induction e arbitrary: \<sigma> \<tau> rule: expr_binder_induct)
  case (Add ts)
  have "eval I t \<sigma> = eval I t \<tau>" if "t \<in> set ts" for t
    by (rule Add.IH [OF that]) (use Add.prems that in auto)
  then show ?case unfolding eval.simps by (rule strict_map_cong)
next
  case (Mul ts)
  have "eval I t \<sigma> = eval I t \<tau>" if "t \<in> set ts" for t
    by (rule Mul.IH [OF that]) (use Mul.prems that in auto)
  then show ?case unfolding eval.simps by (rule strict_map_cong)
next
  case (Pow b x)
  have "eval I b \<sigma> = eval I b \<tau>" "eval I x \<sigma> = eval I x \<tau>"
    by (rule Pow.IH; use Pow.prems in auto)+
  then show ?case by simp
next
  case (application name args)
  have "eval I a \<sigma> = eval I a \<tau>" if "a \<in> set args" for a
    by (rule application.IH [OF that], rule application.prems)
      (use that in \<open>auto simp: free_in_application [OF application.hyps(1)]\<close>)
  then show ?case unfolding eval_application [OF application.hyps(1)] by (rule strict_map_cong)
next
  case (lambda e p b)
  have "eval I b (\<sigma>(p := z)) = eval I b (\<tau>(p := z))" for z
    by (rule lambda.IH) (use lambda.prems lambda.hyps in \<open>auto simp: free_in_binder\<close>)
  then show ?case by (simp add: eval_binder(1) [OF lambda.hyps])
next
  case (definite e v b l u)
  have "eval I b (\<sigma>(v := z)) = eval I b (\<tau>(v := z))" for z
    by (rule definite.IH) (use definite.prems definite.hyps in \<open>auto simp: free_in_binder\<close>)
  moreover have "eval I l \<sigma> = eval I l \<tau>" "eval I u \<sigma> = eval I u \<tau>"
    by (rule definite.IH; use definite.prems definite.hyps in \<open>auto simp: free_in_binder\<close>)+
  ultimately show ?case by (simp add: eval_binder(2) [OF definite.hyps])
next
  case (indefinite e v b)
  have "eval I b (\<sigma>(v := z)) = eval I b (\<tau>(v := z))" for z
    by (rule indefinite.IH) (use indefinite.prems indefinite.hyps in \<open>auto simp: free_in_binder\<close>)
  then show ?case using indefinite.prems
    by (simp add: eval_binder(3) [OF indefinite.hyps] free_in_binder(3) [OF indefinite.hyps])
next
  case (derivative e v b)
  have body: "eval I b (\<sigma>(v := z)) = eval I b (\<tau>(v := z))" for z
    by (rule derivative.IH) (use derivative.prems derivative.hyps in \<open>auto simp: free_in_binder\<close>)
  show ?case
  proof (cases "v \<in> free_in b")
    case True
    then show ?thesis using derivative.prems body
      by (simp add: eval_binder(4) [OF derivative.hyps] free_in_binder(4) [OF derivative.hyps])
  next
    case False
    have "eval I b (\<sigma>(v := z)) = eval I b \<sigma>" for z
      by (rule derivative.IH) (use False in auto)
    then show ?thesis using body assms
      by (simp add: eval_binder(4) [OF derivative.hyps] constant_derivative_def)
  qed
qed auto

section \<open>What a substitution run does\<close>

lemma finite_free_in [simp]: "finite (free_in e)"
  by (rule finite_subset [OF free_in_symbols]) simp

lemma subs_scoped_cases:
  assumes "subs_scoped subs p b x a F = Inr (q, nb)" and "finite F"
  obtains "x \<notin> free_in b" "q = p" "nb = b"
  | "x \<in> free_in b" "p \<notin> F" "q = p" "subs b x a F = Inr nb"
  | rb where "x \<in> free_in b" "p \<in> F" "q \<notin> symbols_in b" "q \<notin> F" "q \<noteq> x"
      "subs b p (Sym q) {q} = Inr rb" "subs rb x a F = Inr nb"
proof -
  obtain bf where bf: "free_symbols b = Inr bf" using assms(1) by (auto simp: subs_scoped_def)
  note free = free_symbols [OF bf]
  show thesis
  proof (cases "x \<in> free_in b")
    case False
    then show thesis using that(1) assms(1) bf free by (simp add: subs_scoped_def)
  next
    case True
    show thesis
    proof (cases "p \<in> F")
      case False
      then show thesis using that(2) True assms(1) bf free by (simp add: subs_scoped_def)
    next
      case renaming: True
      obtain as where as: "all_symbols b = Inr as"
        using assms(1) True renaming bf free by (auto simp: subs_scoped_def)
      let ?q = "fresh_symbol (sym_name p) (insert x (symbols_in b \<union> F))"
      have fresh: "?q \<notin> insert x (symbols_in b \<union> F)"
        by (rule fresh_symbol) (simp add: assms(2))
      obtain rb where "q = ?q" "subs b p (Sym ?q) {?q} = Inr rb" "subs rb x a F = Inr nb"
        using assms(1) True renaming bf free as all_symbols [OF as] by (auto simp: subs_scoped_def Let_def)
      then show thesis using that(3) True renaming fresh by auto
    qed
  qed
qed

abbreviation subs_next where
  "subs_next depth \<equiv> \<lambda>b t r f. subs_internal b t r f (depth + 1)"

lemma subs_internal_deep:
  "subs_internal e x a F depth = Inr r \<Longrightarrow>
     rguard (depth \<le> MAX_BINDING_DEPTH) (DepthExceeded MAX_BINDING_DEPTH) = Inr () \<and> depth \<le> MAX_BINDING_DEPTH"
  by (subst (asm) subs_internal.simps) simp

lemma subs_internal_leaf:
  "subs_internal (Sym s) x a F depth = Inr r \<Longrightarrow> r = (if s = x then a else Sym s)"
  "subs_internal (IntegerLit n) x a F depth = Inr r \<Longrightarrow> r = IntegerLit n"
  "subs_internal (RationalLit q) x a F depth = Inr r \<Longrightarrow> r = RationalLit q"
  "subs_internal (Const c) x a F depth = Inr r \<Longrightarrow> r = Const c"
  by (subst (asm) subs_internal.simps; auto)+

lemma subs_internal_node:
  "subs_internal (Add ts) x a F depth = Inr r \<Longrightarrow>
     \<exists>rs. r = Add rs \<and> list_all2 (\<lambda>t r. subs_next depth t x a F = Inr r) ts rs"
  "subs_internal (Mul ts) x a F depth = Inr r \<Longrightarrow>
     \<exists>rs. r = Mul rs \<and> list_all2 (\<lambda>t r. subs_next depth t x a F = Inr r) ts rs"
  "subs_internal (Pow b e) x a F depth = Inr r \<Longrightarrow>
     \<exists>b' e'. r = Pow b' e' \<and> subs_next depth b x a F = Inr b' \<and> subs_next depth e x a F = Inr e'"
  "try_from_expr (Function name args) = None \<Longrightarrow> subs_internal (Function name args) x a F depth = Inr r \<Longrightarrow>
     \<exists>rs. r = Function name rs \<and> list_all2 (\<lambda>t r. subs_next depth t x a F = Inr r) args rs"
  by (subst (asm) subs_internal.simps; auto simp: rtraverse_Inr_iff)+

lemma subs_internal_lambda:
  assumes "try_from_expr e = Some (Lambda p b)" and "subs_internal e x a F depth = Inr r"
  obtains "p = x" "r = e"
  | q nb where "p \<noteq> x" "r = to_expr (Lambda q nb)" "subs_scoped (subs_next depth) p b x a F = Inr (q, nb)"
  using assms try_from_expr_Function [OF assms(1)] subs_internal.simps [of e x a F depth]
    subs_internal_deep [OF assms(2)] by (auto split: if_splits)

lemma subs_internal_definite:
  assumes "try_from_expr e = Some (Integral v b (Some (l, u)))" and "subs_internal e x a F depth = Inr r"
  obtains q nb l' u' where "r = to_expr (Integral q nb (Some (l', u')))"
    "if v = x then q = v \<and> nb = b else subs_scoped (subs_next depth) v b x a F = Inr (q, nb)"
    "subs_next depth l x a F = Inr l'" "subs_next depth u x a F = Inr u'"
  using assms try_from_expr_Function [OF assms(1)] subs_internal.simps [of e x a F depth]
    subs_internal_deep [OF assms(2)] by (auto split: if_splits)

lemma subs_internal_indefinite:
  assumes "try_from_expr e = Some (Integral v b None)" and "subs_internal e x a F depth = Inr r"
  obtains w nb where "v = x" "a = Sym w" "r = to_expr (Integral w nb None)" "subs_next depth b x a F = Inr nb"
  | "v \<noteq> x" "x \<notin> free_in b" "r = e"
  | nb where "v \<noteq> x" "x \<in> free_in b" "r = to_expr (Integral v nb None)" "subs_next depth b x a F = Inr nb"
proof -
  note run = try_from_expr_Function [OF assms(1)] assms(1)
    trans [OF subs_internal.simps [of e x a F depth, symmetric] assms(2)]
  show thesis
  proof (cases "v = x")
    case True
    then obtain w nb where "a = Sym w" "r = to_expr (Integral w nb None)" "subs_next depth b x a F = Inr nb"
      using run by (cases a) (auto split: if_splits dest!: free_symbols)
    then show thesis using that(1) True by blast
  next
    case False
    show thesis
    proof (cases "x \<in> free_in b")
      case True
      then obtain nb where "to_expr (Integral v nb None) = r" "subs_next depth b x a F = Inr nb"
        using False run by (auto split: if_splits dest!: free_symbols)
      then show thesis using that(3) True False by metis
    next
      case False
      then show thesis using that(2) \<open>v \<noteq> x\<close> run by (auto split: if_splits dest!: free_symbols)
    qed
  qed
qed

lemma subs_internal_derivative:
  assumes "try_from_expr e = Some (Derivative v b)" and "subs_internal e x a F depth = Inr r"
  obtains w nb where "v = x" "a = Sym w" "w = v \<or> w \<notin> free_in b" "r = to_expr (Derivative w nb)"
      "subs_next depth b x a F = Inr nb"
  | "v \<noteq> x" "x \<notin> free_in b" "r = e"
  | nb where "v \<noteq> x" "x \<in> free_in b" "v \<notin> F" "r = to_expr (Derivative v nb)" "subs_next depth b x a F = Inr nb"
proof -
  note run = try_from_expr_Function [OF assms(1)] assms(1)
    trans [OF subs_internal.simps [of e x a F depth, symmetric] assms(2)]
  show thesis
  proof (cases "v = x")
    case True
    then obtain w nb where "a = Sym w" "w = v \<or> w \<notin> free_in b" "r = to_expr (Derivative w nb)" "subs_next depth b x a F = Inr nb"
      using run by (cases a) (auto split: if_splits dest!: free_symbols)
    then show thesis using that(1) True by blast
  next
    case False
    show thesis
    proof (cases "x \<in> free_in b")
      case True
      then obtain nb where "v \<notin> F" "to_expr (Derivative v nb) = r" "subs_next depth b x a F = Inr nb"
        using False run by (auto split: if_splits dest!: free_symbols)
      then show thesis using that(3) True False by metis
    next
      case False
      then show thesis using that(2) \<open>v \<noteq> x\<close> run by (auto split: if_splits dest!: free_symbols)
    qed
  qed
qed

end
