(* ===== verification/Substitution.thy ===== *)
theory Substitution
  imports Bindings_Sound
begin

text \<open>
  Correctness of \<open>capture_avoiding_subs\<close>. An application that is no binder stays one; the free
  symbols of the result are exactly those of the expression, with the target replaced; and the
  value of the result is that of the expression where the target has the replacement's value.
\<close>

section \<open>Applications stay applications\<close>

lemma as_symbols_iff: "as_symbols es = Some syms \<longleftrightarrow> es = map Sym syms"
  by (induction es arbitrary: syms rule: as_symbols.induct) (auto simp: map_eq_Cons_conv)

lemma as_symbols_map [simp]: "as_symbols (map Sym syms) = Some syms"
  by (simp add: as_symbols_iff)

definition symbol_parameters :: "expr list \<Rightarrow> bool" where
  "symbol_parameters es \<longleftrightarrow> (\<exists>syms. es = map Sym syms \<and> distinct syms)"

lemma symbol_parameters_map [simp]: "symbol_parameters (map Sym syms) \<longleftrightarrow> distinct syms"
proof -
  have "inj Sym" by (rule injI) simp
  then show ?thesis by (auto simp: symbol_parameters_def inj_map_eq_map)
qed

lemma symbol_parameters_single [simp]: "symbol_parameters [Sym s]"
  using symbol_parameters_map [of "[s]"] by (simp del: symbol_parameters_map)

lemma symbol_parameters_Cons: "symbol_parameters (e # es) \<Longrightarrow> \<exists>s. e = Sym s"
  by (auto simp: symbol_parameters_def)

lemma has_distinct_iff: "has_distinct_symbol_parameters es \<longleftrightarrow> symbol_parameters es"
proof (cases "as_symbols es")
  case None
  then show ?thesis
    by (auto simp: has_distinct_symbol_parameters_def symbol_parameters_def as_symbols_iff [symmetric])
next
  case (Some syms)
  then show ?thesis by (auto simp: has_distinct_symbol_parameters_def dest!: as_symbols_iff [THEN iffD1])
qed

lemma try_parse_lambda_iff:
  "try_parse_lambda args \<noteq> None \<longleftrightarrow>
     (case args of
        [p, body] \<Rightarrow> (\<exists>s. p = Sym s) \<or> (\<exists>ts. p = Function ''Tuple'' ts \<and> ts \<noteq> [] \<and> symbol_parameters ts)
      | _ \<Rightarrow> 2 < length args \<and> symbol_parameters (butlast args))"
  by (induction args rule: try_parse_lambda.induct)
    (auto simp: has_distinct_iff map_eq_Cons_conv Let_def
      split: list.splits expr.splits if_splits dest: symbol_parameters_Cons)

text \<open>What a substitution does to the head of a term.\<close>

lemma subs_internal_head:
  assumes "subs_internal e x a F depth = Inr r"
  shows "(\<exists>s. e = Sym s \<and> r = (if s = x then a else Sym s))
    \<or> (\<forall>s. e \<noteq> Sym s) \<and> (\<forall>s. r \<noteq> Sym s)
      \<and> (\<forall>rs. r = Function ''Tuple'' rs \<longrightarrow>
           (\<exists>ts. e = Function ''Tuple'' ts \<and> list_all2 (\<lambda>t r. subs_next depth t x a F = Inr r) ts rs))"
proof (cases e)
  case (Function name args)
  have to: "to_expr node \<noteq> Sym s" "to_expr node \<noteq> Function ''Tuple'' rs" for node s rs
    by (cases node rule: to_expr.cases; simp add: to_expr.simps)+
  note to = to to [symmetric]
  have no_tuple: "name \<noteq> ''Tuple''" if "try_from_expr (Function name args) = Some node" for node
    using that by (auto simp: try_from_expr.simps)
  show ?thesis
  proof (cases "try_from_expr e" rule: binder_cases)
    case application
    then show ?thesis using subs_internal_node(4) [OF _ assms [unfolded Function]] Function by auto
  next
    case (lambda p b)
    show ?thesis by (rule subs_internal_lambda [OF lambda assms]) (use no_tuple lambda to Function in auto)
  next
    case (definite v b l u)
    show ?thesis by (rule subs_internal_definite [OF definite assms]) (use no_tuple definite to Function in auto)
  next
    case (indefinite v b)
    show ?thesis by (rule subs_internal_indefinite [OF indefinite assms]) (use no_tuple indefinite to Function in auto)
  next
    case (derivative v b)
    show ?thesis by (rule subs_internal_derivative [OF derivative assms]) (use no_tuple derivative to Function in auto)
  qed
qed (use assms in \<open>auto dest!: subs_internal_leaf subs_internal_node\<close>)

lemma subs_parameters:
  assumes "list_all2 (\<lambda>t r. subs_next depth t x a F = Inr r) ts rs" and "symbol_parameters rs"
  shows "symbol_parameters ts"
proof -
  obtain ss where ss: "rs = map Sym ss" "distinct ss" using assms(2) by (auto simp: symbol_parameters_def)
  have len: "length ts = length ss" using assms(1) ss(1) by (auto dest: list_all2_lengthD)
  have at: "\<exists>s. ts ! i = Sym s \<and> Sym (ss ! i) = (if s = x then a else Sym s)" if "i < length ts" for i
    using assms(1) that len subs_internal_head [of "ts ! i" x a F "depth + 1" "Sym (ss ! i)"]
    by (auto simp: ss(1) list_all2_conv_all_nth)
  then have "\<forall>t \<in> set ts. \<exists>s. t = Sym s" by (metis in_set_conv_nth)
  then obtain us where us: "ts = map Sym us" using ex_map_conv [of ts Sym] by blast
  have "Sym (ss ! i) = (if us ! i = x then a else Sym (us ! i))" if "i < length us" for i
    using at [of i] that us by auto
  then have "distinct us"
    using ss(2) len unfolding us length_map distinct_conv_nth by (metis expr.inject(1))
  then show ?thesis using us by simp
qed

lemma application_stays:
  assumes none: "try_from_expr (Function name args) = None"
    and rs: "list_all2 (\<lambda>t r. subs_next depth t x a F = Inr r) args rs"
  shows "try_from_expr (Function name rs) = None"
proof (rule ccontr)
  assume bound: "try_from_expr (Function name rs) \<noteq> None"
  have len: "length rs = length args" using rs by (simp add: list_all2_lengthD)
  have at: "subs_next depth (args ! i) x a F = Inr (rs ! i)" if "i < length args" for i
    using rs that by (simp add: list_all2_conv_all_nth)
  have sym: "\<exists>s. args ! i = Sym s" if "i < length args" "rs ! i = Sym w" for i w
    using subs_internal_head [OF at [OF that(1)]] that(2) by auto
  show False
  proof (cases "name = ''Lambda''")
    case True
    then have parse: "try_parse_lambda rs \<noteq> None" "try_parse_lambda args = None"
      using bound none by (simp_all add: try_from_expr.simps)
    show False
    proof (cases "length args = 2")
      case True
      then obtain p b p' b' where args: "args = [p, b]" and rs': "rs = [p', b']"
        using len by (auto simp: length_Suc_conv numeral_2_eq_2)
      have head: "subs_next depth p x a F = Inr p'" using at [of 0] args rs' by simp
      have "(\<exists>s. p = Sym s) \<or> (\<exists>ts. p = Function ''Tuple'' ts \<and> ts \<noteq> [] \<and> symbol_parameters ts)"
        using parse(1) subs_internal_head [OF head] subs_parameters
        unfolding try_parse_lambda_iff rs' by fastforce
      then show False using parse(2) try_parse_lambda_iff [of args] args by auto
    next
      case False
      then have long: "2 < length args" "symbol_parameters (butlast rs)"
        using parse(1) len unfolding try_parse_lambda_iff by (auto split: list.splits)
      have "list_all2 (\<lambda>t r. subs_next depth t x a F = Inr r) (butlast args) (butlast rs)"
        using rs by (simp add: list_all2_conv_all_nth nth_butlast)
      then have "symbol_parameters (butlast args)" by (rule subs_parameters) (rule long)
      then show False using parse(2) long(1) try_parse_lambda_iff [of args]
        by (auto split: list.splits)
    qed
  next
    case False
    then have "1 < length rs \<and> (\<exists>w. rs ! 1 = Sym w)"
      using bound by (auto simp: try_from_expr.simps split: if_splits list.splits expr.splits)
    then obtain s where s: "args ! 1 = Sym s" using sym [of 1] len by auto
    show False
      using False bound none s len
      by (auto simp: try_from_expr.simps length_Suc_conv split: if_splits list.splits expr.splits)
  qed
qed

section \<open>Free symbols of the result\<close>

definition replaced :: "symbol \<Rightarrow> symbol set \<Rightarrow> symbol set \<Rightarrow> symbol set" where
  "replaced x A S = (if x \<in> S then (S - {x}) \<union> A else S)"

lemma replaced_Un: "replaced x A (S \<union> T) = replaced x A S \<union> replaced x A T"
  by (auto simp: replaced_def)

lemma replaced_UN:
  assumes "list_all2 (\<lambda>t r. g r = replaced x A (g t)) ts rs"
  shows "(\<Union>r \<in> set rs. g r) = replaced x A (\<Union>t \<in> set ts. g t)"
  using assms by (induction rule: list_all2_induct) (simp_all add: replaced_def [of x A "{}"] replaced_Un)

lemma scoped_free:
  assumes "subs_scoped subs p b x a F = Inr (q, nb)" and "F = free_in a" and "p \<noteq> x"
    and IH: "\<And>b x a nb. subs b x a (free_in a) = Inr nb \<Longrightarrow> free_in nb = replaced x (free_in a) (free_in b)"
  shows "free_in nb - {q} = replaced x (free_in a) (free_in b - {p})"
proof -
  have "finite F" by (simp add: assms(2))
  with assms(1) show ?thesis
  proof (cases rule: subs_scoped_cases)
    case 2
    then show ?thesis using IH [of b x a nb] assms(2,3) by (auto simp: replaced_def)
  next
    case (3 rb)
    have "free_in rb = replaced p {q} (free_in b)" using IH [of b p "Sym q" rb] 3 by simp
    moreover have "free_in nb = replaced x (free_in a) (free_in rb)" using IH [of rb x a nb] 3 assms(2) by simp
    moreover have "q \<notin> free_in b" using 3 free_in_symbols by blast
    ultimately show ?thesis using 3 assms(2,3) by (auto simp: replaced_def)
  qed (use assms(3) in \<open>auto simp: replaced_def\<close>)
qed

theorem subs_internal_free:
  "subs_internal e x a (free_in a) depth = Inr r \<Longrightarrow> free_in r = replaced x (free_in a) (free_in e)"
proof (induction "MAX_BINDING_DEPTH + 1 - depth" arbitrary: e x a depth r rule: less_induct)
  case less
  have deep: "depth \<le> MAX_BINDING_DEPTH" using subs_internal_deep [OF less.prems] by simp
  have IH: "free_in r = replaced x (free_in a) (free_in e)"
    if "subs_next depth e x a (free_in a) = Inr r" for e x a r
    by (rule less.hyps [OF _ that]) (use deep in simp)
  have lists: "(\<Union>r \<in> set rs. free_in r) = replaced x (free_in a) (\<Union>t \<in> set ts. free_in t)"
    if "list_all2 (\<lambda>t r. subs_next depth t x a (free_in a) = Inr r) ts rs" for ts rs
    by (rule replaced_UN) (use that IH in \<open>auto elim: list.rel_mono_strong\<close>)
  note scoped = scoped_free [OF _ refl _ IH]
  show ?case
  proof (cases e)
    case (Sym s)
    then show ?thesis using less.prems by (auto dest!: subs_internal_leaf simp: replaced_def)
  next
    case (Add ts)
    then show ?thesis using less.prems lists by (auto dest!: subs_internal_node)
  next
    case (Mul ts)
    then show ?thesis using less.prems lists by (auto dest!: subs_internal_node)
  next
    case (Pow b y)
    then show ?thesis using less.prems IH by (auto dest!: subs_internal_node simp: replaced_Un)
  next
    case (Function name args)
    show ?thesis
    proof (cases "try_from_expr e" rule: binder_cases)
      case application
      then obtain rs where rs: "r = Function name rs"
        "list_all2 (\<lambda>t r. subs_next depth t x a (free_in a) = Inr r) args rs"
        using less.prems Function subs_internal_node(4) by blast
      then show ?thesis
        using lists [OF rs(2)] application application_stays [OF _ rs(2)] Function
        by (simp add: free_in_application)
    next
      case (lambda p b)
      show ?thesis
        by (rule subs_internal_lambda [OF lambda less.prems])
          (use scoped in \<open>auto simp: free_in_binder(1) [OF lambda] replaced_def [of _ _ "free_in b - {x}"]\<close>)
    next
      case (definite v b l u)
      show ?thesis
      proof (rule subs_internal_definite [OF definite less.prems])
        fix q nb l' u'
        assume r: "r = to_expr (Integral q nb (Some (l', u')))"
          and body: "if v = x then q = v \<and> nb = b else subs_scoped (subs_next depth) v b x a (free_in a) = Inr (q, nb)"
          and lims: "subs_next depth l x a (free_in a) = Inr l'" "subs_next depth u x a (free_in a) = Inr u'"
        have "free_in nb - {q} = replaced x (free_in a) (free_in b - {v})"
          using body scoped by (cases "v = x") (auto simp: replaced_def)
        then show ?thesis using IH [OF lims(1)] IH [OF lims(2)]
          by (simp add: r free_in_binder(2) [OF definite] replaced_Un)
      qed
    next
      case (indefinite v b)
      show ?thesis
      proof (rule subs_internal_indefinite [OF indefinite less.prems])
        fix w nb
        assume "v = x" "a = Sym w" "r = to_expr (Integral w nb None)" "subs_next depth b x a (free_in a) = Inr nb"
        then show ?thesis using IH [of b x a nb]
          by (auto simp: free_in_binder(3) [OF indefinite] replaced_def)
      next
        assume "v \<noteq> x" "x \<notin> free_in b" "r = e"
        then show ?thesis by (simp add: free_in_binder(3) [OF indefinite] replaced_def)
      next
        fix nb
        assume "v \<noteq> x" "x \<in> free_in b" "r = to_expr (Integral v nb None)"
          "subs_next depth b x a (free_in a) = Inr nb"
        then show ?thesis using IH [of b x a nb]
          by (auto simp: free_in_binder(3) [OF indefinite] replaced_def)
      qed
    next
      case (derivative v b)
      show ?thesis
      proof (rule subs_internal_derivative [OF derivative less.prems])
        fix w nb
        assume "a = Sym w" "r = to_expr (Derivative w nb)" "subs_next depth b x a (free_in a) = Inr nb"
        then show ?thesis using IH [of b x a nb] by (simp add: free_in_binder(4) [OF derivative])
      next
        assume "x \<notin> free_in b" "r = e"
        then show ?thesis by (simp add: free_in_binder(4) [OF derivative] replaced_def)
      next
        fix nb
        assume "r = to_expr (Derivative v nb)" "subs_next depth b x a (free_in a) = Inr nb"
        then show ?thesis using IH [of b x a nb] by (simp add: free_in_binder(4) [OF derivative])
      qed
    qed
  qed (use less.prems in \<open>auto dest!: subs_internal_leaf simp: replaced_def\<close>)
qed

section \<open>The value of the result\<close>

text \<open>
  The value of an expression in which the target \<open>tg\<close>, if any, is replaced by something worth
  \<open>d\<close>. \<open>\<sigma>\<close> values the expression's own symbols and \<open>\<tau>\<close> the replacement's: a scoped binder extends
  \<open>\<sigma>\<close> only, and an indefinite integral, whose variable is not alpha-bound, extends both, unless its
  variable belongs to an enclosing scoped binder (\<open>B\<close>). When the target is itself the variable of
  an indefinite integral or derivative, the replacement must be a symbol \<open>nv\<close>, the new variable.
\<close>

function subst_value ::
  "interp \<Rightarrow> symbol option \<Rightarrow> (valuation \<Rightarrow> complex option) \<Rightarrow> symbol option \<Rightarrow> symbol set \<Rightarrow> expr
    \<Rightarrow> valuation \<Rightarrow> valuation \<Rightarrow> complex option" where
  "subst_value I nv d tg B (Sym s) \<sigma> \<tau> = (if tg = Some s then d \<tau> else Some (\<sigma> s))"
| "subst_value I nv d tg B (IntegerLit n) \<sigma> \<tau> = Some (of_int n)"
| "subst_value I nv d tg B (RationalLit q) \<sigma> \<tau> = Some (of_rat q)"
| "subst_value I nv d tg B (Const c) \<sigma> \<tau> = constant_value c"
| "subst_value I nv d tg B (Add ts) \<sigma> \<tau> =
     strict (\<lambda>vs. Some (sum_list vs)) (map (\<lambda>t. subst_value I nv d tg B t \<sigma> \<tau>) ts)"
| "subst_value I nv d tg B (Mul ts) \<sigma> \<tau> =
     strict (\<lambda>vs. Some (prod_list vs)) (map (\<lambda>t. subst_value I nv d tg B t \<sigma> \<tau>) ts)"
| "subst_value I nv d tg B (Pow b e) \<sigma> \<tau> =
     Option.bind (subst_value I nv d tg B b \<sigma> \<tau>) (\<lambda>z.
     Option.bind (subst_value I nv d tg B e \<sigma> \<tau>) (\<lambda>w. power_value z w))"
| "subst_value I nv d tg B (Function name args) \<sigma> \<tau> =
     (case try_from_expr (Function name args) of
        Some (Lambda p b) \<Rightarrow>
          i_lambda I (\<lambda>z. subst_value I nv d (if tg = Some p then None else tg) (insert p B) b (\<sigma>(p := z)) \<tau>)
      | Some (Integral v b (Some (l, u))) \<Rightarrow>
          i_definite I
            (\<lambda>z. subst_value I nv d (if tg = Some v then None else tg) (insert v B) b (\<sigma>(v := z)) \<tau>)
            (subst_value I nv d tg B l \<sigma> \<tau>) (subst_value I nv d tg B u \<sigma> \<tau>)
      | Some (Integral v b None) \<Rightarrow>
          if tg = Some v then
            (case nv of
               None \<Rightarrow> None
             | Some w \<Rightarrow>
                 i_primitive I (\<lambda>z. subst_value I nv d tg B b (if w \<in> B then \<sigma> else \<sigma>(w := z)) (\<tau>(w := z))) (\<tau> w))
          else i_primitive I (\<lambda>z. subst_value I nv d tg B b (\<sigma>(v := z)) (if v \<in> B then \<tau> else \<tau>(v := z))) (\<sigma> v)
      | Some (Derivative v b) \<Rightarrow>
          if tg = Some v \<and> v \<in> free_in b then
            (case nv of
               None \<Rightarrow> None
             | Some w \<Rightarrow>
                 i_derivative I (\<lambda>z. subst_value I nv d tg B b (if w \<in> B then \<sigma> else \<sigma>(w := z)) (\<tau>(w := z))) (\<tau> w))
          else i_derivative I (\<lambda>z. subst_value I nv d tg B b (\<sigma>(v := z)) \<tau>) (\<sigma> v)
      | None \<Rightarrow> strict (i_fun I name) (map (\<lambda>a. subst_value I nv d tg B a \<sigma> \<tau>) args))"
  by pat_completeness auto
termination
  by (relation "measure (\<lambda>(_, _, _, _, _, e, _). size e)") (auto simp: size_arg dest: size_binder)

declare subst_value.simps(8) [simp del]

lemma subst_value_binder:
  "try_from_expr e = Some (Lambda p b) \<Longrightarrow> subst_value I nv d tg B e \<sigma> \<tau> =
     i_lambda I (\<lambda>z. subst_value I nv d (if tg = Some p then None else tg) (insert p B) b (\<sigma>(p := z)) \<tau>)"
  "try_from_expr e = Some (Integral v b (Some (l, u))) \<Longrightarrow> subst_value I nv d tg B e \<sigma> \<tau> =
     i_definite I
       (\<lambda>z. subst_value I nv d (if tg = Some v then None else tg) (insert v B) b (\<sigma>(v := z)) \<tau>)
       (subst_value I nv d tg B l \<sigma> \<tau>) (subst_value I nv d tg B u \<sigma> \<tau>)"
  "try_from_expr e = Some (Integral v b None) \<Longrightarrow> subst_value I nv d tg B e \<sigma> \<tau> =
     (if tg = Some v then
        (case nv of
           None \<Rightarrow> None
         | Some w \<Rightarrow>
             i_primitive I (\<lambda>z. subst_value I nv d tg B b (if w \<in> B then \<sigma> else \<sigma>(w := z)) (\<tau>(w := z))) (\<tau> w))
      else i_primitive I (\<lambda>z. subst_value I nv d tg B b (\<sigma>(v := z)) (if v \<in> B then \<tau> else \<tau>(v := z))) (\<sigma> v))"
  "try_from_expr e = Some (Derivative v b) \<Longrightarrow> subst_value I nv d tg B e \<sigma> \<tau> =
     (if tg = Some v \<and> v \<in> free_in b then
        (case nv of
           None \<Rightarrow> None
         | Some w \<Rightarrow>
             i_derivative I (\<lambda>z. subst_value I nv d tg B b (if w \<in> B then \<sigma> else \<sigma>(w := z)) (\<tau>(w := z))) (\<tau> w))
      else i_derivative I (\<lambda>z. subst_value I nv d tg B b (\<sigma>(v := z)) \<tau>) (\<sigma> v))"
  by (frule try_from_expr_Function, auto simp: subst_value.simps(8))+

lemma subst_value_application:
  "try_from_expr (Function name args) = None \<Longrightarrow> subst_value I nv d tg B (Function name args) \<sigma> \<tau> =
     strict (i_fun I name) (map (\<lambda>a. subst_value I nv d tg B a \<sigma> \<tau>) args)"
  by (simp add: subst_value.simps(8))

lemma subst_value_None: "subst_value I nv d None B e \<sigma> \<tau> = eval I e \<sigma>"
  by (induction e arbitrary: B \<sigma> \<tau> rule: expr_binder_induct)
    (simp_all add: subst_value_binder eval_binder subst_value_application eval_application cong: map_cong)

text \<open>Two valuations and scopes that agree on the free symbols give the same value.\<close>

lemma constant_derivativeD:
  assumes "constant_derivative I" and "\<And>z w. f z = f w"
  shows "i_derivative I f z = i_derivative I f w"
proof -
  have "f = (\<lambda>_. f 0)" using assms(2) by blast
  then show ?thesis using assms(1) unfolding constant_derivative_def by metis
qed

lemma subst_value_agree:
  assumes I: "constant_derivative I"
  shows "(\<And>s. s \<in> free_in e \<Longrightarrow> \<sigma> s = \<sigma>' s \<and> (s \<in> B \<longleftrightarrow> s \<in> B')) \<Longrightarrow>
    subst_value I nv d tg B e \<sigma> \<tau> = subst_value I nv d tg B' e \<sigma>' \<tau>"
proof (induction e arbitrary: \<sigma> \<sigma>' \<tau> B B' tg rule: expr_binder_induct)
  case (Add ts)
  have "subst_value I nv d tg B t \<sigma> \<tau> = subst_value I nv d tg B' t \<sigma>' \<tau>" if "t \<in> set ts" for t
    by (rule Add.IH [OF that], rule Add.prems) (use that in auto)
  then show ?case unfolding subst_value.simps by (rule strict_map_cong)
next
  case (Mul ts)
  have "subst_value I nv d tg B t \<sigma> \<tau> = subst_value I nv d tg B' t \<sigma>' \<tau>" if "t \<in> set ts" for t
    by (rule Mul.IH [OF that], rule Mul.prems) (use that in auto)
  then show ?case unfolding subst_value.simps by (rule strict_map_cong)
next
  case (Pow b x)
  have "subst_value I nv d tg B b \<sigma> \<tau> = subst_value I nv d tg B' b \<sigma>' \<tau>"
    "subst_value I nv d tg B x \<sigma> \<tau> = subst_value I nv d tg B' x \<sigma>' \<tau>"
    by (rule Pow.IH, rule Pow.prems, simp)+
  then show ?case by simp
next
  case (application name args)
  have "subst_value I nv d tg B t \<sigma> \<tau> = subst_value I nv d tg B' t \<sigma>' \<tau>" if "t \<in> set args" for t
    by (rule application.IH [OF that], rule application.prems)
      (use that in \<open>auto simp: free_in_application [OF application.hyps(1)]\<close>)
  then show ?case unfolding subst_value_application [OF application.hyps(1)] by (rule strict_map_cong)
next
  case (lambda e p b)
  have "subst_value I nv d tg' (insert p B) b (\<sigma>(p := z)) \<tau> = subst_value I nv d tg' (insert p B') b (\<sigma>'(p := z)) \<tau>"
    for z tg'
    by (rule lambda.IH) (use lambda.prems in \<open>auto simp: free_in_binder(1) [OF lambda.hyps]\<close>)
  then show ?case by (simp add: subst_value_binder(1) [OF lambda.hyps])
next
  case (definite e v b l u)
  have "subst_value I nv d tg' (insert v B) b (\<sigma>(v := z)) \<tau> = subst_value I nv d tg' (insert v B') b (\<sigma>'(v := z)) \<tau>"
    for z tg'
    by (rule definite.IH(1)) (use definite.prems in \<open>auto simp: free_in_binder(2) [OF definite.hyps]\<close>)
  moreover have "subst_value I nv d tg B l \<sigma> \<tau> = subst_value I nv d tg B' l \<sigma>' \<tau>"
    "subst_value I nv d tg B u \<sigma> \<tau> = subst_value I nv d tg B' u \<sigma>' \<tau>"
    by (rule definite.IH, rule definite.prems, simp add: free_in_binder(2) [OF definite.hyps])+
  ultimately show ?case by (simp add: subst_value_binder(2) [OF definite.hyps])
next
  case (indefinite e v b)
  note agree = indefinite.prems [unfolded free_in_binder(3) [OF indefinite.hyps]]
  have "subst_value I nv d tg B b (if w \<in> B then \<sigma> else \<sigma>(w := z)) t
      = subst_value I nv d tg B' b (if w \<in> B' then \<sigma>' else \<sigma>'(w := z)) t" for w z t
    by (rule indefinite.IH) (use agree in auto)
  moreover have "subst_value I nv d tg B b (\<sigma>(v := z)) t = subst_value I nv d tg B' b (\<sigma>'(v := z)) t" for z t
    by (rule indefinite.IH) (use agree in auto)
  ultimately show ?case using agree [of v]
    by (cases nv; cases "tg = Some v"; simp add: subst_value_binder(3) [OF indefinite.hyps])
next
  case (derivative e v b)
  note agree = derivative.prems [unfolded free_in_binder(4) [OF derivative.hyps]]
  have op: "subst_value I nv d tg B b (if w \<in> B then \<sigma> else \<sigma>(w := z)) t
      = subst_value I nv d tg B' b (if w \<in> B' then \<sigma>' else \<sigma>'(w := z)) t" for w z t
    by (rule derivative.IH) (use agree in auto)
  have body: "subst_value I nv d tg B b (\<sigma>(v := z)) t = subst_value I nv d tg B' b (\<sigma>'(v := z)) t" for z t
    by (rule derivative.IH) (use agree in auto)
  have "i_derivative I (\<lambda>z. subst_value I nv d tg B b (\<sigma>(v := z)) \<tau>) (\<sigma> v)
      = i_derivative I (\<lambda>z. subst_value I nv d tg B' b (\<sigma>'(v := z)) \<tau>) (\<sigma>' v)"
  proof (cases "v \<in> free_in b")
    case True
    then show ?thesis using agree [of v] by (simp add: body)
  next
    case False
    have "subst_value I nv d tg B b (\<sigma>(v := z)) \<tau> = subst_value I nv d tg B b (\<sigma>(v := w)) \<tau>" for z w
      by (rule derivative.IH) (use False in auto)
    then show ?thesis by (simp add: body [symmetric] constant_derivativeD [OF I])
  qed
  then show ?case using op
    by (cases nv; cases "tg = Some v"; cases "v \<in> free_in b"; simp add: subst_value_binder(4) [OF derivative.hyps])
qed auto

text \<open>A target that is not free does not matter.\<close>

lemma subst_value_absent:
  "x \<notin> free_in e \<Longrightarrow> subst_value I nv d (Some x) B e \<sigma> \<tau> = eval I e \<sigma>"
proof (induction e arbitrary: \<sigma> \<tau> B rule: expr_binder_induct)
  case (Add ts)
  have "subst_value I nv d (Some x) B t \<sigma> \<tau> = eval I t \<sigma>" if "t \<in> set ts" for t
    by (rule Add.IH [OF that]) (use Add.prems that in simp)
  then show ?case unfolding subst_value.simps eval.simps by (rule strict_map_cong)
next
  case (Mul ts)
  have "subst_value I nv d (Some x) B t \<sigma> \<tau> = eval I t \<sigma>" if "t \<in> set ts" for t
    by (rule Mul.IH [OF that]) (use Mul.prems that in simp)
  then show ?case unfolding subst_value.simps eval.simps by (rule strict_map_cong)
next
  case (application name args)
  have "subst_value I nv d (Some x) B t \<sigma> \<tau> = eval I t \<sigma>" if "t \<in> set args" for t
    by (rule application.IH [OF that]) (use application.prems that free_in_application [OF application.hyps(1)] in simp)
  then show ?case
    unfolding subst_value_application [OF application.hyps(1)] eval_application [OF application.hyps(1)]
    by (rule strict_map_cong)
qed (auto simp: subst_value_binder eval_binder free_in_binder subst_value_None)

text \<open>Renaming the bound variable of an enclosing binder to a fresh symbol.\<close>

definition renames :: "symbol \<Rightarrow> symbol \<Rightarrow> symbol set \<Rightarrow> symbol set \<Rightarrow> symbol option \<Rightarrow> bool" where
  "renames p y B B' tg \<longleftrightarrow> p \<noteq> y \<and> p \<in> B \<and> y \<in> B' \<and> (\<forall>s. s \<noteq> p \<longrightarrow> s \<noteq> y \<longrightarrow> (s \<in> B \<longleftrightarrow> s \<in> B'))
     \<and> tg \<noteq> Some p \<and> tg \<noteq> Some y"

lemma renames_insert: "renames p y B B' tg \<Longrightarrow> renames p y (insert q B) (insert q B') (if c then None else tg)"
  by (auto simp: renames_def)

lemma subst_value_unchanged:
  assumes "constant_derivative I" and "renames p y B B' tg" and "p \<notin> free_in e" and "y \<notin> symbols_in e"
  shows "subst_value I nv d tg B' e \<sigma> \<tau> = subst_value I nv d tg B e (\<sigma>(p := \<sigma> y)) \<tau>"
proof (rule subst_value_agree [OF assms(1)])
  fix s
  assume "s \<in> free_in e"
  then have "s \<noteq> p" "s \<noteq> y" using assms(3,4) free_in_symbols by auto
  then show "\<sigma> s = (\<sigma>(p := \<sigma> y)) s \<and> (s \<in> B' \<longleftrightarrow> s \<in> B)" using assms(2) by (simp add: renames_def)
qed

lemma subst_value_renamed_scoped:
  assumes I: "constant_derivative I" and run: "subs_scoped (subs_next depth) q b p (Sym y) {y} = Inr (q', nb)"
    and fresh: "y \<notin> insert q (symbols_in b)" and "q \<noteq> p" and ren: "renames p y B B' tg"
    and IH: "\<And>depth r \<sigma> B B' tg. subs_internal b p (Sym y) {y} depth = Inr r \<Longrightarrow> renames p y B B' tg \<Longrightarrow>
      subst_value I nv d tg B' r \<sigma> \<tau> = subst_value I nv d tg B b (\<sigma>(p := \<sigma> y)) \<tau>"
  shows "q' = q \<and> subst_value I nv d (if c then None else tg) (insert q B') nb (\<sigma>(q := z)) \<tau>
    = subst_value I nv d (if c then None else tg) (insert q B) b ((\<sigma>(p := \<sigma> y))(q := z)) \<tau>"
proof -
  have swap: "(\<sigma>(p := \<sigma> y))(q := z) = (\<sigma>(q := z))(p := (\<sigma>(q := z)) y)"
    using assms(4) fresh by (auto simp: fun_upd_def)
  have fin: "finite {y}" by simp
  note ren' = renames_insert [OF ren, of q c]
  from run fin show ?thesis
  proof (cases rule: subs_scoped_cases)
    case 1
    then show ?thesis unfolding swap using subst_value_unchanged [OF I ren' 1(1)] fresh by simp
  next
    case 2
    then show ?thesis unfolding swap using IH [OF _ ren'] by simp
  next
    case (3 rb)
    then show ?thesis using fresh by simp
  qed
qed

lemma subst_value_renamed:
  assumes I: "constant_derivative I"
  shows "subs_internal e p (Sym y) {y} depth = Inr r \<Longrightarrow> y \<notin> symbols_in e \<Longrightarrow> renames p y B B' tg \<Longrightarrow>
    subst_value I nv d tg B' r \<sigma> \<tau> = subst_value I nv d tg B e (\<sigma>(p := \<sigma> y)) \<tau>"
proof (induction e arbitrary: depth r \<sigma> \<tau> B B' tg rule: expr_binder_induct)
  case (Sym s)
  then show ?case by (auto dest!: subs_internal_leaf simp: renames_def)
next
  case (IntegerLit n)
  then show ?case by (auto dest!: subs_internal_leaf)
next
  case (RationalLit q)
  then show ?case by (auto dest!: subs_internal_leaf)
next
  case (Const c)
  then show ?case by (auto dest!: subs_internal_leaf)
next
  case (Add ts)
  obtain rs where rs: "r = Add rs" "list_all2 (\<lambda>t r. subs_next depth t p (Sym y) {y} = Inr r) ts rs"
    using subs_internal_node(1) [OF Add.prems(1)] by blast
  have "map (\<lambda>r. subst_value I nv d tg B' r \<sigma> \<tau>) rs = map (\<lambda>t. subst_value I nv d tg B t (\<sigma>(p := \<sigma> y)) \<tau>) ts"
    by (rule list_all2_map_eq [OF rs(2)], rule Add.IH, assumption+) (use Add.prems in auto)
  then show ?case by (simp only: rs(1) subst_value.simps)
next
  case (Mul ts)
  obtain rs where rs: "r = Mul rs" "list_all2 (\<lambda>t r. subs_next depth t p (Sym y) {y} = Inr r) ts rs"
    using subs_internal_node(2) [OF Mul.prems(1)] by blast
  have "map (\<lambda>r. subst_value I nv d tg B' r \<sigma> \<tau>) rs = map (\<lambda>t. subst_value I nv d tg B t (\<sigma>(p := \<sigma> y)) \<tau>) ts"
    by (rule list_all2_map_eq [OF rs(2)], rule Mul.IH, assumption+) (use Mul.prems in auto)
  then show ?case by (simp only: rs(1) subst_value.simps)
next
  case (Pow b x)
  obtain b' x' where r: "r = Pow b' x'" "subs_next depth b p (Sym y) {y} = Inr b'"
      "subs_next depth x p (Sym y) {y} = Inr x'"
    using subs_internal_node(3) [OF Pow.prems(1)] by blast
  have "subst_value I nv d tg B' b' \<sigma> \<tau> = subst_value I nv d tg B b (\<sigma>(p := \<sigma> y)) \<tau>"
    by (rule Pow.IH(1) [OF r(2)]) (use Pow.prems in auto)
  moreover have "subst_value I nv d tg B' x' \<sigma> \<tau> = subst_value I nv d tg B x (\<sigma>(p := \<sigma> y)) \<tau>"
    by (rule Pow.IH(2) [OF r(3)]) (use Pow.prems in auto)
  ultimately show ?case by (simp only: r(1) subst_value.simps)
next
  case (application name args)
  obtain rs where rs: "r = Function name rs" "list_all2 (\<lambda>t r. subs_next depth t p (Sym y) {y} = Inr r) args rs"
    using subs_internal_node(4) [OF application.hyps(1) application.prems(1)] by blast
  have "map (\<lambda>r. subst_value I nv d tg B' r \<sigma> \<tau>) rs = map (\<lambda>t. subst_value I nv d tg B t (\<sigma>(p := \<sigma> y)) \<tau>) args"
    by (rule list_all2_map_eq [OF rs(2)], rule application.IH, assumption+) (use application.prems in auto)
  then show ?case
    by (simp only: rs(1) subst_value_application [OF application.hyps(1)]
        subst_value_application [OF application_stays [OF application.hyps(1) rs(2)]])
next
  case (lambda e q b)
  have fresh: "y \<notin> insert q (symbols_in b)"
    using lambda.prems(2) by (auto simp: symbols_in_binder(1) [OF lambda.hyps])
  note scoped = subst_value_renamed_scoped [OF I _ fresh _ lambda.prems(3) lambda.IH]
  show ?case
  proof (rule subs_internal_lambda [OF lambda.hyps lambda.prems(1)])
    assume r: "q = p" "r = e"
    then have "p \<notin> free_in e" by (simp add: free_in_binder(1) [OF lambda.hyps])
    then show ?thesis unfolding r(2) by (rule subst_value_unchanged [OF I lambda.prems(3)]) (rule lambda.prems)
  next
    fix q' nb
    assume r: "q \<noteq> p" "r = to_expr (Lambda q' nb)" "subs_scoped (subs_next depth) q b p (Sym y) {y} = Inr (q', nb)"
    have body: "q' = q \<and> subst_value I nv d (if tg = Some q then None else tg) (insert q B') nb (\<sigma>(q := z)) \<tau>
      = subst_value I nv d (if tg = Some q then None else tg) (insert q B) b ((\<sigma>(p := \<sigma> y))(q := z)) \<tau>" for z
      by (rule scoped [OF r(3) r(1)]) (use fresh in simp_all)
    show ?thesis
      unfolding r(2) subst_value_binder(1) [OF try_from_to_expr] subst_value_binder(1) [OF lambda.hyps]
      by (simp only: body)
  qed
next
  case (definite e q b l u)
  have fresh: "y \<notin> insert q (symbols_in b)" "y \<notin> symbols_in l" "y \<notin> symbols_in u"
    using definite.prems(2) by (auto simp: symbols_in_binder(2) [OF definite.hyps])
  show ?case
  proof (rule subs_internal_definite [OF definite.hyps definite.prems(1)])
    fix q' nb l' u'
    assume r: "r = to_expr (Integral q' nb (Some (l', u')))"
      and nb: "if q = p then q' = q \<and> nb = b else subs_scoped (subs_next depth) q b p (Sym y) {y} = Inr (q', nb)"
      and lims: "subs_next depth l p (Sym y) {y} = Inr l'" "subs_next depth u p (Sym y) {y} = Inr u'"
    have limits: "subst_value I nv d tg B' l' \<sigma> \<tau> = subst_value I nv d tg B l (\<sigma>(p := \<sigma> y)) \<tau>"
      "subst_value I nv d tg B' u' \<sigma> \<tau> = subst_value I nv d tg B u (\<sigma>(p := \<sigma> y)) \<tau>"
      by (rule definite.IH(2) [OF lims(1) fresh(2) definite.prems(3)],
          rule definite.IH(3) [OF lims(2) fresh(3) definite.prems(3)])
    have body: "q' = q \<and> subst_value I nv d (if tg = Some q then None else tg) (insert q B') nb (\<sigma>(q := z)) \<tau>
      = subst_value I nv d (if tg = Some q then None else tg) (insert q B) b ((\<sigma>(p := \<sigma> y))(q := z)) \<tau>" for z
    proof (cases "q = p")
      case True
      have "subst_value I nv d (if tg = Some q then None else tg) (insert q B') b (\<sigma>(q := z)) \<tau>
        = subst_value I nv d (if tg = Some q then None else tg) (insert q B) b ((\<sigma>(p := \<sigma> y))(q := z)) \<tau>"
      proof (rule subst_value_agree [OF I])
        fix s
        assume "s \<in> free_in b"
        then have "s \<noteq> y" using fresh(1) free_in_symbols by blast
        then show "(\<sigma>(q := z)) s = ((\<sigma>(p := \<sigma> y))(q := z)) s \<and> (s \<in> insert q B' \<longleftrightarrow> s \<in> insert q B)"
          using True definite.prems(3) by (auto simp: renames_def)
      qed
      then show ?thesis using nb True by simp
    next
      case False
      then have run: "subs_scoped (subs_next depth) q b p (Sym y) {y} = Inr (q', nb)" using nb by simp
      show ?thesis
        by (rule subst_value_renamed_scoped [OF I run fresh(1) False definite.prems(3) definite.IH(1)])
          (use fresh in simp_all)
    qed
    show ?thesis
      unfolding r subst_value_binder(2) [OF try_from_to_expr] subst_value_binder(2) [OF definite.hyps]
      by (simp only: body limits)
  qed
next
  case (indefinite e v b)
  have fresh: "y \<notin> symbols_in b" "y \<noteq> v" "y \<notin> free_in b"
    using indefinite.prems(2) free_in_symbols by (auto simp: symbols_in_binder(3) [OF indefinite.hyps])
  note ren = indefinite.prems(3)
  note eqs = subst_value_binder(3) [OF try_from_to_expr] subst_value_binder(3) [OF indefinite.hyps]
  show ?case
  proof (rule subs_internal_indefinite [OF indefinite.hyps indefinite.prems(1)])
    fix w nb
    assume r: "v = p" "Sym y = Sym w" "r = to_expr (Integral w nb None)" "subs_next depth b p (Sym y) {y} = Inr nb"
    have "subst_value I nv d tg B' nb (\<sigma>(y := z)) \<tau> = subst_value I nv d tg B b ((\<sigma>(p := \<sigma> y))(p := z)) \<tau>" for z
    proof -
      have "subst_value I nv d tg B' nb (\<sigma>(y := z)) \<tau>
        = subst_value I nv d tg B b ((\<sigma>(y := z))(p := (\<sigma>(y := z)) y)) \<tau>"
        by (rule indefinite.IH [OF r(4) fresh(1) ren])
      also have "\<dots> = subst_value I nv d tg B b ((\<sigma>(p := \<sigma> y))(p := z)) \<tau>"
        by (rule subst_value_agree [OF I]) (use fresh in auto)
      finally show ?thesis .
    qed
    then have body: "(\<lambda>z. subst_value I nv d tg B' nb (\<sigma>(y := z)) \<tau>)
        = (\<lambda>z. subst_value I nv d tg B b ((\<sigma>(p := \<sigma> y))(p := z)) \<tau>)" by blast
    have scopes: "w = y" "v = p" "y \<in> B'" "p \<in> B" "tg \<noteq> Some y" "tg \<noteq> Some p" "(\<sigma>(p := \<sigma> y)) p = \<sigma> y"
      using ren r(1,2) by (auto simp: renames_def)
    show ?thesis unfolding r(3) eqs by (simp only: scopes if_False if_True body)
  next
    assume r: "v \<noteq> p" "p \<notin> free_in b" "r = e"
    then have "p \<notin> free_in e" by (simp add: free_in_binder(3) [OF indefinite.hyps])
    then show ?thesis unfolding r(3) by (rule subst_value_unchanged [OF I ren]) (rule indefinite.prems)
  next
    fix nb
    assume r: "v \<noteq> p" "r = to_expr (Integral v nb None)" "subs_next depth b p (Sym y) {y} = Inr nb"
    note IH = indefinite.IH [OF r(3) fresh(1) ren]
    have swap: "(\<sigma>(v := z))(p := (\<sigma>(v := z)) y) = (\<sigma>(p := \<sigma> y))(v := z)" for z
      using r(1) fresh(2) by (auto simp: fun_upd_def)
    have "(v \<in> B') = (v \<in> B)" using ren r(1) fresh(2) by (simp add: renames_def)
    moreover have "subst_value I nv d tg B' nb (\<sigma>(v := z)) t = subst_value I nv d tg B b ((\<sigma>(p := \<sigma> y))(v := z)) t" for z t
      unfolding IH swap by (rule refl)
    moreover have "subst_value I nv d tg B' nb (if w \<in> B' then \<sigma> else \<sigma>(w := z)) t
      = subst_value I nv d tg B b (if w \<in> B then \<sigma>(p := \<sigma> y) else (\<sigma>(p := \<sigma> y))(w := z)) t" for w z t
      unfolding IH by (rule subst_value_agree [OF I]) (use ren fresh in \<open>auto simp: renames_def\<close>)
    moreover have "(\<sigma>(p := \<sigma> y)) v = \<sigma> v" using r(1) by simp
    ultimately show ?thesis unfolding r(2) eqs by (simp only: split: option.splits)
  qed
next
  case (derivative e v b)
  have fresh: "y \<notin> symbols_in b" "y \<noteq> v" "y \<notin> free_in b"
    using derivative.prems(2) free_in_symbols by (auto simp: symbols_in_binder(4) [OF derivative.hyps])
  note ren = derivative.prems(3)
  note eqs = subst_value_binder(4) [OF try_from_to_expr] subst_value_binder(4) [OF derivative.hyps]
  have free: "free_in nb = replaced p {y} (free_in b)" if "subs_next depth b p (Sym y) {y} = Inr nb" for nb
    using subs_internal_free [of b p "Sym y" "depth + 1" nb] that by simp
  show ?case
  proof (rule subs_internal_derivative [OF derivative.hyps derivative.prems(1)])
    fix w nb
    assume r: "v = p" "Sym y = Sym w" "r = to_expr (Derivative w nb)" "subs_next depth b p (Sym y) {y} = Inr nb"
    have "subst_value I nv d tg B' nb (\<sigma>(y := z)) \<tau> = subst_value I nv d tg B b ((\<sigma>(p := \<sigma> y))(p := z)) \<tau>" for z
    proof -
      have "subst_value I nv d tg B' nb (\<sigma>(y := z)) \<tau>
        = subst_value I nv d tg B b ((\<sigma>(y := z))(p := (\<sigma>(y := z)) y)) \<tau>"
        by (rule derivative.IH [OF r(4) fresh(1) ren])
      also have "\<dots> = subst_value I nv d tg B b ((\<sigma>(p := \<sigma> y))(p := z)) \<tau>"
        by (rule subst_value_agree [OF I]) (use fresh in auto)
      finally show ?thesis .
    qed
    then have body: "(\<lambda>z. subst_value I nv d tg B' nb (\<sigma>(y := z)) \<tau>)
        = (\<lambda>z. subst_value I nv d tg B b ((\<sigma>(p := \<sigma> y))(p := z)) \<tau>)" by blast
    have scopes: "w = y" "v = p" "y \<in> B'" "p \<in> B" "tg \<noteq> Some y" "tg \<noteq> Some p" "(\<sigma>(p := \<sigma> y)) p = \<sigma> y"
      using ren r(1,2) by (auto simp: renames_def)
    show ?thesis unfolding r(3) eqs by (simp only: scopes if_False if_True body simp_thms)
  next
    assume r: "v \<noteq> p" "p \<notin> free_in b" "r = e"
    then have "p \<notin> free_in e" by (simp add: free_in_binder(4) [OF derivative.hyps])
    then show ?thesis unfolding r(3) by (rule subst_value_unchanged [OF I ren]) (rule derivative.prems)
  next
    fix nb
    assume r: "v \<noteq> p" "r = to_expr (Derivative v nb)" "subs_next depth b p (Sym y) {y} = Inr nb"
    note IH = derivative.IH [OF r(3) fresh(1) ren]
    have swap: "(\<sigma>(v := z))(p := (\<sigma>(v := z)) y) = (\<sigma>(p := \<sigma> y))(v := z)" for z
      using r(1) fresh(2) by (auto simp: fun_upd_def)
    have "(v \<in> free_in nb) = (v \<in> free_in b)" using free [OF r(3)] r(1) fresh(2) by (simp add: replaced_def)
    moreover have "subst_value I nv d tg B' nb (\<sigma>(v := z)) t = subst_value I nv d tg B b ((\<sigma>(p := \<sigma> y))(v := z)) t" for z t
      unfolding IH swap by (rule refl)
    moreover have "subst_value I nv d tg B' nb (if w \<in> B' then \<sigma> else \<sigma>(w := z)) t
      = subst_value I nv d tg B b (if w \<in> B then \<sigma>(p := \<sigma> y) else (\<sigma>(p := \<sigma> y))(w := z)) t" for w z t
      unfolding IH by (rule subst_value_agree [OF I]) (use ren fresh in \<open>auto simp: renames_def\<close>)
    moreover have "(\<sigma>(p := \<sigma> y)) v = \<sigma> v" using r(1) by simp
    ultimately show ?thesis unfolding r(2) eqs by (simp only: split: option.splits)
  qed
qed

text \<open>The main lemma: what the result of a substitution is worth.\<close>

definition new_variable :: "expr \<Rightarrow> symbol option \<Rightarrow> bool" where
  "new_variable a nv \<longleftrightarrow> (\<forall>w. a = Sym w \<longrightarrow> nv = Some w)"

definition separate :: "symbol set \<Rightarrow> symbol set \<Rightarrow> valuation \<Rightarrow> valuation \<Rightarrow> bool" where
  "separate A B \<sigma> \<tau> \<longleftrightarrow> (\<forall>s \<in> A. \<sigma> s = \<tau> s) \<and> A \<inter> B = {}"

lemma subst_value_scoped:
  assumes I: "constant_derivative I"
    and run: "subs_scoped (subs_next depth) p b x a (free_in a) = Inr (q, nb)" and "p \<noteq> x"
    and sep: "separate (free_in a) B \<sigma> \<tau>"
    and IH: "\<And>b r \<sigma> \<tau> B. subs_next depth b x a (free_in a) = Inr r \<Longrightarrow> separate (free_in a) B \<sigma> \<tau> \<Longrightarrow>
      eval I r \<sigma> = subst_value I nv (eval I a) (Some x) B b \<sigma> \<tau>"
  shows "eval I nb (\<sigma>(q := z)) = subst_value I nv (eval I a) (Some x) (insert p B) b (\<sigma>(p := z)) \<tau>"
proof -
  have fin: "finite (free_in a)" by simp
  from run fin show ?thesis
  proof (cases rule: subs_scoped_cases)
    case 1
    then show ?thesis by (simp add: subst_value_absent)
  next
    case 2
    have "separate (free_in a) (insert p B) (\<sigma>(p := z)) \<tau>" using sep 2 by (auto simp: separate_def)
    then show ?thesis unfolding 2(3) by (rule IH [OF 2(4)])
  next
    case (3 rb)
    have pq: "p \<noteq> q" using 3 by auto
    have "separate (free_in a) (insert q B) (\<sigma>(q := z)) \<tau>" using sep 3 by (auto simp: separate_def)
    then have "eval I nb (\<sigma>(q := z)) = subst_value I nv (eval I a) (Some x) (insert q B) rb (\<sigma>(q := z)) \<tau>"
      by (rule IH [OF 3(7)])
    also have "\<dots> = subst_value I nv (eval I a) (Some x) (insert p (insert q B)) b ((\<sigma>(q := z))(p := (\<sigma>(q := z)) q)) \<tau>"
    proof (rule subst_value_renamed [OF I 3(6) 3(3)])
      show "renames p q (insert p (insert q B)) (insert q B) (Some x)"
        using assms(3) 3(5) pq by (auto simp: renames_def)
    qed
    also have "\<dots> = subst_value I nv (eval I a) (Some x) (insert p B) b (\<sigma>(p := z)) \<tau>"
    proof (rule subst_value_agree [OF I])
      fix s
      assume "s \<in> free_in b"
      then have "s \<noteq> q" using 3(3) free_in_symbols by blast
      then show "((\<sigma>(q := z))(p := (\<sigma>(q := z)) q)) s = (\<sigma>(p := z)) s \<and> (s \<in> insert p (insert q B) \<longleftrightarrow> s \<in> insert p B)"
        by simp
    qed
    finally show ?thesis .
  qed
qed

text \<open>The two constructs that do not bind: an indefinite integral and a derivative.\<close>

lemma substituted_indefinite:
  assumes "constant_derivative I" and nv: "new_variable a nv" and sep: "separate (free_in a) B \<sigma> \<tau>"
    and e: "try_from_expr e = Some (Integral v b None)"
    and IH: "\<And>b r B \<sigma> \<tau>. subs_next depth b x a (free_in a) = Inr r \<Longrightarrow> separate (free_in a) B \<sigma> \<tau> \<Longrightarrow>
      eval I r \<sigma> = subst_value I nv (eval I a) (Some x) B b \<sigma> \<tau>"
  shows "v = x \<Longrightarrow> a = Sym w \<Longrightarrow> r = to_expr (Integral w nb None) \<Longrightarrow> subs_next depth b x a (free_in a) = Inr nb
      \<Longrightarrow> eval I r \<sigma> = subst_value I nv (eval I a) (Some x) B e \<sigma> \<tau>"
    and "v \<noteq> x \<Longrightarrow> x \<notin> free_in b \<Longrightarrow> r = e \<Longrightarrow> eval I r \<sigma> = subst_value I nv (eval I a) (Some x) B e \<sigma> \<tau>"
    and "v \<noteq> x \<Longrightarrow> r = to_expr (Integral v nb None) \<Longrightarrow> subs_next depth b x a (free_in a) = Inr nb
      \<Longrightarrow> eval I r \<sigma> = subst_value I nv (eval I a) (Some x) B e \<sigma> \<tau>"
proof -
  assume r: "v = x" "a = Sym w" "r = to_expr (Integral w nb None)" "subs_next depth b x a (free_in a) = Inr nb"
  have w: "w \<notin> B" "\<sigma> w = \<tau> w" "nv = Some w" using sep nv r(2) by (auto simp: separate_def new_variable_def)
  have "eval I nb (\<sigma>(w := z)) = subst_value I nv (eval I a) (Some x) B b (\<sigma>(w := z)) (\<tau>(w := z))" for z
    by (rule IH [OF r(4)]) (use sep r(2) in \<open>simp add: separate_def\<close>)
  then show "eval I r \<sigma> = subst_value I nv (eval I a) (Some x) B e \<sigma> \<tau>"
    unfolding r(3) subst_value_binder(3) [OF e] eval_to_expr by (simp only: r(1) w simp_thms if_False if_True option.case)
next
  assume "v \<noteq> x" "x \<notin> free_in b" "r = e"
  then show "eval I r \<sigma> = subst_value I nv (eval I a) (Some x) B e \<sigma> \<tau>"
    by (simp add: subst_value_absent free_in_binder(3) [OF e])
next
  assume r: "v \<noteq> x" "r = to_expr (Integral v nb None)" "subs_next depth b x a (free_in a) = Inr nb"
  have "eval I nb (\<sigma>(v := z))
      = subst_value I nv (eval I a) (Some x) B b (\<sigma>(v := z)) (if v \<in> B then \<tau> else \<tau>(v := z))" for z
    by (rule IH [OF r(3)]) (use sep in \<open>auto simp: separate_def\<close>)
  then show "eval I r \<sigma> = subst_value I nv (eval I a) (Some x) B e \<sigma> \<tau>"
    unfolding r(2) subst_value_binder(3) [OF e] eval_to_expr
    using r(1) [symmetric] by (simp only: option.inject if_False)
qed

lemma substituted_derivative:
  assumes I: "constant_derivative I" and nv: "new_variable a nv" and sep: "separate (free_in a) B \<sigma> \<tau>"
    and e: "try_from_expr e = Some (Derivative v b)"
    and IH: "\<And>b r B \<sigma> \<tau>. subs_next depth b x a (free_in a) = Inr r \<Longrightarrow> separate (free_in a) B \<sigma> \<tau> \<Longrightarrow>
      eval I r \<sigma> = subst_value I nv (eval I a) (Some x) B b \<sigma> \<tau>"
  shows "v = x \<Longrightarrow> a = Sym w \<Longrightarrow> w = v \<or> w \<notin> free_in b \<Longrightarrow> r = to_expr (Derivative w nb)
      \<Longrightarrow> subs_next depth b x a (free_in a) = Inr nb
      \<Longrightarrow> eval I r \<sigma> = subst_value I nv (eval I a) (Some x) B e \<sigma> \<tau>"
    and "v \<noteq> x \<Longrightarrow> x \<notin> free_in b \<Longrightarrow> r = e \<Longrightarrow> eval I r \<sigma> = subst_value I nv (eval I a) (Some x) B e \<sigma> \<tau>"
    and "v \<noteq> x \<Longrightarrow> v \<notin> free_in a \<Longrightarrow> r = to_expr (Derivative v nb) \<Longrightarrow> subs_next depth b x a (free_in a) = Inr nb
      \<Longrightarrow> eval I r \<sigma> = subst_value I nv (eval I a) (Some x) B e \<sigma> \<tau>"
proof -
  assume r: "v = x" "a = Sym w" "w = v \<or> w \<notin> free_in b" "r = to_expr (Derivative w nb)"
    "subs_next depth b x a (free_in a) = Inr nb"
  have w: "w \<notin> B" "\<sigma> w = \<tau> w" "nv = Some w" using sep nv r(2) by (auto simp: separate_def new_variable_def)
  have body: "eval I nb (\<sigma>(w := z)) = subst_value I nv (eval I a) (Some x) B b (\<sigma>(w := z)) (\<tau>(w := z))" for z
    by (rule IH [OF r(5)]) (use sep r(2) in \<open>simp add: separate_def\<close>)
  show "eval I r \<sigma> = subst_value I nv (eval I a) (Some x) B e \<sigma> \<tau>"
  proof (cases "v \<in> free_in b")
    case True
    then show ?thesis using body unfolding r(4) subst_value_binder(4) [OF e] eval_to_expr
      by (simp only: r(1) w simp_thms if_False if_True option.case)
  next
    case False
    have flat: "eval I b (\<sigma>(v := z)) = eval I b (\<sigma>(v := z'))" for z z'
      by (rule eval_free [OF I]) (use False in auto)
    have shift: "eval I b (\<sigma>(w := z)) = eval I b (\<sigma>(v := z))" for z
      by (rule eval_free [OF I]) (use False r(3) in auto)
    have "subst_value I nv (eval I a) (Some x) B b s t = eval I b s" for s t
      by (rule subst_value_absent) (use False r(1) in simp)
    then show ?thesis unfolding r(4) subst_value_binder(4) [OF e] eval_to_expr body
      using False constant_derivativeD [OF I flat] by (simp add: shift)
  qed
next
  assume "v \<noteq> x" "x \<notin> free_in b" "r = e"
  then show "eval I r \<sigma> = subst_value I nv (eval I a) (Some x) B e \<sigma> \<tau>"
    by (simp add: subst_value_absent free_in_binder(4) [OF e])
next
  assume r: "v \<noteq> x" "v \<notin> free_in a" "r = to_expr (Derivative v nb)" "subs_next depth b x a (free_in a) = Inr nb"
  have "eval I nb (\<sigma>(v := z)) = subst_value I nv (eval I a) (Some x) B b (\<sigma>(v := z)) \<tau>" for z
    by (rule IH [OF r(4)]) (use sep r(2) in \<open>auto simp: separate_def\<close>)
  then show "eval I r \<sigma> = subst_value I nv (eval I a) (Some x) B e \<sigma> \<tau>"
    unfolding r(3) subst_value_binder(4) [OF e] eval_to_expr
    using r(1) [symmetric] by (simp only: option.inject simp_thms if_False)
qed

theorem subs_internal_value:
  assumes I: "constant_derivative I" and nv: "new_variable a nv"
  shows "subs_internal e x a (free_in a) depth = Inr r \<Longrightarrow> separate (free_in a) B \<sigma> \<tau> \<Longrightarrow>
    eval I r \<sigma> = subst_value I nv (eval I a) (Some x) B e \<sigma> \<tau>"
proof (induction "MAX_BINDING_DEPTH + 1 - depth" arbitrary: e depth r B \<sigma> \<tau> rule: less_induct)
  case less
  have deep: "depth \<le> MAX_BINDING_DEPTH" using subs_internal_deep [OF less.prems(1)] by simp
  note sep = less.prems(2)
  have IH: "eval I r \<sigma> = subst_value I nv (eval I a) (Some x) B e \<sigma> \<tau>"
    if "subs_next depth e x a (free_in a) = Inr r" "separate (free_in a) B \<sigma> \<tau>" for e r B \<sigma> \<tau>
    by (rule less.hyps [OF _ that]) (use deep in simp)
  have lists: "map (\<lambda>r. eval I r \<sigma>) rs = map (\<lambda>t. subst_value I nv (eval I a) (Some x) B t \<sigma> \<tau>) ts"
    if "list_all2 (\<lambda>t r. subs_next depth t x a (free_in a) = Inr r) ts rs" for ts rs
    by (rule list_all2_map_eq [OF that]) (rule IH [OF _ sep])
  note scoped = subst_value_scoped [OF I _ _ sep IH]
  show ?case
  proof (cases e)
    case (Sym s)
    have "eval I a \<sigma> = eval I a \<tau>" by (rule eval_free [OF I]) (use sep in \<open>simp add: separate_def\<close>)
    then show ?thesis using less.prems(1) Sym by (auto dest!: subs_internal_leaf)
  next
    case (Add ts)
    obtain rs where "r = Add rs" "list_all2 (\<lambda>t r. subs_next depth t x a (free_in a) = Inr r) ts rs"
      using subs_internal_node(1) less.prems(1) Add by blast
    then show ?thesis using lists unfolding Add by simp
  next
    case (Mul ts)
    obtain rs where "r = Mul rs" "list_all2 (\<lambda>t r. subs_next depth t x a (free_in a) = Inr r) ts rs"
      using subs_internal_node(2) less.prems(1) Mul by blast
    then show ?thesis using lists unfolding Mul by simp
  next
    case (Pow b y)
    obtain b' y' where "r = Pow b' y'" "subs_next depth b x a (free_in a) = Inr b'"
        "subs_next depth y x a (free_in a) = Inr y'"
      using subs_internal_node(3) less.prems(1) Pow by blast
    then show ?thesis using IH [OF _ sep] unfolding Pow by simp
  next
    case (Function name args)
    show ?thesis
    proof (cases "try_from_expr e" rule: binder_cases)
      case application
      then obtain rs where rs: "r = Function name rs"
        "list_all2 (\<lambda>t r. subs_next depth t x a (free_in a) = Inr r) args rs"
        using less.prems(1) Function subs_internal_node(4) by blast
      show ?thesis
        using lists [OF rs(2)] application application_stays [OF _ rs(2)] unfolding Function rs(1)
        by (simp only: eval_application subst_value_application)
    next
      case (lambda p b)
      show ?thesis
      proof (rule subs_internal_lambda [OF lambda less.prems(1)])
        assume "p = x" "r = e"
        then show ?thesis by (simp add: subst_value_absent free_in_binder(1) [OF lambda])
      next
        fix q nb
        assume r: "p \<noteq> x" "r = to_expr (Lambda q nb)" "subs_scoped (subs_next depth) p b x a (free_in a) = Inr (q, nb)"
        then show ?thesis using scoped [OF r(3,1)]
          by (simp add: subst_value_binder(1) [OF lambda])
      qed
    next
      case (definite v b l u)
      show ?thesis
      proof (rule subs_internal_definite [OF definite less.prems(1)])
        fix q nb l' u'
        assume r: "r = to_expr (Integral q nb (Some (l', u')))"
          and body: "if v = x then q = v \<and> nb = b else subs_scoped (subs_next depth) v b x a (free_in a) = Inr (q, nb)"
          and lims: "subs_next depth l x a (free_in a) = Inr l'" "subs_next depth u x a (free_in a) = Inr u'"
        have "eval I nb (\<sigma>(q := z)) = subst_value I nv (eval I a) (if Some x = Some v then None else Some x) (insert v B) b (\<sigma>(v := z)) \<tau>" for z
          using body scoped by (cases "v = x") (simp_all add: subst_value_None)
        then show ?thesis using IH [OF lims(1) sep] IH [OF lims(2) sep]
          unfolding r subst_value_binder(2) [OF definite] eval_to_expr by simp
      qed
    next
      case (indefinite v b)
      show ?thesis
        by (rule subs_internal_indefinite [OF indefinite less.prems(1)])
          (use substituted_indefinite [OF I nv sep indefinite IH] in blast)+
    next
      case (derivative v b)
      show ?thesis
        by (rule subs_internal_derivative [OF derivative less.prems(1)])
          (use substituted_derivative [OF I nv sep derivative IH] in blast)+
    qed
  qed (use less.prems(1) in \<open>auto dest!: subs_internal_leaf\<close>)
qed

section \<open>Substitution and equality\<close>

lemma capture_avoiding_subs_run:
  assumes "capture_avoiding_subs e x a = Inr r"
  shows "subs_internal e x a (free_in a) 0 = Inr r"
proof -
  obtain F where "free_symbols a = Inr F" "subs_internal e x a F 0 = Inr r"
    using assms by (auto simp: capture_avoiding_subs_def)
  then show ?thesis using free_symbols by simp
qed

lemma capture_avoiding_subs_free:
  "capture_avoiding_subs e x a = Inr r \<Longrightarrow> free_in r = replaced x (free_in a) (free_in e)"
  by (rule subs_internal_free) (rule capture_avoiding_subs_run)

lemma same_variable:
  assumes "\<And>\<sigma>. eval I a \<sigma> = eval I b \<sigma>"
  shows "\<exists>nv. new_variable a nv \<and> new_variable b nv"
proof (cases "(\<exists>s. a = Sym s) \<and> (\<exists>t. b = Sym t)")
  case True
  then obtain s t where st: "a = Sym s" "b = Sym t" by blast
  have "s = t" using assms [of "\<lambda>y. if y = s then 1 else 0"] by (simp add: st split: if_splits)
  then show ?thesis by (auto simp: new_variable_def st)
next
  case False
  then show ?thesis by (cases a; cases b; auto simp: new_variable_def)
qed

text \<open>Equal replacements give equal results.\<close>

lemma subs_value_congruence:
  assumes I: "constant_derivative I" and same: "\<And>\<sigma>. eval I a \<sigma> = eval I b \<sigma>"
    and runs: "capture_avoiding_subs e x a = Inr r" "capture_avoiding_subs e x b = Inr r'"
  shows "eval I r \<sigma> = eval I r' \<sigma>"
proof -
  obtain nv where nv: "new_variable a nv" "new_variable b nv" using same_variable [OF same] by blast
  have "eval I a = eval I b" using same by blast
  then show ?thesis
    using subs_internal_value [OF I nv(1) capture_avoiding_subs_run [OF runs(1)], of "{}" \<sigma> \<sigma>]
      subs_internal_value [OF I nv(2) capture_avoiding_subs_run [OF runs(2)], of "{}" \<sigma> \<sigma>]
    by (simp add: separate_def)
qed

text \<open>
  Without an indefinite integral, and without a derivative in the target, the result is worth what
  the expression is where the target has the value of the replacement.
\<close>

function scoped_for :: "symbol \<Rightarrow> expr \<Rightarrow> bool" where
  "scoped_for x (Add ts) = (\<forall>t \<in> set ts. scoped_for x t)"
| "scoped_for x (Mul ts) = (\<forall>t \<in> set ts. scoped_for x t)"
| "scoped_for x (Pow b e) = (scoped_for x b \<and> scoped_for x e)"
| "scoped_for x (Function name args) =
     (case try_from_expr (Function name args) of
        Some (Lambda p b) \<Rightarrow> scoped_for x b
      | Some (Integral v b (Some (l, u))) \<Rightarrow> scoped_for x b \<and> scoped_for x l \<and> scoped_for x u
      | Some (Integral v b None) \<Rightarrow> False
      | Some (Derivative v b) \<Rightarrow> v \<noteq> x \<and> scoped_for x b
      | None \<Rightarrow> \<forall>a \<in> set args. scoped_for x a)"
| "scoped_for x (Sym s) = True"
| "scoped_for x (IntegerLit n) = True"
| "scoped_for x (RationalLit q) = True"
| "scoped_for x (Const c) = True"
  by pat_completeness auto
termination
  by (relation "measure (\<lambda>(_, e). size e)") (auto simp: size_arg dest: size_binder)

declare scoped_for.simps(4) [simp del]

lemma scoped_for_binder:
  "try_from_expr e = Some (Lambda p b) \<Longrightarrow> scoped_for x e \<longleftrightarrow> scoped_for x b"
  "try_from_expr e = Some (Integral v b (Some (l, u))) \<Longrightarrow>
     scoped_for x e \<longleftrightarrow> scoped_for x b \<and> scoped_for x l \<and> scoped_for x u"
  "try_from_expr e = Some (Integral v b None) \<Longrightarrow> \<not> scoped_for x e"
  "try_from_expr e = Some (Derivative v b) \<Longrightarrow> scoped_for x e \<longleftrightarrow> v \<noteq> x \<and> scoped_for x b"
  by (frule try_from_expr_Function, auto simp: scoped_for.simps(4))+

lemma scoped_for_application:
  "try_from_expr (Function name args) = None \<Longrightarrow>
     scoped_for x (Function name args) \<longleftrightarrow> (\<forall>a \<in> set args. scoped_for x a)"
  by (simp add: scoped_for.simps(4))

lemma subst_value_under:
  assumes "\<And>\<sigma> B. subst_value I nv d (Some x) B b \<sigma> \<tau> = eval I b (\<sigma>(x := z))"
  shows "subst_value I nv d (if Some x = Some p then None else Some x) B b (\<sigma>(p := y)) \<tau>
    = eval I b ((\<sigma>(x := z))(p := y))"
proof (cases "p = x")
  case True
  then show ?thesis by (simp only: if_True subst_value_None fun_upd_upd simp_thms)
next
  case False
  then show ?thesis
    using assms [of B "\<sigma>(p := y)"] fun_upd_twist [OF not_sym [OF False], of \<sigma> z y] not_sym [OF False]
    by (simp only: option.inject if_False)
qed

lemma subst_value_scoped_for:
  assumes d: "d \<tau> = Some z"
  shows "scoped_for x e \<Longrightarrow> subst_value I nv d (Some x) B e \<sigma> \<tau> = eval I e (\<sigma>(x := z))"
proof (induction e arbitrary: \<sigma> B rule: expr_binder_induct)
  case (Sym s)
  then show ?case using d by simp
next
  case (Add ts)
  have "subst_value I nv d (Some x) B t \<sigma> \<tau> = eval I t (\<sigma>(x := z))" if "t \<in> set ts" for t
    by (rule Add.IH [OF that]) (use Add.prems that in simp)
  then show ?case unfolding subst_value.simps eval.simps by (rule strict_map_cong)
next
  case (Mul ts)
  have "subst_value I nv d (Some x) B t \<sigma> \<tau> = eval I t (\<sigma>(x := z))" if "t \<in> set ts" for t
    by (rule Mul.IH [OF that]) (use Mul.prems that in simp)
  then show ?case unfolding subst_value.simps eval.simps by (rule strict_map_cong)
next
  case (application name args)
  have "subst_value I nv d (Some x) B t \<sigma> \<tau> = eval I t (\<sigma>(x := z))" if "t \<in> set args" for t
    by (rule application.IH [OF that])
      (use application.prems that scoped_for_application [OF application.hyps(1)] in simp)
  then show ?case
    unfolding subst_value_application [OF application.hyps(1)] eval_application [OF application.hyps(1)]
    by (rule strict_map_cong)
next
  case (lambda e p b)
  have "subst_value I nv d (if Some x = Some p then None else Some x) (insert p B) b (\<sigma>(p := y)) \<tau>
      = eval I b ((\<sigma>(x := z))(p := y))" for y
    by (rule subst_value_under [OF lambda.IH])
      (use lambda.prems in \<open>simp add: scoped_for_binder(1) [OF lambda.hyps]\<close>)
  then show ?case unfolding subst_value_binder(1) [OF lambda.hyps] eval_binder(1) [OF lambda.hyps] by simp
next
  case (definite e v b l u)
  note scoped = definite.prems [unfolded scoped_for_binder(2) [OF definite.hyps]]
  have body: "subst_value I nv d (if Some x = Some v then None else Some x) (insert v B) b (\<sigma>(v := y)) \<tau>
      = eval I b ((\<sigma>(x := z))(v := y))" for y
    by (rule subst_value_under [OF definite.IH(1)]) (use scoped in simp)
  show ?case unfolding subst_value_binder(2) [OF definite.hyps] eval_binder(2) [OF definite.hyps] body
    using definite.IH(2) [of B \<sigma>] definite.IH(3) [of B \<sigma>] scoped by (simp only:)
next
  case (indefinite e v b)
  then show ?case by (simp add: scoped_for_binder(3))
next
  case (derivative e v b)
  note scoped = derivative.prems [unfolded scoped_for_binder(4) [OF derivative.hyps]]
  have ne: "x \<noteq> v" and b: "scoped_for x b" using scoped by auto
  have "subst_value I nv d (if Some x = Some v then None else Some x) B b (\<sigma>(v := y)) \<tau>
      = eval I b ((\<sigma>(x := z))(v := y))" for y
    by (rule subst_value_under) (rule derivative.IH [OF b])
  then have "subst_value I nv d (Some x) B b (\<sigma>(v := y)) \<tau> = eval I b ((\<sigma>(x := z))(v := y))" for y
    using ne by (simp only: option.inject if_False)
  then show ?case using ne unfolding subst_value_binder(4) [OF derivative.hyps] eval_binder(4) [OF derivative.hyps]
    by simp
qed simp_all

lemma subs_value:
  assumes I: "constant_derivative I" and run: "capture_avoiding_subs e x a = Inr r"
    and z: "eval I a \<sigma> = Some z" and scoped: "scoped_for x e"
  shows "eval I r \<sigma> = eval I e (\<sigma>(x := z))"
proof -
  obtain nv where nv: "new_variable a nv" using same_variable [of I a a] by blast
  have "eval I r \<sigma> = subst_value I nv (eval I a) (Some x) {} e \<sigma> \<sigma>"
    by (rule subs_internal_value [OF I nv capture_avoiding_subs_run [OF run]]) (simp add: separate_def)
  then show ?thesis using subst_value_scoped_for [of "eval I a" \<sigma>, OF z scoped] by simp
qed

end
