(* ===== verification/Alpha_Equivalence.thy ===== *)
theory Alpha_Equivalence
  imports Bindings_Sound
begin

text \<open>
  What a De Bruijn term means, and that the translation of an expression keeps its value: two
  expressions with the same De Bruijn term have the same value at every valuation, so
  \<open>alpha_equivalent\<close> decides soundly.
\<close>

text \<open>
  The values of the enclosing binders' variables are listed innermost first. The variable of an
  indefinite integral or of a derivative is an operand: a free symbol or a bound position.
\<close>

fun operand :: "(valuation \<Rightarrow> complex list \<Rightarrow> complex option) \<Rightarrow> de_bruijn \<Rightarrow> valuation \<Rightarrow> complex list
    \<Rightarrow> ((complex \<Rightarrow> complex option) \<times> complex) option" where
  "operand f (DFree s) \<sigma> env = Some (\<lambda>z. f (\<sigma>(s := z)) env, \<sigma> s)"
| "operand f (DBound k) \<sigma> env = Some (\<lambda>z. f \<sigma> (env[k := z]), env ! k)"
| "operand f _ \<sigma> env = None"

function de_bruijn_value :: "interp \<Rightarrow> de_bruijn \<Rightarrow> valuation \<Rightarrow> complex list \<Rightarrow> complex option" where
  "de_bruijn_value I (DFree s) \<sigma> env = Some (\<sigma> s)"
| "de_bruijn_value I (DBound k) \<sigma> env = Some (env ! k)"
| "de_bruijn_value I (DInteger n) \<sigma> env = Some (of_int n)"
| "de_bruijn_value I (DRational q) \<sigma> env = Some (of_rat q)"
| "de_bruijn_value I (DConst c) \<sigma> env = constant_value c"
| "de_bruijn_value I (DAdd ts) \<sigma> env = strict (\<lambda>vs. Some (sum_list vs)) (map (\<lambda>t. de_bruijn_value I t \<sigma> env) ts)"
| "de_bruijn_value I (DMul ts) \<sigma> env = strict (\<lambda>vs. Some (prod_list vs)) (map (\<lambda>t. de_bruijn_value I t \<sigma> env) ts)"
| "de_bruijn_value I (DPow b e) \<sigma> env =
     Option.bind (de_bruijn_value I b \<sigma> env) (\<lambda>z. Option.bind (de_bruijn_value I e \<sigma> env) (\<lambda>w. power_value z w))"
| "de_bruijn_value I (DFunction name ts) \<sigma> env =
     (case (if name \<in> {''Integral'', ''Derivative''} \<and> length ts = 2
            then operand (de_bruijn_value I (hd ts)) (ts ! 1) \<sigma> env else None) of
        Some (f, z) \<Rightarrow> if name = ''Integral'' then i_primitive I f z else i_derivative I f z
      | None \<Rightarrow> strict (i_fun I name) (map (\<lambda>t. de_bruijn_value I t \<sigma> env) ts))"
| "de_bruijn_value I (DBinder name b) \<sigma> env = i_lambda I (\<lambda>z. de_bruijn_value I b \<sigma> (z # env))"
| "de_bruijn_value I (DBinderWithArguments name b ts) \<sigma> env =
     (case ts of
        [l, u] \<Rightarrow>
          i_definite I (\<lambda>z. de_bruijn_value I b \<sigma> (z # env)) (de_bruijn_value I l \<sigma> env) (de_bruijn_value I u \<sigma> env)
      | _ \<Rightarrow> None)"
  by pat_completeness auto
termination
  by (relation "measure (\<lambda>(_, t, _). size t)") (auto simp: less_Suc_eq_le size_list_estimation' length_Suc_conv numeral_2_eq_2)

section \<open>The translation keeps the value\<close>

definition scope_values :: "symbol list \<Rightarrow> valuation \<Rightarrow> complex list \<Rightarrow> bool" where
  "scope_values scope \<sigma> env \<longleftrightarrow>
     length env = length scope \<and> (\<forall>s k. position scope s = Some k \<longrightarrow> env ! k = \<sigma> s)"

lemma position_Some: "position scope s = Some k \<Longrightarrow> k < length scope \<and> scope ! k = s"
  by (induction scope arbitrary: k) (auto split: if_splits)

lemma position_None: "position scope s = None \<longleftrightarrow> s \<notin> set scope"
  by (induction scope) auto

lemma scope_values_Cons: "scope_values scope \<sigma> env \<Longrightarrow> scope_values (p # scope) (\<sigma>(p := z)) (z # env)"
  by (auto simp: scope_values_def)

lemma scope_values_free:
  "scope_values scope \<sigma> env \<Longrightarrow> position scope v = None \<Longrightarrow> scope_values scope (\<sigma>(v := z)) env"
  by (auto simp: scope_values_def)

lemma scope_values_bound:
  assumes "scope_values scope \<sigma> env" and "position scope v = Some k"
  shows "scope_values scope (\<sigma>(v := z)) (env[k := z])"
proof -
  have "env[k := z] ! j = (\<sigma>(v := z)) s" if j: "position scope s = Some j" for s j
  proof (cases "s = v")
    case True
    then show ?thesis using assms j position_Some [OF assms(2)] by (simp add: scope_values_def)
  next
    case False
    then have "j \<noteq> k" using position_Some [OF assms(2)] position_Some [OF j] by auto
    then show ?thesis using assms(1) j False by (simp add: scope_values_def)
  qed
  then show ?thesis using assms(1) by (simp add: scope_values_def)
qed

definition same_values :: "interp \<Rightarrow> expr \<Rightarrow> symbol list \<Rightarrow> de_bruijn \<Rightarrow> bool" where
  "same_values I e scope t \<longleftrightarrow>
     (\<forall>\<sigma> \<tau> env. scope_values scope \<sigma> env \<longrightarrow> (\<forall>s. s \<notin> set scope \<longrightarrow> \<tau> s = \<sigma> s)
       \<longrightarrow> eval I e \<sigma> = de_bruijn_value I t \<tau> env)"

lemma same_valuesD:
  "same_values I e scope t \<Longrightarrow> scope_values scope \<sigma> env \<Longrightarrow> \<forall>s. s \<notin> set scope \<longrightarrow> \<tau> s = \<sigma> s
    \<Longrightarrow> eval I e \<sigma> = de_bruijn_value I t \<tau> env"
  by (simp add: same_values_def)

lemma same_values_list:
  assumes "list_all2 (\<lambda>e t. same_values I e scope t) es ts"
    and "scope_values scope \<sigma> env" and "\<forall>s. s \<notin> set scope \<longrightarrow> \<tau> s = \<sigma> s"
  shows "map (\<lambda>e. eval I e \<sigma>) es = map (\<lambda>t. de_bruijn_value I t \<tau> env) ts"
  using assms(1) by induction (use same_valuesD assms(2,3) in auto)

lemma same_values_under:
  assumes "same_values I b (p # scope) t" and "scope_values scope \<sigma> env" and "\<forall>s. s \<notin> set scope \<longrightarrow> \<tau> s = \<sigma> s"
  shows "eval I b (\<sigma>(p := z)) = de_bruijn_value I t \<tau> (z # env)"
  by (rule same_valuesD [OF assms(1)]) (use assms(2,3) in \<open>auto intro: scope_values_Cons\<close>)

text \<open>The translated variable of an operator.\<close>

definition variable_term :: "symbol list \<Rightarrow> symbol \<Rightarrow> de_bruijn" where
  "variable_term scope v = (case position scope v of Some k \<Rightarrow> DBound k | None \<Rightarrow> DFree v)"

lemma operand_variable:
  assumes "same_values I b scope t" and "scope_values scope \<sigma> env" and "\<forall>s. s \<notin> set scope \<longrightarrow> \<tau> s = \<sigma> s"
  shows "operand (de_bruijn_value I t) (variable_term scope v) \<tau> env = Some (\<lambda>z. eval I b (\<sigma>(v := z)), \<sigma> v)"
proof (cases "position scope v")
  case None
  then have out: "v \<notin> set scope" by (simp add: position_None)
  have "eval I b (\<sigma>(v := z)) = de_bruijn_value I t (\<tau>(v := z)) env" for z
    by (rule same_valuesD [OF assms(1)]) (use scope_values_free [OF assms(2) None] assms(3) in auto)
  then show ?thesis using assms(3) out None by (simp add: variable_term_def)
next
  case (Some k)
  then have k: "env ! k = \<sigma> v" "v \<in> set scope"
    using assms(2) position_None [of scope v] by (auto simp: scope_values_def)
  have "eval I b (\<sigma>(v := z)) = de_bruijn_value I t \<tau> (env[k := z])" for z
    by (rule same_valuesD [OF assms(1)]) (use scope_values_bound [OF assms(2) Some] assms(3) k(2) in auto)
  then show ?thesis using k Some by (simp add: variable_term_def)
qed

lemma expr_to_de_bruijn_leaf:
  "expr_to_de_bruijn (Sym s) scope depth = Inr t \<Longrightarrow> t = variable_term scope s"
  by (subst (asm) expr_to_de_bruijn.simps) (auto simp: variable_term_def split: option.splits)

lemma expr_to_de_bruijn_variable:
  assumes "expr_to_de_bruijn e scope depth = Inr t" and "t = DFree s \<or> t = DBound k"
  shows "\<exists>v. e = Sym v"
proof -
  note run = assms(1) [unfolded expr_to_de_bruijn.simps [of e scope depth]]
  show ?thesis
  proof (cases e)
    case (Function name es)
    then show ?thesis using run assms(2) by (cases "try_from_expr e" rule: binder_cases) auto
  qed (use run assms(2) in auto)
qed

lemma expr_to_de_bruijn_not_operator:
  assumes "try_from_expr (Function name es) = None" and "name \<in> {''Integral'', ''Derivative''}"
    and "list_all2 (\<lambda>e t. expr_to_de_bruijn e scope depth = Inr t) es ts" and "length ts = 2"
  shows "operand f (ts ! 1) \<sigma> env = None"
proof -
  obtain b v where es: "es = [b, v]" using assms(3,4) by (auto simp: list_all2_Cons2 length_Suc_conv numeral_2_eq_2)
  then have v: "\<nexists>s. v = Sym s" using assms(1,2) by (auto simp: try_from_expr.simps)
  have "expr_to_de_bruijn v scope depth = Inr (ts ! 1)"
    using assms(3,4) es by (auto simp: list_all2_Cons1)
  then have "ts ! 1 \<noteq> DFree s" "ts ! 1 \<noteq> DBound k" for s k
    using expr_to_de_bruijn_variable v by metis+
  then show ?thesis by (cases "ts ! 1") simp_all
qed

theorem expr_to_de_bruijn_value:
  "expr_to_de_bruijn e scope depth = Inr t \<Longrightarrow> same_values I e scope t"
proof (induction "MAX_BINDING_DEPTH + 1 - depth" arbitrary: e scope depth t rule: less_induct)
  case less
  note run = less.prems [unfolded expr_to_de_bruijn.simps [of e scope depth]]
  have deep: "depth \<le> MAX_BINDING_DEPTH" using run by simp
  have IH: "same_values I e scope t" if "expr_to_de_bruijn e scope (depth + 1) = Inr t" for e scope t
    by (rule less.hyps [OF _ that]) (use deep in simp)
  have lists: "list_all2 (\<lambda>e t. same_values I e scope t) es ts"
    if "rtraverse (\<lambda>e. expr_to_de_bruijn e scope (depth + 1)) es = Inr ts" for es ts
    using that IH by (auto simp: rtraverse_Inr_iff elim: list.rel_mono_strong)
  show ?case
    unfolding same_values_def
  proof (intro allI impI)
    fix \<sigma> \<tau> env
    assume env: "scope_values scope \<sigma> env" and free: "\<forall>s. s \<notin> set scope \<longrightarrow> \<tau> s = \<sigma> s"
    note at = env free
    show "eval I e \<sigma> = de_bruijn_value I t \<tau> env"
    proof (cases e)
      case (Sym s)
      then show ?thesis using run at position_None [of scope s]
        by (auto simp: scope_values_def split: option.splits)
    next
      case (Add es)
      then obtain ts where "t = DAdd ts" "rtraverse (\<lambda>e. expr_to_de_bruijn e scope (depth + 1)) es = Inr ts"
        using run by auto
      then show ?thesis using same_values_list [OF lists at] Add by (simp only: eval.simps de_bruijn_value.simps)
    next
      case (Mul es)
      then obtain ts where "t = DMul ts" "rtraverse (\<lambda>e. expr_to_de_bruijn e scope (depth + 1)) es = Inr ts"
        using run by auto
      then show ?thesis using same_values_list [OF lists at] Mul by (simp only: eval.simps de_bruijn_value.simps)
    next
      case (Pow b x)
      then obtain b' x' where "t = DPow b' x'" "expr_to_de_bruijn b scope (depth + 1) = Inr b'"
          "expr_to_de_bruijn x scope (depth + 1) = Inr x'"
        using run by auto
      then show ?thesis using same_valuesD [OF IH at] Pow by simp
    next
      case (Function name es)
      show ?thesis
      proof (cases "try_from_expr e" rule: binder_cases)
        case application
        then obtain ts where ts: "t = DFunction name ts"
            "rtraverse (\<lambda>e. expr_to_de_bruijn e scope (depth + 1)) es = Inr ts"
          using run Function by auto
        have "operand f (ts ! 1) \<tau> env = None" if "name \<in> {''Integral'', ''Derivative''}" "length ts = 2" for f
          by (rule expr_to_de_bruijn_not_operator [OF application [unfolded Function] that(1) _ that(2)])
            (use ts(2) in \<open>simp add: rtraverse_Inr_iff\<close>)
        then have "(if name \<in> {''Integral'', ''Derivative''} \<and> length ts = 2
            then operand (de_bruijn_value I (hd ts)) (ts ! 1) \<tau> env else None) = None" by simp
        then show ?thesis using same_values_list [OF lists [OF ts(2)] at]
          unfolding Function ts(1) eval_application [OF application [unfolded Function]] de_bruijn_value.simps
          by (simp only: option.case)
      next
        case (lambda p b)
        then obtain d where "t = DBinder ''Lambda'' d" "expr_to_de_bruijn b (p # scope) (depth + 1) = Inr d"
          using run Function by auto
        then show ?thesis using same_values_under [OF IH at] eval_binder(1) [OF lambda] by simp
      next
        case (definite v b l u)
        then obtain d l' u' where "t = DBinderWithArguments ''Integral'' d [l', u']"
            "expr_to_de_bruijn b (v # scope) (depth + 1) = Inr d"
            "expr_to_de_bruijn l scope (depth + 1) = Inr l'" "expr_to_de_bruijn u scope (depth + 1) = Inr u'"
          using run Function by auto
        then show ?thesis using same_values_under [OF IH at] same_valuesD [OF IH at] eval_binder(2) [OF definite] by simp
      next
        case (indefinite v b)
        then obtain d w where t: "t = DFunction ''Integral'' [d, w]" "expr_to_de_bruijn b scope (depth + 1) = Inr d"
            "w = variable_term scope v"
          using run Function by (auto dest!: expr_to_de_bruijn_leaf)
        show ?thesis using operand_variable [OF IH [OF t(2)] at, of v]
          by (simp add: t(1,3) eval_binder(3) [OF indefinite])
      next
        case (derivative v b)
        then obtain d w where t: "t = DFunction ''Derivative'' [d, w]" "expr_to_de_bruijn b scope (depth + 1) = Inr d"
            "w = variable_term scope v"
          using run Function by (auto dest!: expr_to_de_bruijn_leaf)
        show ?thesis using operand_variable [OF IH [OF t(2)] at, of v]
          by (simp add: t(1,3) eval_binder(4) [OF derivative])
      qed
    qed (use run in auto)
  qed
qed

lemma alpha_equivalent_value:
  assumes "alpha_equivalent a b = Inr True"
  shows "eval I a \<sigma> = eval I b \<sigma>"
proof -
  obtain t where "expr_to_de_bruijn a [] 0 = Inr t" "expr_to_de_bruijn b [] 0 = Inr t"
    using assms by (auto simp: alpha_equivalent_def to_de_bruijn_def)
  then have "same_values I a [] t" "same_values I b [] t" by (auto intro: expr_to_de_bruijn_value)
  then show ?thesis using same_valuesD [of I _ "[]" t \<sigma> "[]" \<sigma>] by (simp add: scope_values_def)
qed

end
