(* ===== verification/Real_Balls.thy ===== *)
theory Real_Balls
  imports Complex_Main
begin

text \<open>
  Certified real balls of \<open>crates/fsym-core/src/ball.rs\<close>: the interval from \<open>m - r\<close> to \<open>m + r\<close> with
  rational midpoint and radius, the endpoint tests, and the arithmetic, each of which encloses what
  the operation does to the points of its arguments. The messages of \<open>BallError\<close> are dropped.
\<close>

section \<open>Balls\<close>

record real_ball =
  midpoint :: rat
  radius :: rat

datatype ball_error =
    DivisionByZero | NegativeRadius | IndeterminatePower | NonRealSquareRoot
  | ResourceLimitExceeded string nat nat | ArgumentOutsideDeclaredEnvelope | CanonicalEncoding

definition ball_new :: "rat \<Rightarrow> rat \<Rightarrow> ball_error + real_ball" where
  "ball_new m r = (if r < 0 then Inl NegativeRadius else Inr \<lparr>midpoint = m, radius = r\<rparr>)"

definition ball_exact :: "rat \<Rightarrow> real_ball" where
  "ball_exact q = \<lparr>midpoint = q, radius = 0\<rparr>"

definition lower :: "real_ball \<Rightarrow> rat" where
  "lower B = midpoint B - radius B"

definition upper :: "real_ball \<Rightarrow> rat" where
  "upper B = midpoint B + radius B"

definition ball_is_disjoint :: "real_ball \<Rightarrow> real_ball \<Rightarrow> bool" where
  "ball_is_disjoint B B' \<longleftrightarrow> upper B < lower B' \<or> upper B' < lower B"

definition diameter :: "real_ball \<Rightarrow> rat" where
  "diameter B = radius B * 2"

definition ball_contains :: "real_ball \<Rightarrow> rat \<Rightarrow> bool" where
  "ball_contains B x \<longleftrightarrow> x \<ge> lower B \<and> x \<le> upper B"

definition contains_ball :: "real_ball \<Rightarrow> real_ball \<Rightarrow> bool" where
  "contains_ball B B' \<longleftrightarrow> lower B' \<ge> lower B \<and> upper B' \<le> upper B"

definition contains_zero :: "real_ball \<Rightarrow> bool" where
  "contains_zero B \<longleftrightarrow> \<bar>midpoint B\<bar> \<le> radius B"

definition ball_is_positive :: "real_ball \<Rightarrow> bool" where
  "ball_is_positive B \<longleftrightarrow> lower B > 0"

definition ball_is_negative :: "real_ball \<Rightarrow> bool" where
  "ball_is_negative B \<longleftrightarrow> upper B < 0"

section \<open>Arithmetic\<close>

definition ball_add :: "real_ball \<Rightarrow> real_ball \<Rightarrow> real_ball" where
  "ball_add B B' = \<lparr>midpoint = midpoint B + midpoint B', radius = radius B + radius B'\<rparr>"

definition ball_sub :: "real_ball \<Rightarrow> real_ball \<Rightarrow> real_ball" where
  "ball_sub B B' = \<lparr>midpoint = midpoint B - midpoint B', radius = radius B + radius B'\<rparr>"

definition ball_neg :: "real_ball \<Rightarrow> real_ball" where
  "ball_neg B = \<lparr>midpoint = - midpoint B, radius = radius B\<rparr>"

definition ball_mul :: "real_ball \<Rightarrow> real_ball \<Rightarrow> real_ball" where
  "ball_mul B B' =
     \<lparr>midpoint = midpoint B * midpoint B',
      radius = \<bar>midpoint B\<bar> * radius B' + \<bar>midpoint B'\<bar> * radius B + radius B * radius B'\<rparr>"

definition ball_inv :: "real_ball \<Rightarrow> ball_error + real_ball" where
  "ball_inv B =
     (if contains_zero B then Inl DivisionByZero
      else
        let inv_low = 1 / upper B;
            inv_high = 1 / lower B
        in Inr \<lparr>midpoint = (inv_low + inv_high) / 2, radius = \<bar>(inv_high - inv_low) / 2\<bar>\<rparr>)"

definition ball_div :: "real_ball \<Rightarrow> real_ball \<Rightarrow> ball_error + real_ball" where
  "ball_div B B' = (case ball_inv B' of Inl e \<Rightarrow> Inl e | Inr inv_other \<Rightarrow> Inr (ball_mul B inv_other))"

definition ball_intersect :: "real_ball \<Rightarrow> real_ball \<Rightarrow> real_ball option" where
  "ball_intersect B B' =
     (let low = max (lower B) (lower B');
          high = min (upper B) (upper B')
      in if low > high then None
         else Some \<lparr>midpoint = (low + high) / 2, radius = (high - low) / 2\<rparr>)"

definition ball_abs :: "real_ball \<Rightarrow> real_ball" where
  "ball_abs B =
     (if lower B \<ge> 0 then B
      else if upper B \<le> 0 then ball_neg B
      else let half = max (- lower B) (upper B) / 2 in \<lparr>midpoint = half, radius = half\<rparr>)"

section \<open>Enclosure\<close>

lemma of_rat_abs: "(of_rat \<bar>q\<bar> :: real) = \<bar>of_rat q\<bar>"
  by (cases "0 \<le> q") (simp_all add: of_rat_minus)

lemma of_rat_max_min:
  "(of_rat (max p q) :: real) = max (of_rat p) (of_rat q)"
  "(of_rat (min p q) :: real) = min (of_rat p) (of_rat q)"
  by (simp_all add: max_def min_def of_rat_less_eq)

text \<open>The points of a ball.\<close>

definition encloses :: "real_ball \<Rightarrow> real \<Rightarrow> bool" where
  "encloses B x \<longleftrightarrow> \<bar>x - of_rat (midpoint B)\<bar> \<le> of_rat (radius B)"

lemma encloses_endpoints: "encloses B x \<longleftrightarrow> of_rat (lower B) \<le> x \<and> x \<le> of_rat (upper B)"
  by (auto simp: encloses_def lower_def upper_def of_rat_add of_rat_diff)

lemma encloses_ordered: "encloses B x \<Longrightarrow> 0 \<le> radius B" "encloses B x \<Longrightarrow> lower B \<le> upper B"
proof -
  assume "encloses B x"
  then have "(0::real) \<le> of_rat (radius B)" using abs_ge_zero unfolding encloses_def by (rule order_trans [rotated])
  then show "0 \<le> radius B" "lower B \<le> upper B" by (simp_all add: lower_def upper_def)
qed

lemma encloses_exact [simp]: "encloses (ball_exact q) x \<longleftrightarrow> x = of_rat q"
  by (auto simp: encloses_def ball_exact_def)

lemma ball_contains_iff: "ball_contains B x \<longleftrightarrow> encloses B (of_rat x)"
  by (simp add: ball_contains_def encloses_endpoints of_rat_less_eq)

lemma contains_ball_encloses: "contains_ball B B' \<Longrightarrow> encloses B' x \<Longrightarrow> encloses B x"
  unfolding contains_ball_def encloses_endpoints
  by (meson of_rat_less_eq order_trans)

lemma contains_zero_iff: "contains_zero B \<longleftrightarrow> encloses B 0"
proof -
  have "\<bar>of_rat (midpoint B) :: real\<bar> = of_rat \<bar>midpoint B\<bar>" by (rule of_rat_abs [symmetric])
  then show ?thesis by (simp add: contains_zero_def encloses_def of_rat_less_eq)
qed

lemma encloses_positive: "ball_is_positive B \<Longrightarrow> encloses B x \<Longrightarrow> 0 < x"
  unfolding ball_is_positive_def encloses_endpoints by (meson less_le_trans zero_less_of_rat_iff)

lemma encloses_negative: "ball_is_negative B \<Longrightarrow> encloses B x \<Longrightarrow> x < 0"
  unfolding ball_is_negative_def encloses_endpoints by (meson le_less_trans of_rat_less_0_iff)

lemma is_disjoint_encloses: "ball_is_disjoint B B' \<Longrightarrow> encloses B x \<Longrightarrow> \<not> encloses B' x"
  unfolding ball_is_disjoint_def encloses_endpoints by (meson le_less_trans not_le of_rat_less order_trans)

text \<open>Each operation encloses the results on the points of its arguments.\<close>

lemma ball_add: "encloses B x \<Longrightarrow> encloses B' y \<Longrightarrow> encloses (ball_add B B') (x + y)"
  by (auto simp: encloses_def ball_add_def of_rat_add)

lemma ball_sub: "encloses B x \<Longrightarrow> encloses B' y \<Longrightarrow> encloses (ball_sub B B') (x - y)"
  by (auto simp: encloses_def ball_sub_def of_rat_add of_rat_diff)

lemma ball_neg: "encloses B x \<Longrightarrow> encloses (ball_neg B) (- x)"
  by (auto simp: encloses_def ball_neg_def of_rat_minus)

lemma ball_mul:
  assumes "encloses B x" and "encloses B' y"
  shows "encloses (ball_mul B B') (x * y)"
proof -
  define m m' r r' where "m = (of_rat (midpoint B) :: real)" and "m' = (of_rat (midpoint B') :: real)"
    and "r = (of_rat (radius B) :: real)" and "r' = (of_rat (radius B') :: real)"
  have xy: "\<bar>x - m\<bar> \<le> r" "\<bar>y - m'\<bar> \<le> r'"
    using assms by (simp_all add: encloses_def m_def m'_def r_def r'_def)
  have triangle: "\<bar>a + b + c\<bar> \<le> \<bar>a\<bar> + \<bar>b\<bar> + \<bar>c\<bar>" for a b c :: real by linarith
  have "x * y - m * m' = m * (y - m') + m' * (x - m) + (x - m) * (y - m')" by (simp add: algebra_simps)
  also have "\<bar>\<dots>\<bar> \<le> \<bar>m\<bar> * \<bar>y - m'\<bar> + \<bar>m'\<bar> * \<bar>x - m\<bar> + \<bar>x - m\<bar> * \<bar>y - m'\<bar>"
    using triangle [of "m * (y - m')" "m' * (x - m)" "(x - m) * (y - m')"] by (simp only: abs_mult)
  also have "\<dots> \<le> \<bar>m\<bar> * r' + \<bar>m'\<bar> * r + r * r'"
    using xy by (intro add_mono mult_left_mono mult_mono) auto
  finally show ?thesis
    unfolding encloses_def ball_mul_def real_ball.simps of_rat_add of_rat_mult of_rat_abs m_def m'_def r_def r'_def .
qed

lemma ball_inv:
  assumes "ball_inv B = Inr B'" and "encloses B x"
  shows "x \<noteq> 0 \<and> encloses B' (1 / x)"
proof -
  have away: "\<not> encloses B 0" using assms(1) by (auto simp: ball_inv_def contains_zero_iff)
  define l u where "l = (of_rat (lower B) :: real)" and "u = (of_rat (upper B) :: real)"
  have x: "l \<le> x" "x \<le> u" and side: "0 < l \<or> u < 0"
    using assms(2) away by (auto simp: encloses_endpoints l_def u_def not_le)
  have middle: "\<bar>c - (b + a) / 2\<bar> \<le> \<bar>(a - b) / 2\<bar>" if "b \<le> c" "c \<le> a" for a b c :: real
    using that by (auto simp: abs_if field_simps)
  have same_sign: "0 < u * x" "0 < x * l"
    using side x by (auto simp: zero_less_mult_iff)
  have order: "1 / u \<le> 1 / x" "1 / x \<le> 1 / l"
    using x divide_left_mono [of x u 1] divide_left_mono [of l x 1] same_sign by (simp_all add: mult.commute)
  have B': "B' = \<lparr>midpoint = (1 / upper B + 1 / lower B) / 2, radius = \<bar>(1 / lower B - 1 / upper B) / 2\<bar>\<rparr>"
    using assms(1) by (auto simp: ball_inv_def Let_def split: if_splits)
  have "\<bar>1 / x - (1 / u + 1 / l) / 2\<bar> \<le> \<bar>(1 / l - 1 / u) / 2\<bar>"
    by (rule middle [OF order])
  then have "encloses B' (1 / x)"
    by (simp add: encloses_def B' l_def u_def of_rat_add of_rat_divide of_rat_diff of_rat_abs)
  then show ?thesis using x side by auto
qed

lemma ball_div: "ball_div B B' = Inr Q \<Longrightarrow> encloses B x \<Longrightarrow> encloses B' y \<Longrightarrow> y \<noteq> 0 \<and> encloses Q (x / y)"
  using ball_inv [of B'] ball_mul [of B x _ "1 / y"] by (auto simp: ball_div_def split: sum.splits)

lemma ball_intersect:
  "ball_intersect B B' = Some C \<Longrightarrow> encloses C x \<longleftrightarrow> encloses B x \<and> encloses B' x"
  "ball_intersect B B' = None \<Longrightarrow> \<not> (encloses B x \<and> encloses B' x)"
proof -
  let ?low = "max (lower B) (lower B')" and ?high = "min (upper B) (upper B')"
  have both: "encloses B x \<and> encloses B' x \<longleftrightarrow> of_rat ?low \<le> x \<and> x \<le> of_rat ?high"
    by (auto simp: encloses_endpoints of_rat_max_min)
  show "encloses C x \<longleftrightarrow> encloses B x \<and> encloses B' x" if "ball_intersect B B' = Some C"
  proof -
    have "C = \<lparr>midpoint = (?low + ?high) / 2, radius = (?high - ?low) / 2\<rparr>"
      using that by (simp add: ball_intersect_def Let_def split: if_splits)
    then have "lower C = ?low" "upper C = ?high" by (simp_all add: lower_def upper_def field_simps)
    then show ?thesis unfolding both by (simp only: encloses_endpoints)
  qed
  show "\<not> (encloses B x \<and> encloses B' x)" if "ball_intersect B B' = None"
  proof
    assume "encloses B x \<and> encloses B' x"
    then have "(of_rat ?low :: real) \<le> of_rat ?high" unfolding both by (blast intro: order_trans)
    then show False using that by (simp add: ball_intersect_def Let_def of_rat_less_eq split: if_splits)
  qed
qed

lemma ball_abs:
  assumes "encloses B x"
  shows "encloses (ball_abs B) \<bar>x\<bar>"
proof -
  have x: "of_rat (lower B) \<le> x" "x \<le> of_rat (upper B)" using assms by (simp_all add: encloses_endpoints)
  consider "0 \<le> lower B" | "\<not> 0 \<le> lower B" "upper B \<le> 0" | "\<not> 0 \<le> lower B" "\<not> upper B \<le> 0" by blast
  then show ?thesis
  proof cases
    case 1
    then have "0 \<le> x" using x(1) by (meson order_trans zero_le_of_rat_iff)
    then show ?thesis using 1 assms by (simp add: ball_abs_def)
  next
    case 2
    then have "x \<le> 0" using x(2) by (meson order_trans of_rat_le_0_iff)
    then show ?thesis using 2 ball_neg [OF assms] by (simp add: ball_abs_def)
  next
    case 3
    define h where "h = max (- lower B) (upper B)"
    have "\<bar>x\<bar> \<le> of_rat h" using x unfolding h_def of_rat_max_min of_rat_minus by linarith
    moreover have "ball_abs B = \<lparr>midpoint = h / 2, radius = h / 2\<rparr>"
      using 3 by (simp add: ball_abs_def h_def Let_def)
    moreover have "0 \<le> \<bar>x\<bar>" by simp
    ultimately show ?thesis unfolding encloses_def by (simp only: of_rat_divide of_rat_numeral_eq real_ball.simps)
  qed
qed

end
