(* ===== verification/Kernel_Claims.thy ===== *)
theory Kernel_Claims
  imports Real_Balls Contexts Expressions Metering Results
begin

text \<open>
  The propositions and the proof terms of \<open>crates/fsym-proof-kernel/src\<close>: \<open>Claim\<close> (\<open>claim.rs\<close>),
  \<open>ProofRule\<close>, \<open>StepId\<close> and \<open>CertificatePayload\<close> (\<open>rule.rs\<close>), \<open>KernelError\<close>, \<open>DerivationStep\<close> and
  \<open>DerivationTree\<close> (\<open>kernel.rs\<close>). The diagnostic texts of the errors are dropped; what an error
  names besides (a step, an expression, a claim, a rule, a family, a limit) is kept.
\<close>

datatype claim_kind =
    KindEquality | KindPredicateHold | KindDomainMembership | KindNonZero | KindAlgebraicIdentity
  | KindIrreducibleModPrime

datatype claim =
    Equality expr expr
  | PredicateHold expr predicate
  | DomainMembership expr domain
  | NonZeroClaim expr
  | AlgebraicIdentity expr expr
  | IrreducibleModPrime "int list" int

fun claim_kind_of :: "claim \<Rightarrow> claim_kind" where
  "claim_kind_of (Equality _ _) = KindEquality"
| "claim_kind_of (PredicateHold _ _) = KindPredicateHold"
| "claim_kind_of (DomainMembership _ _) = KindDomainMembership"
| "claim_kind_of (NonZeroClaim _) = KindNonZero"
| "claim_kind_of (AlgebraicIdentity _ _) = KindAlgebraicIdentity"
| "claim_kind_of (IrreducibleModPrime _ _) = KindIrreducibleModPrime"

fun claim_lhs :: "claim \<Rightarrow> expr option" where
  "claim_lhs (Equality lhs _) = Some lhs"
| "claim_lhs (AlgebraicIdentity lhs _) = Some lhs"
| "claim_lhs _ = None"

fun claim_rhs :: "claim \<Rightarrow> expr option" where
  "claim_rhs (Equality _ rhs) = Some rhs"
| "claim_rhs (AlgebraicIdentity _ rhs) = Some rhs"
| "claim_rhs _ = None"

definition MAX_MODULAR_IRREDUCIBILITY_DEGREE :: nat where
  "MAX_MODULAR_IRREDUCIBILITY_DEGREE = 64"

text \<open>A \<open>StepId\<close> wraps a \<open>u32\<close>.\<close>

type_synonym step_id = u32

datatype certificate_payload =
    RealBallCertificate real_ball
  | PolynomialNormalFormCertificate
  | RabinCertificate "int list" int
  | OpaqueCertificate "8 word list"

datatype proof_rule =
    Reflexivity expr
  | Symmetry step_id
  | Transitivity step_id step_id
  | CongruenceAdd "step_id list"
  | CongruenceMul "step_id list"
  | CongruencePow step_id step_id
  | CongruenceFunction string "step_id list"
  | ContextPredicate expr predicate
  | ContextDomain expr domain
  | SubstitutionRule expr symbol step_id
  | DefinitionalReduction expr expr string
  | CertificateLemma string claim certificate_payload

datatype kernel_error =
    UnknownStep step_id
  | InvalidStepReference step_id
  | RuleMismatch
  | TransitivityMismatch expr expr
  | SymmetryRequiresEquality claim
  | InvalidCongruence
  | InvalidSubstitution
  | PredicateNotEntailed expr predicate truth_value
  | DomainNotEntailed expr domain
  | InvalidDefinitionalReduction string
  | ClaimDiscrepancy claim claim
  | UnverifiedCertificateLemma string
  | InvalidCertificateLemma string
  | DerivationLimitExceeded string nat
  | StepIdExhausted
  | KernelBudget meter_error

record derivation_step =
  step_ident :: step_id
  step_rule :: proof_rule
  step_claim :: claim

record derivation_tree =
  tree_steps :: "derivation_step list"
  tree_root :: step_id

end
