(* ===== verification/Ordered_Maps.thy ===== *)
theory Ordered_Maps
  imports Main
begin

text \<open>
  A \<open>BTreeMap\<close> as the list of its entries in ascending order of the keys, which is what iterating
  it yields. \<open>map_of\<close> is \<open>get\<close>; insertion replaces the value of a key that is present.
\<close>

fun bt_insert :: "'k::linorder \<Rightarrow> 'v \<Rightarrow> ('k \<times> 'v) list \<Rightarrow> ('k \<times> 'v) list" where
  "bt_insert k v [] = [(k, v)]"
| "bt_insert k v ((k', v') # m) =
     (if k < k' then (k, v) # (k', v') # m
      else if k = k' then (k, v) # m
      else (k', v') # bt_insert k v m)"

fun bt_remove :: "'k::linorder \<Rightarrow> ('k \<times> 'v) list \<Rightarrow> ('k \<times> 'v) list" where
  "bt_remove k [] = []"
| "bt_remove k ((k', v') # m) = (if k = k' then m else (k', v') # bt_remove k m)"

definition bt_ok :: "('k::linorder \<times> 'v) list \<Rightarrow> bool" where
  "bt_ok m \<longleftrightarrow> sorted_wrt (<) (map fst m)"

lemma bt_ok_simps [simp]:
  "bt_ok []"
  "bt_ok ((k, v) # m) \<longleftrightarrow> (\<forall>x \<in> fst ` set m. k < x) \<and> bt_ok m"
  by (auto simp: bt_ok_def)

lemma bt_remove_absent: "k \<notin> fst ` set m \<Longrightarrow> bt_remove k m = m"
  by (induction k m rule: bt_remove.induct) auto

lemma bt_ok_distinct: "bt_ok m \<Longrightarrow> distinct (map fst m)"
  by (simp add: bt_ok_def strict_sorted_iff)

lemma map_of_bt_insert [simp]: "map_of (bt_insert k v m) = (map_of m)(k \<mapsto> v)"
  by (induction k v m rule: bt_insert.induct) auto

lemma bt_keys_insert [simp]: "fst ` set (bt_insert k v m) = insert k (fst ` set m)"
  by (induction k v m rule: bt_insert.induct) auto

lemma bt_ok_insert [simp]: "bt_ok m \<Longrightarrow> bt_ok (bt_insert k v m)"
  by (induction k v m rule: bt_insert.induct) auto

lemma bt_keys_remove: "bt_ok m \<Longrightarrow> fst ` set (bt_remove k m) = fst ` set m - {k}"
  by (induction k m rule: bt_remove.induct) auto

lemma bt_ok_remove [simp]: "bt_ok m \<Longrightarrow> bt_ok (bt_remove k m)"
  by (induction k m rule: bt_remove.induct) (auto simp: bt_keys_remove)

lemma set_bt_remove: "set (bt_remove k m) \<subseteq> set m"
  by (induction k m rule: bt_remove.induct) auto

lemma set_bt_insert: "set (bt_insert k v m) \<subseteq> insert (k, v) (set m)"
  by (induction k v m rule: bt_insert.induct) auto

lemma map_of_bt_remove [simp]: "bt_ok m \<Longrightarrow> map_of (bt_remove k m) = (map_of m)(k := None)"
proof (induction k m rule: bt_remove.induct)
  case (2 k k' v' m)
  show ?case
  proof (cases "k = k'")
    case True
    then have "k \<notin> fst ` set m" using 2 by auto
    then show ?thesis using True by (auto simp: fun_eq_iff map_of_eq_None_iff)
  qed (use 2 in auto)
qed simp

lemma bt_ok_unique: "bt_ok m \<Longrightarrow> bt_ok n \<Longrightarrow> map_of m = map_of n \<Longrightarrow> m = n"
proof (induction m arbitrary: n)
  case Nil
  then show ?case by (metis map_of_eq_empty_iff)
next
  case (Cons e m)
  obtain k v where e: "e = (k, v)" by (cases e)
  have "map_of n k = Some v" using fun_cong [OF Cons.prems(3), of k] e by simp
  then obtain k' v' n' where n: "n = (k', v') # n'" by (cases n) auto
  have look: "(map_of m)(k \<mapsto> v) = (map_of n')(k' \<mapsto> v')" 
    using Cons.prems(3) by (simp only: e n map_of.simps fst_conv snd_conv)
  have keys: "insert k (fst ` set m) = insert k' (fst ` set n')"
    using arg_cong [OF look, of dom] by (simp add: dom_map_of_conv_image_fst)
  have "k = k'"
  proof (rule antisym)
    show "k \<le> k'" using Cons.prems(1) e keys by (force simp: less_imp_le)
    show "k' \<le> k" using Cons.prems(2) n keys by (force simp: less_imp_le)
  qed
  moreover have "k \<notin> fst ` set m" "k' \<notin> fst ` set n'" using Cons.prems e n by auto
  ultimately have "map_of m = map_of n'" "v = v'"
    using look by (metis fun_upd_triv fun_upd_upd map_of_eq_None_iff, metis fun_upd_same option.inject)
  then show ?case using Cons.IH [of n'] Cons.prems e n \<open>k = k'\<close> by simp
qed

text \<open>Sums and products over the entries.\<close>

lemma bt_sum_remove:
  fixes f :: "'k::linorder \<Rightarrow> 'v \<Rightarrow> 'a::comm_monoid_add"
  shows "(\<Sum>(k, v)\<leftarrow>m. f k v) = (case map_of m k of None \<Rightarrow> 0 | Some v \<Rightarrow> f k v) + (\<Sum>(k, v)\<leftarrow>bt_remove k m. f k v)"
  by (induction k m rule: bt_remove.induct) (auto simp: ac_simps)

lemma bt_sum_insert:
  fixes f :: "'k::linorder \<Rightarrow> 'v \<Rightarrow> 'a::comm_monoid_add"
  shows "bt_ok m \<Longrightarrow> (\<Sum>(k, v)\<leftarrow>bt_insert k v m. f k v) = f k v + (\<Sum>(k, v)\<leftarrow>bt_remove k m. f k v)"
proof (induction k v m rule: bt_insert.induct)
  case (2 k v k' v' m)
  have "bt_remove k m = m" if "k < k'"
    by (rule bt_remove_absent) (use 2 that in auto)
  then show ?case using 2 by (auto simp: ac_simps)
qed simp

lemma bt_prod_remove:
  fixes f :: "'k::linorder \<Rightarrow> 'v \<Rightarrow> 'a::comm_monoid_mult"
  shows "(\<Prod>(k, v)\<leftarrow>m. f k v) = (case map_of m k of None \<Rightarrow> 1 | Some v \<Rightarrow> f k v) * (\<Prod>(k, v)\<leftarrow>bt_remove k m. f k v)"
  by (induction k m rule: bt_remove.induct) (auto simp: ac_simps)

lemma bt_prod_insert:
  fixes f :: "'k::linorder \<Rightarrow> 'v \<Rightarrow> 'a::comm_monoid_mult"
  shows "bt_ok m \<Longrightarrow> (\<Prod>(k, v)\<leftarrow>bt_insert k v m. f k v) = f k v * (\<Prod>(k, v)\<leftarrow>bt_remove k m. f k v)"
proof (induction k v m rule: bt_insert.induct)
  case (2 k v k' v' m)
  have "bt_remove k m = m" if "k < k'"
    by (rule bt_remove_absent) (use 2 that in auto)
  then show ?case using 2 by (auto simp: ac_simps)
qed simp

end
