(* ===== verification/Poly_Normal.thy ===== *)
theory Poly_Normal
  imports Expressions Results Ordered_Maps Substrate "HOL-Library.Code_Target_Numeral"
begin

text \<open>
  The bounded polynomial normal form of \<open>crates/fsym-proof-kernel/src/kernel.rs\<close>. A monomial is the
  sorted list of its atoms with their exponents and a polynomial maps monomials to rational
  coefficients; the node budget is threaded through the traversal. A message of the code is a
  constructor of \<open>norm_error\<close> here.
\<close>

section \<open>Bounds\<close>

definition MAX_NORMAL_FORM_TERMS :: nat where
  "MAX_NORMAL_FORM_TERMS = 4096"

definition MAX_NORMAL_FORM_EXPONENT :: nat where
  "MAX_NORMAL_FORM_EXPONENT = 64"

definition MAX_NORMAL_FORM_COEFFICIENT_LIMBS :: nat where
  "MAX_NORMAL_FORM_COEFFICIENT_LIMBS = 4096"

definition MAX_NORMAL_FORM_INPUT_NODES :: nat where
  "MAX_NORMAL_FORM_INPUT_NODES = 16384"

definition MAX_NORMAL_FORM_DEPTH :: nat where
  "MAX_NORMAL_FORM_DEPTH = 256"

datatype norm_error =
    CoefficientBound | TermBound | ExponentOverflow | ExponentBound | TermCountOverflow
  | ProductTermBound | InputDepthBound | InputNodeBound | NotPolynomialPower
  | NonFiniteConstant | FunctionApplication

type_synonym monomial = "(expr \<times> nat) list"
type_synonym polynomial = "(monomial \<times> rat) list"

text \<open>\<open>BigInt::bits\<close> and \<open>BigInt::limb_count\<close>; a magnitude has fewer than \<open>2 ^ 64\<close> bits.\<close>

definition int_bits :: "int \<Rightarrow> nat" where
  "int_bits n = bit_length (nat \<bar>n\<bar>)"

definition int_limb_count :: "int \<Rightarrow> nat" where
  "int_limb_count n = div_ceil (int_bits n) 64"

definition numer :: "rat \<Rightarrow> int" where
  "numer q = fst (quotient_of q)"

definition denom :: "rat \<Rightarrow> int" where
  "denom q = snd (quotient_of q)"

definition coefficient_is_bounded :: "rat \<Rightarrow> bool" where
  "coefficient_is_bounded q \<longleftrightarrow>
     int_limb_count (numer q) \<le> MAX_NORMAL_FORM_COEFFICIENT_LIMBS
     \<and> int_limb_count (denom q) \<le> MAX_NORMAL_FORM_COEFFICIENT_LIMBS"

section \<open>Arithmetic of polynomials\<close>

definition atomic_polynomial :: "expr \<Rightarrow> polynomial" where
  "atomic_polynomial atom = [([(atom, 1)], 1)]"

definition constant_polynomial :: "rat \<Rightarrow> polynomial" where
  "constant_polynomial coefficient = (if coefficient = 0 then [] else [([], coefficient)])"

definition insert_coefficient :: "polynomial \<Rightarrow> monomial \<Rightarrow> rat \<Rightarrow> norm_error + polynomial" where
  "insert_coefficient p m coefficient =
     (let combined = (case map_of p m of Some existing \<Rightarrow> existing + coefficient | None \<Rightarrow> coefficient);
          removed = bt_remove m p
      in rbind (rguard (coefficient_is_bounded combined) CoefficientBound) (\<lambda>_.
         if combined \<noteq> 0 then
           let p' = bt_insert m combined removed
           in rbind (rguard (length p' \<le> MAX_NORMAL_FORM_TERMS) TermBound) (\<lambda>_. Inr p')
         else Inr removed))"

definition add_exponent :: "expr \<times> nat \<Rightarrow> monomial \<Rightarrow> norm_error + monomial" where
  "add_exponent factor exponents =
     (let atom = fst factor;
          combined = (case map_of exponents atom of Some n \<Rightarrow> n | None \<Rightarrow> 0) + snd factor
      in rbind (rguard (combined < 2 ^ 32) ExponentOverflow) (\<lambda>_.
         rbind (rguard (combined \<le> MAX_NORMAL_FORM_EXPONENT) ExponentBound) (\<lambda>_.
         Inr (bt_insert atom combined exponents))))"

definition multiply_monomials :: "monomial \<Rightarrow> monomial \<Rightarrow> norm_error + monomial" where
  "multiply_monomials lhs rhs = rfold add_exponent (lhs @ rhs) []"

definition add_polynomials :: "polynomial \<Rightarrow> polynomial \<Rightarrow> norm_error + polynomial" where
  "add_polynomials lhs rhs = rfold (\<lambda>(m, coefficient) sum. insert_coefficient sum m coefficient) rhs lhs"

definition multiply_polynomials :: "polynomial \<Rightarrow> polynomial \<Rightarrow> norm_error + polynomial" where
  "multiply_polynomials lhs rhs =
     (if lhs = [] \<or> rhs = [] then Inr []
      else
        rbind (rguard (length lhs * length rhs < usize_modulus) TermCountOverflow) (\<lambda>_.
        rbind (rguard (length lhs * length rhs \<le> MAX_NORMAL_FORM_TERMS) ProductTermBound) (\<lambda>_.
        rfold (\<lambda>(lhs_m, lhs_c). rfold (\<lambda>(rhs_m, rhs_c) product.
            rbind (multiply_monomials lhs_m rhs_m) (\<lambda>m.
            insert_coefficient product m (lhs_c * rhs_c))) rhs) lhs [])))"

text \<open>The \<open>while\<close> loop of \<open>pow_polynomial\<close>.\<close>

fun pow_loop_polynomial :: "polynomial \<Rightarrow> polynomial \<Rightarrow> nat \<Rightarrow> norm_error + polynomial" where
  "pow_loop_polynomial result base exponent =
     (if exponent = 0 then Inr result
      else
        rbind (if odd exponent then multiply_polynomials result base else Inr result) (\<lambda>result.
        let exponent' = exponent div 2
        in rbind (if 0 < exponent' then multiply_polynomials base base else Inr base) (\<lambda>base.
           pow_loop_polynomial result base exponent')))"

declare pow_loop_polynomial.simps [simp del]

definition pow_polynomial :: "polynomial \<Rightarrow> nat \<Rightarrow> norm_error + polynomial" where
  "pow_polynomial base exponent = pow_loop_polynomial (constant_polynomial 1) base exponent"

section \<open>Normalization\<close>

text \<open>\<open>NormalizationBudget\<close>, with its remaining nodes as the state.\<close>

definition budget_visit :: "nat \<Rightarrow> nat \<Rightarrow> norm_error + nat" where
  "budget_visit depth remaining_nodes =
     rbind (rguard (depth \<le> MAX_NORMAL_FORM_DEPTH) InputDepthBound) (\<lambda>_.
     rbind (rguard (0 < remaining_nodes) InputNodeBound) (\<lambda>_. Inr (remaining_nodes - 1)))"

text \<open>A literal exponent in the bounds of the fragment.\<close>

definition fragment_exponent :: "expr \<Rightarrow> nat option" where
  "fragment_exponent e =
     (case e of
        IntegerLit n \<Rightarrow> if 0 \<le> n \<and> n \<le> int MAX_NORMAL_FORM_EXPONENT then Some (nat n) else None
      | _ \<Rightarrow> None)"

text \<open>
  \<open>apps\<close> tells \<open>normalize_function_polynomial_inner\<close>, where an application is an atom, from
  \<open>normalize_polynomial_inner\<close>, where it is refused; the two agree in everything else.
\<close>

fun normalize_inner :: "bool \<Rightarrow> expr \<Rightarrow> nat \<Rightarrow> nat \<Rightarrow> norm_error + (polynomial \<times> nat)" where
  "normalize_inner apps e depth budget =
     rbind (budget_visit depth budget) (\<lambda>budget.
     case e of
       IntegerLit v \<Rightarrow>
         rbind (rguard (coefficient_is_bounded (of_int v)) CoefficientBound) (\<lambda>_.
         Inr (constant_polynomial (of_int v), budget))
     | RationalLit v \<Rightarrow>
         rbind (rguard (coefficient_is_bounded v) CoefficientBound) (\<lambda>_.
         Inr (constant_polynomial v, budget))
     | Add terms \<Rightarrow>
         rfold (\<lambda>term (sum, budget).
           rbind (normalize_inner apps term (depth + 1) budget) (\<lambda>(p, budget).
           rbind (add_polynomials sum p) (\<lambda>sum. Inr (sum, budget)))) terms ([], budget)
     | Mul factors \<Rightarrow>
         rfold (\<lambda>factor (product, budget).
           rbind (normalize_inner apps factor (depth + 1) budget) (\<lambda>(p, budget).
           rbind (multiply_polynomials product p) (\<lambda>product. Inr (product, budget))))
           factors (constant_polynomial 1, budget)
     | Pow base exponent \<Rightarrow>
         (case fragment_exponent exponent of
            Some n \<Rightarrow>
              rbind (normalize_inner apps base (depth + 1) budget) (\<lambda>(p, budget).
              rbind (pow_polynomial p n) (\<lambda>q. Inr (q, budget)))
          | None \<Rightarrow> Inl NotPolynomialPower)
     | Sym _ \<Rightarrow> Inr (atomic_polynomial e, budget)
     | Const c \<Rightarrow>
         if c \<in> {CPi, CE, CI} then Inr (atomic_polynomial e, budget) else Inl NonFiniteConstant
     | Function _ _ \<Rightarrow>
         if apps then Inr (atomic_polynomial e, budget) else Inl FunctionApplication)"

declare normalize_inner.simps [simp del]

definition normalize_polynomial :: "expr \<Rightarrow> norm_error + polynomial" where
  "normalize_polynomial e =
     rbind (normalize_inner False e 0 MAX_NORMAL_FORM_INPUT_NODES) (\<lambda>(p, _). Inr p)"

definition normalize_function_polynomial :: "expr \<Rightarrow> norm_error + polynomial" where
  "normalize_function_polynomial e =
     rbind (normalize_inner True e 0 MAX_NORMAL_FORM_INPUT_NODES) (\<lambda>(p, _). Inr p)"

datatype normal_form_refusal = LhsRefused norm_error | RhsRefused norm_error | NormalFormsDiffer

definition check_polynomial_normal_form :: "expr \<Rightarrow> expr \<Rightarrow> normal_form_refusal + unit" where
  "check_polynomial_normal_form lhs rhs =
     rbind (rmap_err LhsRefused (normalize_polynomial lhs)) (\<lambda>lhs_normal.
     rbind (rmap_err RhsRefused (normalize_polynomial rhs)) (\<lambda>rhs_normal.
     rguard (lhs_normal = rhs_normal) NormalFormsDiffer))"

end
