(* ===== verification/Ball_Checker.thy ===== *)
theory Ball_Checker
  imports Kernel_Claims Poly_Normal
begin

text \<open>
  The real-ball certificates of \<open>crates/fsym-proof-kernel/src/kernel.rs\<close>: projected limb counts that
  are checked before an operation is carried out, the evaluation of a ground expression to a ball,
  and the claims that a ball supports. Limb counts are \<open>u64\<close> values, and overflow is refused.
\<close>

section \<open>Limb counts\<close>

definition MAX_DERIVATION_NUMERIC_LIMBS :: nat where
  "MAX_DERIVATION_NUMERIC_LIMBS = 262144"

definition numeric_limb_limit_error :: kernel_error where
  "numeric_limb_limit_error =
     DerivationLimitExceeded ''RealBall intermediate numeric limbs'' MAX_DERIVATION_NUMERIC_LIMBS"

definition checked_limb_sum :: "nat \<Rightarrow> nat \<Rightarrow> kernel_error + nat" where
  "checked_limb_sum lhs rhs = (if lhs + rhs < 2 ^ 64 then Inr (lhs + rhs) else Inl numeric_limb_limit_error)"

definition projected_limb_count :: "nat \<Rightarrow> nat \<Rightarrow> nat \<Rightarrow> kernel_error + nat" where
  "projected_limb_count input_limbs multiplier overhead =
     (if input_limbs * multiplier < 2 ^ 64 \<and> input_limbs * multiplier + overhead < 2 ^ 64
      then Inr (input_limbs * multiplier + overhead) else Inl numeric_limb_limit_error)"

definition rational_limb_count :: "rat \<Rightarrow> kernel_error + nat" where
  "rational_limb_count value = checked_limb_sum (int_limb_count (numer value)) (int_limb_count (denom value))"

definition real_ball_limb_count :: "real_ball \<Rightarrow> kernel_error + nat" where
  "real_ball_limb_count ball =
     rbind (rational_limb_count (midpoint ball)) (\<lambda>m.
     rbind (rational_limb_count (radius ball)) (\<lambda>r. checked_limb_sum m r))"

definition ensure_projected_limb_count :: "nat \<Rightarrow> kernel_error + unit" where
  "ensure_projected_limb_count projected =
     (if projected > MAX_DERIVATION_NUMERIC_LIMBS then Inl numeric_limb_limit_error else Inr ())"

definition ensure_real_ball_bounds_fit :: "real_ball \<Rightarrow> kernel_error + unit" where
  "ensure_real_ball_bounds_fit ball =
     rbind (real_ball_limb_count ball) (\<lambda>limbs.
     rbind (projected_limb_count limbs 2 1) ensure_projected_limb_count)"

section \<open>Checked arithmetic\<close>

definition fitting :: "real_ball \<Rightarrow> kernel_error + real_ball" where
  "fitting result = rbind (ensure_real_ball_bounds_fit result) (\<lambda>_. Inr result)"

definition checked_real_ball_add :: "real_ball \<Rightarrow> real_ball \<Rightarrow> kernel_error + real_ball" where
  "checked_real_ball_add lhs rhs =
     rbind (real_ball_limb_count lhs) (\<lambda>l.
     rbind (real_ball_limb_count rhs) (\<lambda>r.
     rbind (checked_limb_sum l r) (\<lambda>input_limbs.
     rbind (projected_limb_count input_limbs 4 2) (\<lambda>projected.
     rbind (ensure_projected_limb_count projected) (\<lambda>_.
     fitting (ball_add lhs rhs))))))"

definition checked_real_ball_mul :: "real_ball \<Rightarrow> real_ball \<Rightarrow> kernel_error + real_ball" where
  "checked_real_ball_mul lhs rhs =
     rbind (real_ball_limb_count lhs) (\<lambda>l.
     rbind (real_ball_limb_count rhs) (\<lambda>r.
     rbind (checked_limb_sum l r) (\<lambda>input_limbs.
     rbind (projected_limb_count input_limbs 11 3) (\<lambda>projected.
     rbind (ensure_projected_limb_count projected) (\<lambda>_.
     fitting (ball_mul lhs rhs))))))"

definition real_ball_refusal :: kernel_error where
  "real_ball_refusal = InvalidCertificateLemma ''RealBall''"

definition checked_real_ball_inv :: "real_ball \<Rightarrow> kernel_error + real_ball" where
  "checked_real_ball_inv ball =
     rbind (real_ball_limb_count ball) (\<lambda>limbs.
     rbind (projected_limb_count limbs 16 12) (\<lambda>projected.
     rbind (ensure_projected_limb_count projected) (\<lambda>_.
     rbind (rmap_err (\<lambda>_. real_ball_refusal) (ball_inv ball)) fitting)))"

section \<open>Evaluation\<close>

text \<open>The loop of a power: as many multiplications as the exponent has units.\<close>

primrec ball_power_loop :: "real_ball \<Rightarrow> nat \<Rightarrow> real_ball \<Rightarrow> kernel_error + real_ball" where
  "ball_power_loop base 0 acc = Inr acc"
| "ball_power_loop base (Suc n) acc = rbind (checked_real_ball_mul acc base) (ball_power_loop base n)"

definition integer_ball_power :: "real_ball \<Rightarrow> int \<Rightarrow> kernel_error + real_ball" where
  "integer_ball_power base_ball n =
     (if n \<ge> 0 \<and> n \<le> 128 then
        (if n = 0 \<and> contains_zero base_ball then Inl real_ball_refusal
         else ball_power_loop base_ball (nat n) (ball_exact 1))
      else if n \<ge> - 128 \<and> n < 0 then
        rbind (checked_real_ball_inv base_ball) (\<lambda>inv_base.
        ball_power_loop inv_base (nat (- n)) (ball_exact 1))
      else Inl real_ball_refusal)"

fun eval_real_ball :: "expr \<Rightarrow> kernel_error + real_ball" where
  "eval_real_ball (IntegerLit n) = fitting (ball_exact (of_int n))"
| "eval_real_ball (RationalLit r) = fitting (ball_exact r)"
| "eval_real_ball (Const c) =
     (case c of
        CPi \<Rightarrow>
          rbind (rmap_err (\<lambda>_. real_ball_refusal)
            (ball_new (3141592653589793 / 1000000000000000) (1 / 1000000000000000))) fitting
      | CE \<Rightarrow>
          rbind (rmap_err (\<lambda>_. real_ball_refusal)
            (ball_new (2718281828459045 / 1000000000000000) (1 / 1000000000000000))) fitting
      | _ \<Rightarrow> Inl real_ball_refusal)"
| "eval_real_ball (Add terms) =
     rfold (\<lambda>term acc. rbind (eval_real_ball term) (checked_real_ball_add acc)) terms (ball_exact 0)"
| "eval_real_ball (Mul factors) =
     rfold (\<lambda>factor acc. rbind (eval_real_ball factor) (checked_real_ball_mul acc)) factors (ball_exact 1)"
| "eval_real_ball (Pow base e) =
     rbind (eval_real_ball base) (\<lambda>base_ball.
     case e of IntegerLit n \<Rightarrow> integer_ball_power base_ball n | _ \<Rightarrow> Inl real_ball_refusal)"
| "eval_real_ball (Sym _) = Inl real_ball_refusal"
| "eval_real_ball (Function _ _) = Inl real_ball_refusal"

section \<open>Certificates\<close>

text \<open>The evaluated ball of an expression must lie in the certificate's, or be it.\<close>

definition enclosed_by :: "real_ball \<Rightarrow> expr \<Rightarrow> kernel_error + unit" where
  "enclosed_by ball e =
     rbind (eval_real_ball e) (\<lambda>evaluated.
     rguard (contains_ball ball evaluated \<or> evaluated = ball) real_ball_refusal)"

definition check_real_ball_certificate :: "claim \<Rightarrow> certificate_payload \<Rightarrow> kernel_error + claim" where
  "check_real_ball_certificate cl certificate =
     (case certificate of
        RealBallCertificate ball \<Rightarrow>
          rbind (ensure_real_ball_bounds_fit ball) (\<lambda>_.
          case cl of
            NonZeroClaim e \<Rightarrow>
              rbind (enclosed_by ball e) (\<lambda>_.
              rbind (rguard (\<not> contains_zero ball) real_ball_refusal) (\<lambda>_. Inr cl))
          | PredicateHold e pred \<Rightarrow>
              rbind (enclosed_by ball e) (\<lambda>_.
              case pred of
                Positive \<Rightarrow> rbind (rguard (ball_is_positive ball) real_ball_refusal) (\<lambda>_. Inr cl)
              | Negative \<Rightarrow> rbind (rguard (ball_is_negative ball) real_ball_refusal) (\<lambda>_. Inr cl)
              | NonZero \<Rightarrow> rbind (rguard (\<not> contains_zero ball) real_ball_refusal) (\<lambda>_. Inr cl)
              | Real \<Rightarrow> Inr cl
              | _ \<Rightarrow> Inl real_ball_refusal)
          | DomainMembership e domain \<Rightarrow>
              rbind (rguard (domain = RR \<or> domain = CC) real_ball_refusal) (\<lambda>_.
              rbind (enclosed_by ball e) (\<lambda>_. Inr cl))
          | _ \<Rightarrow> Inl real_ball_refusal)
      | _ \<Rightarrow> Inl real_ball_refusal)"

end
