(* ===== verification/Modular_Checker.thy ===== *)
theory Modular_Checker
  imports Kernel_Claims Poly_Normal
begin

text \<open>
  The modular irreducibility certificates of \<open>kernel.rs\<close>: trial division, arithmetic of polynomials
  over the residues of a prime as ascending coefficient lists, and Rabin's criterion. The \<open>u64\<close>
  residues are natural numbers below a modulus of at most 32 bits, so that no operation wraps; a loop
  that ends only when the modulus is prime is a partial function, whose value \<open>None\<close> is not
  returning.
\<close>

section \<open>Trial division\<close>

function prime_loop :: "nat \<Rightarrow> nat \<Rightarrow> bool" where
  "prime_loop n d =
     (if d * d \<le> n then
        (if n mod d = 0 \<or> n mod (d + 2) = 0 then False else prime_loop n (d + 6))
      else True)"
  by pat_completeness auto

termination
proof (relation "measure (\<lambda>(n, d). n + 6 - d)")
  show "((n, d + 6), (n, d)) \<in> measure (\<lambda>(n, d). n + 6 - d)" if "d * d \<le> n" for n d :: nat
  proof -
    have "d \<le> d * d" by simp
    then have "d \<le> n" using that by (rule order_trans)
    then show ?thesis unfolding in_measure prod.case by linarith
  qed
qed simp

declare prime_loop.simps [simp del]

definition kernel_is_u64_prime :: "nat \<Rightarrow> bool" where
  "kernel_is_u64_prime n =
     (if n < 2 then False
      else if n = 2 \<or> n = 3 then True
      else if n mod 2 = 0 \<or> n mod 3 = 0 then False
      else prime_loop n 5)"

section \<open>Inverses\<close>

function inv_loop :: "int \<Rightarrow> int \<Rightarrow> int \<Rightarrow> int \<Rightarrow> int \<times> int" where
  "inv_loop t new_t r new_r =
     (if new_r \<noteq> 0 then
        let q = r div new_r in inv_loop new_t (t - q * new_t) new_r (r - q * new_r)
      else (t, r))"
  by pat_completeness auto

termination
proof (relation "measure (\<lambda>(t, new_t, r, new_r). nat \<bar>new_r\<bar>)")
  show "((new_t, t - q * new_t, new_r, r - q * new_r), t, new_t, r, new_r)
      \<in> measure (\<lambda>(t, new_t, r, new_r). nat \<bar>new_r\<bar>)"
    if "new_r \<noteq> 0" "q = r div new_r" for t new_t r new_r q :: int
    using that abs_mod_less [of new_r r] by (simp add: minus_div_mult_eq_mod)
qed simp

declare inv_loop.simps [simp del]

definition kernel_fp_inv :: "nat \<Rightarrow> nat \<Rightarrow> nat option" where
  "kernel_fp_inv a p =
     (if a = 0 then None
      else
        let (t, r) = inv_loop 0 1 (int p) (int (a mod p))
        in if r > 1 then None
           else Some (nat (if t < 0 then t + int p else t)))"

section \<open>Polynomials\<close>

definition kernel_fp_trim :: "nat list \<Rightarrow> nat list" where
  "kernel_fp_trim a = rev (dropWhile (\<lambda>c. c = 0) (rev a))"

definition coefficient :: "nat list \<Rightarrow> nat \<Rightarrow> nat" where
  "coefficient a i = (if i < length a then a ! i else 0)"

definition kernel_fp_sub :: "nat list \<Rightarrow> nat list \<Rightarrow> nat \<Rightarrow> nat list" where
  "kernel_fp_sub a b p =
     kernel_fp_trim (map (\<lambda>i. (coefficient a i + p - coefficient b i mod p) mod p)
       [0..<max (length a) (length b)])"

definition kernel_fp_mul :: "nat list \<Rightarrow> nat list \<Rightarrow> nat \<Rightarrow> nat list" where
  "kernel_fp_mul a b p =
     (if a = [] \<or> b = [] then []
      else
        kernel_fp_trim
          (fold (\<lambda>i. fold (\<lambda>j out. out[i + j := (out ! (i + j) + a ! i * b ! j mod p) mod p]) [0..<length b])
             [0..<length a] (replicate (length a + length b - 1) 0)))"

text \<open>One round of the division by a monic polynomial: the leading term is cancelled.\<close>

definition cancel_lead :: "nat list \<Rightarrow> nat list \<Rightarrow> nat \<Rightarrow> nat list" where
  "cancel_lead rem m p =
     (let lead = last rem;
          shift = length rem - length m
      in kernel_fp_trim
           (fold (\<lambda>i out. out[shift + i := (out ! (shift + i) + p - lead * m ! i mod p) mod p])
              [0..<length m] rem))"

partial_function (option) rem_loop :: "nat list \<Rightarrow> nat list \<Rightarrow> nat \<Rightarrow> nat list option" where
  "rem_loop rem m p =
     (if length rem \<ge> length m \<and> rem \<noteq> [] then
        let rem' = cancel_lead rem m p
        in if length rem' \<le> length m - 1 then Some rem' else rem_loop rem' m p
      else Some rem)"

declare rem_loop.simps [code]

definition kernel_fp_rem_monic :: "nat list \<Rightarrow> nat list \<Rightarrow> nat \<Rightarrow> nat list option" where
  "kernel_fp_rem_monic a m p = rem_loop (kernel_fp_trim a) m p"

function pow_mod_loop :: "nat list \<Rightarrow> nat list \<Rightarrow> nat \<Rightarrow> nat list \<Rightarrow> nat \<Rightarrow> nat list option" where
  "pow_mod_loop result cur exponent m p =
     (if exponent > 0 then
        Option.bind (if odd exponent then kernel_fp_rem_monic (kernel_fp_mul result cur p) m p else Some result)
          (\<lambda>result.
        let exponent' = exponent div 2
        in Option.bind (if exponent' > 0 then kernel_fp_rem_monic (kernel_fp_mul cur cur p) m p else Some cur)
             (\<lambda>cur. pow_mod_loop result cur exponent' m p))
      else Some result)"
  by pat_completeness auto

termination
  by (relation "measure (\<lambda>(_, _, exponent, _, _). exponent)") auto

declare pow_mod_loop.simps [simp del]

definition kernel_fp_pow_mod :: "nat list \<Rightarrow> nat \<Rightarrow> nat list \<Rightarrow> nat \<Rightarrow> nat list option" where
  "kernel_fp_pow_mod base exponent m p =
     Option.bind (kernel_fp_rem_monic base m p) (\<lambda>cur. pow_mod_loop [1] cur exponent m p)"

definition kernel_fp_derivative :: "nat list \<Rightarrow> nat \<Rightarrow> nat list" where
  "kernel_fp_derivative a p =
     (if length a \<le> 1 then []
      else kernel_fp_trim (map (\<lambda>i. i * a ! i mod p) [1..<length a]))"

definition scale :: "nat \<Rightarrow> nat list \<Rightarrow> nat \<Rightarrow> nat list" where
  "scale c a p = map (\<lambda>x. x * c mod p) a"

partial_function (option) gcd_loop :: "nat list \<Rightarrow> nat list \<Rightarrow> nat \<Rightarrow> nat list option" where
  "gcd_loop a b p =
     (if b = [] then
        Some (if a = [] then a
              else (case kernel_fp_inv (last a) p of Some lc_inv \<Rightarrow> scale lc_inv a p | None \<Rightarrow> a))
      else
        (case kernel_fp_inv (last b) p of
           None \<Rightarrow> Some [0, 1]
         | Some lc_inv \<Rightarrow>
             Option.bind (kernel_fp_rem_monic a (scale lc_inv b p) p) (\<lambda>r.
             gcd_loop (scale lc_inv b p) r p)))"

declare gcd_loop.simps [code]

definition kernel_fp_gcd :: "nat list \<Rightarrow> nat list \<Rightarrow> nat \<Rightarrow> nat list option" where
  "kernel_fp_gcd a b p = gcd_loop (kernel_fp_trim a) (kernel_fp_trim b) p"

section \<open>Rabin's criterion\<close>

text \<open>The powers of \<open>x\<close> under repeated Frobenius, \<open>x\<close> first.\<close>

primrec frobenius_powers :: "nat list list \<Rightarrow> nat \<Rightarrow> nat list \<Rightarrow> nat \<Rightarrow> nat list list option" where
  "frobenius_powers powers 0 f p = Some powers"
| "frobenius_powers powers (Suc k) f p =
     Option.bind (kernel_fp_pow_mod (last powers) p f p) (\<lambda>n. frobenius_powers (powers @ [n]) k f p)"

definition coprime_power :: "nat list list \<Rightarrow> nat \<Rightarrow> nat list \<Rightarrow> nat \<Rightarrow> bool option" where
  "coprime_power powers k f p =
     map_option (\<lambda>g. length g \<le> 1) (kernel_fp_gcd (kernel_fp_sub (powers ! k) [0, 1] p) f p)"

function strip_factor :: "nat \<Rightarrow> nat \<Rightarrow> nat" where
  "strip_factor rem_d q = (if 0 < rem_d \<and> 2 \<le> q \<and> rem_d mod q = 0 then strip_factor (rem_d div q) q else rem_d)"
  by pat_completeness auto

termination
  by (relation "measure fst") auto

declare strip_factor.simps [simp del]

lemma strip_factor_le: "strip_factor n q \<le> n"
  by (induction n q rule: strip_factor.induct)
    (subst strip_factor.simps, auto intro: order_trans [OF _ div_le_dividend])

text \<open>The loop over the prime factors of the degree, and the factor that is left.\<close>

function rabin_loop :: "nat \<Rightarrow> nat \<Rightarrow> nat list list \<Rightarrow> nat \<Rightarrow> nat list \<Rightarrow> nat \<Rightarrow> bool option" where
  "rabin_loop rem_d q powers d f p =
     (if 0 < q \<and> q * q \<le> rem_d then
        let next_q = q + (if q = 2 then 1 else 2)
        in if rem_d mod q = 0 then
             (case coprime_power powers (d div q) f p of
                None \<Rightarrow> None
              | Some ok \<Rightarrow> if ok then rabin_loop (strip_factor rem_d q) next_q powers d f p else Some False)
           else rabin_loop rem_d next_q powers d f p
      else if 1 < rem_d then coprime_power powers (d div rem_d) f p
      else Some True)"
  by pat_completeness auto

termination
proof (relation "measure (\<lambda>(rem_d, q, _). rem_d + 2 - q)")
  fix rem_d q next_q :: nat and powers :: "nat list list" and d p :: nat and f :: "nat list" and ok :: bool
  assume q: "0 < q \<and> q * q \<le> rem_d" "next_q = q + (if q = 2 then 1 else 2)"
  have "q \<le> q * q" by simp
  then have "q \<le> rem_d" using q(1) by linarith
  then show "((strip_factor rem_d q, next_q, powers, d, f, p), rem_d, q, powers, d, f, p)
      \<in> measure (\<lambda>(rem_d, q, _). rem_d + 2 - q)"
    and "((rem_d, next_q, powers, d, f, p), rem_d, q, powers, d, f, p) \<in> measure (\<lambda>(rem_d, q, _). rem_d + 2 - q)"
    using q strip_factor_le [of rem_d q] by auto
qed simp

declare rabin_loop.simps [simp del]

text \<open>The truncating \<open>((c % p) + p) % p\<close> of the code is the residue.\<close>

definition kernel_verify_rabin_irreducible_mod_prime :: "int list \<Rightarrow> int \<Rightarrow> bool option" where
  "kernel_verify_rabin_irreducible_mod_prime coeffs prime =
     (if prime < 0 \<or> int_bits prime > 32 \<or> length coeffs \<le> 1 then Some False
      else
        let p = nat prime
        in if p < 2 \<or> \<not> kernel_is_u64_prime p then Some False
           else
             let f = kernel_fp_trim (map (\<lambda>c. nat (c mod int p)) coeffs)
             in if length f \<noteq> length coeffs \<or> length f \<le> 1 then Some False
                else
                  (case kernel_fp_inv (last f) p of
                     None \<Rightarrow> Some False
                   | Some lc_inv \<Rightarrow>
                       let f = scale lc_inv f p
                       in Option.bind (kernel_fp_gcd f (kernel_fp_derivative f p) p) (\<lambda>g.
                          if length g > 1 then Some False
                          else
                            let d = length f - 1
                            in Option.bind (frobenius_powers [[0, 1]] d f p) (\<lambda>powers.
                               Option.bind (kernel_fp_rem_monic [0, 1] f p) (\<lambda>x_mod_f.
                               if powers ! d \<noteq> x_mod_f then Some False
                               else rabin_loop d 2 powers d f p)))))"

definition rabin_refusal :: kernel_error where
  "rabin_refusal = InvalidCertificateLemma ''RabinIrreducibilityModPrime''"

definition check_rabin_irreducibility_certificate ::
  "claim \<Rightarrow> certificate_payload \<Rightarrow> (kernel_error + claim) option" where
  "check_rabin_irreducibility_certificate cl certificate =
     (case cl of
        IrreducibleModPrime claimed_coeffs claimed_prime \<Rightarrow>
          (case certificate of
             RabinCertificate coeffs prime \<Rightarrow>
               if coeffs \<noteq> claimed_coeffs \<or> prime \<noteq> claimed_prime then Some (Inl rabin_refusal)
               else if prime < 2 \<or> length coeffs < 2 \<or> last coeffs = 0
                       \<or> (\<exists>c \<in> set coeffs. c < 0 \<or> c \<ge> prime)
               then Some (Inl rabin_refusal)
               else map_option (\<lambda>ok. if ok then Inr cl else Inl rabin_refusal)
                      (kernel_verify_rabin_irreducible_mod_prime coeffs prime)
           | _ \<Rightarrow> Some (Inl rabin_refusal))
      | _ \<Rightarrow> Some (Inl rabin_refusal))"

end
