(* ===== verification/Kernel_Preflight.thy ===== *)
theory Kernel_Preflight
  imports Ball_Checker Modular_Checker Domains
begin

text \<open>
  The resource limits of the trusted boundary (\<open>kernel.rs\<close>): \<open>DerivationPreflight\<close>, which walks a
  derivation with explicit stacks and bounded counters, and \<open>ConstructionSize\<close> with
  \<open>SubstitutionConstruction\<close>, which bound the conclusion of a rule before it is built. The \<open>u64\<close>
  counters are natural numbers whose overflow is refused; \<open>saturating\<close> is arithmetic at the limit.
\<close>

section \<open>Limits and counters\<close>

definition MAX_DERIVATION_STEPS :: nat where
  "MAX_DERIVATION_STEPS = 16384"

definition MAX_DERIVATION_EXPR_NODES :: nat where
  "MAX_DERIVATION_EXPR_NODES = 262144"

definition MAX_DERIVATION_EXPR_DEPTH :: nat where
  "MAX_DERIVATION_EXPR_DEPTH = 256"

definition MAX_DERIVATION_REFERENCES :: nat where
  "MAX_DERIVATION_REFERENCES = 262144"

definition MAX_DERIVATION_TEXT_BYTES :: nat where
  "MAX_DERIVATION_TEXT_BYTES = 1048576"

definition MAX_DERIVATION_DOMAIN_NODES :: nat where
  "MAX_DERIVATION_DOMAIN_NODES = 4096"

definition MAX_DERIVATION_DOMAIN_GENERATORS :: nat where
  "MAX_DERIVATION_DOMAIN_GENERATORS = 4096"

record preflight =
  pf_work_units :: nat
  pf_expression_nodes :: nat
  pf_expression_depth :: nat
  pf_symbol_nodes :: nat
  pf_references :: nat
  pf_text_bytes :: nat
  pf_numeric_limbs :: nat
  pf_domain_nodes :: nat
  pf_domain_generators :: nat

definition preflight_default :: preflight where
  "preflight_default =
     \<lparr>pf_work_units = 0, pf_expression_nodes = 0, pf_expression_depth = 0, pf_symbol_nodes = 0,
      pf_references = 0, pf_text_bytes = 0, pf_numeric_limbs = 0, pf_domain_nodes = 0,
      pf_domain_generators = 0\<rparr>"

definition add_bounded :: "nat \<Rightarrow> nat \<Rightarrow> nat \<Rightarrow> string \<Rightarrow> kernel_error + nat" where
  "add_bounded value amount limit resource =
     (if value + amount < 2 ^ 64 \<and> value + amount \<le> limit then Inr (value + amount)
      else Inl (DerivationLimitExceeded resource limit))"

definition add_work :: "nat \<Rightarrow> preflight \<Rightarrow> kernel_error + preflight" where
  "add_work amount pf =
     (if pf_work_units pf + amount < 2 ^ 64
      then Inr (pf\<lparr>pf_work_units := pf_work_units pf + amount\<rparr>)
      else Inl (DerivationLimitExceeded ''verification work units'' (2 ^ 64 - 1)))"

definition add_text :: "string \<Rightarrow> preflight \<Rightarrow> kernel_error + preflight" where
  "add_text text pf =
     rbind (add_bounded (pf_text_bytes pf) (length text) MAX_DERIVATION_TEXT_BYTES ''text bytes'') (\<lambda>total.
     add_work (max (div_ceil (length text) 64) 1) (pf\<lparr>pf_text_bytes := total\<rparr>))"

definition add_references :: "nat \<Rightarrow> preflight \<Rightarrow> kernel_error + preflight" where
  "add_references amount pf =
     rbind (add_bounded (pf_references pf) amount MAX_DERIVATION_REFERENCES ''step references'') (\<lambda>total.
     add_work amount (pf\<lparr>pf_references := total\<rparr>))"

definition add_numeric_limbs :: "nat \<Rightarrow> preflight \<Rightarrow> kernel_error + preflight" where
  "add_numeric_limbs limbs pf =
     rbind (add_bounded (pf_numeric_limbs pf) limbs MAX_DERIVATION_NUMERIC_LIMBS ''numeric limbs'') (\<lambda>total.
     add_work (max limbs 1) (pf\<lparr>pf_numeric_limbs := total\<rparr>))"

definition ensure_expression_children_fit :: "nat \<Rightarrow> preflight \<Rightarrow> kernel_error + unit" where
  "ensure_expression_children_fit child_count pf =
     (if child_count > MAX_DERIVATION_EXPR_NODES - pf_expression_nodes pf
      then Inl (DerivationLimitExceeded ''expression nodes'' MAX_DERIVATION_EXPR_NODES) else Inr ())"

section \<open>Walking expressions and domains\<close>

definition visit_node :: "nat \<Rightarrow> preflight \<Rightarrow> kernel_error + preflight" where
  "visit_node depth pf =
     (if depth > MAX_DERIVATION_EXPR_DEPTH
      then Inl (DerivationLimitExceeded ''expression depth'' MAX_DERIVATION_EXPR_DEPTH)
      else
        rbind (add_bounded (pf_expression_nodes pf) 1 MAX_DERIVATION_EXPR_NODES ''expression nodes'') (\<lambda>nodes.
        add_work 1 (pf\<lparr>pf_expression_depth := max (pf_expression_depth pf) depth, pf_expression_nodes := nodes\<rparr>)))"

text \<open>The payload of a node, and the children it pushes.\<close>

fun visit_payload :: "expr \<Rightarrow> preflight \<Rightarrow> kernel_error + preflight" where
  "visit_payload (Sym s) pf = add_text (sym_name s) (pf\<lparr>pf_symbol_nodes := pf_symbol_nodes pf + 1\<rparr>)"
| "visit_payload (IntegerLit n) pf = add_numeric_limbs (int_limb_count n) pf"
| "visit_payload (RationalLit r) pf =
     rbind (add_numeric_limbs (int_limb_count (numer r)) pf) (add_numeric_limbs (int_limb_count (denom r)))"
| "visit_payload (Const _) pf = Inr pf"
| "visit_payload (Add terms) pf =
     rbind (ensure_expression_children_fit (length terms) pf) (\<lambda>_. Inr pf)"
| "visit_payload (Mul terms) pf =
     rbind (ensure_expression_children_fit (length terms) pf) (\<lambda>_. Inr pf)"
| "visit_payload (Pow _ _) pf = Inr pf"
| "visit_payload (Function name args) pf =
     rbind (add_text name pf) (\<lambda>pf.
     rbind (ensure_expression_children_fit (length args) pf) (\<lambda>_. Inr pf))"

fun children :: "expr \<Rightarrow> expr list" where
  "children (Add terms) = terms"
| "children (Mul terms) = terms"
| "children (Pow base exponent) = [base, exponent]"
| "children (Function _ args) = args"
| "children _ = []"

lemma size_children: "sum_list (map (\<lambda>c. Suc (2 * size c)) (children e)) < Suc (2 * size e)"
proof -
  have "sum_list (map (\<lambda>c. Suc (2 * size c)) ts) \<le> 2 * size_list size ts" for ts :: "expr list"
    by (induction ts) simp_all
  then have "sum_list (map (\<lambda>c. Suc (2 * size c)) ts) < Suc (2 * (size_list size ts + Suc 0))" for ts :: "expr list"
    by (rule le_less_trans) simp
  then show ?thesis by (cases e) (simp_all only: children.simps expr.size, simp_all)
qed

lemma size_arguments: "sum_list (map (\<lambda>c. Suc (2 * size c)) args) < Suc (2 * size (Function name args))"
  using size_children [of "Function name args"] by simp

function visit_expr_loop :: "(expr \<times> nat) list \<Rightarrow> preflight \<Rightarrow> kernel_error + preflight" where
  "visit_expr_loop [] pf = Inr pf"
| "visit_expr_loop ((current, depth) # stack) pf =
     rbind (visit_node depth pf) (\<lambda>pf.
     rbind (visit_payload current pf) (\<lambda>pf.
     visit_expr_loop (map (\<lambda>c. (c, depth + 1)) (children current) @ stack) pf))"
  by pat_completeness auto

termination
  by (relation "measure (\<lambda>(stack, _). sum_list (map (\<lambda>(e, _). Suc (2 * size e)) stack))")
    (simp_all only: in_measure prod.case map_append map_map comp_def list.map sum_list_append sum_list.Cons
      add_less_cancel_right size_children wf_measure)

definition visit_expr :: "expr \<Rightarrow> preflight \<Rightarrow> kernel_error + preflight" where
  "visit_expr e pf = visit_expr_loop [(e, 0)] pf"

definition visit_domain_node :: "nat \<Rightarrow> preflight \<Rightarrow> kernel_error + preflight" where
  "visit_domain_node depth pf =
     (if depth > MAX_DERIVATION_EXPR_DEPTH
      then Inl (DerivationLimitExceeded ''domain depth'' MAX_DERIVATION_EXPR_DEPTH)
      else
        rbind (add_bounded (pf_domain_nodes pf) 1 MAX_DERIVATION_DOMAIN_NODES ''domain nodes'') (\<lambda>nodes.
        add_work 1 (pf\<lparr>pf_domain_nodes := nodes\<rparr>)))"

definition visit_generators :: "symbol list \<Rightarrow> preflight \<Rightarrow> kernel_error + preflight" where
  "visit_generators generators pf =
     rbind (add_bounded (pf_domain_generators pf) (length generators) MAX_DERIVATION_DOMAIN_GENERATORS
       ''domain generators'') (\<lambda>total.
     rfold (\<lambda>g. add_text (sym_name g)) generators (pf\<lparr>pf_domain_generators := total\<rparr>))"

text \<open>A domain has at most one base, so its stack never holds more than one entry.\<close>

fun visit_domain_at :: "domain \<Rightarrow> nat \<Rightarrow> preflight \<Rightarrow> kernel_error + preflight" where
  "visit_domain_at current depth pf =
     rbind (visit_domain_node depth pf) (\<lambda>pf.
     case current of
       PolyRing base generators \<Rightarrow>
         rbind (visit_generators generators pf) (visit_domain_at base (depth + 1))
     | FractionField base generators \<Rightarrow>
         rbind (visit_generators generators pf) (visit_domain_at base (depth + 1))
     | _ \<Rightarrow> Inr pf)"

declare visit_domain_at.simps [simp del]

definition visit_domain :: "domain \<Rightarrow> preflight \<Rightarrow> kernel_error + preflight" where
  "visit_domain d pf = visit_domain_at d 0 pf"

section \<open>Claims and rules\<close>

definition visit_modular_integer :: "int \<Rightarrow> preflight \<Rightarrow> kernel_error + preflight" where
  "visit_modular_integer n pf =
     (if int_bits n > 32 then Inl (DerivationLimitExceeded ''modular irreducibility integer bits'' 32)
      else add_numeric_limbs (int_limb_count n) pf)"

definition visit_modular_polynomial :: "int list \<Rightarrow> int \<Rightarrow> preflight \<Rightarrow> kernel_error + preflight" where
  "visit_modular_polynomial coefficients prime pf =
     (if length coefficients > MAX_MODULAR_IRREDUCIBILITY_DEGREE + 1
      then Inl (DerivationLimitExceeded ''modular irreducibility degree'' MAX_MODULAR_IRREDUCIBILITY_DEGREE)
      else
        rbind (rfold visit_modular_integer (coefficients @ [prime]) pf) (add_work (length coefficients)))"

fun visit_claim :: "claim \<Rightarrow> preflight \<Rightarrow> kernel_error + preflight" where
  "visit_claim (Equality lhs rhs) pf = rbind (visit_expr lhs pf) (visit_expr rhs)"
| "visit_claim (AlgebraicIdentity lhs rhs) pf = rbind (visit_expr lhs pf) (visit_expr rhs)"
| "visit_claim (PredicateHold e _) pf = visit_expr e pf"
| "visit_claim (NonZeroClaim e) pf = visit_expr e pf"
| "visit_claim (DomainMembership e d) pf = rbind (visit_expr e pf) (visit_domain d)"
| "visit_claim (IrreducibleModPrime coeffs prime) pf = visit_modular_polynomial coeffs prime pf"

fun visit_certificate :: "certificate_payload \<Rightarrow> preflight \<Rightarrow> kernel_error + preflight" where
  "visit_certificate (RealBallCertificate ball) pf =
     rbind (add_numeric_limbs (int_limb_count (numer (midpoint ball))) pf) (\<lambda>pf.
     rbind (add_numeric_limbs (int_limb_count (denom (midpoint ball))) pf) (\<lambda>pf.
     rbind (add_numeric_limbs (int_limb_count (numer (radius ball))) pf) (\<lambda>pf.
     add_numeric_limbs (int_limb_count (denom (radius ball))) pf)))"
| "visit_certificate PolynomialNormalFormCertificate pf = add_work 1 pf"
| "visit_certificate (RabinCertificate coeffs prime) pf =
     rbind (visit_modular_polynomial coeffs prime pf) (\<lambda>pf.
     let degree = length coeffs - 1;
         trial_bound = 2 ^ div_ceil (int_bits prime) 2
     in add_work (8 * degree ^ 3 * max (int_bits prime) 1 + trial_bound) pf)"
| "visit_certificate (OpaqueCertificate _) pf = add_work 1 pf"

fun visit_rule :: "proof_rule \<Rightarrow> preflight \<Rightarrow> kernel_error + preflight" where
  "visit_rule (Reflexivity e) pf = visit_expr e pf"
| "visit_rule (Symmetry _) pf = add_references 1 pf"
| "visit_rule (Transitivity _ _) pf = add_references 2 pf"
| "visit_rule (CongruencePow _ _) pf = add_references 2 pf"
| "visit_rule (CongruenceAdd steps) pf = add_references (length steps) pf"
| "visit_rule (CongruenceMul steps) pf = add_references (length steps) pf"
| "visit_rule (CongruenceFunction name args) pf = rbind (add_text name pf) (add_references (length args))"
| "visit_rule (ContextPredicate e _) pf = visit_expr e pf"
| "visit_rule (ContextDomain e d) pf = rbind (visit_expr e pf) (visit_domain d)"
| "visit_rule (SubstitutionRule template var _) pf =
     rbind (visit_expr template pf) (\<lambda>pf. rbind (add_text (sym_name var) pf) (add_references 1))"
| "visit_rule (DefinitionalReduction lhs rhs rule_name) pf =
     rbind (visit_expr lhs pf) (\<lambda>pf. rbind (visit_expr rhs pf) (add_text rule_name))"
| "visit_rule (CertificateLemma family cl certificate) pf =
     rbind (add_text family pf) (\<lambda>pf. rbind (visit_claim cl pf) (visit_certificate certificate))"

definition units_of :: "preflight \<Rightarrow> nat" where
  "units_of pf = max (div_ceil (pf_work_units pf) 64) 1"

definition derivation_steps_verification_units :: "derivation_step list \<Rightarrow> kernel_error + nat" where
  "derivation_steps_verification_units steps =
     (if length steps > MAX_DERIVATION_STEPS
      then Inl (DerivationLimitExceeded ''steps'' MAX_DERIVATION_STEPS)
      else
        rbind (rfold (\<lambda>step pf.
            rbind (add_work 1 pf) (\<lambda>pf.
            rbind (visit_rule (step_rule step) pf) (visit_claim (step_claim step))))
          steps preflight_default) (\<lambda>pf. Inr (units_of pf)))"

definition derivation_verification_units :: "derivation_tree \<Rightarrow> kernel_error + nat" where
  "derivation_verification_units derivation = derivation_steps_verification_units (tree_steps derivation)"

definition claim_verification_units :: "claim \<Rightarrow> kernel_error + nat" where
  "claim_verification_units cl = rbind (visit_claim cl preflight_default) (\<lambda>pf. Inr (units_of pf))"

definition expression_verification_units :: "expr \<Rightarrow> kernel_error + nat" where
  "expression_verification_units e = rbind (visit_expr e preflight_default) (\<lambda>pf. Inr (units_of pf))"

section \<open>The size of a conclusion\<close>

record construction_size =
  cs_nodes :: nat
  cs_text :: nat
  cs_limbs :: nat
  cs_symbols :: nat
  cs_depth :: nat

definition construction_default :: construction_size where
  "construction_default = \<lparr>cs_nodes = 0, cs_text = 0, cs_limbs = 0, cs_symbols = 0, cs_depth = 0\<rparr>"

definition construction_of_expression :: "expr \<Rightarrow> kernel_error + construction_size" where
  "construction_of_expression e =
     rbind (visit_expr e preflight_default) (\<lambda>pf.
     Inr \<lparr>cs_nodes = pf_expression_nodes pf, cs_text = pf_text_bytes pf, cs_limbs = pf_numeric_limbs pf,
          cs_symbols = pf_symbol_nodes pf, cs_depth = pf_expression_depth pf\<rparr>)"

definition saturating :: "nat \<Rightarrow> nat" where
  "saturating n = min n (2 ^ 64 - 1)"

definition construction_add ::
  "construction_size \<Rightarrow> construction_size \<Rightarrow> nat \<Rightarrow> kernel_error + construction_size" where
  "construction_add self other depth_offset =
     rbind (add_bounded (cs_nodes self) (cs_nodes other) MAX_DERIVATION_EXPR_NODES ''constructed expression nodes'') (\<lambda>nodes.
     rbind (add_bounded (cs_text self) (cs_text other) MAX_DERIVATION_TEXT_BYTES ''constructed text bytes'') (\<lambda>text.
     rbind (add_bounded (cs_limbs self) (cs_limbs other) MAX_DERIVATION_NUMERIC_LIMBS ''constructed numeric limbs'') (\<lambda>limbs.
     let depth = max (cs_depth self) (saturating (cs_depth other + depth_offset))
     in if depth > MAX_DERIVATION_EXPR_DEPTH
        then Inl (DerivationLimitExceeded ''constructed expression depth'' MAX_DERIVATION_EXPR_DEPTH)
        else Inr \<lparr>cs_nodes = nodes, cs_text = text, cs_limbs = limbs,
                  cs_symbols = saturating (cs_symbols self + cs_symbols other), cs_depth = depth\<rparr>)))"

record substitution_construction =
  sc_template :: construction_size
  sc_occurrences :: nat
  sc_occurrence_depth :: nat
  sc_has_binder :: bool

text \<open>How many parameters a \<open>Lambda\<close> node declares, zero when it declares none.\<close>

definition declared_parameters :: "string \<Rightarrow> expr list \<Rightarrow> nat" where
  "declared_parameters name args =
     (if name = ''Lambda'' \<and> length args \<ge> 2 then
        let declarations =
              (case hd args of
                 Function tuple parameters \<Rightarrow>
                   if length args = 2 \<and> tuple = ''Tuple'' then parameters else butlast args
               | _ \<Rightarrow> butlast args)
        in if \<forall>a \<in> set declarations. case a of Sym _ \<Rightarrow> True | _ \<Rightarrow> False then length declarations else 0
      else 0)"

definition is_symbol :: "expr \<Rightarrow> bool" where
  "is_symbol e = (case e of Sym _ \<Rightarrow> True | _ \<Rightarrow> False)"

text \<open>The last entry pushed is the first one popped.\<close>

function inspect_loop ::
  "symbol \<Rightarrow> (expr \<times> nat) list \<Rightarrow> substitution_construction \<Rightarrow> kernel_error + substitution_construction"
  where
  "inspect_loop target [] result = Inr result"
| "inspect_loop target ((e, depth) # pending) result =
     (if depth > MAX_DERIVATION_EXPR_DEPTH
      then Inl (DerivationLimitExceeded ''constructed expression depth'' MAX_DERIVATION_EXPR_DEPTH)
      else
        let template = sc_template result;
            result = result\<lparr>sc_template := template\<lparr>cs_depth := max (cs_depth template) depth\<rparr>\<rparr>
        in case e of
             Function name args \<Rightarrow>
               let parameters = declared_parameters name args;
                   extra = parameters - 1
               in rbind
                    (if extra \<noteq> 0 then
                       rbind (construction_add (sc_template result)
                         (construction_default\<lparr>cs_nodes := extra, cs_text := saturating (extra * 6)\<rparr>) 0) (\<lambda>template.
                       Inr (result\<lparr>sc_template := template\<rparr>))
                     else Inr result) (\<lambda>result.
                  let result = result\<lparr>sc_has_binder := sc_has_binder result \<or> parameters \<noteq> 0
                        \<or> name = ''Integral'' \<and> length args = 4 \<and> is_symbol (args ! 1)\<rparr>
                  in inspect_loop target (rev (map (\<lambda>a. (a, depth + 1 + extra)) args) @ pending) result)
           | Sym s \<Rightarrow>
               inspect_loop target pending
                 (if s = target then
                    result\<lparr>sc_occurrences := sc_occurrences result + 1,
                           sc_occurrence_depth := max (sc_occurrence_depth result) depth\<rparr>
                  else result)
           | _ \<Rightarrow> inspect_loop target (rev (map (\<lambda>a. (a, depth + 1)) (children e)) @ pending) result)"
  by pat_completeness auto

termination
  by (relation "measure (\<lambda>(_, stack, _). sum_list (map (\<lambda>(e, _). Suc (2 * size e)) stack))")
    (simp_all only: in_measure prod.case map_append map_map comp_def list.map sum_list_append sum_list.Cons
      rev_map [symmetric] sum_list_rev add_less_cancel_right size_children size_arguments wf_measure
      less_add_same_cancel2 zero_less_Suc)

definition inspect :: "expr \<Rightarrow> symbol \<Rightarrow> kernel_error + substitution_construction" where
  "inspect template target =
     rbind (construction_of_expression template) (\<lambda>size.
     inspect_loop target [(template, 0)]
       \<lparr>sc_template = size, sc_occurrences = 0, sc_occurrence_depth = 0, sc_has_binder = False\<rparr>)"

fun ilog10 :: "nat \<Rightarrow> nat" where
  "ilog10 n = (if n < 10 then 0 else Suc (ilog10 (n div 10)))"

declare ilog10.simps [simp del]

definition projected_size ::
  "substitution_construction \<Rightarrow> construction_size \<Rightarrow> symbol \<Rightarrow> construction_size" where
  "projected_size self replacement target =
     (let result = sc_template self;
          times = (\<lambda>n. saturating (sc_occurrences self * n))
      in if sc_occurrences self = 0 then result
         else
           let nodes = saturating (cs_nodes result + times (cs_nodes replacement - 1));
               text = saturating (cs_text result + times (cs_text replacement - length (sym_name target)));
               limbs = saturating (cs_limbs result + times (cs_limbs replacement));
               depth = max (cs_depth result) (saturating (sc_occurrence_depth self + cs_depth replacement));
               text' =
                 (if sc_has_binder self \<and> cs_symbols replacement \<noteq> 0 then
                    let names = max (saturating (cs_nodes result + cs_nodes replacement)) 1;
                        suffix = ilog10 names + 2
                    in saturating (text + saturating (saturating (cs_symbols result * cs_depth result) * suffix))
                  else text)
           in result\<lparr>cs_nodes := nodes, cs_text := text', cs_limbs := limbs, cs_depth := depth\<rparr>)"

end
