(* ===== verification/Pythagorean.thy ===== *)
theory Pythagorean
  imports Poly_Normal
begin

text \<open>
  The Pythagorean reduction of \<open>kernel.rs\<close>: the definedness obligations of an expression, and the
  cancellation of pairs of monomials in its normal form.
\<close>

section \<open>Obligations\<close>

fun directly_nonzero_finite :: "expr \<Rightarrow> bool" where
  "directly_nonzero_finite (IntegerLit v) = (v \<noteq> 0)"
| "directly_nonzero_finite (RationalLit v) = (v \<noteq> 0)"
| "directly_nonzero_finite (Const c) = (c \<in> {CPi, CE, CI})"
| "directly_nonzero_finite _ = False"

definition directly_defined_function :: "string \<Rightarrow> expr list \<Rightarrow> bool" where
  "directly_defined_function name arguments =
     (case arguments of
        [argument] \<Rightarrow>
          name \<in> {''sin'', ''cos'', ''sinh'', ''cosh'', ''exp''}
          \<or> (is_zero_expr argument
             \<and> name \<in> {''tan'', ''tanh'', ''asin'', ''atan'', ''asinh'', ''atanh'', ''erf'', ''sec'',
                       ''sech'', ''sinc'', ''erfc''})
          \<or> (is_one_expr argument \<and> name \<in> {''acos'', ''acosh'', ''asec'', ''asech'', ''ln'', ''log''})
      | _ \<Rightarrow> False)"

definition defined_integer_power :: "expr \<Rightarrow> expr \<Rightarrow> bool" where
  "defined_integer_power base exponent =
     (case exponent of IntegerLit n \<Rightarrow> 0 < n \<or> directly_nonzero_finite base | _ \<Rightarrow> False)"

fun collect_partial_domain_obligations :: "expr \<Rightarrow> nat \<Rightarrow> nat \<times> expr set \<Rightarrow> norm_error + nat \<times> expr set" where
  "collect_partial_domain_obligations e depth (budget, obligations) =
     rbind (budget_visit depth budget) (\<lambda>budget.
     case e of
       IntegerLit _ \<Rightarrow> Inr (budget, obligations)
     | RationalLit _ \<Rightarrow> Inr (budget, obligations)
     | Sym _ \<Rightarrow> Inr (budget, obligations)
     | Const c \<Rightarrow> if c \<in> {CPi, CE, CI} then Inr (budget, obligations) else Inl NonFiniteConstant
     | Add children \<Rightarrow>
         rfold (\<lambda>child. collect_partial_domain_obligations child (depth + 1)) children (budget, obligations)
     | Mul children \<Rightarrow>
         rfold (\<lambda>child. collect_partial_domain_obligations child (depth + 1)) children (budget, obligations)
     | Pow base exponent \<Rightarrow>
         rbind (collect_partial_domain_obligations base (depth + 1) (budget, obligations)) (\<lambda>s.
         rbind (collect_partial_domain_obligations exponent (depth + 1) s) (\<lambda>(budget, obligations).
         Inr (budget, if defined_integer_power base exponent then obligations else insert e obligations)))
     | Function name arguments \<Rightarrow>
         rbind (rfold (\<lambda>a. collect_partial_domain_obligations a (depth + 1)) arguments (budget, obligations))
           (\<lambda>(budget, obligations).
         Inr (budget, if directly_defined_function name arguments then obligations else insert e obligations)))"

declare collect_partial_domain_obligations.simps [simp del]

definition partial_domain_obligations :: "expr \<Rightarrow> norm_error + expr set" where
  "partial_domain_obligations e =
     rbind (collect_partial_domain_obligations e 0 (MAX_NORMAL_FORM_INPUT_NODES, {})) (\<lambda>(_, obligations).
     Inr obligations)"

section \<open>Cancellation\<close>

definition pythagorean_slot :: "string \<Rightarrow> (nat \<times> nat) option" where
  "pythagorean_slot name =
     (if name = ''sin'' then Some (0, 0) else if name = ''cos'' then Some (0, 1)
      else if name = ''sec'' then Some (1, 0) else if name = ''tan'' then Some (1, 1)
      else if name = ''csc'' then Some (2, 0) else if name = ''cot'' then Some (2, 1)
      else if name = ''cosh'' then Some (3, 0) else if name = ''sinh'' then Some (3, 1)
      else None)"

definition pythagorean_coefficients_cancel :: "nat \<Rightarrow> rat \<Rightarrow> rat \<Rightarrow> bool" where
  "pythagorean_coefficients_cancel family a b = (if family = 0 then a = b else a + b = 0)"

text \<open>
  The two slots of a key hold a coefficient and its monomial; \<open>None\<close> in place of the pair marks a
  key with conflicting candidates.
\<close>

type_synonym slot_key = "nat \<times> expr \<times> monomial"
type_synonym slot_pair = "(rat \<times> monomial) option \<times> (rat \<times> monomial) option"
type_synonym pythagorean_slots = "(slot_key \<times> slot_pair option) list"

definition slot_get :: "slot_pair \<Rightarrow> nat \<Rightarrow> (rat \<times> monomial) option" where
  "slot_get pair slot = (if slot = 0 then fst pair else snd pair)"

definition slot_put :: "slot_pair \<Rightarrow> nat \<Rightarrow> rat \<times> monomial \<Rightarrow> slot_pair" where
  "slot_put pair slot entry = (if slot = 0 then (Some entry, snd pair) else (fst pair, Some entry))"

definition remove_position :: "nat \<Rightarrow> 'a list \<Rightarrow> 'a list" where
  "remove_position i xs = take i xs @ drop (Suc i) xs"

text \<open>A squared unary application of a family member at a position of a monomial.\<close>

definition square_candidate :: "expr \<times> nat \<Rightarrow> (nat \<times> nat \<times> expr) option" where
  "square_candidate factor =
     (if snd factor \<noteq> 2 then None
      else
        (case fst factor of
           Function name args \<Rightarrow>
             (case args of
                [arg] \<Rightarrow> map_option (\<lambda>(family, slot). (family, slot, arg)) (pythagorean_slot name)
              | _ \<Rightarrow> None)
         | _ \<Rightarrow> None))"

definition record_candidate :: "monomial \<Rightarrow> rat \<Rightarrow> nat \<Rightarrow> pythagorean_slots \<Rightarrow> pythagorean_slots" where
  "record_candidate m coeff i slots =
     (case square_candidate (m ! i) of
        None \<Rightarrow> slots
      | Some (family, slot, arg) \<Rightarrow>
          let k = (family, arg, remove_position i m)
          in case map_of slots k of
               None \<Rightarrow> bt_insert k (Some (slot_put (None, None) slot (coeff, m))) slots
             | Some None \<Rightarrow> slots
             | Some (Some pair) \<Rightarrow>
                 if slot_get pair slot \<noteq> None then bt_insert k None slots
                 else bt_insert k (Some (slot_put pair slot (coeff, m))) slots)"

definition collect_slots :: "polynomial \<Rightarrow> pythagorean_slots" where
  "collect_slots p = fold (\<lambda>(m, coeff). fold (record_candidate m coeff) [0..<length m]) p []"

definition cancel_slot ::
  "slot_key \<times> slot_pair option \<Rightarrow> monomial list \<times> (monomial \<times> rat) list \<Rightarrow> monomial list \<times> (monomial \<times> rat) list" where
  "cancel_slot entry state =
     (case entry of
        ((family, _, rest), Some (Some (a_coeff, a_monomial), Some (b_coeff, b_monomial))) \<Rightarrow>
          let (removals, additions) = state
          in if pythagorean_coefficients_cancel family a_coeff b_coeff
               \<and> a_monomial \<notin> set removals \<and> b_monomial \<notin> set removals
             then (removals @ [a_monomial, b_monomial], additions @ [(rest, a_coeff)])
             else state
      | _ \<Rightarrow> state)"

definition add_rest :: "monomial \<times> rat \<Rightarrow> polynomial \<Rightarrow> polynomial" where
  "add_rest addition p =
     bt_insert (fst addition)
       ((case map_of p (fst addition) of Some existing \<Rightarrow> existing | None \<Rightarrow> 0) + snd addition) p"

definition cancel_pythagorean_pairs :: "polynomial \<Rightarrow> polynomial" where
  "cancel_pythagorean_pairs p =
     (let (removals, additions) = fold cancel_slot (collect_slots p) ([], [])
      in if removals = [] then p
         else filter (\<lambda>(_, c). c \<noteq> 0) (fold add_rest additions (fold bt_remove removals p)))"

datatype pythagorean_refusal =
    LhsDomainRefused norm_error | RhsDomainRefused norm_error | DomainsDiffer
  | LhsNormalRefused norm_error | RhsNormalRefused norm_error | CancellationDiffers

definition check_pythagorean_identity :: "expr \<Rightarrow> expr \<Rightarrow> pythagorean_refusal + unit" where
  "check_pythagorean_identity lhs rhs =
     rbind (rmap_err LhsDomainRefused (partial_domain_obligations lhs)) (\<lambda>lhs_obligations.
     rbind (rmap_err RhsDomainRefused (partial_domain_obligations rhs)) (\<lambda>rhs_obligations.
     rbind (rguard (lhs_obligations = rhs_obligations) DomainsDiffer) (\<lambda>_.
     rbind (rmap_err LhsNormalRefused (normalize_function_polynomial lhs)) (\<lambda>lhs_normal.
     rbind (rmap_err RhsNormalRefused (normalize_function_polynomial rhs)) (\<lambda>rhs_normal.
     rguard (cancel_pythagorean_pairs lhs_normal = rhs_normal) CancellationDiffers)))))"

end
