(* ===== verification/Expr_Facts.thy ===== *)
theory Expr_Facts
  imports Contexts Expressions
begin

text \<open>
  What an assumption context says of a compound expression: \<open>inherent_facts\<close> of
  \<open>crates/fsym-assumptions/src/predicate.rs\<close>, \<open>deduce_expr_facts\<close> of \<open>lib.rs\<close>, which derives facts
  from the facts of the parts, and \<open>query\<close> of the builder and of the immutable snapshot.
\<close>

section \<open>Leaves\<close>

fun inherent_facts :: "expr \<Rightarrow> predicate set option" where
  "inherent_facts (IntegerLit n) =
     Some (closure Integer \<union>
       (if n = 0 then closure Zero
        else closure NonZero \<union> closure (if 0 < n then Positive else Negative)
          \<union> closure (if n mod 2 = 0 then Even else Odd)))"
| "inherent_facts (RationalLit r) =
     Some (closure Rational \<union>
       (if r = 0 then closure Zero
        else closure NonZero \<union> closure (if 0 < r then Positive else Negative)
          \<union> (if snd (quotient_of r) = 1
             then closure Integer \<union> closure (if fst (quotient_of r) mod 2 = 0 then Even else Odd)
             else {})))"
| "inherent_facts (Const c) =
     (case c of
        CPi \<Rightarrow> Some (closure Transcendental \<union> closure Real \<union> closure Positive \<union> closure Finite)
      | CE \<Rightarrow> Some (closure Transcendental \<union> closure Real \<union> closure Positive \<union> closure Finite)
      | CI \<Rightarrow> Some (closure Algebraic \<union> closure predicate.Complex \<union> closure NonZero \<union> closure Finite)
      | CInfinity \<Rightarrow> Some (closure Infinite \<union> closure Positive)
      | CNegativeInfinity \<Rightarrow> Some (closure Infinite \<union> closure Negative)
      | CComplexInfinity \<Rightarrow> Some (closure Infinite)
      | CNaN \<Rightarrow> None)"
| "inherent_facts _ = None"

section \<open>Compound expressions\<close>

text \<open>\<open>all_have p\<close> is \<open>all(|s| s.contains(&p))\<close> and \<open>how_many\<close> is \<open>filter(..).count()\<close>.\<close>

definition all_have :: "predicate \<Rightarrow> predicate set list \<Rightarrow> bool" where
  "all_have p sets \<longleftrightarrow> (\<forall>s \<in> set sets. p \<in> s)"

definition any_has :: "predicate \<Rightarrow> predicate set list \<Rightarrow> bool" where
  "any_has p sets \<longleftrightarrow> (\<exists>s \<in> set sets. p \<in> s)"

definition how_many :: "(predicate set \<Rightarrow> bool) \<Rightarrow> predicate set list \<Rightarrow> nat" where
  "how_many P sets = length (filter P sets)"

definition given :: "bool \<Rightarrow> predicate \<Rightarrow> predicate set" where
  "given b p = (if b then closure p else {})"

definition arithmetic_kind :: "predicate set list \<Rightarrow> predicate set \<Rightarrow> predicate set" where
  "arithmetic_kind sets parity =
     (if all_have Integer sets then closure Integer \<union> parity
      else if all_have Rational sets then closure Rational
      else given (all_have Algebraic sets) Algebraic)"

definition common_kinds :: "predicate set list \<Rightarrow> predicate set" where
  "common_kinds sets =
     given (all_have Real sets) Real \<union> given (all_have predicate.Complex sets) predicate.Complex \<union> given (all_have Finite sets) Finite"

definition sum_facts :: "predicate set list \<Rightarrow> predicate set" where
  "sum_facts sets =
     (if all_have Zero sets then closure Zero
      else
        arithmetic_kind sets
          (if \<forall>s \<in> set sets. Even \<in> s \<or> Odd \<in> s
           then (if even (how_many (\<lambda>s. Odd \<in> s) sets) then closure Even else closure Odd)
           else {})
        \<union> common_kinds sets
        \<union> (if all_have NonNegative sets then
             (if any_has Positive sets then closure Positive else closure NonNegative)
           else if all_have NonPositive sets then
             (if any_has Negative sets then closure Negative else closure NonPositive)
           else {}))"

definition product_facts :: "predicate set list \<Rightarrow> predicate set" where
  "product_facts sets =
     (if any_has Zero sets \<and> all_have Finite sets then closure Zero
      else
        arithmetic_kind sets
          (if all_have Odd sets then closure Odd else given (any_has Even sets) Even)
        \<union> common_kinds sets
        \<union> given (all_have NonZero sets) NonZero
        \<union> (if \<forall>s \<in> set sets. Positive \<in> s \<or> Negative \<in> s then
             (if even (how_many (\<lambda>s. Negative \<in> s) sets) then closure Positive else closure Negative)
           else if \<forall>s \<in> set sets. NonNegative \<in> s \<or> NonPositive \<in> s then
             (if \<forall>s \<in> set sets. (NonNegative \<in> s) \<noteq> (NonPositive \<in> s) \<or> Zero \<in> s then
                (if even (how_many (\<lambda>s. NonPositive \<in> s \<and> NonNegative \<notin> s) sets)
                 then closure NonNegative else closure NonPositive)
              else {})
           else {}))"

definition integer_power_facts :: "predicate set \<Rightarrow> int \<Rightarrow> predicate set" where
  "integer_power_facts b n =
     (if n = 0 then
        (if NonZero \<in> b then closure Positive \<union> closure Integer \<union> closure Odd else {})
      else if \<not> (0 < n \<or> NonZero \<in> b) then {}
      else
        (if 0 < n \<and> Integer \<in> b then
           closure Integer \<union> (if Even \<in> b then closure Even else given (Odd \<in> b) Odd)
         else if Rational \<in> b then closure Rational
         else given (Algebraic \<in> b) Algebraic)
        \<union> common_kinds [b]
        \<union> given (NonZero \<in> b) NonZero
        \<union> (if Positive \<in> b then closure Positive
           else if n mod 2 = 0 then
             (if Real \<in> b \<and> NonZero \<in> b then closure Positive else given (Real \<in> b) NonNegative)
           else if Negative \<in> b then closure Negative
           else if NonNegative \<in> b then closure NonNegative
           else given (NonPositive \<in> b) NonPositive))"

definition rational_power_facts :: "predicate set \<Rightarrow> rat \<Rightarrow> predicate set" where
  "rational_power_facts b r =
     (let positive = 0 < fst (quotient_of r)
      in if positive \<or> Positive \<in> b then
           (if Positive \<in> b then
              closure Positive \<union> given (Finite \<in> b) Finite \<union> given (Algebraic \<in> b) Algebraic
            else if positive \<and> NonNegative \<in> b then closure NonNegative \<union> given (Finite \<in> b) Finite
            else {})
         else {})"

definition other_power_facts :: "predicate set \<Rightarrow> predicate set \<Rightarrow> predicate set" where
  "other_power_facts b e =
     (if Positive \<in> b \<and> Real \<in> e then closure Positive \<union> given (Finite \<in> b \<and> Finite \<in> e) Finite else {})"

definition function_facts :: "string \<Rightarrow> predicate set \<Rightarrow> predicate set" where
  "function_facts name u =
     (if name = ''exp'' then
        (if Real \<in> u then closure Positive
         else if predicate.Complex \<in> u then closure predicate.Complex \<union> closure NonZero else {})
        \<union> given (Finite \<in> u) Finite
      else if name \<in> {''abs'', ''Abs''} then
        (if predicate.Complex \<in> u then
           closure (if NonZero \<in> u then Positive else NonNegative)
           \<union> (if Integer \<in> u then closure Integer
              else if Rational \<in> u then closure Rational
              else given (Algebraic \<in> u) Algebraic)
           \<union> given (Finite \<in> u) Finite
         else {})
      else if name = ''cosh'' then
        (if Real \<in> u then closure Positive \<union> given (Finite \<in> u) Finite else {})
      else if name \<in> {''sinh'', ''tanh'', ''atan'', ''asinh'', ''erf''} then
        (if Positive \<in> u then closure Positive
         else if Negative \<in> u then closure Negative
         else if NonNegative \<in> u then closure NonNegative
         else if NonPositive \<in> u then closure NonPositive
         else given (Real \<in> u) Real)
        \<union> given (Finite \<in> u) Finite
      else if name \<in> {''sin'', ''cos'', ''sinc'', ''erfc''} then
        (if Real \<in> u then closure Real \<union> given (Finite \<in> u) Finite else {})
      else if name \<in> {''log'', ''ln''} then
        (if Positive \<in> u then closure Real \<union> given (Finite \<in> u) Finite else {})
      else if name = ''sqrt'' then
        (if Positive \<in> u then closure Positive else given (NonNegative \<in> u) NonNegative)
        \<union> given (Finite \<in> u) Finite
      else {})"

text \<open>The mark of a contradictory part.\<close>

definition contradiction_mark :: "predicate set" where
  "contradiction_mark = {Zero, NonZero}"

fun deduce_expr_facts :: "(symbol \<Rightarrow> predicate set) \<Rightarrow> expr \<Rightarrow> predicate set" where
  "deduce_expr_facts known e =
     (case inherent_facts e of
        Some facts \<Rightarrow> facts
      | None \<Rightarrow>
     (case e of
        Sym s \<Rightarrow> known s
      | Add terms \<Rightarrow>
          if terms = [] then {}
          else
            let sets = map (deduce_expr_facts known) terms
            in if \<exists>s \<in> set sets. has_contradiction_in_set s then contradiction_mark else sum_facts sets
      | Mul factors \<Rightarrow>
          if factors = [] then {}
          else
            let sets = map (deduce_expr_facts known) factors
            in if \<exists>s \<in> set sets. has_contradiction_in_set s then contradiction_mark else product_facts sets
      | Pow base exponent \<Rightarrow>
          let b = deduce_expr_facts known base
          in if has_contradiction_in_set b then contradiction_mark
             else
               (case exponent of
                  IntegerLit n \<Rightarrow> integer_power_facts b n
                | RationalLit r \<Rightarrow> rational_power_facts b r
                | _ \<Rightarrow> other_power_facts b (deduce_expr_facts known exponent))
      | Function name args \<Rightarrow>
          (case args of
             [arg] \<Rightarrow>
               let u = deduce_expr_facts known arg
               in if has_contradiction_in_set u then contradiction_mark else function_facts name u
           | _ \<Rightarrow> {})
      | _ \<Rightarrow> {}))"

declare deduce_expr_facts.simps [simp del]

section \<open>Queries\<close>

definition snapshot_query :: "snapshot \<Rightarrow> expr \<Rightarrow> predicate \<Rightarrow> truth_value" where
  "snapshot_query snap e pred =
     (if \<exists>s \<in> set (free_symbols_of e). has_contradiction_in_set (snapshot_deductions snap s) then Contradictory
      else answer (deduce_expr_facts (snapshot_deductions snap) e) pred)"

definition snapshot_is_true :: "snapshot \<Rightarrow> expr \<Rightarrow> predicate \<Rightarrow> bool option" where
  "snapshot_is_true snap e pred = to_option_bool (snapshot_query snap e pred)"

definition context_query :: "assumptions \<Rightarrow> expr \<Rightarrow> predicate \<Rightarrow> truth_value" where
  "context_query ctx e pred =
     (if \<exists>s \<in> set (free_symbols_of e).
           (case map_of (as_facts ctx) s of Some preds \<Rightarrow> contradicting_pair preds | None \<Rightarrow> False)
           \<or> has_contradiction_in_set (deductions ctx s)
      then Contradictory
      else answer (deduce_expr_facts (deductions ctx) e) pred)"

definition context_is_true :: "assumptions \<Rightarrow> expr \<Rightarrow> predicate \<Rightarrow> bool option" where
  "context_is_true ctx e pred = to_option_bool (context_query ctx e pred)"

definition context_is_false :: "assumptions \<Rightarrow> expr \<Rightarrow> predicate \<Rightarrow> bool option" where
  "context_is_false ctx e pred = negated_answer (context_query ctx e pred)"

end
