(* ===== verification/Proof_Kernel.thy ===== *)
theory Proof_Kernel
  imports Kernel_Preflight Pythagorean Expr_Facts Bindings
begin

text \<open>
  The trusted checker of \<open>crates/fsym-proof-kernel/src/kernel.rs\<close>: \<open>check_rule_application\<close> with the
  rules it dispatches to, the \<open>ProofKernel\<close> session, the export of a derivation and
  \<open>verify_derivation_independent\<close>. The map of earlier claims is a map from step identifiers.
  \<open>prior_claims\<close> is the lookup that refuses an unknown step.
\<close>

section \<open>Earlier steps\<close>

type_synonym claim_map = "step_id \<Rightarrow> claim option"

definition check_strictly_prior :: "step_id \<Rightarrow> step_id \<Rightarrow> kernel_error + unit" where
  "check_strictly_prior referenced current =
     (if current \<le> referenced then Inl (InvalidStepReference referenced) else Inr ())"

definition prior_claim :: "claim_map \<Rightarrow> step_id \<Rightarrow> kernel_error + claim" where
  "prior_claim claims i = (case claims i of Some cl \<Rightarrow> Inr cl | None \<Rightarrow> Inl (UnknownStep i))"

section \<open>The size of the conclusion\<close>

text \<open>
  The closure \<open>operand\<close>. Its cache holds what the same call computed before, so a repeated
  reference gives the same sizes as one that is computed again.
\<close>

definition operand_sizes ::
  "claim_map \<Rightarrow> step_id \<Rightarrow> step_id \<Rightarrow> kernel_error + (construction_size \<times> construction_size) option" where
  "operand_sizes claims current i =
     rbind (check_strictly_prior i current) (\<lambda>_.
     rbind (prior_claim claims i) (\<lambda>cl.
     case cl of
       Equality lhs rhs \<Rightarrow>
         rbind (construction_of_expression lhs) (\<lambda>l.
         rbind (construction_of_expression rhs) (\<lambda>r. Inr (Some (l, r))))
     | _ \<Rightarrow> Inr None))"

definition add_operand :: "claim_map \<Rightarrow> step_id \<Rightarrow> step_id \<Rightarrow> construction_size \<Rightarrow> kernel_error + construction_size" where
  "add_operand claims current i output =
     rbind (operand_sizes claims current i) (\<lambda>sizes.
     case sizes of
       Some (l, r) \<Rightarrow> rbind (construction_add output l 1) (\<lambda>output. construction_add output r 1)
     | None \<Rightarrow> Inr output)"

definition congruence_base :: "kernel_error + construction_size" where
  "congruence_base = construction_add construction_default (construction_default\<lparr>cs_nodes := 2\<rparr>) 0"

definition preflight_congruence :: "claim_map \<Rightarrow> step_id \<Rightarrow> step_id list \<Rightarrow> construction_size \<Rightarrow> kernel_error + unit" where
  "preflight_congruence claims current ids output =
     rbind (rfold (add_operand claims current) ids output) (\<lambda>_. Inr ())"

fun preflight_rule_construction :: "proof_rule \<Rightarrow> step_id \<Rightarrow> claim_map \<Rightarrow> kernel_error + unit" where
  "preflight_rule_construction (CongruenceAdd ids) current claims =
     rbind congruence_base (preflight_congruence claims current ids)"
| "preflight_rule_construction (CongruenceMul ids) current claims =
     rbind congruence_base (preflight_congruence claims current ids)"
| "preflight_rule_construction (CongruenceFunction name ids) current claims =
     rbind congruence_base (\<lambda>output.
     rbind (construction_add output (construction_default\<lparr>cs_text := saturating (length name * 2)\<rparr>) 0)
       (preflight_congruence claims current ids))"
| "preflight_rule_construction (CongruencePow base exponent) current claims =
     rbind congruence_base (preflight_congruence claims current [base, exponent])"
| "preflight_rule_construction (SubstitutionRule template var step) current claims =
     rbind (operand_sizes claims current step) (\<lambda>sizes.
     case sizes of
       Some (l, r) \<Rightarrow>
         rbind (inspect template var) (\<lambda>projection.
         rbind (construction_add construction_default (projected_size projection l var) 0) (\<lambda>output.
         rbind (construction_add output (projected_size projection r var) 0) (\<lambda>_. Inr ())))
     | None \<Rightarrow> Inr ())"
| "preflight_rule_construction _ current claims = Inr ()"

section \<open>Definitional reductions\<close>

text \<open>The guard of a reduction: the claim when it holds, the refusal under the rule's name otherwise.\<close>

definition reduce_if :: "bool \<Rightarrow> string \<Rightarrow> claim \<Rightarrow> kernel_error + claim" where
  "reduce_if ok rule_name cl = (if ok then Inr cl else Inl (InvalidDefinitionalReduction rule_name))"

definition without_units :: "(expr \<Rightarrow> bool) \<Rightarrow> expr \<Rightarrow> (expr list \<Rightarrow> expr) \<Rightarrow> expr list \<Rightarrow> expr" where
  "without_units unit neutral build terms =
     (case filter (\<lambda>t. \<not> unit t) terms of [] \<Rightarrow> neutral | [t] \<Rightarrow> t | ts \<Rightarrow> build ts)"

definition literal_value :: "expr \<Rightarrow> rat option" where
  "literal_value e = (case e of IntegerLit n \<Rightarrow> Some (of_int n) | RationalLit r \<Rightarrow> Some r | _ \<Rightarrow> None)"

fun fold_literals :: "(rat \<Rightarrow> rat \<Rightarrow> rat) \<Rightarrow> expr list \<Rightarrow> rat \<Rightarrow> rat option" where
  "fold_literals f [] acc = Some acc"
| "fold_literals f (t # ts) acc =
     (case literal_value t of Some v \<Rightarrow> fold_literals f ts (f acc v) | None \<Rightarrow> None)"

definition is_literal_of :: "rat \<Rightarrow> expr \<Rightarrow> bool" where
  "is_literal_of v e =
     (case e of IntegerLit n \<Rightarrow> denom v = 1 \<and> numer v = n | RationalLit r \<Rightarrow> v = r | _ \<Rightarrow> False)"

definition evaluates_to :: "(rat \<Rightarrow> rat \<Rightarrow> rat) \<Rightarrow> rat \<Rightarrow> expr list \<Rightarrow> expr \<Rightarrow> bool" where
  "evaluates_to f neutral terms rhs =
     (case fold_literals f terms neutral of Some v \<Rightarrow> is_literal_of v rhs | None \<Rightarrow> False)"

definition elementary_zero_eval :: "expr \<Rightarrow> expr \<Rightarrow> bool" where
  "elementary_zero_eval lhs rhs =
     (case lhs of
        Function name [arg] \<Rightarrow>
          is_zero_expr arg
          \<and> (name \<in> {''sin'', ''tan'', ''sinh'', ''tanh'', ''asin'', ''atan'', ''asinh'', ''atanh'', ''erf''}
                \<and> is_zero_expr rhs
             \<or> name \<in> {''cos'', ''cosh'', ''exp'', ''sec'', ''sech'', ''sinc'', ''erfc''} \<and> is_one_expr rhs)
      | _ \<Rightarrow> False)"

definition elementary_one_eval :: "expr \<Rightarrow> expr \<Rightarrow> bool" where
  "elementary_one_eval lhs rhs =
     (case lhs of
        Function name [arg] \<Rightarrow>
          is_one_expr arg \<and> name \<in> {''acos'', ''acosh'', ''asec'', ''asech'', ''ln'', ''log''} \<and> is_zero_expr rhs
      | _ \<Rightarrow> False)"

definition accepted :: "'e + unit \<Rightarrow> bool" where
  "accepted r = (case r of Inl _ \<Rightarrow> False | Inr _ \<Rightarrow> True)"

definition check_definitional_reduction :: "expr \<Rightarrow> expr \<Rightarrow> string \<Rightarrow> kernel_error + claim" where
  "check_definitional_reduction lhs rhs rule_name =
     (if rule_name = ''identity'' then reduce_if (lhs = rhs) rule_name (Equality lhs rhs)
      else if rule_name = ''add_zero_identity'' then
        reduce_if (case lhs of Add terms \<Rightarrow> without_units is_zero_expr (from_i64 0) Add terms = rhs | _ \<Rightarrow> False)
          rule_name (Equality lhs rhs)
      else if rule_name = ''mul_one_identity'' then
        reduce_if (case lhs of Mul terms \<Rightarrow> without_units is_one_expr (from_i64 1) Mul terms = rhs | _ \<Rightarrow> False)
          rule_name (Equality lhs rhs)
      else if rule_name = ''mul_zero_annihilator'' then
        reduce_if
          (case lhs of
             Mul terms \<Rightarrow>
               (case normalize_polynomial lhs of Inr _ \<Rightarrow> True | Inl _ \<Rightarrow> False)
               \<and> list_ex is_zero_expr terms \<and> is_zero_expr rhs
           | _ \<Rightarrow> False) rule_name (Equality lhs rhs)
      else if rule_name = ''constant_eval_add'' then
        reduce_if (case lhs of Add terms \<Rightarrow> evaluates_to (+) 0 terms rhs | _ \<Rightarrow> False)
          rule_name (Equality lhs rhs)
      else if rule_name = ''constant_eval_mul'' then
        reduce_if (case lhs of Mul terms \<Rightarrow> evaluates_to (*) 1 terms rhs | _ \<Rightarrow> False)
          rule_name (Equality lhs rhs)
      else if rule_name = ''pow_zero_identity'' then
        reduce_if
          (case lhs of
             Pow base exponent \<Rightarrow> is_zero_expr exponent \<and> \<not> is_zero_expr base \<and> is_one_expr rhs
           | _ \<Rightarrow> False) rule_name (Equality lhs rhs)
      else if rule_name = ''pow_one_identity'' then
        reduce_if (case lhs of Pow base exponent \<Rightarrow> is_one_expr exponent \<and> rhs = base | _ \<Rightarrow> False)
          rule_name (Equality lhs rhs)
      else if rule_name = ''trig_zero_eval'' \<or> rule_name = ''elementary_zero_eval'' then
        reduce_if (elementary_zero_eval lhs rhs) rule_name (Equality lhs rhs)
      else if rule_name = ''elementary_one_eval'' then
        reduce_if (elementary_one_eval lhs rhs) rule_name (Equality lhs rhs)
      else if rule_name = ''pythagorean_identity'' then
        reduce_if (accepted (check_pythagorean_identity lhs rhs)) rule_name (Equality lhs rhs)
      else if rule_name = ''simplify_normal_form'' then
        reduce_if (accepted (check_polynomial_normal_form lhs rhs)) rule_name (Equality lhs rhs)
      else if rule_name = ''polynomial_ring_equivalence'' then
        reduce_if (accepted (check_polynomial_normal_form lhs rhs)) rule_name (AlgebraicIdentity lhs rhs)
      else Inl (InvalidDefinitionalReduction rule_name))"

section \<open>Certificates\<close>

definition check_polynomial_normal_form_certificate ::
  "claim \<Rightarrow> certificate_payload \<Rightarrow> kernel_error + claim" where
  "check_polynomial_normal_form_certificate cl certificate =
     (let refusal = InvalidCertificateLemma ''PolynomialNormalForm''
      in if certificate \<noteq> PolynomialNormalFormCertificate then Inl refusal
         else
           (case cl of
              Equality lhs rhs \<Rightarrow>
                if accepted (check_polynomial_normal_form lhs rhs) then Inr cl else Inl refusal
            | AlgebraicIdentity lhs rhs \<Rightarrow>
                if accepted (check_polynomial_normal_form lhs rhs) then Inr cl else Inl refusal
            | _ \<Rightarrow> Inl refusal))"

text \<open>The modular checker always returns (\<open>verify_rabin_returns\<close>), so \<open>the\<close> is its result.\<close>

definition dispatch_certificate_lemma :: "string \<Rightarrow> claim \<Rightarrow> certificate_payload \<Rightarrow> kernel_error + claim" where
  "dispatch_certificate_lemma family cl certificate =
     (if family = ''RealBall'' then check_real_ball_certificate cl certificate
      else if family = ''PolynomialNormalForm'' then check_polynomial_normal_form_certificate cl certificate
      else if family = ''RabinIrreducibilityModPrime''
      then the (check_rabin_irreducibility_certificate cl certificate)
      else Inl (UnverifiedCertificateLemma family))"

section \<open>One rule\<close>

text \<open>The loop of the congruence rules over their premises.\<close>

definition equality_premise :: "claim_map \<Rightarrow> step_id \<Rightarrow> step_id \<Rightarrow> kernel_error + expr \<times> expr" where
  "equality_premise claims current i =
     rbind (check_strictly_prior i current) (\<lambda>_.
     rbind (prior_claim claims i) (\<lambda>cl.
     case cl of Equality lhs rhs \<Rightarrow> Inr (lhs, rhs) | _ \<Rightarrow> Inl InvalidCongruence))"

definition congruence_claim ::
  "claim_map \<Rightarrow> step_id \<Rightarrow> (expr list \<Rightarrow> expr) \<Rightarrow> step_id list \<Rightarrow> kernel_error + claim" where
  "congruence_claim claims current build ids =
     rbind (rtraverse (equality_premise claims current) ids) (\<lambda>sides.
     Inr (Equality (build (map fst sides)) (build (map snd sides))))"

definition context_domain_holds :: "snapshot \<Rightarrow> expr \<Rightarrow> domain \<Rightarrow> bool" where
  "context_domain_holds ctx e d =
     (case e of
        IntegerLit _ \<Rightarrow> can_coerce_to ZZ d
      | RationalLit _ \<Rightarrow> can_coerce_to QQ d
      | Sym s \<Rightarrow> (case snapshot_domain_of ctx s of Some d' \<Rightarrow> can_coerce_to d' d | None \<Rightarrow> False)
      | _ \<Rightarrow> False)"

fun apply_rule :: "proof_rule \<Rightarrow> step_id \<Rightarrow> claim_map \<Rightarrow> snapshot \<Rightarrow> kernel_error + claim" where
  "apply_rule (Reflexivity e) current claims ctx = Inr (Equality e e)"
| "apply_rule (Symmetry i) current claims ctx =
     rbind (check_strictly_prior i current) (\<lambda>_.
     rbind (prior_claim claims i) (\<lambda>cl.
     case cl of Equality lhs rhs \<Rightarrow> Inr (Equality rhs lhs) | other \<Rightarrow> Inl (SymmetryRequiresEquality other)))"
| "apply_rule (Transitivity l r) current claims ctx =
     rbind (check_strictly_prior l current) (\<lambda>_.
     rbind (check_strictly_prior r current) (\<lambda>_.
     rbind (prior_claim claims l) (\<lambda>left_claim.
     rbind (prior_claim claims r) (\<lambda>right_claim.
     case (left_claim, right_claim) of
       (Equality l_lhs l_rhs, Equality r_lhs r_rhs) \<Rightarrow>
         if l_rhs \<noteq> r_lhs then Inl (TransitivityMismatch l_rhs r_lhs) else Inr (Equality l_lhs r_rhs)
     | _ \<Rightarrow> Inl RuleMismatch))))"
| "apply_rule (CongruenceAdd ids) current claims ctx =
     (if ids = [] then Inl InvalidCongruence else congruence_claim claims current Add ids)"
| "apply_rule (CongruenceMul ids) current claims ctx =
     (if ids = [] then Inl InvalidCongruence else congruence_claim claims current Mul ids)"
| "apply_rule (CongruencePow base exponent) current claims ctx =
     rbind (check_strictly_prior base current) (\<lambda>_.
     rbind (check_strictly_prior exponent current) (\<lambda>_.
     rbind (prior_claim claims base) (\<lambda>base_claim.
     rbind (prior_claim claims exponent) (\<lambda>exp_claim.
     case (base_claim, exp_claim) of
       (Equality b_lhs b_rhs, Equality e_lhs e_rhs) \<Rightarrow> Inr (Equality (Pow b_lhs e_lhs) (Pow b_rhs e_rhs))
     | _ \<Rightarrow> Inl InvalidCongruence))))"
| "apply_rule (CongruenceFunction name ids) current claims ctx =
     congruence_claim claims current (Function name) ids"
| "apply_rule (SubstitutionRule template var step) current claims ctx =
     rbind (check_strictly_prior step current) (\<lambda>_.
     rbind (prior_claim claims step) (\<lambda>cl.
     case cl of
       Equality lhs rhs \<Rightarrow>
         rbind (rmap_err (\<lambda>_. InvalidSubstitution) (capture_avoiding_subs template var lhs)) (\<lambda>lhs_subst.
         rbind (rmap_err (\<lambda>_. InvalidSubstitution) (capture_avoiding_subs template var rhs)) (\<lambda>rhs_subst.
         Inr (Equality lhs_subst rhs_subst)))
     | _ \<Rightarrow> Inl InvalidSubstitution))"
| "apply_rule (ContextPredicate e pred) current claims ctx =
     (case snapshot_query ctx e pred of
        EntailedTrue \<Rightarrow> Inr (PredicateHold e pred)
      | other \<Rightarrow> Inl (PredicateNotEntailed e pred other))"
| "apply_rule (ContextDomain e d) current claims ctx =
     (if context_domain_holds ctx e d then Inr (DomainMembership e d) else Inl (DomainNotEntailed e d))"
| "apply_rule (DefinitionalReduction lhs rhs rule_name) current claims ctx =
     check_definitional_reduction lhs rhs rule_name"
| "apply_rule (CertificateLemma family cl certificate) current claims ctx =
     dispatch_certificate_lemma family cl certificate"

definition check_rule_application ::
  "proof_rule \<Rightarrow> step_id \<Rightarrow> claim_map \<Rightarrow> snapshot \<Rightarrow> kernel_error + claim" where
  "check_rule_application rule current claims ctx =
     rbind (preflight_rule_construction rule current claims) (\<lambda>_. apply_rule rule current claims ctx)"

section \<open>The session\<close>

record proof_kernel =
  pk_context :: snapshot
  pk_steps :: "derivation_step list"
  pk_claims :: claim_map

definition proof_kernel_new :: "snapshot \<Rightarrow> proof_kernel" where
  "proof_kernel_new ctx = \<lparr>pk_context = ctx, pk_steps = [], pk_claims = (\<lambda>_. None)\<rparr>"

definition step_count :: "proof_kernel \<Rightarrow> nat" where
  "step_count k = length (pk_steps k)"

definition get_claim :: "proof_kernel \<Rightarrow> step_id \<Rightarrow> claim option" where
  "get_claim k i = pk_claims k i"

definition of_sum :: "'e + 'a \<Rightarrow> ('m, 'e, 'a) metered" where
  "of_sum r = (case r of Inl e \<Rightarrow> mfail e | Inr x \<Rightarrow> mret x)"

text \<open>A refusal leaves the session as it was: the new session is part of an \<open>Ok\<close> result only.\<close>

definition add_step ::
  "'m meter \<Rightarrow> proof_rule \<Rightarrow> proof_kernel \<Rightarrow> ('m, kernel_error, step_id \<times> proof_kernel) metered" where
  "add_step M rule k =
     mbind (mlift KernelBudget (checkpoint M)) (\<lambda>_.
     mbind (mlift KernelBudget (charge_batch M [(ComputeSteps, 1), (AllocationCount, 1)])) (\<lambda>_.
     if step_count k \<ge> MAX_DERIVATION_STEPS
     then mfail (DerivationLimitExceeded ''steps'' MAX_DERIVATION_STEPS)
     else
       mbind (of_sum (visit_rule rule preflight_default)) (\<lambda>pf.
       let rule_units = units_of pf
       in mbind (if rule_units > 1 then mlift KernelBudget (charge M ComputeSteps (of_nat (rule_units - 1)))
                 else mret ()) (\<lambda>_.
          if step_count k \<ge> 2 ^ 32 then mfail StepIdExhausted
          else
            let i = of_nat (step_count k)
            in mbind (of_sum (check_rule_application rule i (pk_claims k) (pk_context k))) (\<lambda>cl.
               mbind (of_sum (visit_claim cl pf)) (\<lambda>pf.
               mbind (if units_of pf > rule_units
                      then mlift KernelBudget (charge M ComputeSteps (of_nat (units_of pf - rule_units)))
                      else mret ()) (\<lambda>_.
               mbind (mlift KernelBudget (checkpoint M)) (\<lambda>_.
               mret (i, k\<lparr>pk_steps := pk_steps k @ [\<lparr>step_ident = i, step_rule = rule, step_claim = cl\<rparr>],
                          pk_claims := (pk_claims k)(i \<mapsto> cl)\<rparr>))))))))) "

definition prove_reflexivity where
  "prove_reflexivity M e k = add_step M (Reflexivity e) k"

definition prove_symmetry where
  "prove_symmetry M step k = add_step M (Symmetry step) k"

definition prove_transitivity where
  "prove_transitivity M left right k = add_step M (Transitivity left right) k"

definition prove_congruence_add where
  "prove_congruence_add M steps k = add_step M (CongruenceAdd steps) k"

definition prove_congruence_mul where
  "prove_congruence_mul M steps k = add_step M (CongruenceMul steps) k"

definition prove_congruence_pow where
  "prove_congruence_pow M base exponent k = add_step M (CongruencePow base exponent) k"

definition prove_congruence_function where
  "prove_congruence_function M name args k = add_step M (CongruenceFunction name args) k"

definition prove_substitution where
  "prove_substitution M template var step k = add_step M (SubstitutionRule template var step) k"

definition prove_context_predicate where
  "prove_context_predicate M e pred k = add_step M (ContextPredicate e pred) k"

definition prove_context_domain where
  "prove_context_domain M e d k = add_step M (ContextDomain e d) k"

definition prove_definitional_reduction where
  "prove_definitional_reduction M lhs rhs rule_name k = add_step M (DefinitionalReduction lhs rhs rule_name) k"

definition prove_certificate_lemma where
  "prove_certificate_lemma M family cl certificate k = add_step M (CertificateLemma family cl certificate) k"

section \<open>Export\<close>

text \<open>The steps a rule refers to, in the order in which the traversal pushes them.\<close>

fun rule_references :: "proof_rule \<Rightarrow> step_id list" where
  "rule_references (Symmetry s) = [s]"
| "rule_references (Transitivity l r) = [l, r]"
| "rule_references (CongruenceAdd ss) = ss"
| "rule_references (CongruenceMul ss) = ss"
| "rule_references (CongruenceFunction _ ss) = ss"
| "rule_references (CongruencePow base exponent) = [base, exponent]"
| "rule_references (SubstitutionRule _ _ s) = [s]"
| "rule_references _ = []"

text \<open>The last entry pushed is the first one popped.\<close>

function collect_required :: "derivation_step list \<Rightarrow> step_id list \<Rightarrow> step_id set \<Rightarrow> step_id set" where
  "collect_required steps [] required = required"
| "collect_required steps (current # stack) required =
     (if current \<in> required then collect_required steps stack required
      else
        let pushed = (if unat current < length steps then rule_references (step_rule (steps ! unat current)) else [])
        in collect_required steps (rev pushed @ stack) (insert current required))"
  by pat_completeness auto

termination
proof (relation "measures [\<lambda>(_, _, required). card (- required), \<lambda>(_, stack, _). length stack]", goal_cases)
  case (3 steps current stack required pushed)
  then have "- insert current required \<subset> - required" by blast
  then have "card (- insert current required) < card (- required)" by (intro psubset_card_mono) simp_all
  then show ?case by simp
qed simp_all

fun remap_rule :: "proof_rule \<Rightarrow> (step_id \<Rightarrow> step_id option) \<Rightarrow> kernel_error + proof_rule" where
  "remap_rule rule mapping =
     (let remap = (\<lambda>i. case mapping i of Some j \<Rightarrow> Inr j | None \<Rightarrow> Inl (UnknownStep i))
      in case rule of
           Symmetry s \<Rightarrow> rbind (remap s) (\<lambda>s. Inr (Symmetry s))
         | Transitivity l r \<Rightarrow> rbind (remap l) (\<lambda>l. rbind (remap r) (\<lambda>r. Inr (Transitivity l r)))
         | CongruenceAdd ss \<Rightarrow> rbind (rtraverse remap ss) (\<lambda>ss. Inr (CongruenceAdd ss))
         | CongruenceMul ss \<Rightarrow> rbind (rtraverse remap ss) (\<lambda>ss. Inr (CongruenceMul ss))
         | CongruencePow b e \<Rightarrow> rbind (remap b) (\<lambda>b. rbind (remap e) (\<lambda>e. Inr (CongruencePow b e)))
         | CongruenceFunction name ss \<Rightarrow> rbind (rtraverse remap ss) (\<lambda>ss. Inr (CongruenceFunction name ss))
         | SubstitutionRule template var s \<Rightarrow> rbind (remap s) (\<lambda>s. Inr (SubstitutionRule template var s))
         | _ \<Rightarrow> Inr rule)"

text \<open>The loop that renumbers the required steps; indexing outside the steps panics.\<close>

fun compact_steps ::
  "derivation_step list \<Rightarrow> nat \<Rightarrow> step_id list \<Rightarrow> (step_id \<Rightarrow> step_id option) \<Rightarrow> derivation_step list
     \<Rightarrow> ((step_id \<Rightarrow> step_id option) \<times> derivation_step list, kernel_error) exec" where
  "compact_steps steps new_idx [] old_to_new compacted = Ok (old_to_new, compacted)"
| "compact_steps steps new_idx (old # rest) old_to_new compacted =
     (if new_idx \<ge> 2 ^ 32 then Err StepIdExhausted
      else
        let new_id = of_nat new_idx;
            old_to_new = old_to_new(old \<mapsto> new_id)
        in if unat old \<ge> length steps then Panic
           else
             (case remap_rule (step_rule (steps ! unat old)) old_to_new of
                Inl e \<Rightarrow> Err e
              | Inr rule \<Rightarrow>
                  compact_steps steps (new_idx + 1) rest old_to_new
                    (compacted @ [\<lparr>step_ident = new_id, step_rule = rule, step_claim = step_claim (steps ! unat old)\<rparr>])))"

definition export_derivation :: "proof_kernel \<Rightarrow> step_id \<Rightarrow> (derivation_tree, kernel_error) exec" where
  "export_derivation k target =
     (if pk_claims k target = None then Err (UnknownStep target)
      else
        (case compact_steps (pk_steps k) 0 (sorted_list_of_set (collect_required (pk_steps k) [target] {}))
                (\<lambda>_. None) [] of
           Ok (old_to_new, compacted) \<Rightarrow>
             (case old_to_new target of
                Some compact_root \<Rightarrow> Ok \<lparr>tree_steps = compacted, tree_root = compact_root\<rparr>
              | None \<Rightarrow> Err (UnknownStep target))
         | Err e \<Rightarrow> Err e
         | Panic \<Rightarrow> Panic
         | Out_of_fuel \<Rightarrow> Out_of_fuel))"

section \<open>Independent verification\<close>

fun verify_steps :: "snapshot \<Rightarrow> nat \<Rightarrow> derivation_step list \<Rightarrow> claim_map \<Rightarrow> kernel_error + claim_map" where
  "verify_steps ctx expected_idx [] verified = Inr verified"
| "verify_steps ctx expected_idx (step # steps) verified =
     (if expected_idx \<ge> 2 ^ 32 then Inl StepIdExhausted
      else if step_ident step \<noteq> of_nat expected_idx then Inl (InvalidStepReference (step_ident step))
      else
        rbind (check_rule_application (step_rule step) (step_ident step) verified ctx) (\<lambda>derived.
        if derived \<noteq> step_claim step then Inl (ClaimDiscrepancy (step_claim step) derived)
        else verify_steps ctx (expected_idx + 1) steps (verified(step_ident step \<mapsto> derived))))"

definition verify_derivation_independent :: "derivation_tree \<Rightarrow> snapshot \<Rightarrow> kernel_error + claim" where
  "verify_derivation_independent derivation ctx =
     rbind (derivation_verification_units derivation) (\<lambda>_.
     if unat (tree_root derivation) \<ge> length (tree_steps derivation)
     then Inl (UnknownStep (tree_root derivation))
     else
       rbind (verify_steps ctx 0 (tree_steps derivation) (\<lambda>_. None)) (\<lambda>verified.
       prior_claim verified (tree_root derivation)))"

section \<open>When the parts accept\<close>

lemma check_strictly_prior_iff [simp]: "check_strictly_prior i j = Inr u \<longleftrightarrow> i < j"
  by (auto simp: check_strictly_prior_def not_le)

lemma prior_claim_iff [simp]: "prior_claim claims i = Inr cl \<longleftrightarrow> claims i = Some cl"
  by (auto simp: prior_claim_def split: option.splits)

lemma case_Equality_iff:
  "(case cl of Equality l r \<Rightarrow> f l r | PredicateHold a b \<Rightarrow> Inl (g1 a b) | DomainMembership c d \<Rightarrow> Inl (g2 c d)
      | NonZeroClaim e \<Rightarrow> Inl (g3 e) | AlgebraicIdentity h i \<Rightarrow> Inl (g4 h i)
      | IrreducibleModPrime j k \<Rightarrow> Inl (g5 j k)) = Inr x
    \<longleftrightarrow> (\<exists>l r. cl = Equality l r \<and> f l r = Inr x)"
  by (cases cl) simp_all

lemma equality_premise_iff:
  "equality_premise claims current i = Inr p \<longleftrightarrow> i < current \<and> claims i = Some (Equality (fst p) (snd p))"
proof (cases "claims i")
  case (Some cl)
  then show ?thesis by (cases cl; cases p) (auto simp: equality_premise_def prior_claim_def)
qed (auto simp: equality_premise_def prior_claim_def)

end
