(* ===== verification/Kernel_Sessions.thy ===== *)
theory Kernel_Sessions
  imports Proof_Kernel
begin

text \<open>
  What a session keeps: its steps replay, in order, to its claims. The independent verifier is that
  replay, so it agrees with the session; a derivation that is exported is renumbered so that it
  replays to the claim of its root, unless the verifier's cumulative limits refuse it.
\<close>

section \<open>Replay\<close>

text \<open>The claims of the first \<open>k\<close> steps.\<close>

definition claims_of :: "derivation_step list \<Rightarrow> nat \<Rightarrow> claim_map" where
  "claims_of steps k = (\<lambda>i. if unat i < k then Some (step_claim (steps ! unat i)) else None)"

definition replays :: "snapshot \<Rightarrow> derivation_step list \<Rightarrow> nat \<Rightarrow> bool" where
  "replays ctx steps j \<longleftrightarrow>
     step_ident (steps ! j) = of_nat j
     \<and> check_rule_application (step_rule (steps ! j)) (of_nat j) (claims_of steps j) ctx = Inr (step_claim (steps ! j))"

lemma index_of_nat: "n < 2 ^ 32 \<Longrightarrow> unat (of_nat n :: step_id) = n"
  by (simp add: unsigned_of_nat take_bit_nat_eq_self)

lemma index_iff: "n < 2 ^ 32 \<Longrightarrow> unat (i :: step_id) = n \<longleftrightarrow> i = of_nat n"
  by (auto simp: index_of_nat)

lemma index_bound: "unat (i :: step_id) < 2 ^ 32"
  using unsigned_less [of i] by simp

lemma claims_of_Suc:
  assumes "n < 2 ^ 32"
  shows "claims_of steps (Suc n) = (claims_of steps n)(of_nat n \<mapsto> step_claim (steps ! n))"
proof (rule ext)
  fix i :: step_id
  show "claims_of steps (Suc n) i = ((claims_of steps n)(of_nat n \<mapsto> step_claim (steps ! n))) i"
  proof (cases "unat i = n")
    case True
    then have "i = of_nat n" using index_iff [OF assms] by blast
    then show ?thesis unfolding claims_of_def fun_upd_def by (simp only: index_of_nat [OF assms]) simp
  next
    case False
    then have "i \<noteq> of_nat n" using index_iff [OF assms] by blast
    then show ?thesis using False by (simp add: claims_of_def less_Suc_eq)
  qed
qed

lemma claims_of_0 [simp]: "claims_of steps 0 = (\<lambda>_. None)"
  by (simp add: claims_of_def)

lemma claims_of_append: "k \<le> length xs \<Longrightarrow> claims_of (xs @ ys) k = claims_of xs k"
  by (rule ext) (simp add: claims_of_def nth_append)

lemma verify_steps_replay:
  assumes "n \<le> length steps"
  shows "verify_steps ctx n (drop n steps) (claims_of steps n) = Inr claims \<longleftrightarrow>
    (n < length steps \<longrightarrow> length steps \<le> 2 ^ 32) \<and> (\<forall>j. n \<le> j \<and> j < length steps \<longrightarrow> replays ctx steps j)
    \<and> claims = claims_of steps (length steps)"
  using assms
proof (induction "length steps - n" arbitrary: n)
  case 0
  then show ?case by auto
next
  case (Suc m)
  then have n: "n < length steps" by simp
  have split: "(\<forall>j. n \<le> j \<and> j < length steps \<longrightarrow> Q j) \<longleftrightarrow> Q n \<and> (\<forall>j. Suc n \<le> j \<and> j < length steps \<longrightarrow> Q j)" for Q
    using n by (metis Suc_leI le_eq_less_or_eq Suc_le_lessD)
  have drop: "drop n steps = steps ! n # drop (Suc n) steps" using n by (simp add: Cons_nth_drop_Suc)
  show ?case
  proof (cases "n < 2 ^ 32")
    case True
    have "verify_steps ctx (n + 1) (drop (Suc n) steps) ((claims_of steps n)(of_nat n \<mapsto> step_claim (steps ! n))) = Inr claims
        \<longleftrightarrow> (Suc n < length steps \<longrightarrow> length steps \<le> 2 ^ 32)
          \<and> (\<forall>j. Suc n \<le> j \<and> j < length steps \<longrightarrow> replays ctx steps j) \<and> claims = claims_of steps (length steps)"
      using Suc.hyps(1) [of "Suc n"] Suc.hyps(2) n claims_of_Suc [OF True, of steps] by simp
    then show ?thesis
      using n True unfolding split [of "replays ctx steps"] unfolding drop replays_def [of ctx steps n]
      by (auto simp del: One_nat_def)
  next
    case False
    then show ?thesis using n unfolding drop by simp
  qed
qed

corollary verify_steps_iff:
  "verify_steps ctx 0 steps (\<lambda>_. None) = Inr claims \<longleftrightarrow>
     length steps \<le> 2 ^ 32 \<and> (\<forall>j < length steps. replays ctx steps j) \<and> claims = claims_of steps (length steps)"
  using verify_steps_replay [of 0 steps ctx claims] by (cases steps) auto

section \<open>Sessions\<close>

text \<open>The states of a kernel that was created for a context and extended under one meter.\<close>

inductive session :: "'m meter \<Rightarrow> snapshot \<Rightarrow> proof_kernel \<Rightarrow> bool" for M ctx where
  new_session: "session M ctx (proof_kernel_new ctx)"
| extended: "session M ctx k \<Longrightarrow> add_step M rule k m = (Ok (i, k'), m') \<Longrightarrow> session M ctx k'"

lemma of_sum_Ok [simp]: "of_sum r m = (Ok x, m') \<longleftrightarrow> r = Inr x \<and> m' = m"
  by (auto simp: of_sum_def mret_def mfail_def split: sum.splits)

lemma mbind_Ok: "mbind c f m = (Ok y, m') \<longleftrightarrow> (\<exists>x m1. c m = (Ok x, m1) \<and> f x m1 = (Ok y, m'))"
  by (auto simp: mbind_def split: prod.splits exec.splits)

lemma mret_Ok [simp]: "mret x m = (Ok y, m') \<longleftrightarrow> y = x \<and> m' = m"
  by (auto simp: mret_def)

lemma mfail_Ok [simp]: "mfail e m \<noteq> (Ok y, m')"
  by (simp add: mfail_def)

lemma add_step_Ok:
  assumes "add_step M rule k m = (Ok (i, k'), m')"
  obtains cl where "step_count k < MAX_DERIVATION_STEPS" "i = of_nat (step_count k)"
    "check_rule_application rule i (pk_claims k) (pk_context k) = Inr cl"
    "k' = k\<lparr>pk_steps := pk_steps k @ [\<lparr>step_ident = i, step_rule = rule, step_claim = cl\<rparr>],
           pk_claims := (pk_claims k)(i \<mapsto> cl)\<rparr>"
  using assms unfolding add_step_def Let_def
  by (auto simp: mbind_Ok split: if_split_asm)

definition session_invariant :: "snapshot \<Rightarrow> proof_kernel \<Rightarrow> bool" where
  "session_invariant ctx k \<longleftrightarrow>
     pk_context k = ctx \<and> step_count k \<le> MAX_DERIVATION_STEPS
     \<and> (\<forall>j < step_count k. replays ctx (pk_steps k) j) \<and> pk_claims k = claims_of (pk_steps k) (step_count k)"

lemma step_limit: "n \<le> MAX_DERIVATION_STEPS \<Longrightarrow> n < 2 ^ 32"
  by (simp add: MAX_DERIVATION_STEPS_def)

lemma add_step_invariant:
  assumes "session_invariant ctx k" and "add_step M rule k m = (Ok (i, k'), m')"
  shows "session_invariant ctx k'"
proof -
  let ?n = "step_count k"
  from assms(2) obtain cl where n: "?n < MAX_DERIVATION_STEPS" and i: "i = of_nat ?n"
    and run: "check_rule_application rule i (pk_claims k) (pk_context k) = Inr cl"
    and k': "k' = k\<lparr>pk_steps := pk_steps k @ [\<lparr>step_ident = i, step_rule = rule, step_claim = cl\<rparr>],
           pk_claims := (pk_claims k)(i \<mapsto> cl)\<rparr>"
    by (rule add_step_Ok)
  have inv: "pk_context k = ctx" "\<forall>j < ?n. replays ctx (pk_steps k) j" "pk_claims k = claims_of (pk_steps k) ?n"
    using assms(1) by (simp_all add: session_invariant_def)
  have len: "length (pk_steps k) = ?n" by (simp add: step_count_def)
  have steps: "pk_steps k' = pk_steps k @ [\<lparr>step_ident = i, step_rule = rule, step_claim = cl\<rparr>]"
    and count: "step_count k' = Suc ?n"
    by (simp_all add: k' step_count_def)
  have old: "claims_of (pk_steps k') j = claims_of (pk_steps k) j" if "j \<le> ?n" for j
    unfolding steps by (rule claims_of_append) (use that len in simp)
  have "replays ctx (pk_steps k') j" if "j < Suc ?n" for j
  proof (cases "j = ?n")
    case True
    then show ?thesis using run inv(1,3) old [of ?n] by (simp add: replays_def steps nth_append len i)
  next
    case False
    then have "j < ?n" using that by simp
    then show ?thesis using inv(2) old [of j] by (simp add: replays_def steps nth_append len)
  qed
  moreover have "pk_claims k' = claims_of (pk_steps k') (Suc ?n)"
    using claims_of_Suc [OF step_limit [OF less_imp_le [OF n]], of "pk_steps k'"] old [of ?n] inv(3)
    by (simp add: k' i nth_append len)
  ultimately show ?thesis using inv(1) n unfolding session_invariant_def count by (simp add: k')
qed

theorem session_keeps_invariant: "session M ctx k \<Longrightarrow> session_invariant ctx k"
proof (induction rule: session.induct)
  case new_session
  then show ?case by (simp add: session_invariant_def proof_kernel_new_def step_count_def)
next
  case (extended k rule m i k' m')
  show ?case by (rule add_step_invariant [OF extended.IH extended.hyps(2)])
qed

section \<open>The verifier agrees with the session\<close>

lemma session_verify_steps:
  assumes "session_invariant ctx k"
  shows "verify_steps ctx 0 (pk_steps k) (\<lambda>_. None) = Inr (pk_claims k)"
  unfolding verify_steps_iff using assms step_limit [of "step_count k"]
  by (simp add: session_invariant_def less_imp_le step_count_def)

theorem verifier_agrees:
  assumes "session_invariant ctx k" and "pk_claims k target = Some cl"
  shows "verify_derivation_independent \<lparr>tree_steps = pk_steps k, tree_root = target\<rparr> ctx
    = rbind (derivation_steps_verification_units (pk_steps k)) (\<lambda>_. Inr cl)"
proof -
  have "unat target < length (pk_steps k)"
    using assms by (auto simp: session_invariant_def claims_of_def step_count_def split: if_splits)
  then show ?thesis
    using session_verify_steps [OF assms(1)]
    by (simp add: verify_derivation_independent_def derivation_verification_units_def prior_claim_def assms(2) not_le)
qed

end
