(* ===== verification/Constant_Bounds.thy ===== *)
theory Constant_Bounds
  imports Complex_Main
begin

text \<open>The balls the checker uses for \<open>pi\<close> and \<open>e\<close> enclose the numbers.\<close>

section \<open>Bounds of the arcus tangent\<close>

lemma arctan_bounds:
  assumes "0 \<le> x" and "x \<le> 1"
  shows "(\<Sum>k<2 * n. (- 1) ^ k * (1 / real (k * 2 + 1) * x ^ (k * 2 + 1))) \<le> arctan x"
    and "arctan x \<le> (\<Sum>k<2 * n + 1. (- 1) ^ k * (1 / real (k * 2 + 1) * x ^ (k * 2 + 1)))"
proof -
  have x: "\<bar>x\<bar> \<le> 1" using assms by simp
  let ?a = "\<lambda>k. 1 / real (k * 2 + 1) * x ^ (k * 2 + 1)"
  have null: "?a \<longlonglongrightarrow> 0" by (rule zeroseq_arctan_series [OF x])
  have pos: "0 \<le> ?a k" for k using assms by simp
  have mono: "?a (Suc k) \<le> ?a k" for k
  proof -
    have "x ^ (Suc k * 2 + 1) \<le> x ^ (k * 2 + 1)" by (rule power_decreasing) (use assms in auto)
    moreover have "1 / real (Suc k * 2 + 1) \<le> 1 / real (k * 2 + 1)" by (simp add: frac_le)
    ultimately show ?thesis using assms by (intro mult_mono) auto
  qed
  have series: "arctan x = (\<Sum>k. (- 1) ^ k * ?a k)" by (rule arctan_series [OF x])
  show "(\<Sum>k<2 * n. (- 1) ^ k * ?a k) \<le> arctan x"
    unfolding series by (rule summable_Leibniz'(2) [OF null pos mono])
  show "arctan x \<le> (\<Sum>k<2 * n + 1. (- 1) ^ k * ?a k)"
    unfolding series by (rule summable_Leibniz'(4) [OF null pos mono])
qed

lemma pi_near: "\<bar>pi - 3141592653589793 / 1000000000000000\<bar> \<le> 1 / 1000000000000000"
proof -
  have five: "arctan (1 / 5) \<le> 19739555984988078 / 100000000000000000" "19739555984988072 / 100000000000000000 \<le> arctan (1 / 5)"
    using arctan_bounds [of "1 / 5" 6] by (simp_all add: eval_nat_numeral)
  have other: "arctan (1 / 239) \<le> 418407600207480 / 100000000000000000" "418407600207466 / 100000000000000000 \<le> arctan (1 / 239)"
    using arctan_bounds [of "1 / 239" 2] by (simp_all add: eval_nat_numeral)
  have "pi = 16 * arctan (1 / 5) - 4 * arctan (1 / 239)" using machin by simp
  then show ?thesis unfolding abs_le_iff using five other by (intro conjI) linarith+
qed

lemma e_near: "\<bar>exp 1 - 2718281828459045 / 1000000000000000\<bar> \<le> (1 / 1000000000000000 :: real)"
proof -
  obtain t where t: "\<bar>t\<bar> \<le> \<bar>1 :: real\<bar>" "exp 1 = (\<Sum>m<19. 1 ^ m / fact m) + exp t / fact 19 * 1 ^ 19"
    using Maclaurin_exp_le [of 1 19] by blast
  have "exp t \<le> exp 1" using t(1) by simp
  also have "\<dots> \<le> 3" by (rule exp_le)
  finally have "0 < exp t" "exp t \<le> 3" by simp_all
  then show ?thesis using t(2) by (simp add: eval_nat_numeral fact_numeral lessThan_Suc)
qed

end
