(* ===== verification/Elementary.thy ===== *)
theory Elementary
  imports Expr_Semantics
begin

text \<open>
  What the trusted rules and the fact deduction assume of the named functions, as the contracts
  \<open>elementary_interp\<close> and \<open>real_interp\<close>, and the standard reading of the names, which satisfies them.
\<close>

section \<open>The contracts\<close>

definition entire_functions :: "string set" where
  "entire_functions = {''sin'', ''cos'', ''sinh'', ''cosh'', ''exp''}"

definition zero_at_zero :: "string set" where
  "zero_at_zero =
     {''sin'', ''tan'', ''sinh'', ''tanh'', ''asin'', ''atan'', ''asinh'', ''atanh'', ''erf''}"

definition one_at_zero :: "string set" where
  "one_at_zero = {''cos'', ''cosh'', ''exp'', ''sec'', ''sech'', ''sinc'', ''erfc''}"

definition zero_at_one :: "string set" where
  "zero_at_one = {''acos'', ''acosh'', ''asec'', ''asech'', ''ln'', ''log''}"

text \<open>The entire functions, the values at zero and one, and the Pythagorean families.\<close>

locale elementary_interp =
  fixes I :: interp
  assumes constant_derivative: "constant_derivative I"
    and entire: "f \<in> entire_functions \<Longrightarrow> i_fun I f [z] \<noteq> None"
    and at_zero: "f \<in> zero_at_zero \<Longrightarrow> i_fun I f [0] = Some 0"
    and at_zero_one: "f \<in> one_at_zero \<Longrightarrow> i_fun I f [0] = Some 1"
    and at_one: "f \<in> zero_at_one \<Longrightarrow> i_fun I f [1] = Some 0"
    and sin_cos: "i_fun I ''sin'' [z] = Some a \<Longrightarrow> i_fun I ''cos'' [z] = Some b \<Longrightarrow> a\<^sup>2 + b\<^sup>2 = 1"
    and sec_tan: "i_fun I ''sec'' [z] = Some a \<Longrightarrow> i_fun I ''tan'' [z] = Some b \<Longrightarrow> a\<^sup>2 - b\<^sup>2 = 1"
    and csc_cot: "i_fun I ''csc'' [z] = Some a \<Longrightarrow> i_fun I ''cot'' [z] = Some b \<Longrightarrow> a\<^sup>2 - b\<^sup>2 = 1"
    and cosh_sinh: "i_fun I ''cosh'' [z] = Some a \<Longrightarrow> i_fun I ''sinh'' [z] = Some b \<Longrightarrow> a\<^sup>2 - b\<^sup>2 = 1"

definition odd_increasing :: "string set" where
  "odd_increasing = {''sinh'', ''tanh'', ''atan'', ''asinh'', ''erf''}"

definition real_on_reals :: "string set" where
  "real_on_reals = {''sin'', ''cos'', ''sinc'', ''erfc''}"

text \<open>How the functions behave on the real line, wherever they have a value.\<close>

locale real_interp = elementary_interp +
  assumes exp_real: "i_fun I ''exp'' [of_real x] = Some w \<Longrightarrow> \<exists>y > 0. w = of_real y"
    and exp_nonzero: "i_fun I ''exp'' [z] = Some w \<Longrightarrow> w \<noteq> 0"
    and abs_value: "f \<in> {''abs'', ''Abs''} \<Longrightarrow> i_fun I f [z] = Some w \<Longrightarrow> w = of_real (cmod z)"
    and cosh_real: "i_fun I ''cosh'' [of_real x] = Some w \<Longrightarrow> \<exists>y > 0. w = of_real y"
    and odd_real: "f \<in> odd_increasing \<Longrightarrow> i_fun I f [of_real x] = Some w \<Longrightarrow> \<exists>y. w = of_real y \<and> sgn y = sgn x"
    and real_real: "f \<in> real_on_reals \<Longrightarrow> i_fun I f [of_real x] = Some w \<Longrightarrow> w \<in> \<real>"
    and log_real: "f \<in> {''log'', ''ln''} \<Longrightarrow> 0 < x \<Longrightarrow> i_fun I f [of_real x] = Some w \<Longrightarrow> w \<in> \<real>"
    and sqrt_real: "0 \<le> x \<Longrightarrow> i_fun I ''sqrt'' [of_real x] = Some w \<Longrightarrow> \<exists>y. w = of_real y \<and> sgn y = sgn x"

section \<open>The standard reading\<close>

text \<open>The inverse functions are given on the real line only, and the error functions at zero.\<close>

definition on_reals :: "(real \<Rightarrow> real option) \<Rightarrow> complex \<Rightarrow> complex option" where
  "on_reals f z = (if Im z = 0 then map_option of_real (f (Re z)) else None)"

definition quotient_value :: "complex \<Rightarrow> complex \<Rightarrow> complex option" where
  "quotient_value a b = (if b = 0 then None else Some (a / b))"

definition unary_function :: "string \<Rightarrow> complex \<Rightarrow> complex option" where
  "unary_function name z =
     (if name = ''sin'' then Some (sin z)
      else if name = ''cos'' then Some (cos z)
      else if name = ''exp'' then Some (exp z)
      else if name = ''sinh'' then Some (sinh z)
      else if name = ''cosh'' then Some (cosh z)
      else if name = ''tan'' then quotient_value (sin z) (cos z)
      else if name = ''cot'' then quotient_value (cos z) (sin z)
      else if name = ''sec'' then quotient_value 1 (cos z)
      else if name = ''csc'' then quotient_value 1 (sin z)
      else if name = ''tanh'' then quotient_value (sinh z) (cosh z)
      else if name = ''sech'' then quotient_value 1 (cosh z)
      else if name = ''sinc'' then (if z = 0 then Some 1 else Some (sin z / z))
      else if name = ''abs'' \<or> name = ''Abs'' then Some (of_real (cmod z))
      else if name = ''log'' \<or> name = ''ln'' then (if z = 0 then None else Some (principal_log z))
      else if name = ''sqrt'' then Some (csqrt z)
      else if name = ''asin'' then on_reals (\<lambda>x. if \<bar>x\<bar> \<le> 1 then Some (arcsin x) else None) z
      else if name = ''acos'' then on_reals (\<lambda>x. if \<bar>x\<bar> \<le> 1 then Some (arccos x) else None) z
      else if name = ''atan'' then on_reals (\<lambda>x. Some (arctan x)) z
      else if name = ''asinh'' then on_reals (\<lambda>x. Some (arsinh x)) z
      else if name = ''acosh'' then on_reals (\<lambda>x. if 1 \<le> x then Some (arcosh x) else None) z
      else if name = ''atanh'' then on_reals (\<lambda>x. if \<bar>x\<bar> < 1 then Some (artanh x) else None) z
      else if name = ''asec'' then on_reals (\<lambda>x. if 1 \<le> \<bar>x\<bar> then Some (arccos (1 / x)) else None) z
      else if name = ''asech'' then on_reals (\<lambda>x. if 0 < x \<and> x \<le> 1 then Some (arcosh (1 / x)) else None) z
      else if name = ''erf'' then (if z = 0 then Some 0 else None)
      else if name = ''erfc'' then (if z = 0 then Some 1 else None)
      else None)"

definition standard_fun :: "string \<Rightarrow> complex list \<Rightarrow> complex option" where
  "standard_fun name args = (case args of [z] \<Rightarrow> unary_function name z | _ \<Rightarrow> None)"

lemma standard_fun_simps [simp]:
  "standard_fun ''sin'' [z] = Some (sin z)"
  "standard_fun ''cos'' [z] = Some (cos z)"
  "standard_fun ''exp'' [z] = Some (exp z)"
  "standard_fun ''sinh'' [z] = Some (sinh z)"
  "standard_fun ''cosh'' [z] = Some (cosh z)"
  "standard_fun ''tan'' [z] = quotient_value (sin z) (cos z)"
  "standard_fun ''cot'' [z] = quotient_value (cos z) (sin z)"
  "standard_fun ''sec'' [z] = quotient_value 1 (cos z)"
  "standard_fun ''csc'' [z] = quotient_value 1 (sin z)"
  "standard_fun ''tanh'' [z] = quotient_value (sinh z) (cosh z)"
  "standard_fun ''sech'' [z] = quotient_value 1 (cosh z)"
  "standard_fun ''sinc'' [z] = (if z = 0 then Some 1 else Some (sin z / z))"
  "standard_fun ''abs'' [z] = Some (of_real (cmod z))"
  "standard_fun ''Abs'' [z] = Some (of_real (cmod z))"
  "standard_fun ''log'' [z] = (if z = 0 then None else Some (principal_log z))"
  "standard_fun ''ln'' [z] = (if z = 0 then None else Some (principal_log z))"
  "standard_fun ''sqrt'' [z] = Some (csqrt z)"
  "standard_fun ''asin'' [z] = on_reals (\<lambda>x. if \<bar>x\<bar> \<le> 1 then Some (arcsin x) else None) z"
  "standard_fun ''acos'' [z] = on_reals (\<lambda>x. if \<bar>x\<bar> \<le> 1 then Some (arccos x) else None) z"
  "standard_fun ''atan'' [z] = on_reals (\<lambda>x. Some (arctan x)) z"
  "standard_fun ''asinh'' [z] = on_reals (\<lambda>x. Some (arsinh x)) z"
  "standard_fun ''acosh'' [z] = on_reals (\<lambda>x. if 1 \<le> x then Some (arcosh x) else None) z"
  "standard_fun ''atanh'' [z] = on_reals (\<lambda>x. if \<bar>x\<bar> < 1 then Some (artanh x) else None) z"
  "standard_fun ''asec'' [z] = on_reals (\<lambda>x. if 1 \<le> \<bar>x\<bar> then Some (arccos (1 / x)) else None) z"
  "standard_fun ''asech'' [z] = on_reals (\<lambda>x. if 0 < x \<and> x \<le> 1 then Some (arcosh (1 / x)) else None) z"
  "standard_fun ''erf'' [z] = (if z = 0 then Some 0 else None)"
  "standard_fun ''erfc'' [z] = (if z = 0 then Some 1 else None)"
  by (simp_all add: standard_fun_def unary_function_def)

text \<open>The complex derivative; lambdas and integrals have no value in the standard reading.\<close>

definition derivative_at :: "(complex \<Rightarrow> complex option) \<Rightarrow> complex \<Rightarrow> complex \<Rightarrow> bool" where
  "derivative_at f z d \<longleftrightarrow>
     (\<forall>\<^sub>F w in nhds z. f w \<noteq> None) \<and> ((\<lambda>w. the (f w)) has_field_derivative d) (at z)"

definition standard_interp :: interp where
  "standard_interp =
     \<lparr>i_fun = standard_fun, i_lambda = (\<lambda>_. None), i_definite = (\<lambda>_ _ _. None),
      i_primitive = (\<lambda>_ _. None),
      i_derivative = (\<lambda>f z. if \<exists>d. derivative_at f z d then Some (THE d. derivative_at f z d) else None)\<rparr>"

lemma derivative_at_constant: "derivative_at (\<lambda>_. c) z d \<longleftrightarrow> c \<noteq> None \<and> d = 0"
proof (cases c)
  case (Some v)
  have "((\<lambda>w. v) has_field_derivative d) (at z) \<longleftrightarrow> d = 0"
    using DERIV_unique [OF _ DERIV_const] by auto
  then show ?thesis by (simp add: derivative_at_def Some)
qed (simp add: derivative_at_def)

lemma derivative_at_constant': "derivative_at (\<lambda>_. c) z = (\<lambda>d. c \<noteq> None \<and> d = 0)"
  by (rule ext) (rule derivative_at_constant)

lemma principal_log_1: "principal_log 1 = 0"
proof -
  have "Arg 1 = 0" by (rule cis_Arg_unique) simp_all
  then show ?thesis by (simp add: principal_log_def complex_eq_iff)
qed

lemma principal_log_pos: "0 < x \<Longrightarrow> principal_log (of_real x) \<in> \<real>"
proof -
  assume "0 < x"
  then have "Arg (of_real x) = 0" by (intro cis_Arg_unique) (simp_all add: sgn_of_real)
  then show ?thesis by (simp add: principal_log_def complex_is_Real_iff)
qed

lemma complex_square_identities:
  fixes s c :: complex
  assumes "s\<^sup>2 + c\<^sup>2 = 1"
  shows "c \<noteq> 0 \<Longrightarrow> (1 / c)\<^sup>2 - (s / c)\<^sup>2 = 1" and "s \<noteq> 0 \<Longrightarrow> (1 / s)\<^sup>2 - (c / s)\<^sup>2 = 1"
  using assms by (simp_all add: power_divide field_simps)

lemma standard_interp_fun [simp]: "i_fun standard_interp = standard_fun"
  by (simp add: standard_interp_def)

lemmas function_names =
  entire_functions_def zero_at_zero_def one_at_zero_def zero_at_one_def odd_increasing_def real_on_reals_def

lemma standard_pythagoras:
  "standard_fun ''sec'' [z] = Some a \<Longrightarrow> standard_fun ''tan'' [z] = Some b \<Longrightarrow> a\<^sup>2 - b\<^sup>2 = 1"
  "standard_fun ''csc'' [z] = Some a \<Longrightarrow> standard_fun ''cot'' [z] = Some b \<Longrightarrow> a\<^sup>2 - b\<^sup>2 = 1"
  using complex_square_identities [OF sin_cos_squared_add [of z]]
  by (auto simp: quotient_value_def split: if_splits)

lemma standard_zero:
  "f \<in> entire_functions \<Longrightarrow> standard_fun f [z] \<noteq> None"
  "f \<in> zero_at_zero \<Longrightarrow> standard_fun f [0] = Some 0"
  "f \<in> one_at_zero \<Longrightarrow> standard_fun f [0] = Some 1"
  "f \<in> zero_at_one \<Longrightarrow> standard_fun f [1] = Some 0"
  unfolding function_names
  by (elim insertE emptyE; simp add: quotient_value_def on_reals_def artanh_def principal_log_1)+

lemma hyperbolic_of_real:
  "cosh (of_real x) = (of_real (cosh x) :: complex)"
  "sinh (of_real x) = (of_real (sinh x) :: complex)"
  by (simp_all add: cosh_def sinh_def scaleR_conv_of_real exp_of_real flip: of_real_minus)

lemma standard_odd:
  assumes "f \<in> odd_increasing" and "standard_fun f [of_real x] = Some w"
  shows "\<exists>y. w = of_real y \<and> sgn y = sgn x"
proof -
  have "\<not> cosh x < 0" using cosh_real_pos [of x] by linarith
  then have "sgn (sinh x) = sgn x" "sgn (sinh x / cosh x) = sgn x" "sgn (arctan x) = sgn x" "sgn (arsinh x) = sgn x"
    by (simp_all add: sgn_if zero_less_divide_iff)
  with assms show ?thesis unfolding function_names
    by (elim insertE emptyE)
      (auto simp: quotient_value_def on_reals_def hyperbolic_of_real simp flip: of_real_divide split: if_splits)
qed

lemma standard_real:
  assumes "f \<in> real_on_reals" and "standard_fun f [of_real x] = Some w"
  shows "w \<in> \<real>"
  using assms unfolding function_names
  by (elim insertE emptyE) (auto simp: sin_of_real cos_of_real simp flip: of_real_divide split: if_splits)

interpretation std: real_interp standard_interp
proof (unfold_locales, unfold standard_interp_fun)
  show "constant_derivative standard_interp"
    by (simp add: constant_derivative_def standard_interp_def derivative_at_constant')
  show "standard_fun ''sin'' [z] = Some a \<Longrightarrow> standard_fun ''cos'' [z] = Some b \<Longrightarrow> a\<^sup>2 + b\<^sup>2 = 1" for z a b
    by auto
  show "standard_fun ''cosh'' [z] = Some a \<Longrightarrow> standard_fun ''sinh'' [z] = Some b \<Longrightarrow> a\<^sup>2 - b\<^sup>2 = 1" for z a b
    using hyperbolic_pythagoras [of z] by auto
  show "standard_fun ''exp'' [of_real x] = Some w \<Longrightarrow> \<exists>y > 0. w = of_real y" for x w
    by (auto simp: exp_of_real)
  show "standard_fun ''exp'' [z] = Some w \<Longrightarrow> w \<noteq> 0" for z w
    by auto
  show "f \<in> {''abs'', ''Abs''} \<Longrightarrow> standard_fun f [z] = Some w \<Longrightarrow> w = of_real (cmod z)" for f z w
    by auto
  show "standard_fun ''cosh'' [of_real x] = Some w \<Longrightarrow> \<exists>y > 0. w = of_real y" for x w
    by (auto simp: hyperbolic_of_real)
  show "f \<in> {''log'', ''ln''} \<Longrightarrow> 0 < x \<Longrightarrow> standard_fun f [of_real x] = Some w \<Longrightarrow> w \<in> \<real>" for f x w
    by (auto simp: principal_log_pos)
  show "0 \<le> x \<Longrightarrow> standard_fun ''sqrt'' [of_real x] = Some w \<Longrightarrow> \<exists>y. w = of_real y \<and> sgn y = sgn x" for x w
  proof -
    assume x: "0 \<le> x" and "standard_fun ''sqrt'' [of_real x] = Some w"
    then have "w = of_real (sqrt x)" by (simp only: standard_fun_simps option.inject csqrt_of_real)
    moreover have "sgn (sqrt x) = sgn x" using x by (simp add: sgn_if)
    ultimately show "\<exists>y. w = of_real y \<and> sgn y = sgn x" by blast
  qed
qed (fact standard_zero standard_pythagoras standard_odd standard_real)+

end
