(* ===== verification/Facts_Sound.thy ===== *)
theory Facts_Sound
  imports Expr_Facts Elementary
begin

text \<open>
  What the predicates mean of a complex value, and that every fact deduced of an expression holds
  of its value, when it has one. \<open>Algebraic\<close> and \<open>Transcendental\<close> are left without a meaning, so
  nothing is claimed of them.
\<close>

section \<open>Meaning\<close>

fun means :: "predicate \<Rightarrow> complex \<Rightarrow> bool" where
  "means predicate.Complex z = True"
| "means Real z = (z \<in> \<real>)"
| "means Rational z = (z \<in> \<rat>)"
| "means Integer z = (z \<in> \<int>)"
| "means Algebraic z = True"
| "means Transcendental z = True"
| "means Positive z = (z \<in> \<real> \<and> 0 < Re z)"
| "means Negative z = (z \<in> \<real> \<and> Re z < 0)"
| "means NonNegative z = (z \<in> \<real> \<and> 0 \<le> Re z)"
| "means NonPositive z = (z \<in> \<real> \<and> Re z \<le> 0)"
| "means Zero z = (z = 0)"
| "means NonZero z = (z \<noteq> 0)"
| "means Prime z = (\<exists>n::nat. z = of_nat n \<and> 2 \<le> n \<and> (\<forall>d. d dvd n \<longrightarrow> d = 1 \<or> d = n))"
| "means Even z = (\<exists>k::int. z = of_int k \<and> even k)"
| "means Odd z = (\<exists>k::int. z = of_int k \<and> odd k)"
| "means Finite z = True"
| "means Infinite z = False"

definition facts_hold :: "predicate set \<Rightarrow> complex \<Rightarrow> bool" where
  "facts_hold S z \<longleftrightarrow> (\<forall>p \<in> S. means p z)"

lemma Rats_Reals: "z \<in> \<rat> \<Longrightarrow> (z :: complex) \<in> \<real>"
proof -
  assume "z \<in> \<rat>"
  then obtain q where z: "z = of_rat q" by (rule Rats_cases)
  show ?thesis
  proof (cases q)
    case (Fract a b)
    then have "z = of_real (of_int a / of_int b)" by (simp add: z of_rat_rat)
    then show ?thesis by simp
  qed
qed

lemma of_int_numbers: "(of_int k :: complex) \<in> \<real>" "(of_int k :: complex) \<in> \<rat>"
  by (auto intro: Rats_Reals)

lemma facts_holdD: "facts_hold S z \<Longrightarrow> p \<in> S \<Longrightarrow> means p z"
  by (simp add: facts_hold_def)

lemma licenses_means: "licenses a b \<Longrightarrow> means a z \<Longrightarrow> means b z"
  by (cases a) (auto simp: licenses_def of_int_numbers intro: Rats_Reals elim: Ints_cases)

lemma closure_means: "b \<in> closure a \<Longrightarrow> means a z \<Longrightarrow> means b z"
  unfolding closure_iff by (induction rule: rtranclp_induct) (blast intro: licenses_means)+

lemma Transcendental_closure [simp]: "Transcendental \<in> closure p \<longleftrightarrow> p = Transcendental"
  by (cases p) (code_simp, simp?)+

lemma contradicts_means:
  assumes "contradicts a b" and "a \<noteq> Transcendental" and "b \<noteq> Transcendental"
    and "means a z" and "means b z"
  shows False
proof -
  obtain x c where xc: "x \<in> closure a" "c \<in> set (direct_contradictions x)" "c \<in> closure b"
    using assms(1) by (auto simp: contradicts_def)
  then have "means x z" "means c z" using closure_means assms(4,5) by blast+
  moreover have "x \<noteq> Transcendental" "c \<noteq> Transcendental" using xc assms(2,3) by auto
  ultimately show False using xc(2) by (cases x) auto
qed

lemma facts_hold_simps [simp]:
  "facts_hold {} z"
  "facts_hold (A \<union> B) z \<longleftrightarrow> facts_hold A z \<and> facts_hold B z"
  "facts_hold (closure p) z \<longleftrightarrow> means p z"
  "facts_hold (given b p) z \<longleftrightarrow> (b \<longrightarrow> means p z)"
  using closure_means by (auto simp: facts_hold_def given_def)

lemma consistent:
  assumes "facts_hold S z" and "Transcendental \<notin> S"
  shows "\<not> has_contradiction_in_set S"
  using assms contradicts_means unfolding has_contradiction_in_set_def facts_hold_def by metis

section \<open>Sums and products\<close>

lemma all_have_means: "list_all2 facts_hold sets vs \<Longrightarrow> all_have p sets \<Longrightarrow> v \<in> set vs \<Longrightarrow> means p v"
  by (induction rule: list_all2_induct) (auto simp: all_have_def facts_hold_def)

lemma any_has_means: "list_all2 facts_hold sets vs \<Longrightarrow> any_has p sets \<Longrightarrow> \<exists>v \<in> set vs. means p v"
  by (induction rule: list_all2_induct) (auto simp: any_has_def facts_hold_def)

lemma sum_list_in:
  fixes vs :: "'a::comm_monoid_add list"
  assumes "\<forall>v \<in> set vs. v \<in> A" and "0 \<in> A" and "\<And>a b. a \<in> A \<Longrightarrow> b \<in> A \<Longrightarrow> a + b \<in> A"
  shows "sum_list vs \<in> A"
  using assms(1) by (induction vs) (auto simp: assms(2,3))

lemma prod_list_in:
  fixes vs :: "'a::comm_monoid_mult list"
  assumes "\<forall>v \<in> set vs. v \<in> A" and "1 \<in> A" and "\<And>a b. a \<in> A \<Longrightarrow> b \<in> A \<Longrightarrow> a * b \<in> A"
  shows "prod_list vs \<in> A"
  using assms(1) by (induction vs) (auto simp: assms(2,3))

lemma sum_parity:
  assumes "list_all2 facts_hold sets vs" and "\<forall>s \<in> set sets. Even \<in> s \<or> Odd \<in> s"
  shows "\<exists>k. sum_list vs = of_int k \<and> (even k \<longleftrightarrow> even (how_many (\<lambda>s. Odd \<in> s) sets))"
  using assms
proof (induction rule: list_all2_induct)
  case Nil
  show ?case by (rule exI [of _ 0]) (simp add: how_many_def)
next
  case (Cons s sets v vs)
  obtain k where k: "sum_list vs = of_int k" "even k \<longleftrightarrow> even (how_many (\<lambda>s. Odd \<in> s) sets)"
    using Cons by auto
  have parity: "Odd \<in> s \<longleftrightarrow> odd j" if "v = of_int j" for j
    using Cons.hyps(1) Cons.prems that by (fastforce simp: facts_hold_def)
  have "\<exists>j. v = of_int j"
    using Cons.hyps(1) Cons.prems by (fastforce simp: facts_hold_def)
  then obtain j where "v = of_int j" by blast
  then show ?case using k parity by (intro exI [of _ "j + k"]) (auto simp: how_many_def)
qed

lemma sum_sign:
  assumes "\<forall>v \<in> set vs. v \<in> \<real> \<and> 0 \<le> Re v"
  shows "sum_list vs \<in> \<real> \<and> 0 \<le> Re (sum_list vs)"
    and "\<exists>v \<in> set vs. 0 < Re v \<Longrightarrow> 0 < Re (sum_list vs)"
proof -
  show real: "sum_list vs \<in> \<real> \<and> 0 \<le> Re (sum_list vs)" using assms by (induction vs) auto
  show "\<exists>v \<in> set vs. 0 < Re v \<Longrightarrow> 0 < Re (sum_list vs)"
    using assms
  proof (induction vs)
    case (Cons v vs)
    have "\<forall>v \<in> set vs. 0 \<le> Re v" using Cons.prems by simp
    then have "0 \<le> Re (sum_list vs)" by (induction vs) auto
    then show ?case using Cons by (auto intro: add_pos_nonneg add_nonneg_pos)
  qed simp
qed

lemma sum_list_uminus: "sum_list (map uminus vs) = - sum_list (vs :: complex list)"
  by (induction vs) simp_all

lemma sum_facts_hold:
  assumes rel: "list_all2 facts_hold sets vs" and "sets \<noteq> []"
  shows "facts_hold (sum_facts sets) (sum_list vs)"
proof -
  note all = all_have_means [OF rel] and any = any_has_means [OF rel]
  have zero: "sum_list vs = 0" if "all_have Zero sets"
    using all [OF that] sum_list_in [of vs "{0}"] by auto
  have int: "sum_list vs \<in> \<int>" if "all_have Integer sets" using all [OF that] by (intro sum_list_in) auto
  have rat: "sum_list vs \<in> \<rat>" if "all_have Rational sets" using all [OF that] by (intro sum_list_in) auto
  have real: "sum_list vs \<in> \<real>" if "all_have Real sets" using all [OF that] by (intro sum_list_in) auto
  have nonneg: "sum_list vs \<in> \<real> \<and> 0 \<le> Re (sum_list vs) \<and> (any_has Positive sets \<longrightarrow> 0 < Re (sum_list vs))"
    if "all_have NonNegative sets"
    using sum_sign [of vs] all [OF that] any [of Positive] by auto
  have nonpos: "sum_list vs \<in> \<real> \<and> Re (sum_list vs) \<le> 0 \<and> (any_has Negative sets \<longrightarrow> Re (sum_list vs) < 0)"
    if "all_have NonPositive sets"
    using sum_sign [of "map uminus vs"] all [OF that] any [of Negative] by (auto simp: sum_list_uminus)
  show ?thesis
    using zero int rat real nonneg nonpos sum_parity [OF rel]
    by (auto simp: sum_facts_def arithmetic_kind_def common_kinds_def)
qed


lemma prod_parity:
  assumes "\<forall>v \<in> set vs. v \<in> \<int>"
  shows "\<exists>k. prod_list vs = of_int k \<and> ((\<forall>v \<in> set vs. means Odd v) \<longrightarrow> odd k) \<and> ((\<exists>v \<in> set vs. means Even v) \<longrightarrow> even k)"
  using assms
proof (induction vs)
  case Nil
  show ?case by (rule exI [of _ 1]) simp
next
  case (Cons v vs)
  obtain k where k: "prod_list vs = of_int k" "(\<forall>v \<in> set vs. means Odd v) \<longrightarrow> odd k"
      "(\<exists>v \<in> set vs. means Even v) \<longrightarrow> even k"
    using Cons by auto
  obtain j where "v = of_int j" using Cons.prems by (auto elim: Ints_cases)
  then show ?case using k by (intro exI [of _ "j * k"]) auto
qed

lemma prod_sign:
  assumes "list_all2 facts_hold sets vs"
    and "\<And>s v. s \<in> set sets \<Longrightarrow> facts_hold s v \<Longrightarrow> v \<in> \<real> \<and> (if P s then - Re v else Re v) \<in> A"
    and A: "1 \<in> A" "\<And>a b :: real. a \<in> A \<Longrightarrow> b \<in> A \<Longrightarrow> a * b \<in> A"
  shows "prod_list vs \<in> \<real> \<and> (if even (how_many P sets) then Re (prod_list vs) else - Re (prod_list vs)) \<in> A"
  using assms(1,2)
proof (induction rule: list_all2_induct)
  case (Cons s sets v vs)
  have tail: "prod_list vs \<in> \<real> \<and> (if even (how_many P sets) then Re (prod_list vs) else - Re (prod_list vs)) \<in> A"
    by (rule Cons.IH) (rule Cons.prems, simp_all)
  have v: "v \<in> \<real> \<and> (if P s then - Re v else Re v) \<in> A" by (rule Cons.prems) (use Cons.hyps(1) in simp_all)
  have re: "Re (v * prod_list vs) = Re v * Re (prod_list vs)"
    using v by (auto simp: complex_is_Real_iff)
  have "(if P s then - Re v else Re v) * (if even (how_many P sets) then Re (prod_list vs) else - Re (prod_list vs)) \<in> A"
    by (rule A(2)) (use v tail in simp_all)
  then have "(if even (how_many P (s # sets)) then Re (v * prod_list vs) else - Re (v * prod_list vs)) \<in> A"
    unfolding re by (simp add: how_many_def split: if_splits)
  moreover have "v * prod_list vs \<in> \<real>" using v tail by (simp add: Reals_mult)
  ultimately show ?case by (simp only: prod_list.Cons simp_thms)
qed (simp add: how_many_def A(1))

lemma product_facts_hold:
  assumes rel: "list_all2 facts_hold sets vs"
  shows "facts_hold (product_facts sets) (prod_list vs)"
proof -
  note all = all_have_means [OF rel] and any = any_has_means [OF rel]
  have zero: "prod_list vs = 0" if "any_has Zero sets"
    using any [OF that] by (auto simp: prod_list_zero_iff)
  have int: "prod_list vs \<in> \<int>" if "all_have Integer sets" using all [OF that] by (intro prod_list_in) auto
  have parity: "all_have Integer sets \<Longrightarrow> all_have Odd sets \<Longrightarrow> means Odd (prod_list vs)"
      "all_have Integer sets \<Longrightarrow> any_has Even sets \<Longrightarrow> means Even (prod_list vs)"
  proof -
    assume i: "all_have Integer sets"
    have "\<forall>v \<in> set vs. v \<in> \<int>" using all [OF i] by simp
    then obtain k where k: "prod_list vs = of_int k" "(\<forall>v \<in> set vs. means Odd v) \<Longrightarrow> odd k"
        "(\<exists>v \<in> set vs. means Even v) \<Longrightarrow> even k"
      using prod_parity by blast
    show "means Odd (prod_list vs)" if "all_have Odd sets"
      using k(1) k(2) [OF ballI, OF all [OF that]] by auto
    show "means Even (prod_list vs)" if "any_has Even sets"
      using k(1) k(3) [OF any [OF that]] by auto
  qed
  have rat: "prod_list vs \<in> \<rat>" if "all_have Rational sets" using all [OF that] by (intro prod_list_in) auto
  have real: "prod_list vs \<in> \<real>" if "all_have Real sets" using all [OF that] by (intro prod_list_in) auto
  have nonzero: "prod_list vs \<noteq> 0" if "all_have NonZero sets"
    using all [OF that] by (auto simp: prod_list_zero_iff)
  have strict: "prod_list vs \<in> \<real> \<and>
      (if even (how_many (\<lambda>s. Negative \<in> s) sets) then Re (prod_list vs) else - Re (prod_list vs)) \<in> {0<..}"
    if sign: "\<forall>s \<in> set sets. Positive \<in> s \<or> Negative \<in> s"
  proof (rule prod_sign [OF rel])
    fix s v
    assume "s \<in> set sets" "facts_hold s v"
    then show "v \<in> \<real> \<and> (if Negative \<in> s then - Re v else Re v) \<in> {0<..}"
      using sign facts_holdD [of s v Positive] facts_holdD [of s v Negative] by auto
  qed simp_all
  have weak: "prod_list vs \<in> \<real> \<and>
      (if even (how_many (\<lambda>s. NonPositive \<in> s \<and> NonNegative \<notin> s) sets)
       then Re (prod_list vs) else - Re (prod_list vs)) \<in> {0..}"
    if sign: "\<forall>s \<in> set sets. NonNegative \<in> s \<or> NonPositive \<in> s"
  proof (rule prod_sign [OF rel])
    fix s v
    assume "s \<in> set sets" "facts_hold s v"
    then show "v \<in> \<real> \<and> (if NonPositive \<in> s \<and> NonNegative \<notin> s then - Re v else Re v) \<in> {0..}"
      using sign facts_holdD [of s v NonNegative] facts_holdD [of s v NonPositive] by auto
  qed simp_all
  define parity_facts where "parity_facts = (if all_have Odd sets then closure Odd else given (any_has Even sets) Even)"
  have "facts_hold (arithmetic_kind sets parity_facts) (prod_list vs)"
    using int rat parity by (auto simp: arithmetic_kind_def parity_facts_def simp del: means.simps(14,15))
  moreover have "facts_hold (common_kinds sets) (prod_list vs)"
    using real by (simp add: common_kinds_def)
  moreover have "facts_hold (if even (how_many (\<lambda>s. Negative \<in> s) sets) then closure Positive else closure Negative)
      (prod_list vs)" if "\<forall>s \<in> set sets. Positive \<in> s \<or> Negative \<in> s"
    using strict [OF that] by (simp split: if_splits)
  moreover have "facts_hold (if even (how_many (\<lambda>s. NonPositive \<in> s \<and> NonNegative \<notin> s) sets)
      then closure NonNegative else closure NonPositive) (prod_list vs)"
    if "\<forall>s \<in> set sets. NonNegative \<in> s \<or> NonPositive \<in> s"
    using weak [OF that] by (simp split: if_splits)
  ultimately show ?thesis
    using zero nonzero by (simp add: product_facts_def flip: parity_facts_def)
qed


section \<open>Powers\<close>

lemma power_value_int:
  "power_value z (of_int n) = Some w \<Longrightarrow> w = z powi n \<and> (n < 0 \<longrightarrow> z \<noteq> 0)"
  by (auto simp: power_value_def split: if_splits)

lemma of_real_powi: "of_real x powi n = (of_real (x powi n) :: complex)"
  by (simp add: power_int_def)

lemma Rats_powi: "z \<in> \<rat> \<Longrightarrow> z powi n \<in> \<rat>" for z :: complex
  by (simp add: power_int_def)

lemma powi_sign:
  fixes x :: real
  shows "even n \<Longrightarrow> x \<noteq> 0 \<Longrightarrow> 0 < x powi n"
    and "even n \<Longrightarrow> 0 \<le> x powi n"
    and "odd n \<Longrightarrow> x < 0 \<Longrightarrow> x powi n < 0"
    and "odd n \<Longrightarrow> x \<le> 0 \<Longrightarrow> x powi n \<le> 0"
proof -
  have even: "0 < x powi n" if "even n" "x \<noteq> 0" for x :: real
    using zero_less_power_int [of x n] zero_less_power_int [of "- x" n] that
    by (cases "0 < x") (simp_all add: power_int_minus_left_even)
  show "even n \<Longrightarrow> x \<noteq> 0 \<Longrightarrow> 0 < x powi n" by (rule even)
  show "even n \<Longrightarrow> 0 \<le> x powi n" using even [of x] by (cases "x = 0") (auto simp: power_int_0_left_if)
  show neg: "x powi n < 0" if "odd n" "x < 0"
    using zero_less_power_int [of "- x" n] that by (simp add: power_int_minus_left_odd)
  show "odd n \<Longrightarrow> x \<le> 0 \<Longrightarrow> x powi n \<le> 0"
    using neg by (cases "x = 0") (auto simp: power_int_0_left_if less_imp_le)
qed

lemma real_value: "z \<in> \<real> \<longleftrightarrow> z = of_real (Re z)"
  by (auto simp: complex_is_Real_iff complex_eq_iff)

lemma integer_power_facts_hold:
  assumes b: "facts_hold b z" and pow: "power_value z (of_int n) = Some w"
  shows "facts_hold (integer_power_facts b n) w"
proof (cases "n = 0")
  case True
  then have "w = 1" using pow by (simp add: power_value_def)
  moreover have "means Odd 1" unfolding means.simps by (rule exI [of _ 1]) simp
  ultimately show ?thesis using True by (simp add: integer_power_facts_def)
next
  case False
  note fact = facts_holdD [OF b]
  have w: "w = z powi n" "n < 0 \<Longrightarrow> z \<noteq> 0" using power_value_int [OF pow] by auto
  have int: "w \<in> \<int>" if "0 < n" "Integer \<in> b" using fact [OF that(2)] that(1) w by (simp add: power_int_def)
  have even: "means Even w" if h: "0 < n" "Even \<in> b"
  proof -
    obtain k where "z = of_int k" "even k" using fact [OF h(2)] by auto
    then have "w = of_int (k ^ nat n)" "even (k ^ nat n)" using w h(1) by (simp_all add: power_int_def)
    then show ?thesis by auto
  qed
  have odd: "means Odd w" if h: "0 < n" "Odd \<in> b"
  proof -
    obtain k where "z = of_int k" "odd k" using fact [OF h(2)] by auto
    then have "w = of_int (k ^ nat n)" "odd (k ^ nat n)" using w h(1) by (simp_all add: power_int_def)
    then show ?thesis by auto
  qed
  have rat: "w \<in> \<rat>" if "Rational \<in> b" using fact [OF that] Rats_powi w by simp
  have real: "w = of_real (Re z powi n)" "w \<in> \<real>" "Re w = Re z powi n" if "z \<in> \<real>"
    using that unfolding real_value [of z] w(1) by (metis of_real_powi Reals_of_real Re_complex_of_real)+
  have nonzero: "w \<noteq> 0" if "NonZero \<in> b" using fact [OF that] w False by simp
  have kind: "facts_hold (if 0 < n \<and> Integer \<in> b then
           closure Integer \<union> (if Even \<in> b then closure Even else given (Odd \<in> b) Odd)
         else if Rational \<in> b then closure Rational
         else given (Algebraic \<in> b) Algebraic) w"
    using int even odd rat by (auto simp del: means.simps(14,15))
  have common: "facts_hold (common_kinds [b]) w"
    using fact [of Real] real(2) by (simp add: common_kinds_def all_have_def)
  have sign: "facts_hold (if Positive \<in> b then closure Positive
           else if n mod 2 = 0 then
             (if Real \<in> b \<and> NonZero \<in> b then closure Positive else given (Real \<in> b) NonNegative)
           else if Negative \<in> b then closure Negative
           else if NonNegative \<in> b then closure NonNegative
           else given (NonPositive \<in> b) NonPositive) w"
  proof -
    have "means Positive w" if "Positive \<in> b" using fact [OF that] real by simp
    moreover have "means Positive w" if "Real \<in> b" "NonZero \<in> b" "n mod 2 = 0"
      using fact [OF that(1)] fact [OF that(2)] real that(3) powi_sign(1) [of n "Re z"]
      by (auto simp: complex_is_Real_iff complex_eq_iff)
    moreover have "means NonNegative w" if "Real \<in> b" "n mod 2 = 0"
      using fact [OF that(1)] real that(2) powi_sign(2) [of n "Re z"] by auto
    moreover have "means Negative w" if "Negative \<in> b" "n mod 2 \<noteq> 0"
      using fact [OF that(1)] real that(2) powi_sign(3) [of n "Re z"] by (auto simp: odd_iff_mod_2_eq_one)
    moreover have "means NonNegative w" if "NonNegative \<in> b"
      using fact [OF that] real by simp
    moreover have "means NonPositive w" if "NonPositive \<in> b" "n mod 2 \<noteq> 0"
      using fact [OF that(1)] real that(2) powi_sign(4) [of n "Re z"] by (auto simp: odd_iff_mod_2_eq_one)
    ultimately show ?thesis by (simp del: means.simps split: if_splits)
  qed
  show ?thesis using kind common sign nonzero False by (simp add: integer_power_facts_def)
qed

lemma principal_log_of_real: "0 < x \<Longrightarrow> principal_log (of_real x) = of_real (ln x)"
  using principal_log_pos [of x] by (simp add: principal_log_def complex_is_Real_iff complex_eq_iff)

lemma positive_power:
  assumes "power_value (of_real x) (of_real y) = Some w" and "0 < x"
  shows "w \<in> \<real> \<and> 0 < Re w"
proof (cases "(of_real y :: complex) \<in> \<int>")
  case True
  then obtain n where n: "(of_real y :: complex) = of_int n" by (rule Ints_cases)
  have "y = of_int n" using arg_cong [OF n, of Re] by simp
  then have "w = of_real (x powi n)"
    using power_value_int [of "of_real x" n w] assms(1) \<open>y = of_int n\<close> by simp
  moreover have "0 < x powi n" using assms(2) by simp
  ultimately show ?thesis by (simp only: Reals_of_real Re_complex_of_real)
next
  case False
  then have "w = exp (of_real y * principal_log (of_real x))"
    using assms by (auto simp: power_value_def)
  also have "\<dots> = of_real (exp (y * ln x))"
    using assms(2) by (simp add: principal_log_of_real exp_of_real flip: of_real_mult)
  finally show ?thesis by simp
qed

lemma power_facts_hold:
  assumes b: "facts_hold b z" and pow: "power_value z (of_real y) = Some w"
  shows "Positive \<in> b \<Longrightarrow> means Positive w"
    and "NonNegative \<in> b \<Longrightarrow> 0 < y \<Longrightarrow> means NonNegative w"
proof -
  have z: "z = of_real (Re z)" if "z \<in> \<real>" using that real_value by simp
  show pos: "means Positive w" if "Positive \<in> b"
    using facts_holdD [OF b that] positive_power [of "Re z" y w] pow z by simp
  show "means NonNegative w" if "NonNegative \<in> b" "0 < y"
  proof (cases "z = 0")
    case True
    have "\<lfloor>y\<rfloor> \<noteq> 0" if "(of_real y :: complex) \<in> \<int>"
      using that \<open>0 < y\<close> by (auto elim: Ints_cases)
    then have "w = 0" using True pow that(2) by (auto simp: power_value_def power_int_0_left_if split: if_splits)
    then show ?thesis by simp
  next
    case False
    then have "z \<in> \<real>" "0 < Re z"
      using facts_holdD [OF b that(1)] by (auto simp: complex_is_Real_iff complex_eq_iff less_le)
    then show ?thesis using positive_power [of "Re z" y w] pow z by simp
  qed
qed


lemma rational_power_facts_hold:
  assumes b: "facts_hold b z" and pow: "power_value z (of_rat r) = Some w"
  shows "facts_hold (rational_power_facts b r) w"
proof -
  have "power_value z (of_real (of_rat r)) = Some w"
  proof (cases r)
    case (Fract a b)
    then show ?thesis using pow by (simp add: of_rat_rat)
  qed
  note hold = power_facts_hold [OF b this]
  have "0 < r" if "0 < fst (quotient_of r)"
  proof -
    obtain a b where ab: "quotient_of r = (a, b)" by (cases "quotient_of r")
    have "r = of_int a / of_int b" "0 < b" using quotient_of_div [OF ab] quotient_of_denom_pos [OF ab] by auto
    then show ?thesis using that ab by simp
  qed
  then show ?thesis using hold by (simp add: rational_power_facts_def Let_def)
qed

lemma other_power_facts_hold:
  assumes "facts_hold b z" and "facts_hold e y" and "power_value z y = Some w"
  shows "facts_hold (other_power_facts b e) w"
proof -
  have "means Positive w" if "Positive \<in> b" "Real \<in> e"
  proof -
    have "y = of_real (Re y)" using facts_holdD [OF assms(2) that(2)] real_value by simp
    then show ?thesis using power_facts_hold(1) [OF assms(1) _ that(1), of "Re y"] assms(3) by simp
  qed
  then show ?thesis by (simp add: other_power_facts_def)
qed

section \<open>Functions\<close>

lemma other_function_facts:
  assumes "name \<noteq> ''exp''" and "name \<notin> {''abs'', ''Abs''}" and "name \<noteq> ''cosh''" and "name \<notin> odd_increasing"
    and "name \<notin> real_on_reals" and "name \<notin> {''log'', ''ln''}" and "name \<noteq> ''sqrt''"
  shows "function_facts name u = {}"
  using assms unfolding function_facts_def odd_increasing_def [symmetric] real_on_reals_def [symmetric]
  by (simp only: if_False)

context real_interp
begin

lemma function_facts_hold:
  assumes u: "facts_hold u z" and f: "i_fun I name [z] = Some w"
  shows "facts_hold (function_facts name u) w"
proof -
  note fact = facts_holdD [OF u]
  have real: "z = of_real (Re z)" if "Real \<in> u" using fact [OF that] real_value by simp
  have pos: "z = of_real (Re z)" "0 < Re z" if "Positive \<in> u" using fact [OF that] real_value by simp_all
  have neg: "z = of_real (Re z)" "Re z < 0" if "Negative \<in> u" using fact [OF that] real_value by simp_all
  have nneg: "z = of_real (Re z)" "0 \<le> Re z" if "NonNegative \<in> u" using fact [OF that] real_value by simp_all
  have npos: "z = of_real (Re z)" "Re z \<le> 0" if "NonPositive \<in> u" using fact [OF that] real_value by simp_all
  consider "name = ''exp''" | "name \<in> {''abs'', ''Abs''}" | "name = ''cosh''" | "name \<in> odd_increasing"
    | "name \<in> real_on_reals" | "name \<in> {''log'', ''ln''}" | "name = ''sqrt''"
    | "function_facts name u = {}"
    using other_function_facts [of name u] by blast
  then show ?thesis
  proof cases
    case 1
    have "means Positive w" if "Real \<in> u"
      using exp_real [of "Re z" w] real [OF that] f 1 by auto
    then show ?thesis using exp_nonzero [of z w] f 1 by (simp add: function_facts_def)
  next
    case 2
    have w: "w = of_real (cmod z)" by (rule abs_value [OF 2 f])
    have "w \<in> \<int>" if "Integer \<in> u"
      using fact [OF that] by (auto simp: w elim!: Ints_cases)
    moreover have "w \<in> \<rat>" if rat: "Rational \<in> u"
    proof -
      obtain q where "z = of_rat q" using fact [OF rat] by (auto elim: Rats_cases)
      have q: "of_real (of_rat p) = (of_rat p :: complex)" for p by (cases p) (simp add: of_rat_rat)
      have abs: "\<bar>of_rat q :: real\<bar> = of_rat \<bar>q\<bar>" by (cases "0 \<le> q") (simp_all add: of_rat_minus)
      have "w = of_real \<bar>of_rat q\<bar>" using w unfolding \<open>z = of_rat q\<close> q [of q, symmetric] by simp
      then have "w = of_rat \<bar>q\<bar>" unfolding abs q .
      then show ?thesis by simp
    qed
    moreover have "z \<noteq> 0" if "NonZero \<in> u" using fact [OF that] by simp
    ultimately show ?thesis using 2 w by (elim insertE emptyE) (simp_all add: function_facts_def)
  next
    case 3
    have "means Positive w" if "Real \<in> u"
      using cosh_real [of "Re z" w] real [OF that] f 3 by auto
    then show ?thesis using 3 by (simp add: function_facts_def)
  next
    case 4
    note val = odd_real [OF 4, of "Re z" w]
    have "means Positive w" if "Positive \<in> u" using val pos [OF that] f by (auto simp: sgn_if split: if_splits)
    moreover have "means Negative w" if "Negative \<in> u" using val neg [OF that] f by (auto simp: sgn_if split: if_splits)
    moreover have "means NonNegative w" if "NonNegative \<in> u" using val nneg [OF that] f by (auto simp: sgn_if split: if_splits)
    moreover have "means NonPositive w" if "NonPositive \<in> u" using val npos [OF that] f by (auto simp: sgn_if split: if_splits)
    moreover have "means Real w" if "Real \<in> u" using val real [OF that] f by auto
    ultimately show ?thesis using 4 unfolding odd_increasing_def
      by (elim insertE emptyE) (simp_all add: function_facts_def del: means.simps split: if_splits, simp_all)
  next
    case 5
    have "means Real w" if "Real \<in> u" using real_real [OF 5, of "Re z" w] real [OF that] f by auto
    then show ?thesis using 5 unfolding real_on_reals_def
      by (elim insertE emptyE) (simp_all add: function_facts_def)
  next
    case 6
    have "means Real w" if "Positive \<in> u" using log_real [OF 6, of "Re z" w] pos [OF that] f by auto
    then show ?thesis using 6 by (elim insertE emptyE) (simp_all add: function_facts_def)
  next
    case 7
    note val = sqrt_real [of "Re z" w]
    have "means Positive w" if "Positive \<in> u" using val pos [OF that] f 7 by (auto simp: sgn_if split: if_splits)
    moreover have "means NonNegative w" if "NonNegative \<in> u" using val nneg [OF that] f 7 by (auto simp: sgn_if split: if_splits)
    ultimately show ?thesis using 7 by (simp add: function_facts_def del: means.simps split: if_splits, simp)
  next
    case 8
    then show ?thesis by simp
  qed
qed

end

section \<open>Expressions\<close>

lemma given_member [simp]: "q \<in> given b p \<longleftrightarrow> b \<and> q \<in> closure p"
  by (simp add: given_def)

text \<open>Nothing is deduced to be transcendental but symbols and the constants \<open>pi\<close> and \<open>e\<close>.\<close>

lemma no_transcendental [simp]:
  "Transcendental \<notin> sum_facts sets"
  "Transcendental \<notin> product_facts sets"
  "Transcendental \<notin> integer_power_facts b n"
  "Transcendental \<notin> rational_power_facts b r"
  "Transcendental \<notin> other_power_facts b e"
  "Transcendental \<notin> function_facts name u"
  by (simp_all add: sum_facts_def product_facts_def arithmetic_kind_def common_kinds_def integer_power_facts_def
      rational_power_facts_def other_power_facts_def function_facts_def Let_def)

lemma pi_e_consistent:
  "\<not> has_contradiction_in_set (closure Transcendental \<union> closure Real \<union> closure Positive \<union> closure Finite)"
  by code_simp

lemma integer_facts: "n mod 2 = 0 \<Longrightarrow> means Even (of_int n)" "n mod 2 \<noteq> 0 \<Longrightarrow> means Odd (of_int n)"
  by (auto simp: odd_iff_mod_2_eq_one)

lemma inherent_facts_hold:
  assumes "inherent_facts e = Some facts" and "eval I e \<sigma> = Some z"
  shows "facts_hold facts z \<and> \<not> has_contradiction_in_set facts"
proof -
  have ok: "facts_hold facts z \<and> (Transcendental \<notin> facts \<or> facts = closure Transcendental \<union> closure Real \<union> closure Positive \<union> closure Finite)"
    using assms
  proof (cases e)
    case (IntegerLit n)
    then show ?thesis using assms integer_facts [of n]
      by (auto simp del: means.simps(14,15) split: if_splits)
  next
    case (RationalLit r)
    obtain a b where ab: "quotient_of r = (a, b)" by (cases "quotient_of r")
    have r: "r = of_int a / of_int b" "0 < b" using quotient_of_div [OF ab] quotient_of_denom_pos [OF ab] by auto
    have z: "z = of_rat r" using assms(2) RationalLit by simp
    have re: "z \<in> \<real>" "Re z = of_rat r"
    proof -
      have "z = of_real (of_rat r)" by (simp add: z r(1) of_rat_divide)
      then show "z \<in> \<real>" "Re z = of_rat r" by simp_all
    qed
    have int: "z = of_int a" if "b = 1" using z r that by simp
    show ?thesis using assms(1) RationalLit re z int integer_facts [of a] ab
      by (auto simp del: means.simps(14,15) split: if_splits)
  next
    case (Const c)
    then show ?thesis using assms exp_of_real [of 1, where 'a = complex] by (cases c) auto
  qed auto
  then show ?thesis using consistent pi_e_consistent by blast
qed

lemma unary_application: "try_from_expr (Function name [a]) = None"
  by (simp add: try_from_expr.simps)

lemma unary_symbols: "collect_symbols (Function name [a]) [] = collect_symbols a []"
  by (simp add: lambda_variables_def binder_variables_def)

text \<open>A fact set that holds of a value and is found consistent.\<close>

definition sound_facts :: "predicate set \<Rightarrow> complex \<Rightarrow> bool" where
  "sound_facts S z \<longleftrightarrow> facts_hold S z \<and> \<not> has_contradiction_in_set S"

lemma sound_facts_compound: "facts_hold S z \<Longrightarrow> Transcendental \<notin> S \<Longrightarrow> sound_facts S z"
  by (simp add: sound_facts_def consistent)

lemma sound_children:
  assumes "those (map (\<lambda>t. eval I t \<sigma>) ts) = Some vs"
    and "\<And>t z. t \<in> set ts \<Longrightarrow> eval I t \<sigma> = Some z \<Longrightarrow> sound_facts (f t) z"
  shows "list_all2 facts_hold (map f ts) vs \<and> (\<forall>s \<in> set (map f ts). \<not> has_contradiction_in_set s)"
  using assms
proof (induction ts arbitrary: vs)
  case (Cons t ts)
  obtain z zs where vs: "eval I t \<sigma> = Some z" "those (map (\<lambda>t. eval I t \<sigma>) ts) = Some zs" "vs = z # zs"
    using Cons.prems(1) by (auto split: option.splits)
  have "sound_facts (f t) z" by (rule Cons.prems(2) [OF _ vs(1)]) simp
  moreover have "list_all2 facts_hold (map f ts) zs \<and> (\<forall>s \<in> set (map f ts). \<not> has_contradiction_in_set s)"
    by (rule Cons.IH [OF vs(2)]) (use Cons.prems(2) in simp)
  ultimately show ?case by (simp add: vs(3) sound_facts_def)
qed simp

context real_interp
begin

theorem deduced_facts_sound:
  "(\<And>s. s \<in> set (collect_symbols e []) \<Longrightarrow> sound_facts (known s) (\<sigma> s)) \<Longrightarrow> eval I e \<sigma> = Some z \<Longrightarrow>
    sound_facts (deduce_expr_facts known e) z"
proof (induction e arbitrary: z)
  case (Add ts)
  obtain vs where vs: "those (map (\<lambda>t. eval I t \<sigma>) ts) = Some vs" "z = sum_list vs"
    using Add.prems(2) by (auto simp: strict_def bind_eq_Some_conv)
  have parts: "list_all2 facts_hold (map (deduce_expr_facts known) ts) vs
      \<and> (\<forall>s \<in> set (map (deduce_expr_facts known) ts). \<not> has_contradiction_in_set s)"
    by (rule sound_children [OF vs(1)], rule Add.IH, assumption) (use Add.prems(1) in auto)
  show ?case
  proof (cases "ts = []")
    case True
    then show ?thesis by (simp add: deduce_expr_facts.simps [of known "Add []"] sound_facts_compound)
  next
    case False
    then have "deduce_expr_facts known (Add ts) = sum_facts (map (deduce_expr_facts known) ts)"
      using parts by (auto simp: deduce_expr_facts.simps [of known "Add ts"] Let_def)
    moreover have "facts_hold (sum_facts (map (deduce_expr_facts known) ts)) z"
      unfolding vs(2) by (rule sum_facts_hold) (use parts False in simp_all)
    ultimately show ?thesis by (simp add: sound_facts_compound)
  qed
next
  case (Mul ts)
  obtain vs where vs: "those (map (\<lambda>t. eval I t \<sigma>) ts) = Some vs" "z = prod_list vs"
    using Mul.prems(2) by (auto simp: strict_def bind_eq_Some_conv)
  have parts: "list_all2 facts_hold (map (deduce_expr_facts known) ts) vs
      \<and> (\<forall>s \<in> set (map (deduce_expr_facts known) ts). \<not> has_contradiction_in_set s)"
    by (rule sound_children [OF vs(1)], rule Mul.IH, assumption) (use Mul.prems(1) in auto)
  show ?case
  proof (cases "ts = []")
    case True
    then show ?thesis by (simp add: deduce_expr_facts.simps [of known "Mul []"] sound_facts_compound)
  next
    case False
    then have "deduce_expr_facts known (Mul ts) = product_facts (map (deduce_expr_facts known) ts)"
      using parts by (auto simp: deduce_expr_facts.simps [of known "Mul ts"] Let_def)
    moreover have "facts_hold (product_facts (map (deduce_expr_facts known) ts)) z"
      unfolding vs(2) by (rule product_facts_hold) (use parts in simp)
    ultimately show ?thesis by (simp add: sound_facts_compound)
  qed
next
  case (Pow b x)
  obtain u w where ev: "eval I b \<sigma> = Some u" "eval I x \<sigma> = Some w" "power_value u w = Some z"
    using Pow.prems(2) by (auto simp: bind_eq_Some_conv)
  have b: "sound_facts (deduce_expr_facts known b) u" by (rule Pow.IH(1) [OF _ ev(1)]) (use Pow.prems(1) in simp)
  have x: "sound_facts (deduce_expr_facts known x) w" by (rule Pow.IH(2) [OF _ ev(2)]) (use Pow.prems(1) in simp)
  define B where "B = deduce_expr_facts known b"
  have B: "facts_hold B u" "\<not> has_contradiction_in_set B" using b by (simp_all add: sound_facts_def B_def)
  have run: "deduce_expr_facts known (Pow b x) =
      (case x of IntegerLit n \<Rightarrow> integer_power_facts B n | RationalLit r \<Rightarrow> rational_power_facts B r
       | _ \<Rightarrow> other_power_facts B (deduce_expr_facts known x))"
    using B(2) by (simp add: deduce_expr_facts.simps [of known "Pow b x"] Let_def flip: B_def)
  have other: "facts_hold (other_power_facts B (deduce_expr_facts known x)) z"
    by (rule other_power_facts_hold [OF B(1) _ ev(3)]) (use x in \<open>simp add: sound_facts_def\<close>)
  show ?case
    unfolding run using ev(2,3) B(1) other
    by (cases x) (auto intro!: sound_facts_compound intro: integer_power_facts_hold rational_power_facts_hold)
next
  case (Function name args)
  show ?case
  proof (cases "\<exists>a. args = [a]")
    case True
    then obtain a where a: "args = [a]" by blast
    obtain u where ev: "eval I a \<sigma> = Some u" "i_fun I name [u] = Some z"
      using Function.prems(2) eval_application [OF unary_application, of I name a \<sigma>]
      by (cases "eval I a \<sigma>") (auto simp: a strict_def)
    have u: "sound_facts (deduce_expr_facts known a) u"
      by (rule Function.IH [OF _ _ ev(1)]) (use Function.prems(1) in \<open>simp_all add: a unary_symbols del: collect_symbols.simps\<close>)
    then have "deduce_expr_facts known (Function name args) = function_facts name (deduce_expr_facts known a)"
      by (simp add: deduce_expr_facts.simps [of known "Function name [a]"] a sound_facts_def Let_def)
    then show ?thesis
      using function_facts_hold [OF _ ev(2)] u by (simp add: sound_facts_compound sound_facts_def [of "deduce_expr_facts known a"])
  next
    case False
    then have "deduce_expr_facts known (Function name args) = {}"
      by (auto simp: deduce_expr_facts.simps [of known "Function name args"] split: list.splits)
    then show ?thesis by (simp add: sound_facts_compound)
  qed
next
  case (Sym s)
  then show ?case by (simp add: deduce_expr_facts.simps [of known "Sym s"])
next
  case (Const c)
  have "sound_facts F z" if "inherent_facts (Const c) = Some F" for F
    using inherent_facts_hold [OF that Const.prems(2)] by (simp add: sound_facts_def)
  then show ?case
    by (auto simp: deduce_expr_facts.simps [of known "Const c"] intro: sound_facts_compound split: option.splits
        simp del: inherent_facts.simps)
next
  case (IntegerLit n)
  obtain F where F: "inherent_facts (IntegerLit n) = Some F" by simp
  then show ?case
    using inherent_facts_hold [OF F IntegerLit.prems(2)]
    by (simp add: deduce_expr_facts.simps [of known "IntegerLit n"] sound_facts_def del: inherent_facts.simps)
next
  case (RationalLit r)
  obtain F where F: "inherent_facts (RationalLit r) = Some F" by simp
  then show ?case
    using inherent_facts_hold [OF F RationalLit.prems(2)]
    by (simp add: deduce_expr_facts.simps [of known "RationalLit r"] sound_facts_def del: inherent_facts.simps)
qed

theorem snapshot_query_sound:
  assumes "snapshot_query snap e p = EntailedTrue" and "eval I e \<sigma> = Some z"
    and "\<forall>s. facts_hold (snapshot_deductions snap s) (\<sigma> s)"
  shows "means p z"
proof -
  have guard: "\<forall>s \<in> set (free_symbols_of e). \<not> has_contradiction_in_set (snapshot_deductions snap s)"
    and known: "p \<in> deduce_expr_facts (snapshot_deductions snap) e"
    using assms(1) by (auto simp: snapshot_query_def answer_def Let_def split: if_splits)
  have "sound_facts (deduce_expr_facts (snapshot_deductions snap) e) z"
    by (rule deduced_facts_sound [OF _ assms(2)])
      (use guard assms(3) in \<open>simp add: sound_facts_def free_symbols_of_def\<close>)
  then show ?thesis unfolding sound_facts_def using facts_holdD [OF _ known] by blast
qed

theorem context_query_sound:
  assumes "context_query ctx e p = EntailedTrue" and "eval I e \<sigma> = Some z"
    and "\<forall>s. facts_hold (deductions ctx s) (\<sigma> s)"
  shows "means p z"
proof -
  have guard: "\<forall>s \<in> set (free_symbols_of e). \<not> has_contradiction_in_set (deductions ctx s)"
    and known: "p \<in> deduce_expr_facts (deductions ctx) e"
    using assms(1) by (auto simp: context_query_def answer_def Let_def split: if_splits)
  have "sound_facts (deduce_expr_facts (deductions ctx) e) z"
    by (rule deduced_facts_sound [OF _ assms(2)])
      (use guard assms(3) in \<open>simp add: sound_facts_def free_symbols_of_def\<close>)
  then show ?thesis unfolding sound_facts_def using facts_holdD [OF _ known] by blast
qed

end

end
