(* ===== verification/Poly_Sound.thy ===== *)
theory Poly_Sound
  imports Poly_Normal Expr_Semantics
begin

text \<open>
  What a normal form is worth, and that normalization keeps the value of an expression whose
  applications are defined. Every polynomial the checker builds is canonical: its monomials and
  their atoms are sorted, no coefficient is zero, and all stay within the bounds.
\<close>

section \<open>Values and canonical forms\<close>

definition mono_value :: "(expr \<Rightarrow> complex) \<Rightarrow> monomial \<Rightarrow> complex" where
  "mono_value \<rho> m = (\<Prod>(a, n)\<leftarrow>m. \<rho> a ^ n)"

definition poly_value :: "(expr \<Rightarrow> complex) \<Rightarrow> polynomial \<Rightarrow> complex" where
  "poly_value \<rho> p = (\<Sum>(m, c)\<leftarrow>p. of_rat c * mono_value \<rho> m)"

definition mono_ok :: "monomial \<Rightarrow> bool" where
  "mono_ok m \<longleftrightarrow> bt_ok m \<and> (\<forall>(a, n) \<in> set m. 0 < n \<and> n \<le> MAX_NORMAL_FORM_EXPONENT)"

definition poly_ok :: "polynomial \<Rightarrow> bool" where
  "poly_ok p \<longleftrightarrow> bt_ok p \<and> length p \<le> MAX_NORMAL_FORM_TERMS
     \<and> (\<forall>(m, c) \<in> set p. mono_ok m \<and> c \<noteq> 0 \<and> coefficient_is_bounded c)"

lemma mono_value_simps [simp]:
  "mono_value \<rho> [] = 1"
  "mono_value \<rho> ((a, n) # m) = \<rho> a ^ n * mono_value \<rho> m"
  "mono_value \<rho> (l @ r) = mono_value \<rho> l * mono_value \<rho> r"
  by (simp_all add: mono_value_def)

lemma poly_value_simps [simp]:
  "poly_value \<rho> [] = 0"
  "poly_value \<rho> ((m, c) # p) = of_rat c * mono_value \<rho> m + poly_value \<rho> p"
  by (simp_all add: poly_value_def)

lemma quotient_of_small:
  "quotient_of 0 = (0, 1)" "quotient_of 1 = (1, 1)"
  by code_simp+

lemma bounded_small [simp]: "coefficient_is_bounded 0" "coefficient_is_bounded 1"
  by (simp_all add: coefficient_is_bounded_def numer_def denom_def quotient_of_small int_limb_count_def
      int_bits_def bit_length.simps div_ceil_def MAX_NORMAL_FORM_COEFFICIENT_LIMBS_def)

lemma atomic_polynomial [simp]:
  "poly_ok (atomic_polynomial a)" "poly_value \<rho> (atomic_polynomial a) = \<rho> a"
  by (simp_all add: atomic_polynomial_def poly_ok_def mono_ok_def MAX_NORMAL_FORM_EXPONENT_def
      MAX_NORMAL_FORM_TERMS_def)

lemma constant_polynomial [simp]:
  "coefficient_is_bounded c \<Longrightarrow> poly_ok (constant_polynomial c)"
  "poly_value \<rho> (constant_polynomial c) = of_rat c"
  by (simp_all add: constant_polynomial_def poly_ok_def mono_ok_def MAX_NORMAL_FORM_TERMS_def)

lemma poly_ok_Nil [simp]: "poly_ok []"
  by (simp add: poly_ok_def)

section \<open>Arithmetic\<close>

lemma insert_coefficient:
  assumes "insert_coefficient p m c = Inr q" and "poly_ok p" and "mono_ok m"
  shows "poly_ok q \<and> poly_value \<rho> q = poly_value \<rho> p + of_rat c * mono_value \<rho> m"
proof -
  define combined where "combined = (case map_of p m of Some existing \<Rightarrow> existing + c | None \<Rightarrow> c)"
  have ok: "bt_ok p" "\<And>m c. (m, c) \<in> set p \<Longrightarrow> mono_ok m \<and> c \<noteq> 0 \<and> coefficient_is_bounded c"
    "length p \<le> MAX_NORMAL_FORM_TERMS"
    using assms(2) by (auto simp: poly_ok_def)
  have sum: "poly_value \<rho> (bt_remove m p) + of_rat combined * mono_value \<rho> m
      = poly_value \<rho> p + of_rat c * mono_value \<rho> m"
    using bt_sum_remove [of "\<lambda>m c. of_rat c * mono_value \<rho> m" p m]
    by (simp add: poly_value_def combined_def of_rat_add algebra_simps split: option.splits)
  have bound: "coefficient_is_bounded combined"
    using assms(1) by (auto simp: insert_coefficient_def combined_def Let_def split: if_splits)
  have removed: "(n, d) \<in> set (bt_remove m p) \<Longrightarrow> mono_ok n \<and> d \<noteq> 0 \<and> coefficient_is_bounded d" for n d
    using ok(2) set_bt_remove by fastforce
  have shorter: "length (bt_remove m p) \<le> length p"
    by (induction m p rule: bt_remove.induct) auto
  show ?thesis
  proof (cases "combined = 0")
    case True
    then have "q = bt_remove m p"
      using assms(1) by (auto simp: insert_coefficient_def combined_def Let_def)
    then show ?thesis using sum True removed ok(1,3) shorter by (auto simp: poly_ok_def)
  next
    case False
    then have q: "q = bt_insert m combined (bt_remove m p)" "length q \<le> MAX_NORMAL_FORM_TERMS"
      using assms(1) by (auto simp: insert_coefficient_def combined_def Let_def)
    have "poly_value \<rho> q = of_rat combined * mono_value \<rho> m + poly_value \<rho> (bt_remove m (bt_remove m p))"
      using bt_sum_insert [of "bt_remove m p" "\<lambda>m c. of_rat c * mono_value \<rho> m" m combined] ok(1)
      by (simp add: poly_value_def q(1))
    moreover have "bt_remove m (bt_remove m p) = bt_remove m p"
      by (rule bt_remove_absent) (simp add: bt_keys_remove ok(1))
    ultimately have "poly_value \<rho> q = poly_value \<rho> p + of_rat c * mono_value \<rho> m"
      using sum by (simp add: algebra_simps)
    moreover have "poly_ok q"
      using q False bound removed ok(1) assms(3) set_bt_insert [of m combined "bt_remove m p"]
      by (fastforce simp: poly_ok_def)
    ultimately show ?thesis by simp
  qed
qed

lemma add_exponent:
  assumes "add_exponent f m = Inr m'" and "mono_ok m" and "0 < snd f"
  shows "mono_ok m' \<and> mono_value \<rho> m' = \<rho> (fst f) ^ snd f * mono_value \<rho> m"
proof -
  obtain a n where f: "f = (a, n)" by (cases f)
  define combined where "combined = (case map_of m a of Some k \<Rightarrow> k | None \<Rightarrow> 0) + n"
  have m': "m' = bt_insert a combined m" "combined \<le> MAX_NORMAL_FORM_EXPONENT"
    using assms(1) by (auto simp: add_exponent_def f combined_def Let_def)
  have ok: "bt_ok m" "\<And>b k. (b, k) \<in> set m \<Longrightarrow> 0 < k \<and> k \<le> MAX_NORMAL_FORM_EXPONENT"
    using assms(2) by (auto simp: mono_ok_def)
  have "mono_value \<rho> m' = \<rho> a ^ combined * mono_value \<rho> (bt_remove a m)"
    using bt_prod_insert [OF ok(1), of "\<lambda>a n. \<rho> a ^ n"] by (simp add: mono_value_def m'(1))
  moreover have "mono_value \<rho> m = (case map_of m a of None \<Rightarrow> 1 | Some k \<Rightarrow> \<rho> a ^ k) * mono_value \<rho> (bt_remove a m)"
    unfolding mono_value_def by (rule bt_prod_remove)
  ultimately have "mono_value \<rho> m' = \<rho> a ^ n * mono_value \<rho> m"
    by (simp add: combined_def power_add split: option.splits)
  moreover have "mono_ok m'"
    using ok m' assms(3) set_bt_insert [of a combined m] by (auto simp: mono_ok_def f combined_def)
  ultimately show ?thesis by (simp add: f)
qed

lemma add_exponents:
  assumes "rfold add_exponent fs m = Inr m'" and "mono_ok m" and "\<forall>f \<in> set fs. 0 < snd f"
  shows "mono_ok m' \<and> mono_value \<rho> m' = mono_value \<rho> fs * mono_value \<rho> m"
  using assms
proof (induction fs arbitrary: m)
  case (Cons f fs)
  obtain m1 where m1: "add_exponent f m = Inr m1" "rfold add_exponent fs m1 = Inr m'"
    using Cons.prems(1) by auto
  have "mono_ok m1 \<and> mono_value \<rho> m1 = \<rho> (fst f) ^ snd f * mono_value \<rho> m"
    by (rule add_exponent [OF m1(1)]) (use Cons.prems in auto)
  then show ?case using Cons.IH [OF m1(2)] Cons.prems(3) by (cases f) (simp add: ac_simps)
qed simp

lemma multiply_monomials:
  assumes "multiply_monomials l r = Inr m" and "mono_ok l" and "mono_ok r"
  shows "mono_ok m \<and> mono_value \<rho> m = mono_value \<rho> l * mono_value \<rho> r"
proof -
  have "\<forall>f \<in> set (l @ r). 0 < snd f" using assms(2,3) by (auto simp: mono_ok_def)
  then show ?thesis
    using add_exponents [OF assms(1) [unfolded multiply_monomials_def], of \<rho>] by (simp add: mono_ok_def)
qed

lemma add_polynomials:
  assumes "add_polynomials l r = Inr s" and "poly_ok l" and "\<forall>(m, c) \<in> set r. mono_ok m"
  shows "poly_ok s \<and> poly_value \<rho> s = poly_value \<rho> l + poly_value \<rho> r"
  using assms unfolding add_polynomials_def
proof (induction r arbitrary: l)
  case (Cons e r)
  obtain m c where e: "e = (m, c)" by (cases e)
  obtain l1 where l1: "insert_coefficient l m c = Inr l1"
      "rfold (\<lambda>(m, c) sum. insert_coefficient sum m c) r l1 = Inr s"
    using Cons.prems(1) by (auto simp: e)
  have "poly_ok l1 \<and> poly_value \<rho> l1 = poly_value \<rho> l + of_rat c * mono_value \<rho> m"
    by (rule insert_coefficient [OF l1(1)]) (use Cons.prems e in auto)
  then show ?case using Cons.IH [OF l1(2)] Cons.prems(3) by (simp add: e algebra_simps)
qed simp

lemma poly_ok_monomials: "poly_ok p \<Longrightarrow> \<forall>(m, c) \<in> set p. mono_ok m"
  by (auto simp: poly_ok_def)

lemma multiply_row:
  assumes "rfold (\<lambda>(n, d) product. rbind (multiply_monomials m n) (\<lambda>k. insert_coefficient product k (c * d))) r p = Inr q"
    and "poly_ok p" and "mono_ok m" and "\<forall>(n, d) \<in> set r. mono_ok n"
  shows "poly_ok q \<and> poly_value \<rho> q = poly_value \<rho> p + of_rat c * mono_value \<rho> m * poly_value \<rho> r"
  using assms
proof (induction r arbitrary: p)
  case (Cons e r)
  obtain n d where e: "e = (n, d)" by (cases e)
  obtain k p1 where run: "multiply_monomials m n = Inr k" "insert_coefficient p k (c * d) = Inr p1"
      "rfold (\<lambda>(n, d) product. rbind (multiply_monomials m n) (\<lambda>k. insert_coefficient product k (c * d))) r p1 = Inr q"
    using Cons.prems(1) by (auto simp: e)
  have k: "mono_ok k \<and> mono_value \<rho> k = mono_value \<rho> m * mono_value \<rho> n"
    by (rule multiply_monomials [OF run(1)]) (use Cons.prems e in auto)
  have "poly_ok p1 \<and> poly_value \<rho> p1 = poly_value \<rho> p + of_rat (c * d) * mono_value \<rho> k"
    by (rule insert_coefficient [OF run(2) Cons.prems(2)]) (use k in simp)
  then show ?case using Cons.IH [OF run(3)] Cons.prems(3,4) k by (simp add: e of_rat_mult algebra_simps)
qed simp

lemma multiply_polynomials:
  assumes "multiply_polynomials l r = Inr p" and "poly_ok l" and "poly_ok r"
  shows "poly_ok p \<and> poly_value \<rho> p = poly_value \<rho> l * poly_value \<rho> r"
proof (cases "l = [] \<or> r = []")
  case True
  then show ?thesis using assms(1) by (auto simp: multiply_polynomials_def)
next
  case False
  have rows: "poly_ok q \<and> poly_value \<rho> q = poly_value \<rho> s + poly_value \<rho> l * poly_value \<rho> r"
    if "rfold (\<lambda>(m, c). rfold (\<lambda>(n, d) product. rbind (multiply_monomials m n) (\<lambda>k. insert_coefficient product k (c * d))) r) l s = Inr q"
      and "poly_ok s" and "\<forall>(m, c) \<in> set l. mono_ok m" for l s q
    using that
  proof (induction l arbitrary: s)
    case (Cons e l)
    obtain m c where e: "e = (m, c)" by (cases e)
    obtain s1 where run: "rfold (\<lambda>(n, d) product. rbind (multiply_monomials m n) (\<lambda>k. insert_coefficient product k (c * d))) r s = Inr s1"
        "rfold (\<lambda>(m, c). rfold (\<lambda>(n, d) product. rbind (multiply_monomials m n) (\<lambda>k. insert_coefficient product k (c * d))) r) l s1 = Inr q"
      using Cons.prems(1) by (auto simp: e)
    have "poly_ok s1 \<and> poly_value \<rho> s1 = poly_value \<rho> s + of_rat c * mono_value \<rho> m * poly_value \<rho> r"
      by (rule multiply_row [OF run(1) Cons.prems(2) _ poly_ok_monomials [OF assms(3)]]) (use Cons.prems(3) e in auto)
    then show ?case using Cons.IH [OF run(2)] Cons.prems(3) by (simp add: e algebra_simps)
  qed simp
  have "rfold (\<lambda>(m, c). rfold (\<lambda>(n, d) product. rbind (multiply_monomials m n) (\<lambda>k. insert_coefficient product k (c * d))) r) l [] = Inr p"
    using assms(1) False by (auto simp: multiply_polynomials_def)
  from rows [OF this _ poly_ok_monomials [OF assms(2)]] show ?thesis by simp
qed

lemma pow_loop_polynomial:
  assumes "pow_loop_polynomial r b n = Inr p" and "poly_ok r" and "poly_ok b"
  shows "poly_ok p \<and> poly_value \<rho> p = poly_value \<rho> r * poly_value \<rho> b ^ n"
  using assms
proof (induction r b n rule: pow_loop_polynomial.induct)
  case (1 r b n)
  note run = "1.prems"(1) [unfolded pow_loop_polynomial.simps [of r b n]]
  show ?case
  proof (cases "n = 0")
    case False
    obtain r1 b1 where r1: "(if odd n then multiply_polynomials r b else Inr r) = Inr r1"
      and b1: "(if 0 < n div 2 then multiply_polynomials b b else Inr b) = Inr b1"
      and rest: "pow_loop_polynomial r1 b1 (n div 2) = Inr p"
      using run False by (auto simp: Let_def)
    have r1v: "poly_ok r1 \<and> poly_value \<rho> r1 = poly_value \<rho> r * (if odd n then poly_value \<rho> b else 1)"
      using r1 multiply_polynomials [of r b r1 \<rho>] "1.prems"(2,3) by (auto split: if_splits)
    have b1v: "poly_ok b1 \<and> (0 < n div 2 \<longrightarrow> poly_value \<rho> b1 = poly_value \<rho> b * poly_value \<rho> b)"
      using b1 multiply_polynomials [of b b b1 \<rho>] "1.prems"(3) by (auto split: if_splits)
    have "poly_ok p \<and> poly_value \<rho> p = poly_value \<rho> r1 * poly_value \<rho> b1 ^ (n div 2)"
      by (rule "1.IH" [OF False r1 refl b1 rest]) (use r1v b1v in auto)
    moreover have "poly_value \<rho> b1 ^ (n div 2) = poly_value \<rho> b ^ (2 * (n div 2))"
      using b1v by (cases "0 < n div 2") (simp_all add: power_mult power2_eq_square)
    moreover have "poly_value \<rho> b ^ n = (if odd n then poly_value \<rho> b else 1) * poly_value \<rho> b ^ (2 * (n div 2))"
    proof (cases "odd n")
      case True
      then have "n = Suc (2 * (n div 2))" by simp
      then show ?thesis using True by (metis power_Suc)
    qed simp
    ultimately show ?thesis using r1v by (simp add: ac_simps)
  qed (use run "1.prems" in auto)
qed

lemma pow_polynomial:
  assumes "pow_polynomial b n = Inr p" and "poly_ok b"
  shows "poly_ok p \<and> poly_value \<rho> p = poly_value \<rho> b ^ n"
  using pow_loop_polynomial [OF assms(1) [unfolded pow_polynomial_def] _ assms(2), of \<rho>] by simp

section \<open>Normalization keeps the value\<close>

text \<open>The applications that become atoms.\<close>

fun function_atoms :: "expr \<Rightarrow> expr set" where
  "function_atoms (Add ts) = (\<Union>t \<in> set ts. function_atoms t)"
| "function_atoms (Mul ts) = (\<Union>t \<in> set ts. function_atoms t)"
| "function_atoms (Pow b e) = function_atoms b"
| "function_atoms (Function name args) = {Function name args}"
| "function_atoms _ = {}"

text \<open>The atoms valued as they evaluate.\<close>

definition atom_values :: "interp \<Rightarrow> valuation \<Rightarrow> expr \<Rightarrow> complex" where
  "atom_values I \<sigma> a = the (eval I a \<sigma>)"

lemma power_value_nat: "power_value z (of_nat n) = Some (z ^ n)"
  by (simp add: power_value_def power_int_def)

lemma power_value_of_int: "0 \<le> n \<Longrightarrow> power_value z (of_int n) = Some (z ^ nat n)"
  using power_value_nat [of z "nat n"] by simp

lemma fragment_exponent_Some: "fragment_exponent e = Some n \<Longrightarrow> e = IntegerLit (int n)"
  by (cases e) (auto simp: fragment_exponent_def split: if_splits)

lemma strict_Some:
  "(\<And>t. t \<in> set ts \<Longrightarrow> f t = Some (g t)) \<Longrightarrow> strict h (map f ts) = h (map g ts)"
proof -
  assume "\<And>t. t \<in> set ts \<Longrightarrow> f t = Some (g t)"
  then have "those (map f ts) = Some (map g ts)" by (induction ts) auto
  then show ?thesis by (simp add: strict_def)
qed

definition sound_normal :: "interp \<Rightarrow> valuation \<Rightarrow> expr \<Rightarrow> polynomial \<Rightarrow> bool" where
  "sound_normal I \<sigma> e p \<longleftrightarrow> poly_ok p \<and> eval I e \<sigma> = Some (poly_value (atom_values I \<sigma>) p)"

lemma normalize_terms:
  assumes "rfold (\<lambda>term (sum, budget).
      rbind (normalize_inner apps term depth budget) (\<lambda>(p, budget).
      rbind (add_polynomials sum p) (\<lambda>sum. Inr (sum, budget)))) ts (s, b) = Inr (q, b')"
    and "poly_ok s"
    and "\<And>t p b b'. t \<in> set ts \<Longrightarrow> normalize_inner apps t depth b = Inr (p, b') \<Longrightarrow> sound_normal I \<sigma> t p"
  shows "poly_ok q \<and> (\<exists>vs. those (map (\<lambda>t. eval I t \<sigma>) ts) = Some vs
    \<and> poly_value (atom_values I \<sigma>) q = poly_value (atom_values I \<sigma>) s + sum_list vs)"
  using assms
proof (induction ts arbitrary: s b)
  case (Cons t ts)
  obtain p b1 s1 where run: "normalize_inner apps t depth b = Inr (p, b1)" "add_polynomials s p = Inr s1"
    "rfold (\<lambda>term (sum, budget).
      rbind (normalize_inner apps term depth budget) (\<lambda>(p, budget).
      rbind (add_polynomials sum p) (\<lambda>sum. Inr (sum, budget)))) ts (s1, b1) = Inr (q, b')"
    using Cons.prems(1) by auto
  have p: "sound_normal I \<sigma> t p" by (rule Cons.prems(3) [OF _ run(1)]) simp
  have s1: "poly_ok s1 \<and> poly_value (atom_values I \<sigma>) s1 = poly_value (atom_values I \<sigma>) s + poly_value (atom_values I \<sigma>) p"
    by (rule add_polynomials [OF run(2) Cons.prems(2) poly_ok_monomials]) (use p in \<open>simp add: sound_normal_def\<close>)
  have "poly_ok q \<and> (\<exists>vs. those (map (\<lambda>t. eval I t \<sigma>) ts) = Some vs
    \<and> poly_value (atom_values I \<sigma>) q = poly_value (atom_values I \<sigma>) s1 + sum_list vs)"
    by (rule Cons.IH [OF run(3)]) (use s1 Cons.prems(3) in auto)
  then show ?case using s1 p by (auto simp: sound_normal_def)
qed simp

lemma normalize_factors:
  assumes "rfold (\<lambda>factor (product, budget).
      rbind (normalize_inner apps factor depth budget) (\<lambda>(p, budget).
      rbind (multiply_polynomials product p) (\<lambda>product. Inr (product, budget)))) ts (s, b) = Inr (q, b')"
    and "poly_ok s"
    and "\<And>t p b b'. t \<in> set ts \<Longrightarrow> normalize_inner apps t depth b = Inr (p, b') \<Longrightarrow> sound_normal I \<sigma> t p"
  shows "poly_ok q \<and> (\<exists>vs. those (map (\<lambda>t. eval I t \<sigma>) ts) = Some vs
    \<and> poly_value (atom_values I \<sigma>) q = poly_value (atom_values I \<sigma>) s * prod_list vs)"
  using assms
proof (induction ts arbitrary: s b)
  case (Cons t ts)
  obtain p b1 s1 where run: "normalize_inner apps t depth b = Inr (p, b1)" "multiply_polynomials s p = Inr s1"
    "rfold (\<lambda>factor (product, budget).
      rbind (normalize_inner apps factor depth budget) (\<lambda>(p, budget).
      rbind (multiply_polynomials product p) (\<lambda>product. Inr (product, budget)))) ts (s1, b1) = Inr (q, b')"
    using Cons.prems(1) by auto
  have p: "sound_normal I \<sigma> t p" by (rule Cons.prems(3) [OF _ run(1)]) simp
  have s1: "poly_ok s1 \<and> poly_value (atom_values I \<sigma>) s1 = poly_value (atom_values I \<sigma>) s * poly_value (atom_values I \<sigma>) p"
    by (rule multiply_polynomials [OF run(2) Cons.prems(2)]) (use p in \<open>simp add: sound_normal_def\<close>)
  have "poly_ok q \<and> (\<exists>vs. those (map (\<lambda>t. eval I t \<sigma>) ts) = Some vs
    \<and> poly_value (atom_values I \<sigma>) q = poly_value (atom_values I \<sigma>) s1 * prod_list vs)"
    by (rule Cons.IH [OF run(3)]) (use s1 Cons.prems(3) in auto)
  then show ?case using s1 p by (auto simp: sound_normal_def ac_simps)
qed simp

theorem normalize_inner_sound:
  assumes "\<And>a. a \<in> function_atoms e \<Longrightarrow> eval I a \<sigma> \<noteq> None"
    and "normalize_inner apps e depth budget = Inr (p, budget')"
  shows "sound_normal I \<sigma> e p"
  using assms
proof (induction e arbitrary: depth budget p budget')
  case (Add ts)
  obtain b where run: "rfold (\<lambda>term (sum, budget).
      rbind (normalize_inner apps term (depth + 1) budget) (\<lambda>(p, budget).
      rbind (add_polynomials sum p) (\<lambda>sum. Inr (sum, budget)))) ts ([], b) = Inr (p, budget')"
    using Add.prems(2) [unfolded normalize_inner.simps [of apps "Add ts"]] by auto
  have "poly_ok p \<and> (\<exists>vs. those (map (\<lambda>t. eval I t \<sigma>) ts) = Some vs
    \<and> poly_value (atom_values I \<sigma>) p = poly_value (atom_values I \<sigma>) [] + sum_list vs)"
    by (rule normalize_terms [OF run poly_ok_Nil], rule Add.IH, assumption+) (use Add.prems(1) in auto)
  then show ?case by (auto simp: sound_normal_def strict_def)
next
  case (Mul ts)
  obtain b where run: "rfold (\<lambda>factor (product, budget).
      rbind (normalize_inner apps factor (depth + 1) budget) (\<lambda>(p, budget).
      rbind (multiply_polynomials product p) (\<lambda>product. Inr (product, budget)))) ts (constant_polynomial 1, b)
      = Inr (p, budget')"
    using Mul.prems(2) [unfolded normalize_inner.simps [of apps "Mul ts"]] by auto
  have "poly_ok p \<and> (\<exists>vs. those (map (\<lambda>t. eval I t \<sigma>) ts) = Some vs
    \<and> poly_value (atom_values I \<sigma>) p = poly_value (atom_values I \<sigma>) (constant_polynomial 1) * prod_list vs)"
    by (rule normalize_factors [OF run], simp, rule Mul.IH, assumption) (use Mul.prems(1) in auto)
  then show ?case by (auto simp: sound_normal_def strict_def)
next
  case (Pow base x)
  obtain b n q b' where run: "fragment_exponent x = Some n"
      "normalize_inner apps base (depth + 1) b = Inr (q, b')" "pow_polynomial q n = Inr p"
    using Pow.prems(2) [unfolded normalize_inner.simps [of apps "Pow base x"]]
    by (auto split: option.splits)
  have q: "sound_normal I \<sigma> base q" by (rule Pow.IH(1) [OF _ run(2)]) (use Pow.prems(1) in auto)
  have "poly_ok p \<and> poly_value (atom_values I \<sigma>) p = poly_value (atom_values I \<sigma>) q ^ n"
    by (rule pow_polynomial [OF run(3)]) (use q in \<open>simp add: sound_normal_def\<close>)
  then show ?case using q by (simp add: sound_normal_def fragment_exponent_Some [OF run(1)] power_value_nat)
next
  case (Function name args)
  have "p = atomic_polynomial (Function name args)"
    using Function.prems(2) [unfolded normalize_inner.simps [of apps "Function name args"]]
    by (auto split: if_splits)
  then show ?case using Function.prems(1) by (auto simp: sound_normal_def atom_values_def)
next
  case (Const c)
  have "p = atomic_polynomial (Const c)" "c \<in> {CPi, CE, CI}"
    using Const.prems(2) [unfolded normalize_inner.simps [of apps "Const c"]] by (auto split: if_splits)
  then show ?case by (auto simp: sound_normal_def atom_values_def)
next
  case (IntegerLit n)
  then show ?case by (auto simp: sound_normal_def normalize_inner.simps [of apps "IntegerLit n"])
next
  case (RationalLit q)
  then show ?case by (auto simp: sound_normal_def normalize_inner.simps [of apps "RationalLit q"])
next
  case (Sym s)
  then show ?case by (auto simp: sound_normal_def atom_values_def normalize_inner.simps [of apps "Sym s"])
qed

lemma normalize_inner_total:
  "normalize_inner False e depth budget = Inr (p, budget') \<Longrightarrow> function_atoms e = {}"
proof (induction e arbitrary: depth budget p budget')
  case (Add ts)
  have "function_atoms t = {}" if "t \<in> set ts" for t
  proof -
    obtain b where "rfold (\<lambda>term (sum, budget).
        rbind (normalize_inner False term (depth + 1) budget) (\<lambda>(p, budget).
        rbind (add_polynomials sum p) (\<lambda>sum. Inr (sum, budget)))) ts ([], b) = Inr (p, budget')"
      using Add.prems [unfolded normalize_inner.simps [of False "Add ts"]] by auto
    from rfold_each [OF this that] obtain b p b' where "normalize_inner False t (depth + 1) b = Inr (p, b')"
      by auto
    then show ?thesis by (rule Add.IH [OF that])
  qed
  then show ?case by simp
next
  case (Mul ts)
  have "function_atoms t = {}" if "t \<in> set ts" for t
  proof -
    obtain b where "rfold (\<lambda>factor (product, budget).
        rbind (normalize_inner False factor (depth + 1) budget) (\<lambda>(p, budget).
        rbind (multiply_polynomials product p) (\<lambda>product. Inr (product, budget)))) ts (constant_polynomial 1, b)
        = Inr (p, budget')"
      using Mul.prems [unfolded normalize_inner.simps [of False "Mul ts"]] by auto
    from rfold_each [OF this that] obtain b p b' where "normalize_inner False t (depth + 1) b = Inr (p, b')"
      by auto
    then show ?thesis by (rule Mul.IH [OF that])
  qed
  then show ?case by simp
next
  case (Pow b x)
  then show ?case
    by (auto simp: normalize_inner.simps [of False "Pow b x"] split: option.splits)
qed (auto simp: normalize_inner.simps [of False "Function _ _"])

lemma normalize_polynomial_sound:
  assumes "normalize_polynomial e = Inr p"
  shows "poly_ok p" and "eval I e \<sigma> = Some (poly_value (atom_values I \<sigma>) p)"
proof -
  obtain b where run: "normalize_inner False e 0 MAX_NORMAL_FORM_INPUT_NODES = Inr (p, b)"
    using assms by (auto simp: normalize_polynomial_def)
  have "sound_normal I \<sigma> e p"
    by (rule normalize_inner_sound [OF _ run]) (simp add: normalize_inner_total [OF run])
  then show "poly_ok p" "eval I e \<sigma> = Some (poly_value (atom_values I \<sigma>) p)"
    by (simp_all add: sound_normal_def)
qed

lemma normalize_function_polynomial_sound:
  assumes "normalize_function_polynomial e = Inr p" and "\<And>a. a \<in> function_atoms e \<Longrightarrow> eval I a \<sigma> \<noteq> None"
  shows "poly_ok p \<and> eval I e \<sigma> = Some (poly_value (atom_values I \<sigma>) p)"
proof -
  obtain b where run: "normalize_inner True e 0 MAX_NORMAL_FORM_INPUT_NODES = Inr (p, b)"
    using assms(1) by (auto simp: normalize_function_polynomial_def)
  show ?thesis using normalize_inner_sound [OF assms(2) run] by (simp add: sound_normal_def)
qed

lemma check_polynomial_normal_form_sound:
  assumes "check_polynomial_normal_form lhs rhs = Inr u"
  shows "eval I lhs \<sigma> = eval I rhs \<sigma> \<and> eval I lhs \<sigma> \<noteq> None"
proof -
  obtain p where "normalize_polynomial lhs = Inr p" "normalize_polynomial rhs = Inr p"
    using assms by (auto simp: check_polynomial_normal_form_def)
  then show ?thesis using normalize_polynomial_sound(2) by simp
qed

end
