(* ===== verification/Ball_Sound.thy ===== *)
theory Ball_Sound
  imports Ball_Checker Constant_Bounds Facts_Sound Poly_Sound
begin

text \<open>
  A ball that \<open>eval_real_ball\<close> computes encloses the value of the expression, which is defined and
  real, and a certificate that is accepted establishes its claim.
\<close>

definition real_value_in :: "real_ball \<Rightarrow> complex option \<Rightarrow> bool" where
  "real_value_in B v \<longleftrightarrow> (\<exists>x. v = Some (of_real x) \<and> encloses B x)"

lemma real_value_inI: "encloses B x \<Longrightarrow> real_value_in B (Some (of_real x))"
  by (auto simp: real_value_in_def)

lemma fitting_same [simp]: "fitting B = Inr B' \<longleftrightarrow> ensure_real_ball_bounds_fit B = Inr () \<and> B' = B"
  by (auto simp: fitting_def)

lemma checked_ball_add: "checked_real_ball_add B B' = Inr C \<Longrightarrow> C = ball_add B B'"
  by (auto simp: checked_real_ball_add_def)

lemma checked_mul: "checked_real_ball_mul B B' = Inr C \<Longrightarrow> C = ball_mul B B'"
  by (auto simp: checked_real_ball_mul_def)

lemma checked_inv: "checked_real_ball_inv B = Inr C \<Longrightarrow> ball_inv B = Inr C"
  by (auto simp: checked_real_ball_inv_def)

lemma ball_power_loop:
  "ball_power_loop base n acc = Inr C \<Longrightarrow> encloses base x \<Longrightarrow> encloses acc y \<Longrightarrow> encloses C (y * x ^ n)"
proof (induction n arbitrary: acc y)
  case (Suc n)
  obtain acc' where run: "checked_real_ball_mul acc base = Inr acc'" "ball_power_loop base n acc' = Inr C"
    using Suc.prems(1) by auto
  have acc': "encloses acc' (y * x)" using ball_mul [OF Suc.prems(3,2)] checked_mul [OF run(1)] by simp
  from Suc.IH [OF run(2) Suc.prems(2) this] show ?case by (simp add: ac_simps)
qed simp

lemma integer_ball_power:
  assumes "integer_ball_power B n = Inr C" and "encloses B x"
  shows "real_value_in C (power_value (of_real x) (of_int n))"
proof -
  consider "0 \<le> n" "ball_power_loop B (nat n) (ball_exact 1) = Inr C"
    | B' where "n < 0" "checked_real_ball_inv B = Inr B'" "ball_power_loop B' (nat (- n)) (ball_exact 1) = Inr C"
    using assms(1) by (auto simp: integer_ball_power_def split: if_splits)
  then show ?thesis
  proof cases
    case 1
    have "encloses C (1 * x ^ nat n)" by (rule ball_power_loop [OF 1(2) assms(2)]) simp
    moreover have "power_value (of_real x) (of_int n) = Some (of_real (x ^ nat n))"
      using power_value_of_int [OF 1(1), of "of_real x"] by simp
    ultimately show ?thesis by (simp only: real_value_inI mult_1)
  next
    case 2
    have inv: "x \<noteq> 0" "encloses B' (1 / x)" using ball_inv [OF checked_inv [OF 2(2)] assms(2)] by auto
    have "encloses C (1 * (1 / x) ^ nat (- n))" by (rule ball_power_loop [OF 2(3) inv(2)]) simp
    moreover have "power_value (of_real x) (of_int n) = Some (of_real ((1 / x) ^ nat (- n)))"
      using 2(1) inv(1) by (auto simp: power_value_def power_int_def power_one_over inverse_eq_divide)
    ultimately show ?thesis by (simp only: real_value_inI mult_1)
  qed
qed

lemma eval_ball_terms:
  assumes "rfold (\<lambda>t acc. rbind (eval_real_ball t) (checked_real_ball_add acc)) ts acc = Inr C"
    and "encloses acc y" and "\<And>t B. t \<in> set ts \<Longrightarrow> eval_real_ball t = Inr B \<Longrightarrow> real_value_in B (eval I t \<sigma>)"
  shows "\<exists>xs. those (map (\<lambda>t. eval I t \<sigma>) ts) = Some (map of_real xs) \<and> encloses C (y + sum_list xs)"
  using assms
proof (induction ts arbitrary: acc y)
  case (Cons t ts)
  obtain B acc' where run: "eval_real_ball t = Inr B" "checked_real_ball_add acc B = Inr acc'"
      "rfold (\<lambda>t acc. rbind (eval_real_ball t) (checked_real_ball_add acc)) ts acc' = Inr C"
    using Cons.prems(1) by auto
  obtain x where x: "eval I t \<sigma> = Some (of_real x)" "encloses B x"
    using Cons.prems(3) [OF _ run(1)] by (auto simp: real_value_in_def)
  have acc': "encloses acc' (y + x)" using ball_add [OF Cons.prems(2) x(2)] checked_ball_add [OF run(2)] by simp
  then obtain xs where xs: "those (map (\<lambda>t. eval I t \<sigma>) ts) = Some (map of_real xs)" "encloses C (y + x + sum_list xs)"
    using Cons.IH [OF run(3) acc' Cons.prems(3)] by auto
  then show ?case using x by (intro exI [of _ "x # xs"]) (simp add: ac_simps)
qed (simp add: exI [of _ "[]"])

lemma eval_ball_factors:
  assumes "rfold (\<lambda>t acc. rbind (eval_real_ball t) (checked_real_ball_mul acc)) ts acc = Inr C"
    and "encloses acc y" and "\<And>t B. t \<in> set ts \<Longrightarrow> eval_real_ball t = Inr B \<Longrightarrow> real_value_in B (eval I t \<sigma>)"
  shows "\<exists>xs. those (map (\<lambda>t. eval I t \<sigma>) ts) = Some (map of_real xs) \<and> encloses C (y * prod_list xs)"
  using assms
proof (induction ts arbitrary: acc y)
  case (Cons t ts)
  obtain B acc' where run: "eval_real_ball t = Inr B" "checked_real_ball_mul acc B = Inr acc'"
      "rfold (\<lambda>t acc. rbind (eval_real_ball t) (checked_real_ball_mul acc)) ts acc' = Inr C"
    using Cons.prems(1) by auto
  obtain x where x: "eval I t \<sigma> = Some (of_real x)" "encloses B x"
    using Cons.prems(3) [OF _ run(1)] by (auto simp: real_value_in_def)
  have acc': "encloses acc' (y * x)" using ball_mul [OF Cons.prems(2) x(2)] checked_mul [OF run(2)] by simp
  then obtain xs where xs: "those (map (\<lambda>t. eval I t \<sigma>) ts) = Some (map of_real xs)" "encloses C (y * x * prod_list xs)"
    using Cons.IH [OF run(3) acc' Cons.prems(3)] by auto
  then show ?case using x by (intro exI [of _ "x # xs"]) (simp add: ac_simps)
qed (simp add: exI [of _ "[]"])

lemma sum_prod_of_real:
  "sum_list (map of_real xs) = (of_real (sum_list xs) :: complex)"
  "prod_list (map of_real xs) = (of_real (prod_list xs) :: complex)"
  by (induction xs) simp_all

lemma real_of_rat_complex: "of_real (of_rat q) = (of_rat q :: complex)"
  by (cases q) (simp add: of_rat_rat)

theorem eval_real_ball_sound: "eval_real_ball e = Inr B \<Longrightarrow> real_value_in B (eval I e \<sigma>)"
proof (induction e arbitrary: B)
  case (IntegerLit n)
  then show ?case using real_value_inI [of B "of_int n"] by (auto simp: of_rat_of_int_eq)
next
  case (RationalLit q)
  then show ?case using real_value_inI [of B "of_rat q"] by (auto simp: real_of_rat_complex)
next
  case (Const c)
  have exp1: "exp 1 = (of_real (exp 1) :: complex)" using exp_of_real [of 1, where 'a = complex] by simp
  have "encloses B pi" if "c = CPi"
    using Const that pi_near by (auto simp: ball_new_def encloses_def of_rat_divide)
  moreover have "encloses B (exp 1)" if "c = CE"
    using Const that e_near by (auto simp: ball_new_def encloses_def of_rat_divide)
  moreover have "c = CPi \<or> c = CE" using Const by (cases c) auto
  ultimately show ?case using real_value_inI [of B pi] real_value_inI [of B "exp 1"] exp1 by auto
next
  case (Add ts)
  obtain xs where "those (map (\<lambda>t. eval I t \<sigma>) ts) = Some (map of_real xs)" "encloses B (0 + sum_list xs)"
    using eval_ball_terms [of ts "ball_exact 0" B 0 I \<sigma>] Add by auto
  then show ?case using real_value_inI [of B "sum_list xs"] by (simp add: strict_def sum_prod_of_real)
next
  case (Mul ts)
  obtain xs where "those (map (\<lambda>t. eval I t \<sigma>) ts) = Some (map of_real xs)" "encloses B (1 * prod_list xs)"
    using eval_ball_factors [of ts "ball_exact 1" B 1 I \<sigma>] Mul by auto
  then show ?case using real_value_inI [of B "prod_list xs"] by (simp add: strict_def sum_prod_of_real)
next
  case (Pow b e)
  obtain B' n where run: "eval_real_ball b = Inr B'" "e = IntegerLit n" "integer_ball_power B' n = Inr B"
    using Pow.prems by (cases e) auto
  obtain x where "eval I b \<sigma> = Some (of_real x)" "encloses B' x"
    using Pow.IH(1) [OF run(1)] by (auto simp: real_value_in_def)
  then show ?case using integer_ball_power [OF run(3)] by (simp add: run(2))
qed auto

lemma enclosed_by_sound:
  assumes "enclosed_by B e = Inr u"
  shows "real_value_in B (eval I e \<sigma>)"
proof -
  obtain B' where "eval_real_ball e = Inr B'" "contains_ball B B' \<or> B' = B"
    using assms by (auto simp: enclosed_by_def)
  then show ?thesis
    using eval_real_ball_sound [of e B' I \<sigma>] contains_ball_encloses by (auto simp: real_value_in_def)
qed

text \<open>What a claim says of a valuation.\<close>

fun domain_value :: "domain \<Rightarrow> complex \<Rightarrow> bool" where
  "domain_value ZZ z = (z \<in> \<int>)"
| "domain_value QQ z = (z \<in> \<rat>)"
| "domain_value RR z = (z \<in> \<real>)"
| "domain_value _ z = True"

theorem check_real_ball_certificate_sound:
  assumes "check_real_ball_certificate cl cert = Inr cl'"
  shows "cl' = cl"
    and "cl = NonZeroClaim e \<Longrightarrow> \<exists>z. eval I e \<sigma> = Some z \<and> z \<in> \<real> \<and> z \<noteq> 0"
    and "cl = PredicateHold e p \<Longrightarrow> \<exists>z. eval I e \<sigma> = Some z \<and> means p z"
    and "cl = DomainMembership e d \<Longrightarrow> \<exists>z. eval I e \<sigma> = Some z \<and> domain_value d z"
proof -
  obtain B where B: "cert = RealBallCertificate B"
    using assms by (auto simp: check_real_ball_certificate_def split: certificate_payload.splits)
  show "cl' = cl"
    using assms by (auto simp: check_real_ball_certificate_def B split: claim.splits predicate.splits)
  show "\<exists>z. eval I e \<sigma> = Some z \<and> z \<in> \<real> \<and> z \<noteq> 0" if "cl = NonZeroClaim e"
  proof -
    have "enclosed_by B e = Inr ()" "\<not> contains_zero B"
      using assms by (auto simp: check_real_ball_certificate_def B that)
    then show ?thesis using enclosed_by_sound [of B e "()" I \<sigma>] by (auto simp: real_value_in_def contains_zero_iff)
  qed
  show "\<exists>z. eval I e \<sigma> = Some z \<and> means p z" if "cl = PredicateHold e p"
  proof -
    have en: "enclosed_by B e = Inr ()"
      and p: "p = Positive \<and> ball_is_positive B \<or> p = Negative \<and> ball_is_negative B
        \<or> p = NonZero \<and> \<not> contains_zero B \<or> p = Real"
      using assms by (auto simp: check_real_ball_certificate_def B that split: predicate.splits)
    obtain x where "eval I e \<sigma> = Some (of_real x)" "encloses B x"
      using enclosed_by_sound [OF en] by (auto simp: real_value_in_def)
    then show ?thesis using p encloses_positive encloses_negative by (auto simp: contains_zero_iff)
  qed
  show "\<exists>z. eval I e \<sigma> = Some z \<and> domain_value d z" if "cl = DomainMembership e d"
  proof -
    have "enclosed_by B e = Inr ()" "d = RR \<or> d = CC"
      using assms by (auto simp: check_real_ball_certificate_def B that)
    then show ?thesis using enclosed_by_sound [of B e "()" I \<sigma>] by (auto simp: real_value_in_def)
  qed
qed

end
