(* ===== verification/Ring_Congruence.thy ===== *)
theory Ring_Congruence
  imports Complex_Main
begin

text \<open>
  Congruences of commutative rings, in which a number \<open>p\<close> counts as zero. The modular checker of
  \<open>crates/fsym-proof-kernel/src/kernel.rs\<close> computes with coefficients below \<open>p\<close>; what it computes is an
  equation in every such ring, at every point. The first sections hold for all \<open>p\<close>, the others for
  primes: the Frobenius map, and Fermat's theorem where the congruence has finitely many
  classes and inverses.
\<close>

section \<open>Primes\<close>

definition is_prime :: "nat \<Rightarrow> bool" where
  "is_prime n \<longleftrightarrow> 2 \<le> n \<and> (\<forall>d. d dvd n \<longrightarrow> d = 1 \<or> d = n)"

lemma is_primeD: "is_prime n \<Longrightarrow> d dvd n \<Longrightarrow> d = 1 \<or> d = n" "is_prime n \<Longrightarrow> 2 \<le> n"
  by (auto simp: is_prime_def)

lemma divisor_square:
  assumes "2 \<le> n" and "\<not> is_prime n"
  shows "\<exists>d \<ge> 2. d * d \<le> n \<and> d dvd n"
proof -
  obtain d e where d: "n = d * e" "d \<noteq> 1" "d \<noteq> n" using assms by (auto simp: is_prime_def elim: dvdE)
  have "e \<noteq> 0" using d(1) assms(1) by (cases e) simp_all
  moreover have "d \<noteq> 0" using d(1) assms(1) by (cases d) simp_all
  moreover have "e \<noteq> 1" using d by auto
  ultimately have "2 \<le> d" "2 \<le> e" using d(2) by auto
  then show ?thesis
  proof (cases "d \<le> e")
    case True
    then show ?thesis using d(1) \<open>2 \<le> d\<close> by (intro exI [of _ d]) simp
  next
    case False
    then show ?thesis using d(1) \<open>2 \<le> e\<close> by (intro exI [of _ e]) simp
  qed
qed

lemma prime_coprime:
  assumes "is_prime p" and "\<not> p dvd a"
  shows "gcd a p = 1"
proof -
  have "gcd a p = 1 \<or> gcd a p = p" by (rule is_primeD(1) [OF assms(1)]) simp
  then show ?thesis using assms(2) by (metis gcd_dvd1)
qed

lemma prime_divisor: "2 \<le> n \<Longrightarrow> \<exists>r. is_prime r \<and> r dvd n"
proof (induction n rule: less_induct)
  case (less n)
  show ?case
  proof (cases "is_prime n")
    case False
    then obtain d where d: "2 \<le> d" "d * d \<le> n" "d dvd n" using divisor_square [OF less.prems] by blast
    have "d < d * d" using d(1) by simp
    then have "d < n" using d(2) by (rule less_le_trans)
    then obtain r where "is_prime r" "r dvd d" using less.IH d(1) by blast
    then show ?thesis using d(3) dvd_trans by blast
  qed (use dvd_refl in blast)
qed

lemma prime_dvd_product:
  assumes "is_prime r" and "r dvd a * b"
  shows "r dvd a \<or> r dvd b"
proof (cases "r dvd a")
  case False
  then have "coprime r a" using prime_coprime [OF assms(1)] by (simp add: coprime_iff_gcd_eq_1 gcd.commute)
  then show ?thesis using assms(2) by (simp add: coprime_dvd_mult_right_iff)
qed simp

lemma prime_dvd_binomial:
  assumes "is_prime p" and "0 < k" and "k < p"
  shows "p dvd (p choose k)"
proof -
  have "k * (p choose k) = p * ((p - 1) choose (k - 1))"
    by (rule times_binomial_minus1_eq) (rule assms(2))
  then have "p dvd k * (p choose k)" by simp
  moreover have "gcd k p = 1" by (rule prime_coprime [OF assms(1)]) (use assms(2,3) in \<open>auto dest: dvd_imp_le\<close>)
  ultimately show ?thesis
    using coprime_dvd_mult_right_iff [of p k "p choose k"] by (simp add: coprime_iff_gcd_eq_1 gcd.commute)
qed

section \<open>Congruences\<close>

locale char_congruence =
  fixes eqv :: "'a::comm_ring_1 \<Rightarrow> 'a \<Rightarrow> bool" and p :: nat
  assumes eqv_refl [simp, intro]: "eqv a a"
    and eqv_sym: "eqv a b \<Longrightarrow> eqv b a"
    and eqv_trans [trans]: "eqv a b \<Longrightarrow> eqv b c \<Longrightarrow> eqv a c"
    and eqv_add: "eqv a b \<Longrightarrow> eqv c d \<Longrightarrow> eqv (a + c) (b + d)"
    and eqv_mult: "eqv a b \<Longrightarrow> eqv c d \<Longrightarrow> eqv (a * c) (b * d)"
    and eqv_p: "eqv (of_nat p) 0"
begin

lemma eqv_uminus: "eqv a b \<Longrightarrow> eqv (- a) (- b)"
  using eqv_mult [OF eqv_refl [of "- 1"], of a b] by simp

lemma eqv_diff: "eqv a b \<Longrightarrow> eqv c d \<Longrightarrow> eqv (a - c) (b - d)"
  using eqv_add [of a b "- c" "- d"] eqv_uminus by simp

lemma eqv_diff_0: "eqv (a - b) 0 \<longleftrightarrow> eqv a b"
  using eqv_add [of "a - b" 0 b b] eqv_diff [of a b b b] by auto

lemma eqv_power: "eqv a b \<Longrightarrow> eqv (a ^ n) (b ^ n)"
  by (induction n) (auto intro: eqv_mult)

lemma eqv_sum: "(\<And>i. i \<in> A \<Longrightarrow> eqv (f i) (g i)) \<Longrightarrow> eqv (sum f A) (sum g A)"
  by (induction A rule: infinite_finite_induct) (auto intro: eqv_add)

lemma eqv_prod: "(\<And>i. i \<in> A \<Longrightarrow> eqv (f i) (g i)) \<Longrightarrow> eqv (prod f A) (prod g A)"
  by (induction A rule: infinite_finite_induct) (auto intro: eqv_mult)

lemma eqv_0_mult: "eqv b 0 \<Longrightarrow> eqv (a * b) 0"
  using eqv_mult [OF eqv_refl [of a], of b 0] by simp

lemma eqv_multiple: "int p dvd n \<Longrightarrow> eqv (of_int n) 0"
proof -
  assume "int p dvd n"
  then obtain m where "n = int p * m" by blast
  then show ?thesis using eqv_mult [OF eqv_p eqv_refl [of "of_int m"]] by simp
qed

lemma eqv_of_int: "int p dvd a - b \<Longrightarrow> eqv (of_int a) (of_int b)"
  using eqv_multiple [of "a - b"] eqv_diff_0 by simp

lemma eqv_mod [simp]: "eqv (of_nat (n mod p)) (of_nat n)"
proof -
  have "int p dvd int n - int (n mod p)" by (simp add: zmod_int)
  then have "eqv (of_int (int n)) (of_int (int (n mod p)))" by (rule eqv_of_int)
  then show ?thesis by (simp add: eqv_sym)
qed

lemma cancel_unit:
  assumes "eqv (a * b) 1" and "eqv (a * s) (a * t)"
  shows "eqv s t"
proof -
  have "eqv (a * b * u) u" for u using eqv_mult [OF assms(1) eqv_refl [of u]] by simp
  moreover have "b * (a * u) = a * b * u" for u by (simp only: ac_simps)
  then have "eqv (a * b * s) (a * b * t)" using eqv_mult [OF eqv_refl [of b] assms(2)] by (simp only:)
  ultimately show ?thesis by (blast intro: eqv_trans eqv_sym)
qed

section \<open>The Frobenius map\<close>

lemma frobenius_add:
  assumes "is_prime p"
  shows "eqv ((a + b) ^ p) (a ^ p + b ^ p)"
proof -
  have p: "0 < p" using is_primeD(2) [OF assms] by simp
  let ?t = "\<lambda>k. of_nat (p choose k) * a ^ k * b ^ (p - k)"
  have "(a + b) ^ p = (\<Sum>k\<le>p. ?t k)" by (rule binomial_ring)
  also have "\<dots> = (\<Sum>k<p. ?t k) + a ^ p" by (simp add: lessThan_Suc_atMost [symmetric])
  also have "(\<Sum>k<p. ?t k) = b ^ p + (\<Sum>k\<in>{1..<p}. ?t k)"
    using sum.atLeast_Suc_lessThan [OF p, of ?t] by (simp add: lessThan_atLeast0)
  finally have split: "(a + b) ^ p = a ^ p + b ^ p + (\<Sum>k\<in>{1..<p}. ?t k)" by simp
  have "eqv (of_nat (p choose k)) 0" if "k \<in> {1..<p}" for k
    using eqv_multiple [of "int (p choose k)"] prime_dvd_binomial [OF assms, of k] that by simp
  then have "eqv (\<Sum>k\<in>{1..<p}. ?t k) (\<Sum>k\<in>{1..<p}. 0)"
    by (intro eqv_sum) (metis eqv_0_mult mult.commute mult.assoc)
  then show ?thesis unfolding split using eqv_add [OF eqv_refl [of "a ^ p + b ^ p"]] by fastforce
qed

lemma frobenius_of_nat:
  assumes "is_prime p"
  shows "eqv (of_nat n ^ p) (of_nat n)"
proof (induction n)
  case 0
  then show ?case using is_primeD(2) [OF assms] by (simp add: zero_power)
next
  case (Suc n)
  have "eqv (of_nat (Suc n) ^ p) (1 ^ p + of_nat n ^ p)" using frobenius_add [OF assms, of 1 "of_nat n"] by simp
  also have "eqv \<dots> (of_nat (Suc n))" using Suc by (simp add: eqv_add)
  finally show ?case .
qed

section \<open>Finitely many classes\<close>

lemma class_fermat:
  assumes finite: "finite S" and classes: "\<And>a. \<exists>!s. s \<in> S \<and> eqv a s"
    and units: "\<And>a. \<not> eqv a 0 \<Longrightarrow> \<exists>b. eqv (a * b) 1" and one: "\<not> eqv 1 0"
  shows "eqv (a ^ card S) a"
proof (cases "eqv a 0")
  case True
  have "S \<noteq> {}" using classes by blast
  then have "0 < card S" using finite by (simp add: card_gt_0_iff)
  then have "eqv (a ^ card S) 0" using eqv_power [OF True, of "card S"] by (simp add: zero_power)
  then show ?thesis using True eqv_sym eqv_trans by blast
next
  case False
  define rep where "rep = (\<lambda>a. THE s. s \<in> S \<and> eqv a s)"
  have rep: "rep a \<in> S" "eqv a (rep a)" for a using theI' [OF classes [of a]] by (simp_all add: rep_def)
  have rep_unique: "s = t" if "s \<in> S" "t \<in> S" "eqv s t" for s t using classes [of s] that by blast
  define U where "U = S - {rep 0}"
  have nonzero: "s \<in> U \<longleftrightarrow> s \<in> S \<and> \<not> eqv s 0" for s
    unfolding U_def using rep [of 0] rep_unique eqv_sym eqv_trans by blast
  obtain b where b: "eqv (a * b) 1" using units False by blast
  note cancel = cancel_unit [OF b]
  have into: "rep (a * s) \<in> U" if "s \<in> U" for s
  proof -
    have "\<not> eqv (a * s) 0" using cancel [of s 0] that nonzero by auto
    then show ?thesis using nonzero rep eqv_trans by blast
  qed
  have "inj_on (\<lambda>s. rep (a * s)) U"
  proof (rule inj_onI)
    fix s t
    assume st: "s \<in> U" "t \<in> U" "rep (a * s) = rep (a * t)"
    have "eqv (a * s) (rep (a * t))" using rep(2) [of "a * s"] st(3) by simp
    then have "eqv (a * s) (a * t)" using eqv_sym [OF rep(2) [of "a * t"]] by (rule eqv_trans)
    then show "s = t" using cancel rep_unique st(1,2) by (simp add: nonzero)
  qed
  then have bij: "bij_betw (\<lambda>s. rep (a * s)) U U"
    unfolding bij_betw_def using into finite by (metis endo_inj_surj U_def finite_Diff image_subsetI)
  have "eqv (\<Prod>s\<in>U. a * s) (\<Prod>s\<in>U. rep (a * s))" by (intro eqv_prod rep)
  also have "(\<Prod>s\<in>U. rep (a * s)) = \<Prod>U" using prod.reindex_bij_betw [OF bij, of "\<lambda>s. s"] by simp
  finally have loop: "eqv (a ^ card U * \<Prod>U) (\<Prod>U)" by (simp add: prod.distrib)
  have "\<exists>c. eqv (\<Prod>V * c) 1" if "finite V" "V \<subseteq> U" for V
    using that
  proof (induction V rule: finite_induct)
    case (insert s V)
    obtain c where c: "eqv (\<Prod>V * c) 1" using insert by auto
    have "\<not> eqv s 0" using insert.prems nonzero by simp
    then obtain t where t: "eqv (s * t) 1" using units by blast
    have "eqv ((s * t) * (\<Prod>V * c)) (1 * 1)" by (intro eqv_mult t c)
    then have "eqv ((s * \<Prod>V) * (t * c)) 1" by (simp add: ac_simps)
    then show ?case using insert by auto
  qed (auto intro: exI [of _ 1])
  then obtain c where c: "eqv (\<Prod>U * c) 1" using finite by (auto simp: U_def)
  have "eqv (a ^ card U * 1) (a ^ card U * (\<Prod>U * c))" by (intro eqv_mult eqv_refl eqv_sym [OF c])
  also have "eqv \<dots> (\<Prod>U * c)" using eqv_mult [OF loop eqv_refl [of c]] by (simp add: ac_simps)
  also have "eqv \<dots> 1" by (rule c)
  finally have "eqv (a * a ^ card U) (a * 1)" by (intro eqv_mult) simp_all
  moreover have "card S = Suc (card U)" unfolding U_def by (rule card.remove [OF finite rep(1)])
  ultimately show ?thesis by simp
qed

end

section \<open>Roots of monic functions\<close>

text \<open>The functions \<open>y ^ n + c y ^ (n - 1) + \<dots>\<close>, in Horner's form.\<close>

primrec monic_fun :: "nat \<Rightarrow> ('a::comm_ring_1 \<Rightarrow> 'a) \<Rightarrow> bool" where
  "monic_fun 0 F = (F = (\<lambda>_. 1))"
| "monic_fun (Suc n) F = (\<exists>G c. monic_fun n G \<and> F = (\<lambda>y. y * G y + c))"

lemma monic_fun_power: "monic_fun n (\<lambda>y. y ^ n)"
proof (induction n)
  case (Suc n)
  then show ?case by (auto intro!: exI [of _ "\<lambda>y. y ^ n"] exI [of _ 0])
qed simp

lemma monic_fun_add:
  "monic_fun n G \<Longrightarrow> monic_fun m K \<Longrightarrow> m < n \<Longrightarrow> monic_fun n (\<lambda>y. G y + r * K y)"
proof (induction n arbitrary: G m K)
  case (Suc n)
  obtain G' c where G: "monic_fun n G'" "G = (\<lambda>y. y * G' y + c)" using Suc.prems(1) by auto
  show ?case
  proof (cases m)
    case 0
    then have "(\<lambda>y. G y + r * K y) = (\<lambda>y. y * G' y + (c + r))" using Suc.prems(2) G(2) by (simp add: fun_eq_iff)
    then show ?thesis using G(1) by (simp only: monic_fun.simps) blast
  next
    case (Suc m')
    then obtain K' c' where K: "monic_fun m' K'" "K = (\<lambda>y. y * K' y + c')" using Suc.prems(2) by auto
    have "(\<lambda>y. G y + r * K y) = (\<lambda>y. y * (G' y + r * K' y) + (c + r * c'))"
      by (simp add: G(2) K(2) fun_eq_iff algebra_simps)
    moreover have "monic_fun n (\<lambda>y. G' y + r * K' y)" by (rule Suc.IH [OF G(1) K(1)]) (use \<open>m < Suc n\<close> Suc in simp)
    ultimately show ?thesis by (simp only: monic_fun.simps) blast
  qed
qed simp

lemma monic_fun_divide:
  "monic_fun (Suc n) F \<Longrightarrow> \<exists>H. monic_fun n H \<and> (\<forall>y. F y - F r = (y - r) * H y)"
proof (induction n arbitrary: F)
  case 0
  then show ?case by (intro exI [of _ "\<lambda>_. 1"]) auto
next
  case (Suc n)
  obtain G c where G: "monic_fun (Suc n) G" "F = (\<lambda>y. y * G y + c)" using Suc.prems by auto
  obtain K where K: "monic_fun n K" "\<forall>y. G y - G r = (y - r) * K y" using Suc.IH [OF G(1)] by blast
  have "F y - F r = (y - r) * (G y + r * K y)" for y
  proof -
    have "F y - F r = (y - r) * G y + r * (G y - G r)" by (simp add: G(2) algebra_simps)
    also have "\<dots> = (y - r) * G y + r * ((y - r) * K y)" using K(2) by simp
    finally show ?thesis by (simp add: algebra_simps)
  qed
  then show ?case using monic_fun_add [OF G(1) K(1), of r] by (intro exI [of _ "\<lambda>y. G y + r * K y"]) simp
qed

context char_congruence
begin

lemma monic_fun_roots:
  assumes "monic_fun n F" and "finite R" and "\<And>y. y \<in> R \<Longrightarrow> eqv (F y) 0"
    and "\<And>y z. y \<in> R \<Longrightarrow> z \<in> R \<Longrightarrow> eqv y z \<Longrightarrow> y = z"
    and "\<And>a. \<not> eqv a 0 \<Longrightarrow> \<exists>b. eqv (a * b) 1" and "\<not> eqv 1 0"
  shows "card R \<le> n"
  using assms(1-4)
proof (induction n arbitrary: F R)
  case 0
  then show ?case using assms(6) by (cases "R = {}") auto
next
  case (Suc n)
  show ?case
  proof (cases "R = {}")
    case False
    then obtain r where r: "r \<in> R" by blast
    obtain H where H: "monic_fun n H" "\<forall>y. F y - F r = (y - r) * H y" using monic_fun_divide [OF Suc.prems(1)] by blast
    have "eqv (H y) 0" if y: "y \<in> R - {r}" for y
    proof -
      have "\<not> eqv (y - r) 0" using y r Suc.prems(4) by (auto simp: eqv_diff_0)
      then obtain b where b: "eqv ((y - r) * b) 1" using assms(5) by blast
      have "eqv (F y - F r) (0 - 0)" using y r Suc.prems(3) by (intro eqv_diff) auto
      then have "eqv ((y - r) * H y) ((y - r) * 0)" using H(2) by (simp only: diff_0_right mult_zero_right)
      then show ?thesis by (rule cancel_unit [OF b])
    qed
    then have "card (R - {r}) \<le> n" using Suc.prems by (intro Suc.IH [OF H(1)]) auto
    then show ?thesis using r Suc.prems(2) by (simp add: card_Diff_singleton)
  qed simp
qed

end

end
