(* ===== verification/Modular_Sound.thy ===== *)
theory Modular_Sound
  imports Modular_Checker Ring_Congruence
begin

text \<open>
  The arithmetic of the modular checker: its primality test is right, its inverses are inverses, and
  every operation on coefficient lists returns and means what it should in all rings in which the
  prime counts as zero.
\<close>

section \<open>Trial division\<close>

lemma all_nat: "(\<forall>k::nat. Q k) \<longleftrightarrow> Q 0 \<and> (\<forall>k. Q (Suc k))"
  by (metis not0_implies_Suc)

lemma prime_loop_iff:
  "2 \<le> d \<Longrightarrow> prime_loop n d \<longleftrightarrow> (\<forall>k. (d + 6 * k) * (d + 6 * k) \<le> n \<longrightarrow> \<not> (d + 6 * k) dvd n \<and> \<not> (d + 6 * k + 2) dvd n)"
proof (induction n d rule: prime_loop.induct)
  case (1 n d)
  let ?P = "\<lambda>d k. (d + 6 * k) * (d + 6 * k) \<le> n \<longrightarrow> \<not> (d + 6 * k) dvd n \<and> \<not> (d + 6 * k + 2) dvd n"
  have "?P d (Suc k) \<longleftrightarrow> ?P (d + 6) k" for k by (simp add: algebra_simps)
  then have split: "(\<forall>k. ?P d k) \<longleftrightarrow> ?P d 0 \<and> (\<forall>k. ?P (d + 6) k)"
    using all_nat [of "?P d"] by simp
  show ?case
  proof (cases "d * d \<le> n")
    case False
    have "?P d k" for k
    proof -
      have "d * d \<le> (d + 6 * k) * (d + 6 * k)" by (simp add: mult_mono)
      then show ?thesis using False by auto
    qed
    then show ?thesis using False by (simp add: prime_loop.simps [of n d])
  next
    case True
    have "prime_loop n d \<longleftrightarrow> \<not> d dvd n \<and> \<not> (d + 2) dvd n \<and> prime_loop n (d + 6)"
      using True by (simp add: prime_loop.simps [of n d] mod_eq_0_iff_dvd)
    also have "\<dots> \<longleftrightarrow> ?P d 0 \<and> (\<forall>k. ?P (d + 6) k)"
    proof (cases "d dvd n \<or> (d + 2) dvd n")
      case False
      then show ?thesis using "1.IH" [OF True] "1.prems" by (simp add: mod_eq_0_iff_dvd)
    qed (use True in auto)
    finally show ?thesis unfolding split .
  qed
qed

theorem kernel_is_u64_prime_iff: "kernel_is_u64_prime n \<longleftrightarrow> is_prime n"
proof -
  consider "n < 2" | "n = 2 \<or> n = 3" | "4 \<le> n" "2 dvd n \<or> 3 dvd n" | "4 \<le> n" "\<not> 2 dvd n" "\<not> 3 dvd n" by linarith
  then show ?thesis
  proof cases
    case 1
    then show ?thesis by (simp add: kernel_is_u64_prime_def is_prime_def)
  next
    case 2
    have "is_prime 2" "is_prime 3"
      by (auto simp: is_prime_def dest: dvd_imp_le intro: le_antisym)
        (metis One_nat_def Suc_leI dvd_imp_le dvd_pos_nat le_antisym le_eq_less_or_eq less_2_cases_iff
          not_less_eq_eq numeral_2_eq_2 numeral_3_eq_3 zero_less_Suc even_numeral odd_numeral)+
    then show ?thesis using 2 by (auto simp: kernel_is_u64_prime_def)
  next
    case 3
    then have "\<not> is_prime n" by (auto simp: is_prime_def)
    then show ?thesis using 3 by (auto simp: kernel_is_u64_prime_def mod_eq_0_iff_dvd)
  next
    case 4
    have run: "kernel_is_u64_prime n \<longleftrightarrow> prime_loop n 5"
      using 4 by (simp add: kernel_is_u64_prime_def mod_eq_0_iff_dvd)
    show ?thesis
    proof
      assume "is_prime n"
      then have divisors: "d dvd n \<Longrightarrow> d = 1 \<or> d = n" for d by (rule is_primeD)
      have "\<not> (5 + 6 * k) dvd n \<and> \<not> (5 + 6 * k + 2) dvd n" if le: "(5 + 6 * k) * (5 + 6 * k) \<le> n" for k
      proof -
        have "5 * (5 + 6 * k) \<le> (5 + 6 * k) * (5 + 6 * k)" by (rule mult_right_mono) simp_all
        then have "5 * (5 + 6 * k) \<le> n" using le by (rule order_trans)
        then have "5 + 6 * k + 2 < n" by simp
        then have "5 + 6 * k \<noteq> n" "5 + 6 * k + 2 \<noteq> n" by simp_all
        then show ?thesis using divisors [of "5 + 6 * k"] divisors [of "5 + 6 * k + 2"] by auto
      qed
      then show "kernel_is_u64_prime n" unfolding run using prime_loop_iff [of 5 n] by simp
    next
      assume loop: "kernel_is_u64_prime n"
      show "is_prime n"
      proof (rule ccontr)
        assume "\<not> is_prime n"
        moreover have "2 \<le> n" using 4(1) by simp
        ultimately obtain d where d: "2 \<le> d" "d * d \<le> n" "d dvd n" using divisor_square by blast
        have "\<not> 2 dvd d" "\<not> 3 dvd d" using 4(2,3) d(3) dvd_trans by blast+
        moreover have "d mod 6 \<in> {0, 1, 2, 3, 4, 5}" by auto
        ultimately have "d mod 6 = 1 \<or> d mod 6 = 5" by presburger
        moreover have "d \<noteq> 1" using d(1) by simp
        moreover have split: "d = 6 * (d div 6) + d mod 6" by simp
        ultimately obtain k where k: "d = 5 + 6 * k \<or> d = 5 + 6 * k + 2"
        proof (cases "d mod 6 = 5")
          case True
          then show ?thesis using split that [of "d div 6"] by simp
        next
          case False
          then have "d mod 6 = 1" using \<open>d mod 6 = 1 \<or> d mod 6 = 5\<close> by simp
          moreover from this have "d div 6 \<noteq> 0" using split \<open>d \<noteq> 1\<close> by (intro notI) simp
          then obtain q where "d div 6 = Suc q" by (cases "d div 6") auto
          ultimately show ?thesis using split that [of q] by simp
        qed
        have "5 + 6 * k \<le> d" using k by auto
        then have "(5 + 6 * k) * (5 + 6 * k) \<le> n" using d(2) by (meson mult_le_mono order_trans)
        then show False using k d(3) loop unfolding run using prime_loop_iff [of 5 n] by auto
      qed
    qed
  qed
qed

section \<open>Inverses\<close>

lemma inv_loop_spec:
  assumes "inv_loop t new_t r new_r = (t', r')" and "int p dvd t * a - r" and "int p dvd new_t * a - new_r"
    and "0 \<le> new_r" and "new_r \<le> r"
    and "\<bar>t\<bar> * new_r + \<bar>new_t\<bar> * r = M" and "t * new_t \<le> 0" and "\<bar>t\<bar> \<le> \<bar>new_t\<bar>"
  shows "int p dvd t' * a - r' \<and> r' = gcd r new_r \<and> \<bar>t'\<bar> * r' \<le> M"
  using assms
proof (induction t new_t r new_r rule: inv_loop.induct)
  case (1 t new_t r new_r)
  show ?case
  proof (cases "new_r = 0")
    case True
    then have "t' = t" "r' = r" using "1.prems"(1) by (simp_all add: inv_loop.simps [of t new_t r 0])
    moreover have "\<bar>t\<bar> * r \<le> \<bar>new_t\<bar> * r" using "1.prems" by (intro mult_right_mono) simp_all
    ultimately show ?thesis using "1.prems" True by simp
  next
    case False
    define q where "q = r div new_r"
    have rest: "r - q * new_r = r mod new_r" by (simp add: q_def minus_div_mult_eq_mod)
    have q: "1 \<le> q" using "1.prems"(4,5) False unfolding q_def by (simp add: pos_imp_zdiv_pos_iff int_one_le_iff_zero_less)
    have "(t - q * new_t) * a - (r - q * new_r) = (t * a - r) - q * (new_t * a - new_r)"
      by (simp add: algebra_simps)
    moreover have "int p dvd (t * a - r) - q * (new_t * a - new_r)"
      using "1.prems"(2,3) by (simp only: dvd_diff dvd_mult)
    ultimately have dvd: "int p dvd (t - q * new_t) * a - (r - q * new_r)" by (simp only:)
    have rows: "0 \<le> r - q * new_r" "r - q * new_r \<le> new_r"
      unfolding rest using "1.prems"(4) False by (simp_all add: less_imp_le)
    consider "new_t = 0" | "0 < new_t" "t \<le> 0" | "new_t < 0" "0 \<le> t"
      using "1.prems"(7) by (cases new_t "0::int" rule: linorder_cases) (auto simp: mult_le_0_iff)
    then have opposite: "\<bar>t - q * new_t\<bar> = \<bar>t\<bar> + q * \<bar>new_t\<bar> \<and> new_t * (t - q * new_t) \<le> 0"
    proof cases
      case 2
      then have "0 \<le> q * new_t" using q by simp
      then show ?thesis using 2 by (simp add: mult_le_0_iff)
    next
      case 3
      then have "q * new_t \<le> 0" using q by (simp add: mult_le_0_iff)
      then have "q * new_t \<le> t" using 3(2) by (rule order_trans)
      then show ?thesis using 3 by (simp only: mult_le_0_iff abs_of_nonneg diff_ge_0_iff_ge abs_of_neg) simp
    qed simp
    note grows = conjunct1 [OF opposite] and signs = conjunct2 [OF opposite]
    have bound: "\<bar>new_t\<bar> * (r - q * new_r) + \<bar>t - q * new_t\<bar> * new_r = M"
      using "1.prems"(6) unfolding grows by (simp add: algebra_simps)
    have "\<bar>new_t\<bar> \<le> q * \<bar>new_t\<bar>" using q mult_right_mono [of 1 q "\<bar>new_t\<bar>"] by simp
    then have larger: "\<bar>new_t\<bar> \<le> \<bar>t - q * new_t\<bar>" unfolding grows by simp
    have run: "inv_loop new_t (t - q * new_t) new_r (r - q * new_r) = (t', r')"
      using "1.prems"(1) False by (simp add: inv_loop.simps [of t new_t r new_r] Let_def q_def)
    have "int p dvd t' * a - r' \<and> r' = gcd new_r (r - q * new_r) \<and> \<bar>t'\<bar> * r' \<le> M"
      by (rule "1.IH" [OF False q_def run "1.prems"(3) dvd rows bound signs larger])
    then show ?thesis unfolding rest by (metis gcd_red_int gcd.commute)
  qed
qed

lemma kernel_fp_inv:
  assumes "is_prime p" and "0 < a" and "a < p"
  shows "\<exists>i. kernel_fp_inv a p = Some i \<and> int p dvd int i * int a - 1"
proof -
  obtain t r where run: "inv_loop 0 1 (int p) (int a) = (t, r)" by (cases "inv_loop 0 1 (int p) (int a)")
  have spec: "int p dvd t * int a - r \<and> r = gcd (int p) (int a) \<and> \<bar>t\<bar> * r \<le> int p"
    by (rule inv_loop_spec [OF run]) (use assms(2,3) in simp_all)
  have "gcd a p = 1" by (rule prime_coprime [OF assms(1)]) (use assms(2,3) in \<open>auto dest: dvd_imp_le\<close>)
  then have "gcd (int p) (int a) = 1" by (metis gcd.commute gcd_int_int_eq of_nat_1)
  then have r: "r = 1" using spec by simp
  have t: "\<bar>t\<bar> \<le> int p" "int p dvd t * int a - 1" using spec unfolding r by simp_all
  define i where "i = nat (if t < 0 then t + int p else t)"
  have "int i = t \<or> int i = t + int p" using t(1) by (auto simp: i_def)
  then have "int p dvd int i * int a - 1"
  proof
    assume "int i = t + int p"
    then have "int i * int a - 1 = (t * int a - 1) + int p * int a" by (simp add: algebra_simps)
    then show ?thesis using t(2) by (simp only: dvd_add dvd_triv_left)
  qed (use t(2) in simp)
  moreover have "kernel_fp_inv a p = Some i"
    using assms(2,3) run r by (simp add: kernel_fp_inv_def i_def)
  ultimately show ?thesis by auto
qed


section \<open>Values of coefficient lists\<close>

fun val :: "'a::comm_ring_1 \<Rightarrow> nat list \<Rightarrow> 'a" where
  "val x [] = 0"
| "val x (c # cs) = of_nat c + x * val x cs"

definition residues :: "nat \<Rightarrow> nat list \<Rightarrow> bool" where
  "residues p a \<longleftrightarrow> (\<forall>c \<in> set a. c < p)"

text \<open>A list without a trailing zero.\<close>

definition trimmed :: "nat list \<Rightarrow> bool" where
  "trimmed a \<longleftrightarrow> a = [] \<or> last a \<noteq> 0"

lemma val_append: "val x (a @ b) = val x a + x ^ length a * val x b"
  by (induction a) (simp_all add: algebra_simps)

lemma val_zeros: "\<forall>c \<in> set a. c = 0 \<Longrightarrow> val x a = 0"
  by (induction a) simp_all

lemma val_trim [simp]: "val x (kernel_fp_trim a) = val x a"
proof -
  have "a = kernel_fp_trim a @ rev (takeWhile (\<lambda>c. c = 0) (rev a))"
    unfolding kernel_fp_trim_def rev_append [symmetric] takeWhile_dropWhile_id by simp
  moreover have "val x (rev (takeWhile (\<lambda>c. c = 0) (rev a))) = 0"
    by (rule val_zeros) (auto dest: set_takeWhileD)
  ultimately show ?thesis by (metis val_append mult_zero_right add_0_right)
qed

lemma trim_residues: "residues p a \<Longrightarrow> residues p (kernel_fp_trim a)"
  by (auto simp: residues_def kernel_fp_trim_def dest: set_dropWhileD)

lemma trim_trimmed [simp]: "trimmed (kernel_fp_trim a)"
proof (cases "dropWhile (\<lambda>c. c = 0) (rev a) = []")
  case True
  then show ?thesis by (simp only: trimmed_def kernel_fp_trim_def rev.simps simp_thms)
next
  case False
  then show ?thesis using hd_dropWhile [OF False] by (simp add: trimmed_def kernel_fp_trim_def last_rev del: dropWhile_eq_Nil_conv)
qed

lemma trim_length: "length (kernel_fp_trim a) \<le> length a"
  by (simp add: kernel_fp_trim_def length_dropWhile_le [of _ "rev a", simplified])

lemma trim_shorter: "a \<noteq> [] \<Longrightarrow> last a = 0 \<Longrightarrow> length (kernel_fp_trim a) < length a"
  using length_dropWhile_le [of "\<lambda>c. c = 0" "tl (rev a)"]
  by (cases "rev a") (auto simp: kernel_fp_trim_def last_rev [symmetric] hd_rev less_Suc_eq_le)

lemma trim_id: "trimmed a \<Longrightarrow> kernel_fp_trim a = a"
  by (cases "rev a") (auto simp: trimmed_def kernel_fp_trim_def hd_rev [symmetric])

lemma val_update: "k < length a \<Longrightarrow> val x (a[k := c]) = val x a + (of_nat c - of_nat (a ! k)) * x ^ k"
proof (induction a arbitrary: k)
  case (Cons b a)
  show ?case
  proof (cases k)
    case (Suc j)
    have "val x (a[j := c]) = val x a + (of_nat c - of_nat (a ! j)) * x ^ j" by (rule Cons.IH) (use Cons.prems Suc in simp)
    then show ?thesis
      by (simp only: Suc list_update.simps nat.case val.simps nth_Cons_Suc power_Suc) (simp add: distrib_left ac_simps)
  qed (simp add: algebra_simps)
qed simp

text \<open>A monic polynomial over the residues.\<close>

definition monic :: "nat \<Rightarrow> nat list \<Rightarrow> bool" where
  "monic p m \<longleftrightarrow> m \<noteq> [] \<and> last m = 1 \<and> residues p m"

lemma monicD: "monic p m \<Longrightarrow> residues p m" "monic p m \<Longrightarrow> trimmed m" "monic p m \<Longrightarrow> m \<noteq> []"
  by (auto simp: monic_def trimmed_def)

lemma val_sum: "val x a = (\<Sum>i<length a. of_nat (a ! i) * x ^ i)"
proof (induction a)
  case (Cons c a)
  have "(\<Sum>i<length (c # a). of_nat ((c # a) ! i) * x ^ i) = of_nat c + (\<Sum>i<length a. of_nat (a ! i) * x ^ Suc i)"
    unfolding list.size(4) add_0_right add_Suc_right plus_1_eq_Suc [symmetric] by (simp add: sum.lessThan_Suc_shift del: sum.lessThan_Suc)
  also have "\<dots> = of_nat c + x * (\<Sum>i<length a. of_nat (a ! i) * x ^ i)" by (simp add: sum_distrib_left ac_simps)
  finally show ?case using Cons by simp
qed simp

lemma residues_update_loop:
  assumes "residues p out" and "\<And>i v. i < n \<Longrightarrow> g i v < p" and "s + n \<le> length out"
  shows "residues p (fold (\<lambda>i out. out[s + i := g i (out ! (s + i))]) [0..<n] out)"
  using assms
proof (induction n)
  case (Suc n)
  define cur where "cur = fold (\<lambda>i out. out[s + i := g i (out ! (s + i))]) [0..<n] out"
  have "residues p cur" using Suc by (simp add: cur_def)
  moreover have "g n (cur ! (s + n)) < p" by (rule Suc.prems(2)) simp
  ultimately have "residues p (cur[s + n := g n (cur ! (s + n))])"
    using set_update_subset_insert [of cur "s + n" "g n (cur ! (s + n))"] unfolding residues_def by blast
  then show ?case by (simp add: cur_def)
qed simp

lemma val_replicate_zero: "val x (replicate n 0) = 0"
  by (rule val_zeros) simp

lemma val_coefficient: "length a \<le> n \<Longrightarrow> val x a = (\<Sum>i<n. of_nat (coefficient a i) * x ^ i)"
  unfolding val_sum coefficient_def by (rule sum.mono_neutral_cong_left) auto

lemma scale_residues: "0 < p \<Longrightarrow> residues p (scale c a p)"
  by (auto simp: scale_def residues_def)

lemma scale_length [simp]: "length (scale c a p) = length a"
  by (simp add: scale_def)

lemma make_monic:
  assumes "is_prime p" and "residues p a" and "trimmed a" and "a \<noteq> []"
  shows "\<exists>i. kernel_fp_inv (last a) p = Some i \<and> monic p (scale i a p)"
proof -
  have p: "1 < p" using is_primeD(2) [OF assms(1)] by simp
  have "0 < last a" "last a < p" using assms(2-4) by (auto simp: trimmed_def residues_def)
  then obtain i where i: "kernel_fp_inv (last a) p = Some i" "int p dvd int i * int (last a) - 1"
    using kernel_fp_inv [OF assms(1)] by blast
  have "int ((last a * i) mod p) = 1"
  proof -
    have "int (last a * i) mod int p = 1 mod int p" using i(2) by (simp add: mod_eq_dvd_iff ac_simps)
    then show ?thesis using p by (simp add: zmod_int)
  qed
  then have "last (scale i a p) = 1" using assms(4) by (simp add: scale_def last_map)
  then show ?thesis using i(1) assms(4) scale_residues [of p i a] p by (auto simp: monic_def scale_def)
qed

section \<open>Polynomial arithmetic\<close>

context char_congruence
begin

text \<open>A loop that updates consecutive positions.\<close>

lemma update_loop:
  assumes "s + n \<le> length out"
    and "\<And>i v. i < n \<Longrightarrow> eqv (of_nat (g i v)) (of_nat v + h i)"
  shows "eqv (val x (fold (\<lambda>i out. out[s + i := g i (out ! (s + i))]) [0..<n] out))
           (val x out + x ^ s * (\<Sum>i<n. h i * x ^ i))
    \<and> length (fold (\<lambda>i out. out[s + i := g i (out ! (s + i))]) [0..<n] out) = length out
    \<and> (\<forall>k. k < s \<or> s + n \<le> k \<longrightarrow> fold (\<lambda>i out. out[s + i := g i (out ! (s + i))]) [0..<n] out ! k = out ! k)"
  using assms
proof (induction n)
  case (Suc n)
  define cur where "cur = fold (\<lambda>i out. out[s + i := g i (out ! (s + i))]) [0..<n] out"
  have IH: "eqv (val x cur) (val x out + x ^ s * (\<Sum>i<n. h i * x ^ i))" "length cur = length out"
      "\<forall>k. k < s \<or> s + n \<le> k \<longrightarrow> cur ! k = out ! k"
    using Suc by (simp_all add: cur_def)
  let ?next = "cur[s + n := g n (cur ! (s + n))]"
  have "val x ?next = val x cur + (of_nat (g n (cur ! (s + n))) - of_nat (cur ! (s + n))) * x ^ (s + n)"
    by (rule val_update) (use Suc.prems(1) IH(2) in simp)
  moreover have "eqv (of_nat (g n (cur ! (s + n))) - of_nat (cur ! (s + n))) (h n)"
    using eqv_diff [OF Suc.prems(2) [of n "cur ! (s + n)"] eqv_refl [of "of_nat (cur ! (s + n))"]] by simp
  ultimately have "eqv (val x ?next) (val x out + x ^ s * (\<Sum>i<n. h i * x ^ i) + h n * x ^ (s + n))"
    using IH(1) by (simp add: eqv_add eqv_mult)
  then have "eqv (val x ?next) (val x out + x ^ s * (\<Sum>i<Suc n. h i * x ^ i))"
    by (simp add: algebra_simps power_add)
  then show ?case using IH(2,3) by (simp add: cur_def)
qed simp

lemma cancel_lead:
  assumes "last m = 1" and "m \<noteq> []" and "length m \<le> length a" and "residues p a" and "0 < p"
  shows "eqv (val x (cancel_lead a m p)) (val x a - of_nat (last a) * x ^ (length a - length m) * val x m)"
    and "residues p (cancel_lead a m p)" and "length (cancel_lead a m p) < length a"
    and "trimmed (cancel_lead a m p)"
proof -
  define s where "s = length a - length m"
  define g where "g = (\<lambda>i v. (v + p - last a * m ! i mod p) mod p)"
  define out where "out = fold (\<lambda>i out. out[s + i := g i (out ! (s + i))]) [0..<length m] a"
  have run: "cancel_lead a m p = kernel_fp_trim out"
    by (simp add: cancel_lead_def Let_def out_def g_def s_def)
  have len: "s + length m = length a" using assms(3) by (simp add: s_def)
  have step: "eqv (of_nat (g i v)) (of_nat v + - of_nat (last a) * of_nat (m ! i))" for i v
  proof -
    have "eqv (of_nat (g i v)) (of_nat (v + p - last a * m ! i mod p))" by (simp add: g_def)
    also have "(of_nat (v + p - last a * m ! i mod p) :: 'a) = of_nat v + of_nat p - of_nat (last a * m ! i mod p)"
      using mod_less_divisor [OF assms(5), of "last a * m ! i"] by (simp add: of_nat_diff less_imp_le trans_le_add2)
    also have "eqv \<dots> (of_nat v + 0 - of_nat (last a * m ! i))"
      by (intro eqv_diff eqv_add eqv_refl eqv_mod) (rule eqv_p)
    finally show ?thesis by simp
  qed
  note loop = update_loop [where h = "\<lambda>i. - of_nat (last a) * of_nat (m ! i)" and g = g and x = x, OF eq_imp_le [OF len] step, folded out_def]
  have "(\<Sum>i<length m. - of_nat (last a) * of_nat (m ! i) * x ^ i) = - of_nat (last a) * val x m"
    by (simp add: val_sum sum_distrib_left ac_simps flip: sum_negf)
  then show "eqv (val x (cancel_lead a m p)) (val x a - of_nat (last a) * x ^ (length a - length m) * val x m)"
    using loop by (simp add: run s_def [symmetric] ac_simps)
  have "g i v < p" for i v using assms(5) by (simp add: g_def)
  then have out: "residues p out"
    unfolding out_def by (intro residues_update_loop assms(4)) (use len in simp_all)
  then show "residues p (cancel_lead a m p)" unfolding run by (rule trim_residues)
  obtain n where n: "length m = Suc n" using assms(2) by (cases m) auto
  define cur where "cur = fold (\<lambda>i out. out[s + i := g i (out ! (s + i))]) [0..<n] a"
  have "length cur = length a \<and> (\<forall>k. k < s \<or> s + n \<le> k \<longrightarrow> cur ! k = a ! k)"
    using update_loop [where h = "\<lambda>i. - of_nat (last a) * of_nat (m ! i)" and g = g and x = x and s = s and n = n, OF _ step] len n
    by (simp add: cur_def)
  then have cur: "length cur = length a" "cur ! (s + n) = a ! (s + n)" by auto
  have "out = cur[s + n := g n (cur ! (s + n))]" by (simp add: out_def cur_def n)
  moreover have "a \<noteq> []" using len assms(2) by auto
  moreover from this have "cur \<noteq> []" using cur(1) by auto
  moreover have "s + n = length a - 1" using len n by simp
  ultimately have top: "length out = length a" "last out = g n (last a)" "out \<noteq> []"
    using cur by (auto simp: last_list_update last_conv_nth)
  have "m ! n = 1" using assms(1,2) n by (simp add: last_conv_nth)
  moreover have "last a < p" using assms(4) \<open>a \<noteq> []\<close> by (simp add: residues_def)
  ultimately have "last out = 0" using top(2) by (simp add: g_def)
  then show "length (cancel_lead a m p) < length a"
    unfolding run using trim_shorter [OF top(3)] top(1) by simp
  show "trimmed (cancel_lead a m p)" by (simp add: run)
qed

text \<open>Division by a monic polynomial returns, and keeps the value at every root of the divisor.\<close>

lemma rem_loop:
  assumes "monic p m" and "residues p a" and "trimmed a" and "0 < p"
  shows "\<exists>r. rem_loop a m p = Some r \<and> residues p r \<and> trimmed r \<and> length r < length m
    \<and> (\<forall>x. eqv (val x m) 0 \<longrightarrow> eqv (val x r) (val x a))"
  using assms
proof (induction "length a" arbitrary: a rule: less_induct)
  case less
  show ?case
  proof (cases "length a \<ge> length m \<and> a \<noteq> []")
    case False
    then have "rem_loop a m p = Some a" by (subst rem_loop.simps) (simp only: if_False)
    moreover have "length a < length m" using False less.prems(1) by (auto simp: monic_def)
    ultimately show ?thesis using less.prems by simp
  next
    case True
    define r where "r = cancel_lead a m p"
    have m: "last m = 1" "m \<noteq> []" using less.prems(1) by (simp_all add: monic_def)
    note c = cancel_lead [OF m conjunct1 [OF True] less.prems(2,4), folded r_def]
    have keep: "eqv (val x r) (val x a)" if "eqv (val x m) 0" for x
    proof -
      have "eqv (of_nat (last a) * x ^ (length a - length m) * val x m) (of_nat (last a) * x ^ (length a - length m) * 0)"
        by (intro eqv_mult eqv_refl that)
      from eqv_diff [OF eqv_refl [of "val x a"] this] have
        "eqv (val x a - of_nat (last a) * x ^ (length a - length m) * val x m) (val x a)" by simp
      then show ?thesis using c(1) eqv_trans by blast
    qed
    show ?thesis
    proof (cases "length r \<le> length m - 1")
      case short: True
      then have "rem_loop a m p = Some r" using True by (simp add: rem_loop.simps [of a m p] r_def)
      moreover have "length r < length m" using short m(2) by (cases m) auto
      ultimately show ?thesis using c(2,4) keep by simp
    next
      case False
      then have run: "rem_loop a m p = rem_loop r m p" using True by (simp add: rem_loop.simps [of a m p] r_def)
      show ?thesis unfolding run
        using less.hyps [OF c(3) less.prems(1) c(2,4) less.prems(4)] keep eqv_trans by blast
    qed
  qed
qed

lemma kernel_fp_rem_monic:
  assumes "monic p m" and "residues p a" and "0 < p"
  shows "\<exists>r. kernel_fp_rem_monic a m p = Some r \<and> residues p r \<and> trimmed r \<and> length r < length m
    \<and> (\<forall>x. eqv (val x m) 0 \<longrightarrow> eqv (val x r) (val x a))"
  using rem_loop [OF assms(1) trim_residues [OF assms(2)] trim_trimmed assms(3)]
  by (simp add: kernel_fp_rem_monic_def)


lemma fp_mul_rows:
  assumes "0 < p" and "b \<noteq> []" and "n \<le> length a"
  shows "eqv (val x (fold (\<lambda>i. fold (\<lambda>j out. out[i + j := (out ! (i + j) + a ! i * b ! j mod p) mod p]) [0..<length b])
      [0..<n] (replicate (length a + length b - 1) 0))) (\<Sum>i<n. of_nat (a ! i) * x ^ i * val x b)
    \<and> length (fold (\<lambda>i. fold (\<lambda>j out. out[i + j := (out ! (i + j) + a ! i * b ! j mod p) mod p]) [0..<length b])
      [0..<n] (replicate (length a + length b - 1) 0)) = length a + length b - 1
    \<and> residues p (fold (\<lambda>i. fold (\<lambda>j out. out[i + j := (out ! (i + j) + a ! i * b ! j mod p) mod p]) [0..<length b])
      [0..<n] (replicate (length a + length b - 1) 0))"
  using assms(3)
proof (induction n)
  case 0
  then show ?case using assms(1) by (simp add: val_replicate_zero residues_def)
next
  case (Suc n)
  define cur where "cur = fold (\<lambda>i. fold (\<lambda>j out. out[i + j := (out ! (i + j) + a ! i * b ! j mod p) mod p]) [0..<length b])
      [0..<n] (replicate (length a + length b - 1) 0)"
  define g where "g = (\<lambda>j v. (v + a ! n * b ! j mod p) mod p)"
  have IH: "eqv (val x cur) (\<Sum>i<n. of_nat (a ! i) * x ^ i * val x b)" "length cur = length a + length b - 1" "residues p cur"
    using Suc by (simp_all add: cur_def)
  have fits: "n + length b \<le> length cur" using Suc.prems assms(2) IH(2) by (cases b) auto
  have step: "eqv (of_nat (g j v)) (of_nat v + of_nat (a ! n) * of_nat (b ! j))" for j v
  proof -
    have "eqv (of_nat (g j v)) (of_nat (v + a ! n * b ! j mod p))" unfolding g_def by (rule eqv_mod)
    also have "eqv \<dots> (of_nat v + of_nat (a ! n * b ! j))"
      unfolding of_nat_add by (intro eqv_add eqv_refl eqv_mod)
    finally show ?thesis by simp
  qed
  note loop = update_loop [where h = "\<lambda>j. of_nat (a ! n) * of_nat (b ! j)" and g = g and x = x, OF fits step]
  have "(\<Sum>j<length b. of_nat (a ! n) * of_nat (b ! j) * x ^ j) = of_nat (a ! n) * val x b"
    by (simp add: val_sum sum_distrib_left ac_simps)
  then have "eqv (val x (fold (\<lambda>j out. out[n + j := g j (out ! (n + j))]) [0..<length b] cur))
      (val x cur + of_nat (a ! n) * x ^ n * val x b)"
    using loop by (simp add: ac_simps)
  then have "eqv (val x (fold (\<lambda>j out. out[n + j := g j (out ! (n + j))]) [0..<length b] cur))
      (\<Sum>i<Suc n. of_nat (a ! i) * x ^ i * val x b)"
    using eqv_add [OF IH(1) eqv_refl [of "of_nat (a ! n) * x ^ n * val x b"]] eqv_trans by simp
  moreover have "residues p (fold (\<lambda>j out. out[n + j := g j (out ! (n + j))]) [0..<length b] cur)"
    by (rule residues_update_loop [OF IH(3) _ fits]) (simp add: g_def assms(1))
  ultimately show ?case using loop IH(2) by (simp add: cur_def g_def)
qed

lemma kernel_fp_mul:
  assumes "0 < p"
  shows "eqv (val x (kernel_fp_mul a b p)) (val x a * val x b)" and "residues p (kernel_fp_mul a b p)"
proof -
  have "eqv (val x (kernel_fp_mul a b p)) (val x a * val x b) \<and> residues p (kernel_fp_mul a b p)"
  proof (cases "a = [] \<or> b = []")
    case True
    then show ?thesis by (auto simp: kernel_fp_mul_def residues_def)
  next
    case False
    have "(\<Sum>i<length a. of_nat (a ! i) * x ^ i * val x b) = val x a * val x b"
      by (simp add: val_sum [of x a] sum_distrib_right)
    then show ?thesis
      using fp_mul_rows [OF assms, where a = a and b = b and x = x and n = "length a"] False trim_residues by (auto simp: kernel_fp_mul_def)
  qed
  then show "eqv (val x (kernel_fp_mul a b p)) (val x a * val x b)" "residues p (kernel_fp_mul a b p)" by simp_all
qed

lemma val_map_range:
  assumes "\<And>i. i < n \<Longrightarrow> eqv (of_nat (f i)) (g i)"
  shows "eqv (val x (map f [0..<n])) (\<Sum>i<n. g i * x ^ i)"
  using assms
proof (induction n)
  case (Suc n)
  have "eqv (val x (map f [0..<n]) + x ^ n * of_nat (f n)) ((\<Sum>i<n. g i * x ^ i) + x ^ n * g n)"
    by (intro eqv_add eqv_mult eqv_refl Suc) simp_all
  then show ?case by (simp add: val_append ac_simps)
qed simp

lemma kernel_fp_sub:
  assumes "0 < p"
  shows "eqv (val x (kernel_fp_sub a b p)) (val x a - val x b)" and "residues p (kernel_fp_sub a b p)"
proof -
  let ?n = "max (length a) (length b)"
  have "eqv (of_nat ((coefficient a i + p - coefficient b i mod p) mod p)) (of_nat (coefficient a i) - of_nat (coefficient b i))" for i
  proof -
    have "eqv (of_nat ((coefficient a i + p - coefficient b i mod p) mod p)) (of_nat (coefficient a i + p - coefficient b i mod p))"
      by simp
    also have "(of_nat (coefficient a i + p - coefficient b i mod p) :: 'a) = of_nat (coefficient a i) + of_nat p - of_nat (coefficient b i mod p)"
      using mod_less_divisor [OF assms, of "coefficient b i"] by (simp add: of_nat_diff less_imp_le trans_le_add2)
    also have "eqv \<dots> (of_nat (coefficient a i) + 0 - of_nat (coefficient b i))"
      by (intro eqv_diff eqv_add eqv_refl eqv_mod) (rule eqv_p)
    finally show ?thesis by simp
  qed
  then have "eqv (val x (map (\<lambda>i. (coefficient a i + p - coefficient b i mod p) mod p) [0..<?n]))
      (\<Sum>i<?n. (of_nat (coefficient a i) - of_nat (coefficient b i)) * x ^ i)"
    by (rule val_map_range)
  moreover have "(\<Sum>i<?n. (of_nat (coefficient a i) - of_nat (coefficient b i)) * x ^ i) = val x a - val x b"
    using val_coefficient [of a ?n x] val_coefficient [of b ?n x] by (simp add: left_diff_distrib sum_subtractf)
  ultimately show "eqv (val x (kernel_fp_sub a b p)) (val x a - val x b)" by (simp add: kernel_fp_sub_def)
  show "residues p (kernel_fp_sub a b p)"
    unfolding kernel_fp_sub_def by (rule trim_residues) (simp add: residues_def assms)
qed

lemma scale:
  assumes "0 < p"
  shows "eqv (val x (scale c a p)) (of_nat c * val x a)" and "residues p (scale c a p)"
    and "length (scale c a p) = length a"
proof -
  show "eqv (val x (scale c a p)) (of_nat c * val x a)"
  proof (induction a)
    case (Cons b a)
    have "eqv (of_nat (b * c mod p) + x * val x (scale c a p)) (of_nat (b * c) + x * (of_nat c * val x a))"
      by (intro eqv_add eqv_mult eqv_refl eqv_mod Cons)
    then show ?case by (simp add: scale_def algebra_simps)
  qed (simp add: scale_def)
qed (use assms in \<open>simp_all add: scale_def residues_def\<close>)


lemma pow_mod_loop:
  assumes "monic p m" and "residues p r" and "residues p c" and "0 < p"
  shows "\<exists>q. pow_mod_loop r c n m p = Some q \<and> residues p q
    \<and> (0 < n \<longrightarrow> trimmed q \<and> length q < length m)
    \<and> (\<forall>x. eqv (val x m) 0 \<longrightarrow> eqv (val x q) (val x r * val x c ^ n))"
  using assms(2,3)
proof (induction n arbitrary: r c rule: less_induct)
  case (less n)
  show ?case
  proof (cases "n = 0")
    case True
    then show ?thesis using less.prems by (simp add: pow_mod_loop.simps [of r c 0 m p])
  next
    case False
    have mul: "\<exists>q. kernel_fp_rem_monic (kernel_fp_mul a b p) m p = Some q \<and> residues p q \<and> trimmed q \<and> length q < length m
      \<and> (\<forall>x. eqv (val x m) 0 \<longrightarrow> eqv (val x q) (val x a * val x b))" for a b
    proof -
      obtain q where "kernel_fp_rem_monic (kernel_fp_mul a b p) m p = Some q"
          "residues p q" "trimmed q" "length q < length m" "\<forall>x. eqv (val x m) 0 \<longrightarrow> eqv (val x q) (val x (kernel_fp_mul a b p))"
        using kernel_fp_rem_monic [OF assms(1) kernel_fp_mul(2) assms(4)] assms(4) by blast
      then show ?thesis using kernel_fp_mul(1) [OF assms(4)] eqv_trans by blast
    qed
    obtain r' where r': "(if odd n then kernel_fp_rem_monic (kernel_fp_mul r c p) m p else Some r) = Some r'"
        "residues p r'" "odd n \<longrightarrow> trimmed r' \<and> length r' < length m"
        "\<forall>x. eqv (val x m) 0 \<longrightarrow> eqv (val x r') (val x r * val x c ^ (n mod 2))"
      using mul [of r c] less.prems by (cases "odd n") (auto simp: odd_iff_mod_2_eq_one)
    obtain c' where c': "(if n div 2 > 0 then kernel_fp_rem_monic (kernel_fp_mul c c p) m p else Some c) = Some c'"
        "residues p c'" "n div 2 > 0 \<longrightarrow> (\<forall>x. eqv (val x m) 0 \<longrightarrow> eqv (val x c') (val x c * val x c))"
      using mul [of c c] less.prems by (cases "n div 2 > 0") auto
    have "n div 2 < n" using False by simp
    then obtain q where q: "pow_mod_loop r' c' (n div 2) m p = Some q" "residues p q"
        "0 < n div 2 \<longrightarrow> trimmed q \<and> length q < length m"
        "\<forall>x. eqv (val x m) 0 \<longrightarrow> eqv (val x q) (val x r' * val x c' ^ (n div 2))"
      using less.IH [OF _ r'(2) c'(2)] by metis
    have run: "pow_mod_loop r c n m p = Some q"
      using False r'(1) c'(1) q(1) by (simp add: pow_mod_loop.simps [of r c n m p] Let_def)
    have "eqv (val x q) (val x r * val x c ^ n)" if root: "eqv (val x m) 0" for x
    proof -
      have half: "eqv (val x c' ^ (n div 2)) (val x c ^ (2 * (n div 2)))"
      proof (cases "n div 2 > 0")
        case True
        then have "eqv (val x c' ^ (n div 2)) ((val x c * val x c) ^ (n div 2))"
          using c'(3) root by (intro eqv_power) blast
        then show ?thesis by (simp add: power_mult power2_eq_square)
      qed simp
      have "eqv (val x q) (val x r' * val x c' ^ (n div 2))" using q(4) root by blast
      also have "eqv \<dots> (val x r * val x c ^ (n mod 2) * val x c ^ (2 * (n div 2)))"
        using r'(4) root half by (intro eqv_mult) blast+
      also have "val x r * val x c ^ (n mod 2) * val x c ^ (2 * (n div 2)) = val x r * val x c ^ n"
        by (simp only: mult.assoc power_add [symmetric] mod_mult_div_eq)
      finally show ?thesis .
    qed
    moreover have "trimmed q \<and> length q < length m"
    proof (cases "n div 2 = 0")
      case True
      then have "odd n" using False by presburger
      then show ?thesis using r'(3) q(1) True by (simp add: pow_mod_loop.simps [of r' c' 0 m p])
    qed (use q(3) in simp)
    ultimately show ?thesis using run q(2) by blast
  qed
qed

lemma kernel_fp_pow_mod:
  assumes "monic p m" and "residues p a" and "1 < p"
  shows "\<exists>q. kernel_fp_pow_mod a n m p = Some q \<and> residues p q
    \<and> (0 < n \<longrightarrow> trimmed q \<and> length q < length m)
    \<and> (\<forall>x. eqv (val x m) 0 \<longrightarrow> eqv (val x q) (val x a ^ n))"
proof -
  have "0 < p" using assms(3) by simp
  then obtain c where c: "kernel_fp_rem_monic a m p = Some c" "residues p c"
      "\<forall>x. eqv (val x m) 0 \<longrightarrow> eqv (val x c) (val x a)"
    using kernel_fp_rem_monic [OF assms(1,2)] by blast
  have one: "residues p [1]" using assms(3) by (simp add: residues_def)
  obtain q where q: "pow_mod_loop [1] c n m p = Some q" "residues p q"
      "0 < n \<longrightarrow> trimmed q \<and> length q < length m"
      "\<forall>x. eqv (val x m) 0 \<longrightarrow> eqv (val x q) (val x [1] * val x c ^ n)"
    using pow_mod_loop [OF assms(1) one c(2) \<open>0 < p\<close>] by blast
  have "eqv (val x q) (val x a ^ n)" if "eqv (val x m) 0" for x
    using q(4) that eqv_power [of "val x c" "val x a" n] c(3) eqv_trans by simp blast
  then show ?thesis using c(1) q(1-3) by (simp add: kernel_fp_pow_mod_def)
qed

section \<open>Common divisors\<close>

text \<open>The gcd is zero at exactly the common roots.\<close>

lemma scale_root:
  assumes "is_prime p" and "kernel_fp_inv (last a) p = Some i" and "residues p a" and "trimmed a" and "a \<noteq> []"
  shows "eqv (val x (scale i a p)) 0 \<longleftrightarrow> eqv (val x a) 0"
proof -
  have p: "0 < p" using is_primeD(2) [OF assms(1)] by simp
  have "0 < last a" "last a < p" using assms(3-5) by (auto simp: trimmed_def residues_def)
  then have "int p dvd int i * int (last a) - 1" using kernel_fp_inv [OF assms(1), of "last a"] assms(2) by auto
  then have "eqv (of_int (int i * int (last a))) (of_int 1)" by (rule eqv_of_int)
  then have "eqv (of_nat (last a) * of_nat i) 1" by (simp add: ac_simps)
  from eqv_mult [OF this eqv_refl [of "val x a"]] have unit: "eqv (of_nat (last a) * (of_nat i * val x a)) (val x a)"
    by (simp add: ac_simps)
  have scaled: "eqv (val x (scale i a p)) (of_nat i * val x a)" by (rule scale(1) [OF p])
  show ?thesis
  proof
    assume "eqv (val x (scale i a p)) 0"
    then have "eqv (of_nat i * val x a) 0" using scaled eqv_sym eqv_trans by blast
    then show "eqv (val x a) 0" using unit eqv_0_mult eqv_sym eqv_trans by blast
  next
    assume "eqv (val x a) 0"
    then show "eqv (val x (scale i a p)) 0" using scaled eqv_0_mult eqv_trans by blast
  qed
qed

lemma fp_gcd_loop:
  assumes "is_prime p" and "residues p a" and "residues p b" and "trimmed a" and "trimmed b"
  shows "\<exists>g. gcd_loop a b p = Some g \<and> (a \<noteq> [] \<or> b \<noteq> [] \<longrightarrow> monic p g)
    \<and> (\<forall>x. eqv (val x g) 0 \<longleftrightarrow> eqv (val x a) 0 \<and> eqv (val x b) 0)"
  using assms(2-5)
proof (induction "length b" arbitrary: a b rule: less_induct)
  case less
  have p: "0 < p" using is_primeD(2) [OF assms(1)] by simp
  show ?case
  proof (cases "b = []")
    case True
    show ?thesis
    proof (cases "a = []")
      case False
      then obtain i where i: "kernel_fp_inv (last a) p = Some i" "monic p (scale i a p)"
        using make_monic [OF assms(1) less.prems(1,3)] by blast
      then have "gcd_loop a b p = Some (scale i a p)" using False True by (subst gcd_loop.simps) simp
      then show ?thesis using i(2) scale_root [OF assms(1) i(1) less.prems(1,3) False] True by simp
    qed (use True in \<open>simp add: gcd_loop.simps [of "[]" "[]" p]\<close>)
  next
    case False
    obtain i where i: "kernel_fp_inv (last b) p = Some i" "monic p (scale i b p)"
      using make_monic [OF assms(1) less.prems(2,4) False] by blast
    obtain r where r: "kernel_fp_rem_monic a (scale i b p) p = Some r" "residues p r" "trimmed r"
        "length r < length b" "\<forall>x. eqv (val x (scale i b p)) 0 \<longrightarrow> eqv (val x r) (val x a)"
      using kernel_fp_rem_monic [OF i(2) less.prems(1) p] scale(3) [OF p] by auto
    obtain g where g: "gcd_loop (scale i b p) r p = Some g" "monic p g"
        "\<forall>x. eqv (val x g) 0 \<longleftrightarrow> eqv (val x (scale i b p)) 0 \<and> eqv (val x r) 0"
      using less.hyps [OF r(4) monicD(1) [OF i(2)] r(2) monicD(2) [OF i(2)] r(3)] monicD(3) [OF i(2)] by blast
    have "gcd_loop a b p = Some g" using False i(1) r(1) g(1) by (subst gcd_loop.simps) simp
    moreover have "eqv (val x g) 0 \<longleftrightarrow> eqv (val x a) 0 \<and> eqv (val x b) 0" for x
      using g(3) scale_root [OF assms(1) i(1) less.prems(2,4) False, of x] r(5) eqv_sym eqv_trans by metis
    ultimately show ?thesis using g(2) by blast
  qed
qed

lemma kernel_fp_gcd:
  assumes "is_prime p" and "residues p a" and "residues p b" and "kernel_fp_trim a \<noteq> [] \<or> kernel_fp_trim b \<noteq> []"
  shows "\<exists>g. kernel_fp_gcd a b p = Some g \<and> monic p g
    \<and> (\<forall>x. eqv (val x g) 0 \<longleftrightarrow> eqv (val x a) 0 \<and> eqv (val x b) 0)"
  using fp_gcd_loop [OF assms(1) trim_residues [OF assms(2)] trim_residues [OF assms(3)] trim_trimmed trim_trimmed] assms(4)
  by (auto simp: kernel_fp_gcd_def)

end

end
