(* ===== verification/Int_Polynomials.thy ===== *)
theory Int_Polynomials
  imports Modular_Sound
begin

text \<open>
  Polynomials with integer coefficients, as the ring of the functions they denote, and the
  congruences of that ring modulo a number and two polynomials. Together with \<open>Modular_Sound\<close> they
  say what the lists of the modular checker mean as polynomials.
\<close>

section \<open>Coefficient lists\<close>

fun horner :: "int \<Rightarrow> int list \<Rightarrow> int" where
  "horner x [] = 0"
| "horner x (c # cs) = c + x * horner x cs"

definition coeff :: "int list \<Rightarrow> nat \<Rightarrow> int" where
  "coeff cs i = (if i < length cs then cs ! i else 0)"

lemma coeff_simps [simp]:
  "coeff [] i = 0" "coeff (c # cs) 0 = c" "coeff (c # cs) (Suc i) = coeff cs i"
  by (simp_all add: coeff_def)

lemma coeff_beyond: "length cs \<le> i \<Longrightarrow> coeff cs i = 0"
  by (simp add: coeff_def)

fun list_add :: "int list \<Rightarrow> int list \<Rightarrow> int list" where
  "list_add [] ds = ds"
| "list_add cs [] = cs"
| "list_add (c # cs) (d # ds) = (c + d) # list_add cs ds"

fun list_mult :: "int list \<Rightarrow> int list \<Rightarrow> int list" where
  "list_mult [] ds = []"
| "list_mult (c # cs) ds = list_add (map ((*) c) ds) (0 # list_mult cs ds)"

lemma horner_add: "horner x (list_add cs ds) = horner x cs + horner x ds"
  by (induction cs ds rule: list_add.induct) (simp_all add: algebra_simps)

lemma horner_scale: "horner x (map ((*) c) cs) = c * horner x cs"
  by (induction cs) (simp_all add: algebra_simps)

lemma horner_uminus: "horner x (map uminus cs) = - horner x cs"
  by (induction cs) simp_all

lemma horner_zeros: "\<forall>c \<in> set cs. c = 0 \<Longrightarrow> horner x cs = 0"
  by (induction cs) simp_all

lemma horner_mult: "horner x (list_mult cs ds) = horner x cs * horner x ds"
  by (induction cs) (simp_all add: horner_add horner_scale algebra_simps)

lemma coeff_add: "coeff (list_add cs ds) i = coeff cs i + coeff ds i"
proof (induction cs ds arbitrary: i rule: list_add.induct)
  case (3 c cs d ds)
  then show ?case by (cases i) simp_all
qed simp_all

lemma coeff_scale: "coeff (map ((*) c) cs) i = c * coeff cs i"
  by (simp add: coeff_def)

lemma coeff_uminus: "coeff (map uminus cs) i = - coeff cs i"
  by (simp add: coeff_def)

lemma coeff_mult: "coeff (list_mult cs ds) n = (\<Sum>i\<le>n. coeff cs i * coeff ds (n - i))"
proof (induction cs arbitrary: n)
  case (Cons c cs)
  then show ?case by (cases n) (simp_all add: coeff_add coeff_scale sum.atMost_Suc_shift del: sum.atMost_Suc)
qed simp

lemma horner_zero_coeff: "(\<And>x. 0 < x \<Longrightarrow> horner x cs = 0) \<Longrightarrow> coeff cs i = 0"
proof (induction cs arbitrary: i)
  case (Cons c cs)
  have "c = 0"
  proof (rule ccontr)
    assume "c \<noteq> 0"
    have "horner (\<bar>c\<bar> + 1) (c # cs) = 0" by (rule Cons.prems) simp
    then have "c = (\<bar>c\<bar> + 1) * (- horner (\<bar>c\<bar> + 1) cs)" by simp
    then have "(\<bar>c\<bar> + 1) dvd c" by (metis dvd_triv_left)
    then have "\<bar>c\<bar> + 1 \<le> \<bar>c\<bar>" using \<open>c \<noteq> 0\<close> by (metis dvd_imp_le_int abs_ge_zero abs_of_nonneg add_nonneg_nonneg zero_le_one)
    then show False by simp
  qed
  moreover have "horner x cs = 0" if "0 < x" for x using Cons.prems [OF that] that \<open>c = 0\<close> by simp
  ultimately show ?case using Cons.IH by (cases i) simp_all
qed simp

lemma horner_coeff:
  assumes "\<And>x. horner x cs = horner x ds"
  shows "coeff cs i = coeff ds i"
proof -
  have "coeff (list_add cs (map uminus ds)) i = 0"
    by (rule horner_zero_coeff) (simp add: horner_add horner_uminus assms)
  then show ?thesis by (simp add: coeff_add coeff_uminus)
qed

section \<open>The ring\<close>

typedef ipoly = "{F :: int \<Rightarrow> int. \<exists>cs. F = (\<lambda>x. horner x cs)}" morphisms value_at Of_fun
  by blast

setup_lifting type_definition_ipoly

lift_definition pol :: "int list \<Rightarrow> ipoly" is "\<lambda>cs x. horner x cs"
  by blast

instantiation ipoly :: comm_ring_1
begin

lift_definition zero_ipoly :: ipoly is "\<lambda>_. 0"
  by (rule exI [of _ "[]"]) simp

lift_definition one_ipoly :: ipoly is "\<lambda>_. 1"
  by (rule exI [of _ "[1]"]) simp

lift_definition plus_ipoly :: "ipoly \<Rightarrow> ipoly \<Rightarrow> ipoly" is "\<lambda>F G x. F x + G x"
  by (metis horner_add)

lift_definition uminus_ipoly :: "ipoly \<Rightarrow> ipoly" is "\<lambda>F x. - F x"
  by (metis horner_uminus)

lift_definition minus_ipoly :: "ipoly \<Rightarrow> ipoly \<Rightarrow> ipoly" is "\<lambda>F G x. F x - G x"
  proof -
  fix F G :: "int \<Rightarrow> int"
  assume "\<exists>cs. F = (\<lambda>x. horner x cs)" "\<exists>cs. G = (\<lambda>x. horner x cs)"
  then obtain cs ds where "F = (\<lambda>x. horner x cs)" "G = (\<lambda>x. horner x ds)" by blast
  then have "(\<lambda>x. F x - G x) = (\<lambda>x. horner x (list_add cs (map uminus ds)))"
    by (simp add: horner_add horner_uminus)
  then show "\<exists>cs. (\<lambda>x. F x - G x) = (\<lambda>x. horner x cs)" by blast
qed

lift_definition times_ipoly :: "ipoly \<Rightarrow> ipoly \<Rightarrow> ipoly" is "\<lambda>F G x. F x * G x"
  by (metis horner_mult)

instance
proof
  show "(0::ipoly) \<noteq> 1" by transfer (simp add: fun_eq_iff)
qed (transfer, simp add: fun_eq_iff algebra_simps)+

end

lemma ipoly_eqI: "(\<And>x. value_at a x = value_at b x) \<Longrightarrow> a = b"
  by transfer auto

lemma ipoly_pol: "\<exists>cs. a = pol cs"
  by transfer blast

lemma value_at_simps [simp]:
  "value_at (pol cs) x = horner x cs" "value_at (a + b) x = value_at a x + value_at b x"
  "value_at (a - b) x = value_at a x - value_at b x" "value_at (a * b) x = value_at a x * value_at b x"
  "value_at (- a) x = - value_at a x" "value_at 0 x = 0" "value_at 1 x = 1"
  by (transfer, simp)+

lemma value_at_of_nat [simp]: "value_at (of_nat n) x = int n"
  by (induction n) simp_all

lemma value_at_of_int [simp]: "value_at (of_int n) x = n"
  by (cases n) simp_all

lemma pol_eq_iff: "pol cs = pol ds \<longleftrightarrow> (\<forall>i. coeff cs i = coeff ds i)"
proof
  assume "pol cs = pol ds"
  then have "horner x cs = horner x ds" for x by (metis value_at_simps(1))
  then show "\<forall>i. coeff cs i = coeff ds i" using horner_coeff by blast
next
  assume eq: "\<forall>i. coeff cs i = coeff ds i"
  have "coeff (list_add cs (map uminus ds)) i = 0" for i using eq by (simp add: coeff_add coeff_uminus)
  then have "\<forall>c \<in> set (list_add cs (map uminus ds)). c = 0" by (metis coeff_def in_set_conv_nth)
  then have "horner x (list_add cs (map uminus ds)) = 0" for x by (rule horner_zeros)
  then show "pol cs = pol ds" by (intro ipoly_eqI) (simp add: horner_add horner_uminus)
qed

end
