(* ===== verification/Residue_Fields.thy ===== *)
theory Residue_Fields
  imports Int_Polynomials
begin

text \<open>
  Integer polynomials modulo a prime \<open>p\<close> and a monic polynomial. When the polynomial has no monic
  divisor of lower degree, the classes form a field of \<open>p ^ k\<close> elements, in which
  \<open>x ^ (p ^ n)\<close> is \<open>x\<close> exactly when the degree divides \<open>n\<close>.
\<close>

section \<open>Ideals\<close>

definition var :: ipoly where
  "var = pol [0, 1]"

definition ideal_eq :: "nat \<Rightarrow> ipoly \<Rightarrow> ipoly \<Rightarrow> ipoly \<Rightarrow> ipoly \<Rightarrow> bool" where
  "ideal_eq p A B a b \<longleftrightarrow> (\<exists>u v w. a - b = of_nat p * u + A * v + B * w)"

lemma ideal_eqI: "a - b = of_nat p * u + A * v + B * w \<Longrightarrow> ideal_eq p A B a b"
  by (auto simp: ideal_eq_def)

interpretation ideal: char_congruence "ideal_eq p A B" p for p A B
proof
  fix a b c d :: ipoly
  show "ideal_eq p A B a a" by (rule ideal_eqI [of _ _ _ 0 _ 0 _ 0]) simp
  show "ideal_eq p A B (of_nat p) 0" by (rule ideal_eqI [of _ _ _ 1 _ 0 _ 0]) simp
  assume "ideal_eq p A B a b"
  then obtain u v w where ab: "a - b = of_nat p * u + A * v + B * w" by (auto simp: ideal_eq_def)
  show "ideal_eq p A B b a"
  proof (rule ideal_eqI)
    show "b - a = of_nat p * (- u) + A * (- v) + B * (- w)" using ab by (simp add: algebra_simps)
  qed
  show "ideal_eq p A B a c" if bc: "ideal_eq p A B b c"
  proof -
    obtain u' v' w' where "b - c = of_nat p * u' + A * v' + B * w'" using bc by (auto simp: ideal_eq_def)
    with ab have "a - c = of_nat p * (u + u') + A * (v + v') + B * (w + w')" by (simp add: algebra_simps)
    then show ?thesis by (rule ideal_eqI)
  qed
  assume "ideal_eq p A B c d"
  then obtain u' v' w' where cd: "c - d = of_nat p * u' + A * v' + B * w'" by (auto simp: ideal_eq_def)
  have "a + c - (b + d) = (a - b) + (c - d)" by simp
  then have "a + c - (b + d) = of_nat p * (u + u') + A * (v + v') + B * (w + w')"
    unfolding ab cd by (simp add: algebra_simps)
  then show "ideal_eq p A B (a + c) (b + d)" by (rule ideal_eqI)
  have "a * c - b * d = (a - b) * c + b * (c - d)" by (simp add: algebra_simps)
  then have "a * c - b * d = of_nat p * (u * c + b * u') + A * (v * c + b * v') + B * (w * c + b * w')"
    unfolding ab cd by (simp add: algebra_simps)
  then show "ideal_eq p A B (a * c) (b * d)" by (rule ideal_eqI)
qed

lemma ideal_generators: "ideal_eq p A B A 0" "ideal_eq p A B B 0"
  by (rule ideal_eqI [of _ _ _ 0 _ 1 _ 0], simp) (rule ideal_eqI [of _ _ _ 0 _ 0 _ 1], simp)

lemma ideal_mono:
  assumes "ideal_eq p A B a b" and "ideal_eq p C D A 0" and "ideal_eq p C D B 0"
  shows "ideal_eq p C D a b"
proof -
  obtain u v w where ab: "a - b = of_nat p * u + A * v + B * w" using assms(1) by (auto simp: ideal_eq_def)
  have "ideal_eq p C D (u * of_nat p + v * A + w * B) (0 + 0 + 0)"
    by (intro ideal.eqv_add ideal.eqv_0_mult ideal.eqv_p assms(2,3))
  then have "ideal_eq p C D (a - b) 0" unfolding ab by (simp add: ac_simps)
  then show ?thesis by (simp add: ideal.eqv_diff_0)
qed

abbreviation mod_eq :: "nat \<Rightarrow> nat list \<Rightarrow> ipoly \<Rightarrow> ipoly \<Rightarrow> bool" where
  "mod_eq p m \<equiv> ideal_eq p (val var m) 0"

lemma mod_eq_self: "mod_eq p m (val var m) 0"
  by (rule ideal_generators)

lemma mod_eq_trans: "mod_eq p m a b \<Longrightarrow> mod_eq p m' (val var m) 0 \<Longrightarrow> mod_eq p m' a b"
  using ideal_mono [of p "val var m" 0 a b "val var m'" 0] by simp

section \<open>Lists as polynomials\<close>

lemma pol_Cons: "pol (c # cs) = of_int c + var * pol cs"
  by (rule ipoly_eqI) (simp add: var_def)

lemma pol_Nil [simp]: "pol [] = 0"
  by (rule ipoly_eqI) simp

lemma val_var: "val var a = pol (map int a)"
  by (induction a) (simp_all add: pol_Cons)

lemma pol_mult: "pol cs * pol ds = pol (list_mult cs ds)" and pol_add: "pol cs + pol ds = pol (list_add cs ds)"
  by (rule ipoly_eqI, simp add: horner_mult horner_add)+

lemma pol_of_nat: "of_nat p * pol cs = pol (map ((*) (int p)) cs)"
  by (rule ipoly_eqI) (simp add: horner_scale)

lemma coeff_map_int: "coeff (map int a) i = int (if i < length a then a ! i else 0)"
  by (simp add: coeff_def)

text \<open>A list shorter than a monic one that is a multiple of it is zero, and so is the factor.\<close>

lemma monic_leads:
  assumes "monic p m" and "length a < length m"
    and "\<And>i. int p dvd coeff a i + coeff (list_mult (map int m) w) i"
  shows "int p dvd coeff w i" and "int p dvd coeff a i"
proof -
  define n where "n = length m - 1"
  have n: "length m = Suc n" "coeff (map int m) n = 1" "length a \<le> n"
    using assms(1,2) by (auto simp: n_def monic_def last_conv_nth coeff_map_int)
  have all: "int p dvd coeff w i" for i
  proof (rule ccontr)
    assume i: "\<not> int p dvd coeff w i"
    let ?S = "{i. \<not> int p dvd coeff w i}"
    have "?S \<subseteq> {..<length w}" using coeff_beyond [of w] by (auto simp: not_less [symmetric]) (metis dvd_0_right not_less)
    then have fin: "finite ?S" by (rule finite_subset) simp
    define k where "k = Max ?S"
    have k: "\<not> int p dvd coeff w k" using Max_in [OF fin] i by (auto simp: k_def)
    have above: "int p dvd coeff w j" if "k < j" for j using Max_ge [OF fin, of j] that by (auto simp: k_def)
    have "coeff (list_mult (map int m) w) (n + k) = (\<Sum>i\<le>n + k. coeff (map int m) i * coeff w (n + k - i))"
      by (rule coeff_mult)
    also have "\<dots> = coeff (map int m) n * coeff w k + (\<Sum>i\<in>{..n + k} - {n}. coeff (map int m) i * coeff w (n + k - i))"
      by (subst sum.remove [of _ n]) simp_all
    finally have eq: "coeff a (n + k) + coeff (list_mult (map int m) w) (n + k)
        = coeff w k + (\<Sum>i\<in>{..n + k} - {n}. coeff (map int m) i * coeff w (n + k - i))"
      using n(2,3) by (simp add: coeff_beyond)
    have rest: "int p dvd (\<Sum>i\<in>{..n + k} - {n}. coeff (map int m) i * coeff w (n + k - i))"
    proof (rule dvd_sum)
      fix i
      assume i: "i \<in> {..n + k} - {n}"
      show "int p dvd coeff (map int m) i * coeff w (n + k - i)"
      proof (cases "i < n")
        case True
        then show ?thesis using above [of "n + k - i"] by simp
      next
        case False
        then show ?thesis using i n(1) by (simp add: coeff_beyond)
      qed
    qed
    have "int p dvd coeff w k" using assms(3) [of "n + k"] unfolding eq dvd_add_left_iff [OF rest] .
    then show False using k by blast
  qed
  then show "int p dvd coeff w i" by blast
  have "int p dvd coeff (list_mult (map int m) w) i" unfolding coeff_mult by (intro dvd_sum dvd_mult all)
  then show "int p dvd coeff a i" using assms(3) [of i] by (simp only: dvd_add_left_iff)
qed

lemma mod_eq_lists:
  assumes "mod_eq p m (pol a) 0"
  obtains w where "\<And>i. int p dvd coeff a i + coeff (list_mult (map int m) w) i"
proof -
  obtain u v w where "pol a - 0 = of_nat p * u + val var m * v + 0 * w" using assms by (auto simp: ideal_eq_def)
  then have eq: "pol a = of_nat p * u + val var m * v" by simp
  obtain us vs where uv: "u = pol us" "v = pol vs" using ipoly_pol by blast
  have "pol a = pol (list_add (map ((*) (int p)) us) (list_mult (map int m) vs))"
    by (simp add: eq uv val_var pol_of_nat pol_mult pol_add)
  then have "coeff a i = int p * coeff us i + coeff (list_mult (map int m) vs) i" for i
    by (simp add: pol_eq_iff coeff_add coeff_scale)
  moreover have "coeff (list_mult (map int m) (map uminus vs)) i = - coeff (list_mult (map int m) vs) i" for i
    by (simp add: coeff_mult coeff_uminus sum_negf)
  ultimately show ?thesis by (intro that [of "map uminus vs"]) simp
qed

lemma short_multiple:
  assumes "monic p m" and "length a < length m" and "mod_eq p m (pol a) 0"
  shows "int p dvd coeff a i"
  using mod_eq_lists [OF assms(3)] monic_leads(2) [OF assms(1,2)] by metis

lemma short_residues:
  assumes "monic p m" and "length a < length m" and "mod_eq p m (val var a) 0" and "residues p a" and "trimmed a"
  shows "a = []"
proof (rule ccontr)
  assume "a \<noteq> []"
  then have "0 < last a" "last a < p" using assms(4,5) by (auto simp: trimmed_def residues_def)
  moreover have "int p dvd coeff (map int a) (length a - 1)"
    by (rule short_multiple [OF assms(1)]) (use assms(2,3) in \<open>simp_all add: val_var\<close>)
  then have "int p dvd int (last a)" using \<open>a \<noteq> []\<close> by (simp add: coeff_map_int last_conv_nth)
  ultimately show False by (simp add: nat_dvd_not_less)
qed

lemma monic_one: "monic p m \<Longrightarrow> 1 < length m \<Longrightarrow> 1 < p \<Longrightarrow> \<not> mod_eq p m 1 0"
  using short_residues [of p m "[1]"] by (auto simp: residues_def trimmed_def)

text \<open>Lists of the same length with the same class are the same.\<close>

lemma same_class:
  assumes "monic p m" and "length a = length b" and "length a < length m" and "residues p a" and "residues p b"
    and "mod_eq p m (val var a) (val var b)"
  shows "a = b"
proof (rule nth_equalityI)
  fix i
  assume i: "i < length a"
  have "mod_eq p m (pol (list_add (map int a) (map uminus (map int b)))) 0"
  proof -
    have "pol (list_add (map int a) (map uminus (map int b))) = val var a - val var b"
      by (rule ipoly_eqI) (simp add: val_var horner_add horner_uminus del: map_map)
    then show ?thesis using assms(6) by (simp add: ideal.eqv_diff_0)
  qed
  moreover have "length (list_add cs ds) = max (length cs) (length ds)" for cs ds
    by (induction cs ds rule: list_add.induct) simp_all
  ultimately have "int p dvd coeff (list_add (map int a) (map uminus (map int b))) i"
    using assms(2,3) by (intro short_multiple [OF assms(1)]) simp_all
  then have "int p dvd int (a ! i) - int (b ! i)"
    using i assms(2) by (simp add: coeff_add coeff_uminus coeff_map_int del: map_map)
  moreover have "a ! i < p" "b ! i < p" using i assms(2,4,5) by (auto simp: residues_def)
  then have "\<bar>int (a ! i) - int (b ! i)\<bar> < int p" by linarith
  ultimately show "a ! i = b ! i" by (metis dvd_imp_le_int eq_iff_diff_eq_0 not_less of_nat_eq_iff abs_of_nat)
qed (rule assms(2))

text \<open>So are trimmed lists, whatever their lengths, and monic lists no longer than the modulus.\<close>

lemma trim_pad: "trimmed a \<Longrightarrow> kernel_fp_trim (a @ replicate n 0) = a"
proof -
  have "dropWhile (\<lambda>c. c = 0) (replicate n 0 @ xs) = dropWhile (\<lambda>c. c = 0) xs" for xs :: "nat list"
    by (induction n) simp_all
  then show "trimmed a \<Longrightarrow> ?thesis" using trim_id [of a] by (simp add: kernel_fp_trim_def)
qed

lemma monic_pos: "monic p m \<Longrightarrow> 1 < p"
  using last_in_set [of m] by (auto simp: monic_def residues_def)

lemma same_trimmed:
  assumes "monic p m" and "length a < length m" and "length b < length m" and "residues p a" and "residues p b"
    and "trimmed a" and "trimmed b" and "mod_eq p m (val var a) (val var b)"
  shows "a = b"
proof -
  let ?n = "max (length a) (length b)"
  have "a @ replicate (?n - length a) 0 = b @ replicate (?n - length b) 0"
    by (rule same_class [OF assms(1)])
      (use assms monic_pos [OF assms(1)] in \<open>auto simp: val_append val_replicate_zero residues_def\<close>)
  then show ?thesis using trim_pad assms(6,7) by metis
qed

lemma same_monic:
  assumes "monic p m" and "monic p f" and "length f \<le> length m" and "mod_eq p m (val var f) 0"
  shows "f = m"
proof -
  have "\<not> length f < length m"
    using short_residues [OF assms(1) _ assms(4) monicD(1,2) [OF assms(2)]] monicD(3) [OF assms(2)] by blast
  then have len: "length f = length m" using assms(3) by simp
  obtain f' m' where split: "f = f' @ [1]" "m = m' @ [1]"
    using assms(1,2) by (metis append_butlast_last_id monic_def)
  have "val var f - val var m = val var f' - val var m'" using len by (simp add: split val_append)
  moreover have "mod_eq p m (val var f - val var m) (0 - 0)" by (intro ideal.eqv_diff assms(4) mod_eq_self)
  ultimately have "mod_eq p m (val var f') (val var m')" by (simp add: ideal.eqv_diff_0)
  then have "f' = m'"
    using assms(1,2) len by (intro same_class [OF assms(1)]) (auto simp: monic_def residues_def split)
  then show ?thesis by (simp add: split)
qed

section \<open>Classes\<close>

context char_congruence
begin

lemma val_cong: "eqv x y \<Longrightarrow> eqv (val x a) (val y a)"
  by (induction a) (auto intro: eqv_add eqv_mult)

lemma frobenius_val:
  assumes "is_prime p"
  shows "eqv (val x a ^ p) (val (x ^ p) a)"
proof (induction a)
  case Nil
  then show ?case using is_primeD(2) [OF assms] by (simp add: zero_power)
next
  case (Cons c a)
  have "eqv (val x (c # a) ^ p) (of_nat c ^ p + (x * val x a) ^ p)" by (simp add: frobenius_add [OF assms])
  also have "eqv \<dots> (of_nat c + x ^ p * val (x ^ p) a)"
    unfolding power_mult_distrib by (intro eqv_add eqv_mult frobenius_of_nat [OF assms] eqv_refl Cons)
  finally show ?case by simp
qed

lemma frobenius_val_power: "is_prime p \<Longrightarrow> eqv (val x a ^ p ^ n) (val (x ^ p ^ n) a)"
proof (induction n)
  case (Suc n)
  have "eqv ((val x a ^ p ^ n) ^ p) (val (x ^ p ^ n) a ^ p)" by (intro eqv_power Suc)
  also have "eqv \<dots> (val ((x ^ p ^ n) ^ p) a)" by (rule frobenius_val [OF Suc.prems])
  finally show ?case by (simp add: power_mult [symmetric] mult.commute)
qed simp

end

text \<open>The canonical residues of a list of integers.\<close>

definition reduced :: "int list \<Rightarrow> nat \<Rightarrow> nat list" where
  "reduced cs p = kernel_fp_trim (map (\<lambda>c. nat (c mod int p)) cs)"

lemma reduced:
  assumes "0 < p"
  shows "residues p (reduced cs p)" and "trimmed (reduced cs p)"
    and "ideal_eq p A B (pol cs) (val var (reduced cs p))"
proof -
  have "nat (c mod int p) < p" for c using assms pos_mod_bound [of "int p" c] by linarith
  then show "residues p (reduced cs p)" unfolding reduced_def by (intro trim_residues) (auto simp: residues_def)
  show "trimmed (reduced cs p)" by (simp add: reduced_def)
  have "ideal_eq p A B (pol cs) (val var (map (\<lambda>c. nat (c mod int p)) cs))"
  proof (induction cs)
    case (Cons c cs)
    have "int p dvd c - int (nat (c mod int p))" using assms by simp
    then have "ideal_eq p A B (of_int c) (of_int (int (nat (c mod int p))))" by (rule ideal.eqv_of_int)
    then have "ideal_eq p A B (of_int c) (of_nat (nat (c mod int p)))" by (simp only: of_int_of_nat_eq)
    then show ?case using Cons by (simp add: pol_Cons ideal.eqv_add ideal.eqv_mult)
  qed simp
  then show "ideal_eq p A B (pol cs) (val var (reduced cs p))" by (simp add: reduced_def)
qed

lemma class_list:
  assumes "monic p f" and "0 < p"
  obtains a where "residues p a" "trimmed a" "length a < length f" "mod_eq p f A (val var a)"
proof -
  obtain cs where A: "A = pol cs" using ipoly_pol by blast
  obtain r where r: "residues p r" "trimmed r" "length r < length f"
      "mod_eq p f (val var f) 0 \<longrightarrow> mod_eq p f (val var r) (val var (reduced cs p))"
    using ideal.kernel_fp_rem_monic [OF assms(1) reduced(1) [OF assms(2)] assms(2)] by blast
  then have "mod_eq p f (val var (reduced cs p)) (val var r)" using mod_eq_self ideal.eqv_sym by blast
  with reduced(3) [OF assms(2)] have "mod_eq p f A (val var r)" unfolding A by (rule ideal.eqv_trans)
  then show ?thesis using r by (intro that)
qed

definition reps :: "nat \<Rightarrow> nat \<Rightarrow> ipoly set" where
  "reps p k = val var ` {a. set a \<subseteq> {..<p} \<and> length a = k}"

lemma reps_classes:
  assumes "monic p f" and "0 < p" and "length f = Suc k"
  shows "\<exists>!s. s \<in> reps p k \<and> mod_eq p f A s" and "finite (reps p k)" and "card (reps p k) = p ^ k"
proof -
  let ?L = "{a. set a \<subseteq> {..<p} \<and> length a = k}"
  have same: "a = b" if "a \<in> ?L" "b \<in> ?L" "mod_eq p f (val var a) (val var b)" for a b
    by (rule same_class [OF assms(1) _ _ _ _ that(3)]) (use that assms(3) in \<open>auto simp: residues_def\<close>)
  have "inj_on (val var) ?L" by (rule inj_onI, rule same) simp_all
  then show "finite (reps p k)" "card (reps p k) = p ^ k"
    by (simp_all add: reps_def finite_lists_length_eq card_image card_lists_length_eq)
  obtain a where a: "residues p a" "length a < length f" "mod_eq p f A (val var a)"
    by (rule class_list [OF assms(1,2)])
  define b where "b = a @ replicate (k - length a) 0"
  have b: "b \<in> ?L" "mod_eq p f A (val var b)"
    using a assms(2,3) by (auto simp: b_def residues_def val_append val_replicate_zero)
  show "\<exists>!s. s \<in> reps p k \<and> mod_eq p f A s"
  proof (rule ex1I [of _ "val var b"])
    fix s
    assume "s \<in> reps p k \<and> mod_eq p f A s"
    then obtain c where c: "c \<in> ?L" "s = val var c" "mod_eq p f A (val var c)" by (auto simp: reps_def)
    then show "s = val var b" using same [OF c(1) b(1)] b(2) ideal.eqv_sym ideal.eqv_trans by blast
  qed (use b in \<open>simp add: reps_def\<close>)
qed

section \<open>Fields\<close>

definition monic_irreducible :: "nat \<Rightarrow> nat list \<Rightarrow> bool" where
  "monic_irreducible p f \<longleftrightarrow> monic p f \<and> 1 < length f
     \<and> (\<forall>c. monic p c \<longrightarrow> 1 < length c \<longrightarrow> length c < length f \<longrightarrow> \<not> mod_eq p c (val var f) 0)"

lemma gcd_ideal:
  assumes "is_prime p" and "residues p a" and "residues p b" and "trimmed b" and "b \<noteq> []"
  shows "\<exists>g. kernel_fp_gcd a b p = Some g \<and> monic p g
    \<and> (\<forall>A B. ideal_eq p A B (val var g) 0 \<longleftrightarrow> ideal_eq p A B (val var a) 0 \<and> ideal_eq p A B (val var b) 0)"
proof -
  have ne: "kernel_fp_trim a \<noteq> [] \<or> kernel_fp_trim b \<noteq> []" using assms(4,5) by (simp add: trim_id)
  obtain g where g: "kernel_fp_gcd a b p = Some g" "monic p g"
    using ideal.kernel_fp_gcd [OF assms(1-3) ne] by blast
  have "ideal_eq p A B (val var g) 0 \<longleftrightarrow> ideal_eq p A B (val var a) 0 \<and> ideal_eq p A B (val var b) 0" for A B
    using ideal.kernel_fp_gcd [OF assms(1-3) ne, of A B] g(1) by auto
  then show ?thesis using g by blast
qed

lemma monic_short: "monic p g \<Longrightarrow> \<not> 1 < length g \<Longrightarrow> g = [1]"
  by (cases g) (auto simp: monic_def)

lemma field_units:
  assumes "is_prime p" and "monic_irreducible p f" and "\<not> mod_eq p f A 0"
  shows "\<exists>B. mod_eq p f (A * B) 1"
proof -
  have p: "0 < p" using is_primeD(2) [OF assms(1)] by simp
  have f: "monic p f" using assms(2) by (simp add: monic_irreducible_def)
  obtain a where a: "residues p a" "trimmed a" "length a < length f" "mod_eq p f A (val var a)"
    by (rule class_list [OF f p])
  have "a \<noteq> []" using assms(3) a(4) by auto
  obtain g where g: "kernel_fp_gcd f a p = Some g" "monic p g"
      "\<forall>A B. ideal_eq p A B (val var g) 0 \<longleftrightarrow> ideal_eq p A B (val var f) 0 \<and> ideal_eq p A B (val var a) 0"
    using gcd_ideal [OF assms(1) monicD(1) [OF f] a(1,2) \<open>a \<noteq> []\<close>] by blast
  have divides: "mod_eq p g (val var f) 0" "mod_eq p g (val var a) 0" using g(3) mod_eq_self by blast+
  have "\<not> 1 < length g"
  proof
    assume "1 < length g"
    moreover have "\<not> length a < length g"
      using short_residues [OF g(2) _ divides(2) a(1,2)] \<open>a \<noteq> []\<close> by blast
    ultimately show False using divides(1) g(2) a(3) assms(2) by (auto simp: monic_irreducible_def)
  qed
  then have "g = [1]" by (rule monic_short [OF g(2)])
  moreover have "ideal_eq p (val var f) (val var a) (val var g) 0" using g(3) ideal_generators by blast
  ultimately obtain u v w where one: "1 = of_nat p * u + val var f * v + val var a * w"
    by (auto simp: ideal_eq_def)
  have "mod_eq p f (val var a * w) 1"
  proof (rule ideal_eqI)
    show "val var a * w - 1 = of_nat p * (- u) + val var f * (- v) + 0 * 0" by (subst one) simp
  qed
  then show ?thesis using a(4) ideal.eqv_mult [OF a(4) ideal.eqv_refl [of p "val var f" 0 w]] ideal.eqv_trans by blast
qed

lemma field_fermat:
  assumes prime: "is_prime p" and irr: "monic_irreducible p f" and len: "length f = Suc k"
  shows "mod_eq p f (A ^ p ^ k) A"
proof -
  have p: "0 < p" "1 < p" using is_primeD(2) [OF prime] by simp_all
  have f: "monic p f" "1 < length f" using irr by (simp_all add: monic_irreducible_def)
  note S = reps_classes [OF f(1) p(1) len]
  have "mod_eq p f (A ^ card (reps p k)) A"
    by (rule ideal.class_fermat [OF S(2) S(1) field_units [OF prime irr] monic_one [OF f p(2)]])
  then show ?thesis unfolding S(3) .
qed

lemma field_degree:
  assumes prime: "is_prime p" and irr: "monic_irreducible p f" and len: "length f = Suc k"
    and fixed: "mod_eq p f (var ^ p ^ m) var" and "0 < m"
  shows "k \<le> m"
proof -
  have p: "0 < p" "1 < p" using is_primeD(2) [OF prime] by simp_all
  have f: "monic p f" "1 < length f" using irr by (simp_all add: monic_irreducible_def)
  note S = reps_classes [OF f(1) p(1) len]
  have "1 < p ^ m" using p(2) \<open>0 < m\<close> by (rule one_less_power)
  then have "monic_fun (p ^ m) (\<lambda>y::ipoly. y ^ (p ^ m) + (- 1) * y ^ 1)"
    by (intro monic_fun_add [OF monic_fun_power monic_fun_power])
  then have "card (reps p k) \<le> p ^ m"
  proof (rule ideal.monic_fun_roots [OF _ S(2)])
    fix y
    assume "y \<in> reps p k"
    then obtain a where y: "y = val var a" by (auto simp: reps_def)
    have "mod_eq p f (y ^ p ^ m) (val (var ^ p ^ m) a)" unfolding y by (rule ideal.frobenius_val_power [OF prime])
    also have "mod_eq p f \<dots> y" unfolding y by (rule ideal.val_cong [OF fixed])
    finally show "mod_eq p f (y ^ p ^ m + (- 1) * y ^ 1) 0" by (simp add: ideal.eqv_diff_0)
  next
    fix y z
    assume "y \<in> reps p k" "z \<in> reps p k" "mod_eq p f y z"
    then show "y = z" using S(1) [of y] ideal.eqv_refl by blast
  qed (use field_units [OF prime irr] monic_one [OF f p(2)] in blast)+
  then show ?thesis unfolding S(3) using p(2) power_le_imp_le_exp by blast
qed

lemma field_order:
  assumes prime: "is_prime p" and irr: "monic_irreducible p f" and len: "length f = Suc k"
  shows "mod_eq p f (var ^ p ^ n) var \<longleftrightarrow> k dvd n"
proof -
  have k: "0 < k" using irr len by (simp add: monic_irreducible_def)
  have loop: "mod_eq p f (var ^ p ^ (k * j)) var" for j
  proof (induction j)
    case (Suc j)
    have "var ^ p ^ (k * Suc j) = (var ^ p ^ (k * j)) ^ p ^ k" unfolding power_mult [symmetric] power_add [symmetric] by (simp add: add.commute)
    also have "mod_eq p f \<dots> (var ^ p ^ k)" by (intro ideal.eqv_power Suc)
    also have "mod_eq p f \<dots> var" by (rule field_fermat [OF prime irr len])
    finally show ?case .
  qed simp
  have "var ^ p ^ n = (var ^ p ^ (k * (n div k))) ^ p ^ (n mod k)"
    by (simp only: power_mult [symmetric] power_add [symmetric] mult_div_mod_eq)
  also have "mod_eq p f \<dots> (var ^ p ^ (n mod k))" by (intro ideal.eqv_power loop)
  finally have reduce: "mod_eq p f (var ^ p ^ n) (var ^ p ^ (n mod k))" .
  show ?thesis
  proof
    assume "mod_eq p f (var ^ p ^ n) var"
    then have fixed: "mod_eq p f (var ^ p ^ (n mod k)) var" using reduce ideal.eqv_sym ideal.eqv_trans by blast
    show "k dvd n"
    proof (rule ccontr)
      assume "\<not> k dvd n"
      then have "0 < n mod k" by (simp add: dvd_eq_mod_eq_0)
      then have "k \<le> n mod k" by (rule field_degree [OF prime irr len fixed])
      then show False using mod_less_divisor [OF k, of n] by simp
    qed
  next
    assume "k dvd n"
    then show "mod_eq p f (var ^ p ^ n) var" using reduce by (simp add: dvd_eq_mod_eq_0)
  qed
qed

end
