(* ===== verification/Rabin_Sound.thy ===== *)
theory Rabin_Sound
  imports Residue_Fields
begin

text \<open>
  The modular checker of \<open>kernel.rs\<close> decides irreducibility: on every input it returns, and it
  returns true exactly for the polynomials with a nonzero leading coefficient that are irreducible
  modulo a prime of at most 32 bits.
\<close>

section \<open>The Frobenius powers\<close>

definition frobenius_ok :: "nat \<Rightarrow> nat list \<Rightarrow> nat list list \<Rightarrow> bool" where
  "frobenius_ok p f ps \<longleftrightarrow>
     (\<forall>i < length ps. residues p (ps ! i) \<and> (0 < i \<longrightarrow> trimmed (ps ! i) \<and> length (ps ! i) < length f)
        \<and> (\<forall>c. mod_eq p c (val var f) 0 \<longrightarrow> mod_eq p c (val var (ps ! i)) (var ^ p ^ i)))"

lemma frobenius_powers:
  assumes "is_prime p" and "monic p f" and "frobenius_ok p f ps" and "ps \<noteq> []"
  shows "\<exists>ps'. frobenius_powers ps k f p = Some ps' \<and> length ps' = length ps + k \<and> frobenius_ok p f ps'"
  using assms(3,4)
proof (induction k arbitrary: ps)
  case (Suc k)
  have p: "1 < p" "0 < p" using is_primeD(2) [OF assms(1)] by simp_all
  define n where "n = length ps - 1"
  have n: "last ps = ps ! n" "n < length ps" "length ps = Suc n" using Suc.prems(2) by (simp_all add: n_def last_conv_nth)
  note last = Suc.prems(1) [unfolded frobenius_ok_def, rule_format, OF n(2), folded n(1)]
  obtain q where q: "kernel_fp_pow_mod (last ps) p f p = Some q" "residues p q" "trimmed q" "length q < length f"
    using ideal.kernel_fp_pow_mod [OF assms(2) conjunct1 [OF last] p(1), of p] p(2) by blast
  have "mod_eq p c (val var q) (var ^ p ^ Suc n)" if root: "mod_eq p c (val var f) 0" for c
  proof -
    have "mod_eq p c (val var q) (val var (last ps) ^ p)"
      using ideal.kernel_fp_pow_mod [OF assms(2) conjunct1 [OF last] p(1), of p] q(1) root by auto
    also have "mod_eq p c \<dots> ((var ^ p ^ n) ^ p)" using last root by (intro ideal.eqv_power) blast
    also have "(var ^ p ^ n) ^ p = var ^ p ^ Suc n" by (simp only: power_mult [symmetric] power_Suc2)
    finally show ?thesis .
  qed
  then have "frobenius_ok p f (ps @ [q])"
    using Suc.prems(1) q(2-4) n(3) by (auto simp: frobenius_ok_def nth_append less_Suc_eq)
  then show ?case using Suc.IH [of "ps @ [q]"] q(1) by auto
qed simp

section \<open>Common factors\<close>

text \<open>A polynomial that divides \<open>f\<close> and \<open>x ^ (p ^ k) - x\<close>.\<close>

definition has_common :: "nat \<Rightarrow> nat list \<Rightarrow> nat \<Rightarrow> bool" where
  "has_common p f k \<longleftrightarrow>
     (\<exists>c. monic p c \<and> 1 < length c \<and> mod_eq p c (val var f) 0 \<and> mod_eq p c (var ^ p ^ k) var)"

lemma gcd_trivial:
  assumes "is_prime p" and "residues p a" and "monic p f"
  shows "\<exists>g. kernel_fp_gcd a f p = Some g
    \<and> (length g \<le> 1 \<longleftrightarrow> \<not> (\<exists>c. monic p c \<and> 1 < length c \<and> mod_eq p c (val var f) 0 \<and> mod_eq p c (val var a) 0))"
proof -
  have p: "1 < p" using is_primeD(2) [OF assms(1)] by simp
  obtain g where g: "kernel_fp_gcd a f p = Some g" "monic p g"
      "\<forall>A B. ideal_eq p A B (val var g) 0 \<longleftrightarrow> ideal_eq p A B (val var a) 0 \<and> ideal_eq p A B (val var f) 0"
    using gcd_ideal [OF assms(1,2) monicD [OF assms(3)]] by blast
  have "\<not> length g \<le> 1" if "monic p c" "1 < length c" "mod_eq p c (val var f) 0" "mod_eq p c (val var a) 0" for c
  proof
    assume "length g \<le> 1"
    then have "g = [1]" using monic_short [OF g(2)] by simp
    moreover have "mod_eq p c (val var g) 0" using g(3) that(3,4) by blast
    ultimately show False using monic_one [OF that(1,2) p] by simp
  qed
  moreover have "mod_eq p g (val var a) 0" "mod_eq p g (val var f) 0" using g(3) mod_eq_self by blast+
  ultimately have "length g \<le> 1 \<longleftrightarrow> \<not> (\<exists>c. monic p c \<and> 1 < length c \<and> mod_eq p c (val var f) 0 \<and> mod_eq p c (val var a) 0)"
    using g(2) by (meson not_less)
  then show ?thesis using g(1) by blast
qed

lemma coprime_power:
  assumes "is_prime p" and "monic p f" and "frobenius_ok p f powers" and "k < length powers"
  shows "coprime_power powers k f p = Some (\<not> has_common p f k)"
proof -
  have p: "0 < p" using is_primeD(2) [OF assms(1)] by simp
  let ?d = "kernel_fp_sub (powers ! k) [0, 1] p"
  have "residues p ?d" by (rule ideal.kernel_fp_sub(2) [OF p])
  from gcd_trivial [OF assms(1) this assms(2)] obtain g where g: "kernel_fp_gcd ?d f p = Some g"
      "length g \<le> 1 \<longleftrightarrow> \<not> (\<exists>c. monic p c \<and> 1 < length c \<and> mod_eq p c (val var f) 0 \<and> mod_eq p c (val var ?d) 0)" by blast
  have "mod_eq p c (val var ?d) 0 \<longleftrightarrow> mod_eq p c (var ^ p ^ k) var" if root: "mod_eq p c (val var f) 0" for c
  proof -
    have "mod_eq p c (val var ?d) (val var (powers ! k) - val var [0, 1])" by (rule ideal.kernel_fp_sub(1) [OF p])
    also have "mod_eq p c \<dots> (var ^ p ^ k - var)"
      using assms(3,4) root by (intro ideal.eqv_diff) (simp_all add: frobenius_ok_def)
    finally have "mod_eq p c (val var ?d) (var ^ p ^ k - var)" .
    then have "mod_eq p c (val var ?d) 0 \<longleftrightarrow> mod_eq p c (var ^ p ^ k - var) 0"
      using ideal.eqv_sym ideal.eqv_trans by blast
    then show ?thesis by (simp only: ideal.eqv_diff_0)
  qed
  then show ?thesis using g by (auto simp: coprime_power_def has_common_def)
qed

section \<open>The loop over the prime factors\<close>

lemma strip_factor_primes:
  assumes "is_prime q" and "0 < n"
  shows "0 < strip_factor n q \<and> strip_factor n q dvd n
    \<and> (\<forall>r. is_prime r \<longrightarrow> (r dvd strip_factor n q \<longleftrightarrow> r dvd n \<and> r \<noteq> q))"
  using assms
proof (induction n q rule: strip_factor.induct)
  case (1 n q)
  have q: "2 \<le> q" by (rule is_primeD(2) [OF "1.prems"(1)])
  show ?case
  proof (cases "n mod q = 0")
    case False
    then show ?thesis using "1.prems" by (auto simp: strip_factor.simps [of n q] dvd_eq_mod_eq_0)
  next
    case True
    define m where "m = n div q"
    have n: "n = q * m" using True by (auto simp: m_def)
    have m: "0 < m" using "1.prems"(2) n by simp
    have run: "strip_factor n q = strip_factor m q" using True "1.prems"(2) q by (simp add: strip_factor.simps [of n q] m_def)
    have IH: "0 < strip_factor m q" "strip_factor m q dvd m"
        "\<And>r. is_prime r \<Longrightarrow> r dvd strip_factor m q \<longleftrightarrow> r dvd m \<and> r \<noteq> q"
      using "1.IH" True "1.prems" q m by (simp_all add: m_def [symmetric])
    have "r dvd n \<longleftrightarrow> r dvd m" if "is_prime r" "r \<noteq> q" for r
      using prime_dvd_product [OF that(1), of q m] is_primeD(1) [OF "1.prems"(1), of r] is_primeD(2) [OF that(1)] that(2)
      unfolding n by auto
    then show ?thesis unfolding run using IH n by auto
  qed
qed

lemma next_candidate:
  assumes "is_prime r" and "q \<le> r" and "r \<noteq> q" and "q = 2 \<or> odd q" and "2 \<le> q"
  shows "q + (if q = 2 then 1 else 2) \<le> r"
proof (cases "q = 2")
  case False
  have "r \<noteq> q + 1"
  proof
    assume "r = q + 1"
    then have "2 dvd r" using False assms(4) by simp
    then show False using is_primeD(1) [OF assms(1), of 2] \<open>r = q + 1\<close> assms(5) False by auto
  qed
  then show ?thesis using assms(2,3) False by simp
qed (use assms in simp)

lemma rabin_loop_primes:
  assumes "is_prime p" and "monic p f" and "frobenius_ok p f powers" and "length powers = Suc d"
    and "2 \<le> q" and "0 < rem_d" and "rem_d dvd d" and "q = 2 \<or> odd q"
    and "\<And>r. is_prime r \<Longrightarrow> r dvd rem_d \<Longrightarrow> q \<le> r"
  shows "rabin_loop rem_d q powers d f p
    = Some (\<forall>r. is_prime r \<and> r dvd rem_d \<longrightarrow> \<not> has_common p f (d div r))"
  using assms
proof (induction rem_d q powers d f p rule: rabin_loop.induct)
  case (1 rem_d q powers d f p)
  note prems = "1.prems"
  have test: "coprime_power powers (d div k) f p = Some (\<not> has_common p f (d div k))" for k
    by (rule coprime_power [OF prems(1-3)]) (simp add: prems(4) le_imp_less_Suc)
  define next_q where "next_q = q + (if q = 2 then 1 else 2)"
  have next_q: "2 \<le> next_q" "next_q = 2 \<or> odd next_q" using prems(5,8) by (auto simp: next_q_def)
  have later: "next_q \<le> r" if "is_prime r" "r dvd rem_d" "r \<noteq> q" for r
    unfolding next_q_def by (rule next_candidate [OF that(1) prems(9) [OF that(1,2)] that(3) prems(8,5)])
  show ?case
  proof (cases "q * q \<le> rem_d")
    case True
    then have going: "0 < q \<and> q * q \<le> rem_d" using prems(5) by simp
    show ?thesis
    proof (cases "rem_d mod q = 0")
      case divides: True
      obtain r where r: "is_prime r" "r dvd q" using prime_divisor [OF prems(5)] by blast
      have "r dvd rem_d" using r(2) divides by (auto intro: dvd_trans)
      then have "q \<le> r" using prems(9) r(1) by blast
      moreover have "r \<le> q" using r(2) prems(5) by (simp add: dvd_imp_le)
      ultimately have q: "is_prime q" using r(1) by simp
      let ?s = "strip_factor rem_d q"
      note s = strip_factor_primes [OF q prems(6)]
      have split: "(\<forall>r. is_prime r \<and> r dvd rem_d \<longrightarrow> \<not> has_common p f (d div r))
          \<longleftrightarrow> \<not> has_common p f (d div q) \<and> (\<forall>r. is_prime r \<and> r dvd ?s \<longrightarrow> \<not> has_common p f (d div r))"
        using s q divides by auto
      show ?thesis
      proof (cases "has_common p f (d div q)")
        case True
        then have "rabin_loop rem_d q powers d f p = Some False"
          using going divides test [of q] by (subst rabin_loop.simps) (simp add: Let_def)
        then show ?thesis unfolding split using True by simp
      next
        case False
        have "rabin_loop ?s next_q powers d f p = Some (\<forall>r. is_prime r \<and> r dvd ?s \<longrightarrow> \<not> has_common p f (d div r))"
        proof (rule "1.IH"(1) [OF going next_q_def divides _ _ prems(1-4) next_q(1) _ _ next_q(2)])
          show "coprime_power powers (d div q) f p = Some True" using test [of q] False by simp
          show "0 < ?s" "?s dvd d" using s prems(7) dvd_trans by blast+
          show "next_q \<le> r" if "is_prime r" "r dvd ?s" for r using s later that by blast
        qed simp
        then show ?thesis unfolding split
          using going divides test [of q] False by (subst rabin_loop.simps) (simp add: Let_def next_q_def)
      qed
    next
      case skips: False
      have "rabin_loop rem_d next_q powers d f p = Some (\<forall>r. is_prime r \<and> r dvd rem_d \<longrightarrow> \<not> has_common p f (d div r))"
      proof (rule "1.IH"(2) [OF going next_q_def skips prems(1-4) next_q(1) prems(6,7) next_q(2)])
        show "next_q \<le> r" if "is_prime r" "r dvd rem_d" for r using later [OF that] that skips by (cases "r = q") (auto simp: dvd_eq_mod_eq_0)
      qed
      then show ?thesis using going skips by (subst rabin_loop.simps) (simp add: Let_def next_q_def)
    qed
  next
    case False
    show ?thesis
    proof (cases "1 < rem_d")
      case True
      have "is_prime rem_d"
      proof (rule ccontr)
        assume "\<not> is_prime rem_d"
        then obtain e where e: "2 \<le> e" "e * e \<le> rem_d" "e dvd rem_d" using divisor_square [of rem_d] True by auto
        obtain r where r: "is_prime r" "r dvd e" using prime_divisor [OF e(1)] by blast
        have "q \<le> r" using prems(9) r e(3) dvd_trans by blast
        moreover have "r \<le> e" using r(2) e(1) by (simp add: dvd_imp_le)
        ultimately have "q * q \<le> e * e" by (simp add: mult_le_mono)
        then show False using e(2) False by simp
      qed
      then have "(\<forall>r. is_prime r \<and> r dvd rem_d \<longrightarrow> \<not> has_common p f (d div r)) \<longleftrightarrow> \<not> has_common p f (d div rem_d)"
        using is_primeD by (metis One_nat_def dvd_refl not_less_eq_eq numeral_2_eq_2 order_refl)
      then show ?thesis using True False test [of rem_d] by (subst rabin_loop.simps) simp
    next
      case False
      then have "rem_d = 1" using prems(6) by simp
      then show ?thesis using \<open>\<not> q * q \<le> rem_d\<close> by (subst rabin_loop.simps) (auto dest: is_primeD(2))
    qed
  qed
qed

section \<open>The derivative\<close>

lemma kernel_fp_derivative:
  assumes "0 < p" and "1 < length a"
  shows "residues p (kernel_fp_derivative a p)" and "trimmed (kernel_fp_derivative a p)"
    and "length (kernel_fp_derivative a p) < length a"
    and "kernel_fp_derivative a p = [] \<Longrightarrow> 0 < i \<Longrightarrow> i < length a \<Longrightarrow> p dvd i * a ! i"
proof -
  let ?D = "map (\<lambda>i. i * a ! i mod p) [1..<length a]"
  have D: "kernel_fp_derivative a p = kernel_fp_trim ?D" using assms(2) by (simp add: kernel_fp_derivative_def)
  show "residues p (kernel_fp_derivative a p)" unfolding D
    by (rule trim_residues) (use assms(1) in \<open>auto simp: residues_def\<close>)
  show "trimmed (kernel_fp_derivative a p)" by (simp add: D)
  show "length (kernel_fp_derivative a p) < length a" using trim_length [of ?D] assms(2) by (simp add: D)
  assume none: "kernel_fp_derivative a p = []" and i: "0 < i" "i < length a"
  then have "\<forall>c \<in> set ?D. c = 0" by (simp add: D kernel_fp_trim_def)
  then show "p dvd i * a ! i" using i by (auto simp: dvd_eq_mod_eq_0)
qed

text \<open>A polynomial with derivative zero is a \<open>p\<close>-th power.\<close>

lemma no_derivative:
  assumes "is_prime p" and "monic_irreducible p f"
  shows "kernel_fp_derivative f p \<noteq> []"
proof
  assume none: "kernel_fp_derivative f p = []"
  have p: "0 < p" "2 \<le> p" using is_primeD(2) [OF assms(1)] by simp_all
  have f: "monic p f" "1 < length f" using assms(2) by (simp_all add: monic_irreducible_def)
  define d where "d = length f - 1"
  have d: "length f = Suc d" "0 < d" "f ! d = 1" using f by (auto simp: d_def monic_def last_conv_nth)
  have zero: "f ! i = 0" if "i < length f" "\<not> p dvd i" for i
  proof -
    have "0 < i" using that(2) by (cases i) simp_all
    then have "p dvd i * f ! i" using kernel_fp_derivative(4) [OF p(1) f(2) none] that(1) by blast
    then have "p dvd f ! i" using prime_dvd_product [OF assms(1)] that(2) by blast
    moreover have "f ! i < p" using f(1) that(1) by (simp add: monic_def residues_def)
    ultimately show ?thesis by (meson nat_dvd_not_less not_gr0)
  qed
  have "p dvd d" using zero [of d] d by auto
  then obtain n where n: "d = p * n" by blast
  define h where "h = map (\<lambda>j. f ! (p * j)) [0..<Suc n]"
  have "val var f = (\<Sum>i\<in>(\<lambda>j. p * j) ` {..<Suc n}. of_nat (f ! i) * var ^ i)"
    unfolding val_sum
  proof (rule sum.mono_neutral_right)
    show "\<forall>i\<in>{..<length f} - (\<lambda>j. p * j) ` {..<Suc n}. of_nat (f ! i) * var ^ i = 0"
    proof
      fix i
      assume i: "i \<in> {..<length f} - (\<lambda>j. p * j) ` {..<Suc n}"
      have "\<not> p dvd i"
      proof
        assume "p dvd i"
        then obtain j where "i = p * j" by blast
        then have "j < Suc n" using i d(1) n p(1) by (simp add: less_Suc_eq_le)
        then show False using i \<open>i = p * j\<close> by blast
      qed
      then show "of_nat (f ! i) * var ^ i = 0" using zero i by simp
    qed
  qed (use d(1) n in \<open>auto simp: less_Suc_eq_le\<close>)
  also have "\<dots> = (\<Sum>j<Suc n. of_nat (f ! (p * j)) * var ^ (p * j))"
    by (rule sum.reindex_cong [of "\<lambda>j. p * j"]) (use p(1) in \<open>auto simp: inj_on_def\<close>)
  also have "\<dots> = val (var ^ p) h"
    unfolding val_sum h_def by (intro sum.cong) (simp_all add: power_mult del: upt_Suc)
  finally have "mod_eq p f (val (var ^ p) h) 0" using mod_eq_self [of p f] by (simp only:)
  with ideal.frobenius_val [OF assms(1)] have power: "mod_eq p f (val var h ^ p) 0" by (rule ideal.eqv_trans)
  have "mod_eq p f (val var h) 0"
  proof (rule ccontr)
    assume "\<not> mod_eq p f (val var h) 0"
    then obtain B where "mod_eq p f (val var h * B) 1" using field_units [OF assms] by blast
    then have unit: "mod_eq p f ((val var h * B) ^ p) (1 ^ p)" by (rule ideal.eqv_power)
    have "(val var h * B) ^ p = B ^ p * val var h ^ p" by (simp add: power_mult_distrib)
    then have "mod_eq p f ((val var h * B) ^ p) 0" using ideal.eqv_0_mult [OF power] by (simp only:)
    with ideal.eqv_sym [OF unit] have "mod_eq p f 1 0" unfolding power_one by (rule ideal.eqv_trans)
    then show False using monic_one [OF f] p by simp
  qed
  then have "int p dvd coeff (map int h) n"
  proof (intro short_multiple [OF f(1)])
    have "n < p * n" using d(2) n p(2) by simp
    then show "length (map int h) < length f" by (simp add: h_def d(1) n)
  qed (simp add: val_var)
  moreover have "coeff (map int h) n = 1" using d(3) by (simp add: h_def coeff_map_int n del: map_map upt_Suc)
  ultimately have "int p dvd 1" by simp
  then show False using p by simp
qed

section \<open>The body of the checker\<close>

text \<open>What follows once the checker has passed the guards and has a monic divisor.\<close>

definition rabin_body :: "nat list \<Rightarrow> nat \<Rightarrow> bool option" where
  "rabin_body f p =
     Option.bind (kernel_fp_gcd f (kernel_fp_derivative f p) p) (\<lambda>g.
       if length g > 1 then Some False
       else
         let d = length f - 1
         in Option.bind (frobenius_powers [[0, 1]] d f p) (\<lambda>powers.
            Option.bind (kernel_fp_rem_monic [0, 1] f p) (\<lambda>x_mod_f.
            if powers ! d \<noteq> x_mod_f then Some False
            else rabin_loop d 2 powers d f p)))"

text \<open>A reducible polynomial has an irreducible monic divisor of lower degree.\<close>

lemma irreducible_divisor:
  assumes "monic p f" and "1 < length f" and "\<not> monic_irreducible p f"
  obtains c where "monic_irreducible p c" "length c < length f" "mod_eq p c (val var f) 0"
proof -
  let ?P = "\<lambda>c. monic p c \<and> 1 < length c \<and> mod_eq p c (val var f) 0"
  have "?P f" using assms(1,2) mod_eq_self by blast
  from ex_has_least_nat [of ?P f length, OF this] obtain c where c: "?P c" "\<And>c'. ?P c' \<Longrightarrow> length c \<le> length c'"
    by blast
  have irr: "monic_irreducible p c"
    unfolding monic_irreducible_def using c mod_eq_trans by (meson not_less)
  obtain c' where "?P c'" "length c' < length f" using assms by (auto simp: monic_irreducible_def)
  then have "length c < length f" using c(2) by (meson le_less_trans)
  then show ?thesis using irr c(1) by (intro that) auto
qed

theorem rabin_body:
  assumes "is_prime p" and "monic p f" and "1 < length f"
  shows "rabin_body f p = Some (monic_irreducible p f)"
proof -
  have p: "1 < p" "0 < p" using is_primeD(2) [OF assms(1)] by simp_all
  have two: "residues p [0, 1]" using p by (simp add: residues_def)
  define d where "d = length f - 1"
  have d: "length f = Suc d" "0 < d" using assms(3) by (simp_all add: d_def)
  let ?D = "kernel_fp_derivative f p"
  note D = kernel_fp_derivative [OF p(2) assms(3)]
  have ne: "kernel_fp_trim f \<noteq> [] \<or> kernel_fp_trim ?D \<noteq> []" by (simp add: trim_id monicD [OF assms(2)])
  obtain g where g: "kernel_fp_gcd f ?D p = Some g" "monic p g"
    using ideal.kernel_fp_gcd [OF assms(1) monicD(1) [OF assms(2)] D(1) ne] by blast
  have gcd: "mod_eq p c (val var g) 0 \<longleftrightarrow> mod_eq p c (val var f) 0 \<and> mod_eq p c (val var ?D) 0" for c
    using ideal.kernel_fp_gcd [OF assms(1) monicD(1) [OF assms(2)] D(1) ne, of "val var c" 0] g(1) by auto
  obtain powers where powers: "frobenius_powers [[0, 1]] d f p = Some powers" "length powers = Suc d" "frobenius_ok p f powers"
    using frobenius_powers [OF assms(1,2), of "[[0, 1]]" d] two by (auto simp: frobenius_ok_def)
  have power: "residues p (powers ! i)" "0 < i \<Longrightarrow> trimmed (powers ! i) \<and> length (powers ! i) < length f"
      "mod_eq p c (val var f) 0 \<Longrightarrow> mod_eq p c (val var (powers ! i)) (var ^ p ^ i)" if "i \<le> d" for i c
    using powers(2,3) that by (auto simp: frobenius_ok_def le_imp_less_Suc)
  obtain r where r: "kernel_fp_rem_monic [0, 1] f p = Some r" "residues p r" "trimmed r" "length r < length f"
    using ideal.kernel_fp_rem_monic [OF assms(2) two p(2)] by blast
  have x: "mod_eq p c (val var r) var" if "mod_eq p c (val var f) 0" for c
    using ideal.kernel_fp_rem_monic [OF assms(2) two p(2), of "val var c" 0] r(1) that by auto
  have loop: "rabin_loop d 2 powers d f p = Some (\<forall>q. is_prime q \<and> q dvd d \<longrightarrow> \<not> has_common p f (d div q))"
    by (rule rabin_loop_primes [OF assms(1,2) powers(3,2)]) (use d(2) is_primeD(2) in auto)
  have "rabin_body f p = Some (\<not> 1 < length g \<and> powers ! d = r
      \<and> (\<forall>q. is_prime q \<and> q dvd d \<longrightarrow> \<not> has_common p f (d div q)))"
    unfolding rabin_body_def d_def [symmetric] Let_def using powers(1) r(1) loop by (simp add: g(1))
  moreover have "(\<not> 1 < length g \<and> powers ! d = r \<and> (\<forall>q. is_prime q \<and> q dvd d \<longrightarrow> \<not> has_common p f (d div q)))
      \<longleftrightarrow> monic_irreducible p f"
  proof (intro iffI conjI allI impI)
    assume accepted: "\<not> 1 < length g \<and> powers ! d = r
      \<and> (\<forall>q. is_prime q \<and> q dvd d \<longrightarrow> \<not> has_common p f (d div q))"
    show "monic_irreducible p f"
    proof (rule ccontr)
      assume "\<not> monic_irreducible p f"
      then obtain c where c: "monic_irreducible p c" "length c < length f" "mod_eq p c (val var f) 0"
        by (rule irreducible_divisor [OF assms(2,3)])
      obtain k where k: "length c = Suc k" "0 < k" using c(1) by (cases c) (auto simp: monic_irreducible_def)
      note order = field_order [OF assms(1) c(1) k(1)]
      have "mod_eq p c (var ^ p ^ d) var"
        using power(3) [OF order_refl c(3)] x [OF c(3)] accepted ideal.eqv_sym ideal.eqv_trans by metis
      then obtain j where j: "d = k * j" using order by blast
      have "2 \<le> j" using j c(2) k d by (cases j) (auto simp: Suc_le_eq)
      then obtain q where q: "is_prime q" "q dvd j" using prime_divisor by blast
      then obtain t where t: "j = q * t" by blast
      have "0 < q" using is_primeD(2) [OF q(1)] by simp
      then have "d div q = k * t" by (simp add: j t mult.left_commute [of k])
      then have "mod_eq p c (var ^ p ^ (d div q)) var" using order by simp
      then have "has_common p f (d div q)" using c k by (auto simp: has_common_def monic_irreducible_def)
      then show False using accepted q j by auto
    qed
  next
    assume irr: "monic_irreducible p f"
    show "\<not> 1 < length g"
    proof
      assume long: "1 < length g"
      have divides: "mod_eq p g (val var f) 0" "mod_eq p g (val var ?D) 0" using gcd mod_eq_self by blast+
      then have "length f \<le> length g" using irr g(2) long by (meson monic_irreducible_def not_less)
      then have "f = g" using same_monic [OF g(2) assms(2)] divides(1) by blast
      then have "?D = []" using short_residues [OF g(2) _ divides(2) D(1,2)] D(3) by blast
      then show False using no_derivative [OF assms(1) irr] by blast
    qed
    have order: "mod_eq p f (var ^ p ^ n) var \<longleftrightarrow> d dvd n" for n by (rule field_order [OF assms(1) irr d(1)])
    have "mod_eq p f (val var (powers ! d)) (val var r)"
      using power(3) [OF order_refl mod_eq_self] order [of d] x [OF mod_eq_self] ideal.eqv_sym ideal.eqv_trans
      by (metis dvd_refl)
    then show "powers ! d = r"
      using power(1,2) [of d] d(2) r by (intro same_trimmed [OF assms(2)]) auto
    show "\<not> has_common p f (d div q)" if q: "is_prime q \<and> q dvd d" for q
    proof
      assume "has_common p f (d div q)"
      then obtain c where c: "monic p c" "1 < length c" "mod_eq p c (val var f) 0" "mod_eq p c (var ^ p ^ (d div q)) var"
        by (auto simp: has_common_def)
      then have "length f \<le> length c" using irr by (meson monic_irreducible_def not_less)
      then have "f = c" using same_monic [OF c(1) assms(2)] c(3) by blast
      then have divides: "d dvd d div q" using order c(4) by blast
      obtain t where t: "d = q * t" using q by blast
      have "2 \<le> q" using is_primeD(2) q by blast
      have "0 < t" using t d(2) by (cases t) simp_all
      have "1 * t < q * t" by (rule mult_strict_right_mono) (use \<open>2 \<le> q\<close> \<open>0 < t\<close> in simp_all)
      then have "t < d" by (simp add: t)
      moreover have "d dvd t" using divides \<open>2 \<le> q\<close> by (simp add: t)
      ultimately show False using nat_dvd_not_less [OF \<open>0 < t\<close>] by blast
    qed
  qed
  ultimately show ?thesis by simp
qed

section \<open>Irreducibility\<close>

text \<open>
  Irreducibility modulo a prime, for integer coefficients in ascending order: no product of two
  polynomials that are not constant is congruent.
\<close>

definition nonconstant_mod :: "int \<Rightarrow> int list \<Rightarrow> bool" where
  "nonconstant_mod p cs \<longleftrightarrow> (\<exists>i > 0. \<not> p dvd coeff cs i)"

definition irreducible_mod :: "int \<Rightarrow> int list \<Rightarrow> bool" where
  "irreducible_mod p cs \<longleftrightarrow> nonconstant_mod p cs
     \<and> (\<forall>g h. (\<forall>n. p dvd coeff cs n - (\<Sum>i\<le>n. coeff g i * coeff h (n - i)))
           \<longrightarrow> \<not> (nonconstant_mod p g \<and> nonconstant_mod p h))"

lemma ideal_eq_lists: "ideal_eq p 0 0 (pol a) (pol b) \<longleftrightarrow> (\<forall>i. int p dvd coeff a i - coeff b i)"
proof
  assume "ideal_eq p 0 0 (pol a) (pol b)"
  then obtain u where "pol a - pol b = of_nat p * u" by (auto simp: ideal_eq_def)
  moreover obtain us where "u = pol us" using ipoly_pol by blast
  ultimately have "pol a = pol (list_add b (map ((*) (int p)) us))"
    by (simp add: pol_add [symmetric] pol_of_nat [symmetric] algebra_simps)
  then show "\<forall>i. int p dvd coeff a i - coeff b i" by (simp add: pol_eq_iff coeff_add coeff_scale)
next
  assume dvd: "\<forall>i. int p dvd coeff a i - coeff b i"
  let ?u = "map (\<lambda>i. (coeff a i - coeff b i) div int p) [0..<max (length a) (length b)]"
  have "coeff a i = coeff b i + int p * coeff ?u i" for i
  proof (cases "i < max (length a) (length b)")
    case True
    then have "coeff ?u i = (coeff a i - coeff b i) div int p" by (simp add: coeff_def [of ?u])
    then show ?thesis using dvd by simp
  qed (auto simp: coeff_def not_less)
  then have "pol a = pol (list_add b (map ((*) (int p)) ?u))" unfolding pol_eq_iff coeff_add coeff_scale by blast
  then have "pol a - pol b = of_nat p * pol ?u" by (simp add: pol_add [symmetric] pol_of_nat del: map_map)
  then show "ideal_eq p 0 0 (pol a) (pol b)" by (intro ideal_eqI [of _ _ _ "pol ?u" _ 0 _ 0]) simp
qed

lemma irreducible_mod_iff:
  "irreducible_mod (int p) cs \<longleftrightarrow> nonconstant_mod (int p) cs
     \<and> (\<forall>g h. ideal_eq p 0 0 (pol cs) (pol g * pol h) \<longrightarrow> \<not> (nonconstant_mod (int p) g \<and> nonconstant_mod (int p) h))"
  by (simp add: irreducible_mod_def pol_mult ideal_eq_lists coeff_mult)

lemma ideal_eq_0: "ideal_eq p 0 0 a b \<Longrightarrow> ideal_eq p A B a b"
  by (rule ideal_mono [of p 0 0]) simp_all

text \<open>The monic polynomial that belongs to a list of integers.\<close>

lemma monic_associate:
  assumes "is_prime p" and "reduced cs p \<noteq> []"
  obtains i L where "kernel_fp_inv (last (reduced cs p)) p = Some i" "monic p (scale i (reduced cs p) p)"
    "0 < L" "L < p" "\<And>A B. ideal_eq p A B (pol cs) (of_nat L * val var (scale i (reduced cs p) p))"
    "\<And>c. mod_eq p c (val var (scale i (reduced cs p) p)) 0 \<longleftrightarrow> mod_eq p c (pol cs) 0"
proof -
  have p: "0 < p" using is_primeD(2) [OF assms(1)] by simp
  note r = reduced [OF p]
  define L where "L = last (reduced cs p)"
  have L: "0 < L" "L < p" using r(1,2) [of cs] last_in_set [OF assms(2)] assms(2) by (auto simp: trimmed_def residues_def L_def)
  obtain i where i: "kernel_fp_inv L p = Some i" "monic p (scale i (reduced cs p) p)"
    unfolding L_def using make_monic [OF assms(1) r(1,2) assms(2)] by blast
  have inverse: "int p dvd int i * int L - 1" using kernel_fp_inv [OF assms(1) L] i(1) by auto
  let ?f = "scale i (reduced cs p) p"
  have "ideal_eq p A B (pol cs) (of_nat L * val var ?f)" for A B
  proof -
    have "ideal_eq p A B (of_int (int i * int L)) (of_int 1)" by (rule ideal.eqv_of_int [OF inverse])
    then have "ideal_eq p A B (of_nat L * of_nat i) 1" by (simp add: mult.commute)
    from ideal.eqv_mult [OF this ideal.eqv_refl [of p A B "val var (reduced cs p)"]]
    have "ideal_eq p A B (of_nat L * (of_nat i * val var (reduced cs p))) (val var (reduced cs p))"
      by (simp add: mult.assoc)
    moreover have "ideal_eq p A B (of_nat L * val var ?f) (of_nat L * (of_nat i * val var (reduced cs p)))"
      by (intro ideal.eqv_mult ideal.eqv_refl ideal.scale(1) p)
    ultimately show ?thesis using r(3) ideal.eqv_sym ideal.eqv_trans by blast
  qed
  moreover have "mod_eq p c (val var ?f) 0 \<longleftrightarrow> mod_eq p c (pol cs) 0" for c
    using ideal.scale_root [OF assms(1) i(1) [unfolded L_def] r(1,2) assms(2)] r(3) ideal.eqv_sym ideal.eqv_trans by metis
  ultimately show ?thesis using i L by (intro that) (simp_all add: L_def)
qed

lemma reduced_length:
  assumes "0 < p"
  shows "length (reduced cs p) = length cs \<longleftrightarrow> cs = [] \<or> \<not> int p dvd last cs"
proof (cases "cs = []")
  case False
  let ?a = "map (\<lambda>c. nat (c mod int p)) cs"
  have "last ?a = 0 \<longleftrightarrow> int p dvd last cs"
  proof -
    have "0 \<le> last cs mod int p" using assms by simp
    then show ?thesis using False by (simp add: last_map dvd_eq_mod_eq_0)
  qed
  moreover have "length (kernel_fp_trim ?a) < length ?a" if "last ?a = 0" using trim_shorter [of ?a] that False by simp
  moreover have "kernel_fp_trim ?a = ?a" if "last ?a \<noteq> 0" using trim_id [of ?a] that by (simp add: trimmed_def)
  ultimately show ?thesis using False by (auto simp: reduced_def)
qed (simp add: reduced_def kernel_fp_trim_def)

lemma irreducible_associate:
  assumes "is_prime p" and "1 < length cs" and "\<not> int p dvd last cs"
    and "monic p f" and "length f = length cs" and "0 < L" and "L < p"
    and associate: "\<And>A B. ideal_eq p A B (pol cs) (of_nat L * val var f)"
    and same: "\<And>c. mod_eq p c (val var f) 0 \<longleftrightarrow> mod_eq p c (pol cs) 0"
  shows "monic_irreducible p f \<longleftrightarrow> irreducible_mod (int p) cs"
proof -
  have p: "1 < p" "0 < p" using is_primeD(2) [OF assms(1)] by simp_all
  define n where "n = length cs - 1"
  have n: "0 < n" "length cs = Suc n" "coeff cs n = last cs"
    using assms(2) last_conv_nth [of cs] by (force simp: n_def coeff_def)+
  have nonconstant: "nonconstant_mod (int p) cs" using n assms(3) by (auto simp: nonconstant_mod_def)
  have "irreducible_mod (int p) cs" if irr: "monic_irreducible p f"
    unfolding irreducible_mod_iff
  proof (intro conjI allI impI notI nonconstant)
    fix g h
    assume gh: "ideal_eq p 0 0 (pol cs) (pol g * pol h)" "nonconstant_mod (int p) g \<and> nonconstant_mod (int p) h"
    have long: "1 < length (reduced g p)"
    proof (rule ccontr)
      assume "\<not> 1 < length (reduced g p)"
      then have "coeff (map int (reduced g p)) i = 0" if "0 < i" for i using that by (intro coeff_beyond) simp
      moreover have "\<forall>i. int p dvd coeff g i - coeff (map int (reduced g p)) i"
        using reduced(3) [OF p(2), of 0 0 g] by (simp add: val_var ideal_eq_lists)
      ultimately show False using gh(2) unfolding nonconstant_mod_def by (metis diff_zero)
    qed
    then have "reduced g p \<noteq> []" by auto
    from monic_associate [OF assms(1) this] obtain i M where c: "monic p (scale i (reduced g p) p)" "0 < M" "M < p"
        "\<And>A B. ideal_eq p A B (pol g) (of_nat M * val var (scale i (reduced g p) p))"
      by metis
    define c where "c = scale i (reduced g p) p"
    note c = c [folded c_def]
    have "mod_eq p c (pol g) 0" using c(4) ideal.eqv_0_mult [OF mod_eq_self] by (rule ideal.eqv_trans)
    then have "mod_eq p c (pol g * pol h) 0" using ideal.eqv_0_mult by (metis mult.commute)
    with ideal_eq_0 [OF gh(1)] have "mod_eq p c (pol cs) 0" by (rule ideal.eqv_trans)
    then have f: "mod_eq p c (val var f) 0" using same by blast
    moreover have "1 < length c" using long by (simp add: c_def)
    ultimately have "length f \<le> length c" using irr c(1) by (meson monic_irreducible_def not_less)
    then have "f = c" using same_monic [OF c(1) assms(4)] f by blast
    have "ideal_eq p 0 0 (of_nat L * val var f) (pol g * pol h)" using associate gh(1) ideal.eqv_sym ideal.eqv_trans by blast
    moreover have "ideal_eq p 0 0 (pol g * pol h) (of_nat M * val var f * pol h)"
      unfolding \<open>f = c\<close> by (intro ideal.eqv_mult ideal.eqv_refl c(4))
    ultimately have "ideal_eq p 0 0 (of_nat L * val var f) (of_nat M * val var f * pol h)" by (rule ideal.eqv_trans)
    then have "ideal_eq p 0 0 (val var f * (of_nat M * pol h - of_nat L)) 0"
      using ideal.eqv_diff_0 ideal.eqv_sym by (simp add: algebra_simps)
    moreover have "of_nat M * pol h - of_nat L = pol (list_add (map ((*) (int M)) h) [- int L])"
      by (rule ipoly_eqI) (simp add: horner_add horner_scale)
    ultimately have "ideal_eq p 0 0 (pol (list_mult (map int f) (list_add (map ((*) (int M)) h) [- int L]))) (pol [])"
      by (simp add: val_var pol_mult)
    then have "int p dvd coeff [] i + coeff (list_mult (map int f) (list_add (map ((*) (int M)) h) [- int L])) i" for i
      unfolding ideal_eq_lists by simp
    from monic_leads(1) [OF assms(4) _ this] have "int p dvd coeff (list_add (map ((*) (int M)) h) [- int L]) i" for i
      using assms(2,5) by fastforce
    moreover have "coeff (list_add (map ((*) (int M)) h) [- int L]) i = int M * coeff h i" if "0 < i" for i
      using that by (cases i) (simp_all add: coeff_add coeff_scale)
    ultimately have "int p dvd int M * coeff h i" if "0 < i" for i using that by metis
    moreover have "coprime (int p) (int M)"
      using prime_coprime [OF assms(1), of M] c(2,3) nat_dvd_not_less by (auto simp: coprime_iff_gcd_eq_1 gcd.commute)
    ultimately have "int p dvd coeff h i" if "0 < i" for i using that by (simp add: coprime_dvd_mult_right_iff)
    then show False using gh(2) by (auto simp: nonconstant_mod_def)
  qed
  moreover have "monic_irreducible p f" if irr: "irreducible_mod (int p) cs"
    unfolding monic_irreducible_def
  proof (intro conjI allI impI notI assms(4))
    show "1 < length f" using assms(2,5) by simp
    fix c
    assume c: "monic p c" "1 < length c" "length c < length f" "mod_eq p c (val var f) 0"
    then obtain u v where "val var f = of_nat p * u + val var c * v" by (auto simp: ideal_eq_def)
    then have "ideal_eq p 0 0 (val var f) (val var c * v)" by (intro ideal_eqI [of _ _ _ u _ 0 _ 0]) simp
    from ideal.eqv_mult [OF ideal.eqv_refl [of p 0 0 "of_nat L"] this]
    have "ideal_eq p 0 0 (of_nat L * val var f) (val var c * (of_nat L * v))" by (simp add: ac_simps)
    with associate have factors: "ideal_eq p 0 0 (pol cs) (pol (map int c) * (of_nat L * v))"
      unfolding val_var by (rule ideal.eqv_trans)
    obtain h where h: "of_nat L * v = pol h" using ipoly_pol by blast
    have "coeff (map int c) (length c - 1) = 1" using c(1,2) last_conv_nth [of c] by (force simp: coeff_map_int monic_def)
    then have "nonconstant_mod (int p) (map int c)" using c(2) p
      by (auto simp: nonconstant_mod_def intro!: exI [of _ "length c - 1"])
    then have "\<not> nonconstant_mod (int p) h" using irr factors unfolding irreducible_mod_iff h by blast
    then have const: "int p dvd coeff h i" if "0 < i" for i using that unfolding nonconstant_mod_def by blast
    have "ideal_eq p 0 0 (pol h) (pol [coeff h 0])"
    proof -
      have "int p dvd coeff h i - coeff [coeff h 0] i" for i using const [of i] by (cases i) simp_all
      then show ?thesis by (simp add: ideal_eq_lists)
    qed
    from ideal.eqv_trans [OF factors [unfolded h] ideal.eqv_mult [OF ideal.eqv_refl this]]
    have "ideal_eq p 0 0 (pol cs) (pol (list_mult (map int c) [coeff h 0]))" by (simp add: pol_mult)
    moreover have "pol (list_mult (map int c) [coeff h 0]) = pol (map ((*) (coeff h 0)) (map int c))"
      by (rule ipoly_eqI) (simp add: horner_mult horner_scale del: map_map)
    ultimately have "int p dvd coeff cs n - coeff (map ((*) (coeff h 0)) (map int c)) n" by (simp only: ideal_eq_lists)
    then show False using n assms(3,5) c(3) by (simp add: coeff_scale coeff_map_int del: map_map)
  qed
  ultimately show ?thesis by blast
qed

text \<open>The checker decides irreducibility.\<close>

lemma int_bits_32:
  assumes "0 \<le> n"
  shows "int_bits n \<le> 32 \<longleftrightarrow> n < 2 ^ 32"
proof -
  define m where "m = nat n"
  have n: "n = int m" using assms by (simp add: m_def)
  have "bit_length m \<le> 32 \<longleftrightarrow> m < 2 ^ 32"
  proof
    assume "bit_length m \<le> 32"
    then have "(2::nat) ^ bit_length m \<le> 2 ^ 32" by (rule power_increasing) simp
    then show "m < 2 ^ 32" using bit_length_upper [of m] by (rule less_le_trans [rotated])
  next
    assume small: "m < 2 ^ 32"
    show "bit_length m \<le> 32"
    proof (rule ccontr)
      assume large: "\<not> bit_length m \<le> 32"
      then have "(2::nat) ^ 32 \<le> 2 ^ (bit_length m - 1)" by (intro power_increasing) simp_all
      also have "\<dots> \<le> m" using bit_length_lower [of m] large by auto
      finally show False using small by simp
    qed
  qed
  then show ?thesis unfolding n int_bits_def by (simp only: abs_of_nat nat_int) simp
qed

lemma verify_rabin_body:
  assumes "nat prime = p" and "\<not> prime < 0" and "int_bits prime \<le> 32" and "1 < length cs" and "2 \<le> p"
    and "kernel_is_u64_prime p" and "length (reduced cs p) = length cs"
    and "kernel_fp_inv (last (reduced cs p)) p = Some i"
  shows "kernel_verify_rabin_irreducible_mod_prime cs prime = rabin_body (scale i (reduced cs p) p) p"
  using assms
  by (simp add: kernel_verify_rabin_irreducible_mod_prime_def rabin_body_def Let_def reduced_def [symmetric])

theorem verify_rabin_iff:
  "kernel_verify_rabin_irreducible_mod_prime cs prime
     = Some (is_prime (nat prime) \<and> prime < 2 ^ 32 \<and> cs \<noteq> [] \<and> \<not> prime dvd last cs \<and> irreducible_mod prime cs)"
proof (cases "prime < 0 \<or> int_bits prime > 32 \<or> length cs \<le> 1 \<or> nat prime < 2 \<or> \<not> kernel_is_u64_prime (nat prime)
    \<or> length (reduced cs (nat prime)) \<noteq> length cs")
  case True
  then have "kernel_verify_rabin_irreducible_mod_prime cs prime = Some False"
    by (auto simp: kernel_verify_rabin_irreducible_mod_prime_def Let_def reduced_def)
  moreover have "False" if "is_prime (nat prime)" "prime < 2 ^ 32" "cs \<noteq> []" "\<not> prime dvd last cs" "irreducible_mod prime cs"
  proof -
    have p: "2 \<le> nat prime" using is_primeD(2) [OF that(1)] .
    then have "int (nat prime) = prime" "0 \<le> prime" by simp_all
    moreover have "1 < length cs"
      using that(5) coeff_beyond [of cs] unfolding irreducible_mod_def nonconstant_mod_def
      by (metis dvd_0_right linorder_not_less order_less_le_trans less_one not_less_iff_gr_or_eq)
    ultimately show False
      using True that p int_bits_32 [of prime] reduced_length [of "nat prime" cs]
      by (simp add: kernel_is_u64_prime_iff not_less [symmetric])
  qed
  ultimately show ?thesis by auto
next
  case False
  let ?p = "nat prime"
  have prime: "is_prime ?p" using False by (simp add: kernel_is_u64_prime_iff)
  have p: "0 < ?p" using is_primeD(2) [OF prime] by simp
  have int_p: "int ?p = prime" using False by simp
  have ne: "reduced cs ?p \<noteq> []" using False by auto
  obtain i L where i: "kernel_fp_inv (last (reduced cs ?p)) ?p = Some i" "monic ?p (scale i (reduced cs ?p) ?p)"
      "0 < L" "L < ?p" "\<And>A B. ideal_eq ?p A B (pol cs) (of_nat L * val var (scale i (reduced cs ?p) ?p))"
      "\<And>c. mod_eq ?p c (val var (scale i (reduced cs ?p) ?p)) 0 \<longleftrightarrow> mod_eq ?p c (pol cs) 0"
    using monic_associate [OF prime ne] by metis
  let ?f = "scale i (reduced cs ?p) ?p"
  have len: "length ?f = length cs" "1 < length cs" using False by simp_all
  have last: "\<not> int ?p dvd last cs" using reduced_length [OF p, of cs] False by auto
  have "kernel_verify_rabin_irreducible_mod_prime cs prime = rabin_body ?f ?p"
    by (rule verify_rabin_body [OF refl _ _ _ _ _ _ i(1)]) (use False in \<open>simp_all add: not_less\<close>)
  also have "\<dots> = Some (monic_irreducible ?p ?f)" using len by (intro rabin_body prime i(2)) simp
  also have "monic_irreducible ?p ?f \<longleftrightarrow> irreducible_mod (int ?p) cs"
    by (rule irreducible_associate [OF prime len(2) last i(2) len(1) i(3-6)])
  finally show ?thesis using False last prime int_p int_bits_32 [of prime] by auto
qed

theorem verify_rabin_returns: "\<exists>answer. kernel_verify_rabin_irreducible_mod_prime cs prime = Some answer"
  by (simp add: verify_rabin_iff)

end
