(* ===== verification/Pythagorean_Sound.thy ===== *)
theory Pythagorean_Sound
  imports Pythagorean Poly_Sound Elementary Bindings_Sound
begin

text \<open>
  The Pythagorean reduction keeps values: cancelling a pair keeps the value of a normal form, and
  equal obligations make both sides defined at the same valuations, as long as no binder occurs.
\<close>

section \<open>Cancellation keeps the value\<close>

definition pythagorean_atoms :: "(expr \<Rightarrow> complex) \<Rightarrow> expr set \<Rightarrow> bool" where
  "pythagorean_atoms \<rho> A \<longleftrightarrow>
     (\<forall>f g u family. Function f [u] \<in> A \<longrightarrow> Function g [u] \<in> A \<longrightarrow> pythagorean_slot f = Some (family, 0) \<longrightarrow>
       pythagorean_slot g = Some (family, 1) \<longrightarrow>
       (if family = 0 then (\<rho> (Function f [u]))\<^sup>2 + (\<rho> (Function g [u]))\<^sup>2 = 1
        else (\<rho> (Function f [u]))\<^sup>2 - (\<rho> (Function g [u]))\<^sup>2 = 1))"

definition poly_atoms :: "polynomial \<Rightarrow> expr set" where
  "poly_atoms p = (\<Union>(m, c) \<in> set p. fst ` set m)"

definition slot_sound :: "polynomial \<Rightarrow> slot_key \<Rightarrow> nat \<Rightarrow> rat \<times> monomial \<Rightarrow> bool" where
  "slot_sound p k slot entry \<longleftrightarrow>
     (case k of (family, arg, rest) \<Rightarrow>
      case entry of (c, m) \<Rightarrow>
        (m, c) \<in> set p
        \<and> (\<exists>f i. i < length m \<and> m ! i = (Function f [arg], 2) \<and> pythagorean_slot f = Some (family, slot)
             \<and> rest = remove_position i m))"

definition slots_sound :: "polynomial \<Rightarrow> pythagorean_slots \<Rightarrow> bool" where
  "slots_sound p slots \<longleftrightarrow>
     (\<forall>k pair slot entry. (k, Some pair) \<in> set slots \<longrightarrow> slot \<le> 1 \<longrightarrow> slot_get pair slot = Some entry \<longrightarrow>
       slot_sound p k slot entry)"

lemma slots_soundD:
  "slots_sound p slots \<Longrightarrow> (k, Some pair) \<in> set slots \<Longrightarrow> slot \<le> 1 \<Longrightarrow> slot_get pair slot = Some entry \<Longrightarrow>
    slot_sound p k slot entry"
  unfolding slots_sound_def by blast

lemma pythagorean_slot_le: "pythagorean_slot f = Some (family, slot) \<Longrightarrow> slot \<le> 1"
  by (auto simp: pythagorean_slot_def split: if_splits)

lemma square_candidate_Some:
  assumes "square_candidate x = Some (family, slot, arg)"
  shows "\<exists>f. x = (Function f [arg], 2) \<and> pythagorean_slot f = Some (family, slot)"
  using assms by (cases x) (auto simp: square_candidate_def split: if_splits expr.splits list.splits)

lemma record_candidate_sound:
  assumes "slots_sound p slots" and "(m, c) \<in> set p" and "i < length m"
  shows "slots_sound p (record_candidate m c i slots)"
proof (cases "square_candidate (m ! i)")
  case None
  then show ?thesis using assms(1) by (simp add: record_candidate_def)
next
  case (Some cand)
  obtain family slot arg where cand: "cand = (family, slot, arg)" by (cases cand)
  define k where "k = (family, arg, remove_position i m)"
  obtain f where f: "m ! i = (Function f [arg], 2)" "pythagorean_slot f = Some (family, slot)"
    using square_candidate_Some Some cand by blast
  have new: "slot_sound p k slot (c, m)"
    using assms(2,3) f by (auto simp: slot_sound_def k_def)
  have put: "slots_sound p (bt_insert k (Some (slot_put pair slot (c, m))) slots)"
    if old: "\<And>s entry. s \<le> 1 \<Longrightarrow> slot_get pair s = Some entry \<Longrightarrow> slot_sound p k s entry" for pair
    unfolding slots_sound_def
  proof (intro allI impI)
    fix k' pair' s entry
    assume in_slots: "(k', Some pair') \<in> set (bt_insert k (Some (slot_put pair slot (c, m))) slots)"
      and s: "s \<le> 1" "slot_get pair' s = Some entry"
    from in_slots consider "(k', Some pair') \<in> set slots" | "k' = k" "pair' = slot_put pair slot (c, m)"
      using set_bt_insert by fastforce
    then show "slot_sound p k' s entry"
    proof cases
      case 1
      then show ?thesis by (rule slots_soundD [OF assms(1) _ s])
    next
      case 2
      have "slot \<le> 1" using pythagorean_slot_le f(2) by simp
      then show ?thesis using s new old [OF s(1)] 2
        by (auto simp: slot_get_def slot_put_def le_Suc_eq split: if_splits)
    qed
  qed
  have conflict: "slots_sound p (bt_insert k None slots)"
    using assms(1) set_bt_insert [of k None slots] by (fastforce simp: slots_sound_def)
  have run: "record_candidate m c i slots =
      (case map_of slots k of
         None \<Rightarrow> bt_insert k (Some (slot_put (None, None) slot (c, m))) slots
       | Some None \<Rightarrow> slots
       | Some (Some pair) \<Rightarrow>
           if slot_get pair slot \<noteq> None then bt_insert k None slots
           else bt_insert k (Some (slot_put pair slot (c, m))) slots)"
    by (simp only: record_candidate_def Some cand k_def Let_def option.case prod.case)
  show ?thesis
  proof (cases "map_of slots k")
    case None
    have "slots_sound p (bt_insert k (Some (slot_put (None, None) slot (c, m))) slots)"
      by (rule put) (simp add: slot_get_def split: if_splits)
    then show ?thesis unfolding run None by simp
  next
    case (Some v)
    show ?thesis
    proof (cases v)
      case None
      then show ?thesis unfolding run using Some assms(1) by simp
    next
      case pair: (Some pair)
      have "(k, Some pair) \<in> set slots" using Some pair map_of_SomeD by fastforce
      then have "slot_sound p k s entry" if "s \<le> 1" "slot_get pair s = Some entry" for s entry
        by (rule slots_soundD [OF assms(1) _ that])
      then show ?thesis unfolding run using Some pair put [of pair] conflict by simp
    qed
  qed
qed

lemma fold_keeps:
  "P s \<Longrightarrow> (\<And>x s. x \<in> set xs \<Longrightarrow> P s \<Longrightarrow> P (f x s)) \<Longrightarrow> P (fold f xs s)"
  by (induction xs arbitrary: s) auto

lemma collect_slots_sound: "slots_sound p (collect_slots p)"
  unfolding collect_slots_def
proof (rule fold_keeps)
  show "slots_sound p []" by (simp add: slots_sound_def)
  fix x s
  assume x: "x \<in> set p" and s: "slots_sound p s"
  obtain m c where mc: "x = (m, c)" by (cases x)
  show "slots_sound p ((\<lambda>(m, coeff). fold (record_candidate m coeff) [0..<length m]) x s)"
    unfolding mc prod.case
    by (rule fold_keeps [where P = "slots_sound p"], rule s, rule record_candidate_sound)
      (use x mc in auto)
qed

lemma mono_value_position:
  "i < length m \<Longrightarrow> m ! i = (a, n) \<Longrightarrow> mono_value \<rho> m = \<rho> a ^ n * mono_value \<rho> (remove_position i m)"
  using arg_cong [OF id_take_nth_drop [of i m], of "mono_value \<rho>"]
  by (simp add: remove_position_def ac_simps)

lemma remove_position_other:
  assumes "i < length m" and "j < length m" and "i \<noteq> j"
  shows "m ! i \<in> set (remove_position j m)"
proof (cases "i < j")
  case True
  then have "take j m ! i = m ! i" "i < length (take j m)" using assms by auto
  then show ?thesis unfolding remove_position_def by (metis UnI1 nth_mem set_append)
next
  case False
  then have "drop (Suc j) m ! (i - Suc j) = m ! i" "i - Suc j < length (drop (Suc j) m)" using assms by auto
  then show ?thesis unfolding remove_position_def by (metis UnI2 nth_mem set_append)
qed

lemma remove_position_self:
  "distinct m \<Longrightarrow> i < length m \<Longrightarrow> m ! i \<notin> set (remove_position i m)"
  using id_take_nth_drop [of i m] by (metis remove_position_def distinct.simps(2) distinct_append
    Un_iff set_append disjoint_iff list.set_intros(1))

text \<open>A completed pair is worth its residual monomial.\<close>

lemma completed_pair:
  assumes ok: "poly_ok p" and pyth: "pythagorean_atoms \<rho> (poly_atoms p)"
    and a: "slot_sound p (family, arg, rest) 0 (ca, ma)" and b: "slot_sound p (family, arg, rest) 1 (cb, mb)"
    and cancel: "pythagorean_coefficients_cancel family ca cb"
  shows "ma \<noteq> mb \<and> map_of p ma = Some ca \<and> map_of p mb = Some cb
    \<and> of_rat ca * mono_value \<rho> ma + of_rat cb * mono_value \<rho> mb = of_rat ca * mono_value \<rho> rest"
proof -
  obtain f i where f: "(ma, ca) \<in> set p" "i < length ma" "ma ! i = (Function f [arg], 2)"
      "pythagorean_slot f = Some (family, 0)" "rest = remove_position i ma"
    using a by (auto simp: slot_sound_def)
  obtain g j where g: "(mb, cb) \<in> set p" "j < length mb" "mb ! j = (Function g [arg], 2)"
      "pythagorean_slot g = Some (family, 1)" "rest = remove_position j mb"
    using b by (auto simp: slot_sound_def)
  have "distinct (map fst p)" "distinct (map fst ma)"
    using ok f(1) by (auto simp: poly_ok_def mono_ok_def bt_ok_distinct)
  then have keys: "map_of p ma = Some ca" "map_of p mb = Some cb" and dist: "distinct ma"
    using f(1) g(1) by (auto simp: distinct_map)
  have "ma \<noteq> mb"
  proof
    assume same: "ma = mb"
    have "f \<noteq> g" using f(4) g(4) by auto
    then have "i \<noteq> j" using f(3) g(3) same by auto
    then have "ma ! i \<in> set rest" using remove_position_other [of i ma j] f(2) g(2,5) same by simp
    then show False using remove_position_self [OF dist f(2)] f(5) by simp
  qed
  moreover have "of_rat ca * mono_value \<rho> ma + of_rat cb * mono_value \<rho> mb = of_rat ca * mono_value \<rho> rest"
  proof -
    have "Function f [arg] \<in> poly_atoms p" "Function g [arg] \<in> poly_atoms p"
      unfolding poly_atoms_def using f(1-3) g(1-3) by (force dest: nth_mem)+
    then have rel: "if family = 0 then (\<rho> (Function f [arg]))\<^sup>2 + (\<rho> (Function g [arg]))\<^sup>2 = 1
        else (\<rho> (Function f [arg]))\<^sup>2 - (\<rho> (Function g [arg]))\<^sup>2 = 1"
      using pyth f(4) g(4) by (auto simp: pythagorean_atoms_def)
    have cb: "cb = (if family = 0 then ca else - ca)"
      using cancel by (auto simp: pythagorean_coefficients_cancel_def eq_neg_iff_add_eq_0 add.commute split: if_splits)
    define x y r where "x = (\<rho> (Function f [arg]))\<^sup>2" and "y = (\<rho> (Function g [arg]))\<^sup>2"
      and "r = mono_value \<rho> rest"
    have "of_rat ca * (x * r) + of_rat cb * (y * r) = of_rat ca * r * (if family = 0 then x + y else x - y)"
      by (simp add: cb of_rat_minus algebra_simps)
    also have "\<dots> = of_rat ca * r" using rel by (simp add: x_def y_def)
    finally show ?thesis
      using mono_value_position [OF f(2,3)] mono_value_position [OF g(2,3)] f(5) g(5)
      by (simp add: x_def y_def r_def)
  qed
  ultimately show ?thesis using keys by simp
qed

definition removed_value :: "(expr \<Rightarrow> complex) \<Rightarrow> polynomial \<Rightarrow> monomial list \<Rightarrow> complex" where
  "removed_value \<rho> p ms = (\<Sum>m\<leftarrow>ms. of_rat (the (map_of p m)) * mono_value \<rho> m)"

definition cancel_inv :: "(expr \<Rightarrow> complex) \<Rightarrow> polynomial \<Rightarrow> monomial list \<times> (monomial \<times> rat) list \<Rightarrow> bool" where
  "cancel_inv \<rho> p state \<longleftrightarrow>
     (case state of (removals, additions) \<Rightarrow>
        distinct removals \<and> set removals \<subseteq> dom (map_of p)
        \<and> removed_value \<rho> p removals = poly_value \<rho> additions)"

lemma poly_value_append: "poly_value \<rho> (p @ q) = poly_value \<rho> p + poly_value \<rho> q"
  by (simp add: poly_value_def)

lemma cancel_slot_inv:
  assumes "poly_ok p" and "pythagorean_atoms \<rho> (poly_atoms p)" and "slots_sound p slots"
    and "entry \<in> set slots" and inv: "cancel_inv \<rho> p state"
  shows "cancel_inv \<rho> p (cancel_slot entry state)"
proof (cases "cancel_slot entry state = state")
  case False
  obtain removals additions where state: "state = (removals, additions)" by (cases state)
  obtain family arg rest ca ma cb mb
    where entry: "entry = ((family, arg, rest), Some (Some (ca, ma), Some (cb, mb)))"
      and cancel: "pythagorean_coefficients_cancel family ca cb"
      and fresh: "ma \<notin> set removals" "mb \<notin> set removals"
    using False by (auto simp: cancel_slot_def state split: prod.splits option.splits if_splits)
  then have step: "cancel_slot entry state = (removals @ [ma, mb], additions @ [(rest, ca)])"
    by (simp add: cancel_slot_def state)
  have "slot_sound p (family, arg, rest) 0 (ca, ma)" "slot_sound p (family, arg, rest) 1 (cb, mb)"
    using assms(3,4) unfolding slots_sound_def entry by (force simp: slot_get_def)+
  from completed_pair [OF assms(1,2) this cancel] show ?thesis
    using inv fresh unfolding step
    by (auto simp: cancel_inv_def state removed_value_def poly_value_append)
qed (use inv in simp)

lemma fold_bt_remove:
  assumes "bt_ok p" and "distinct ms" and "set ms \<subseteq> dom (map_of p)"
  shows "bt_ok (fold bt_remove ms p) \<and> poly_value \<rho> (fold bt_remove ms p) = poly_value \<rho> p - removed_value \<rho> p ms"
  using assms
proof (induction ms arbitrary: p)
  case (Cons m ms)
  have "poly_value \<rho> p = of_rat (the (map_of p m)) * mono_value \<rho> m + poly_value \<rho> (bt_remove m p)"
    using bt_sum_remove [of "\<lambda>m c. of_rat c * mono_value \<rho> m" p m] Cons.prems(3)
    by (auto simp: poly_value_def)
  moreover have "removed_value \<rho> (bt_remove m p) ms = removed_value \<rho> p ms"
    unfolding removed_value_def using Cons.prems(1,2)
    by (intro arg_cong [where f = sum_list] map_cong) auto
  moreover have "bt_ok (fold bt_remove ms (bt_remove m p)) \<and> poly_value \<rho> (fold bt_remove ms (bt_remove m p))
      = poly_value \<rho> (bt_remove m p) - removed_value \<rho> (bt_remove m p) ms"
    by (rule Cons.IH) (use Cons.prems in auto)
  ultimately show ?case by (simp add: removed_value_def algebra_simps)
qed (simp add: removed_value_def)

lemma fold_add_rest:
  "bt_ok p \<Longrightarrow> bt_ok (fold add_rest as p) \<and> poly_value \<rho> (fold add_rest as p) = poly_value \<rho> p + poly_value \<rho> as"
proof (induction as arbitrary: p)
  case (Cons a as)
  obtain m c where a: "a = (m, c)" by (cases a)
  have "poly_value \<rho> (add_rest a p) = poly_value \<rho> p + of_rat c * mono_value \<rho> m"
    using bt_sum_insert [OF Cons.prems, of "\<lambda>m c. of_rat c * mono_value \<rho> m"]
      bt_sum_remove [of "\<lambda>m c. of_rat c * mono_value \<rho> m" p m]
    by (simp add: add_rest_def a poly_value_def of_rat_add algebra_simps split: option.splits)
  moreover have "bt_ok (add_rest a p)" using Cons.prems by (simp add: add_rest_def)
  ultimately show ?case using Cons.IH [of "add_rest a p"] by (simp add: a)
qed simp

lemma filter_nonzero_value: "poly_value \<rho> (filter (\<lambda>(_, c). c \<noteq> 0) p) = poly_value \<rho> p"
  by (induction p) auto

lemma cancel_pythagorean_pairs_value:
  assumes "poly_ok p" and "pythagorean_atoms \<rho> (poly_atoms p)"
  shows "poly_value \<rho> (cancel_pythagorean_pairs p) = poly_value \<rho> p"
proof -
  obtain removals additions where run: "fold cancel_slot (collect_slots p) ([], []) = (removals, additions)"
    by (cases "fold cancel_slot (collect_slots p) ([], [])")
  have "cancel_inv \<rho> p (fold cancel_slot (collect_slots p) ([], []))"
    by (rule fold_keeps, simp add: cancel_inv_def removed_value_def)
      (rule cancel_slot_inv [OF assms collect_slots_sound])
  then have inv: "distinct removals" "set removals \<subseteq> dom (map_of p)" "removed_value \<rho> p removals = poly_value \<rho> additions"
    by (auto simp: run cancel_inv_def)
  have "bt_ok p" using assms(1) by (simp add: poly_ok_def)
  from fold_bt_remove [OF this inv(1,2), of \<rho>] fold_add_rest [of "fold bt_remove removals p" additions \<rho>]
  show ?thesis using inv(3) by (simp add: cancel_pythagorean_pairs_def run filter_nonzero_value)
qed

section \<open>Definedness\<close>

text \<open>No application in the expression is recognised as a binder.\<close>

fun binder_free :: "expr \<Rightarrow> bool" where
  "binder_free (Add ts) = (\<forall>t \<in> set ts. binder_free t)"
| "binder_free (Mul ts) = (\<forall>t \<in> set ts. binder_free t)"
| "binder_free (Pow b e) = (binder_free b \<and> binder_free e)"
| "binder_free (Function name args) =
     (try_from_expr (Function name args) = None \<and> (\<forall>a \<in> set args. binder_free a))"
| "binder_free _ = True"

lemma strict_defined: "strict f vs \<noteq> None \<Longrightarrow> v \<in> set vs \<Longrightarrow> v \<noteq> None"
proof -
  have "those vs \<noteq> None \<Longrightarrow> v \<in> set vs \<Longrightarrow> v \<noteq> None"
    by (induction vs) (auto split: option.splits)
  then show "strict f vs \<noteq> None \<Longrightarrow> v \<in> set vs \<Longrightarrow> v \<noteq> None"
    by (auto simp: strict_def bind_eq_None_conv)
qed

lemma those_defined: "(\<And>v. v \<in> set vs \<Longrightarrow> v \<noteq> None) \<Longrightarrow> \<exists>ws. those vs = Some ws"
  by (induction vs) force+

text \<open>
  What a traversal adds: obligations that a defined expression meets, and that suffice for it and
  its atoms to be defined.
\<close>

definition defd :: "interp \<Rightarrow> valuation \<Rightarrow> expr \<Rightarrow> bool" where
  "defd I \<sigma> e \<longleftrightarrow> eval I e \<sigma> \<noteq> None"

definition obliges_all :: "interp \<Rightarrow> valuation \<Rightarrow> expr set \<Rightarrow> expr set \<Rightarrow> expr set \<Rightarrow> bool" where
  "obliges_all I \<sigma> es before after \<longleftrightarrow>
     before \<subseteq> after
     \<and> ((\<forall>e \<in> es. defd I \<sigma> e) \<longrightarrow> (\<forall>ob \<in> after - before. defd I \<sigma> ob))
     \<and> ((\<forall>ob \<in> after. defd I \<sigma> ob) \<longrightarrow>
          (\<forall>e \<in> es. defd I \<sigma> e \<and> (\<forall>a \<in> function_atoms e. defd I \<sigma> a)))"

abbreviation obliges :: "interp \<Rightarrow> valuation \<Rightarrow> expr \<Rightarrow> expr set \<Rightarrow> expr set \<Rightarrow> bool" where
  "obliges I \<sigma> e \<equiv> obliges_all I \<sigma> {e}"

lemma obliges_empty: "obliges_all I \<sigma> {} obs obs"
  by (simp add: obliges_all_def)

lemma obliges_union:
  "obliges_all I \<sigma> es before mid \<Longrightarrow> obliges_all I \<sigma> es' mid after \<Longrightarrow> obliges_all I \<sigma> (es \<union> es') before after"
  unfolding obliges_all_def by blast

lemma obliges_children:
  assumes "rfold (\<lambda>c. collect_partial_domain_obligations c depth) cs (b, before) = Inr (b', after)"
    and "\<And>c b before b' after. c \<in> set cs \<Longrightarrow>
      collect_partial_domain_obligations c depth (b, before) = Inr (b', after) \<Longrightarrow> obliges I \<sigma> c before after"
  shows "obliges_all I \<sigma> (set cs) before after"
  using assms
proof (induction cs arbitrary: b before)
  case (Cons c cs)
  obtain b1 mid where run: "collect_partial_domain_obligations c depth (b, before) = Inr (b1, mid)"
      "rfold (\<lambda>c. collect_partial_domain_obligations c depth) cs (b1, mid) = Inr (b', after)"
    using Cons.prems(1) by auto
  have "obliges I \<sigma> c before mid" by (rule Cons.prems(2) [OF _ run(1)]) simp
  moreover have "obliges_all I \<sigma> (set cs) mid after"
    by (rule Cons.IH [OF run(2)], rule Cons.prems(2)) simp_all
  ultimately show ?case using obliges_union by fastforce
qed (simp add: obliges_empty)

lemma obliges_defd:
  assumes "obliges I \<sigma> e {} obs"
  shows "defd I \<sigma> e \<longleftrightarrow> (\<forall>ob \<in> obs. defd I \<sigma> ob)"
    and "defd I \<sigma> e \<Longrightarrow> a \<in> function_atoms e \<Longrightarrow> defd I \<sigma> a"
  using assms unfolding obliges_all_def by blast+

text \<open>From the parts to the whole, where the parts suffice, and where the whole is an obligation.\<close>

lemma obliges_parts:
  assumes "obliges_all I \<sigma> es before after"
    and "\<And>c. defd I \<sigma> e \<Longrightarrow> c \<in> es \<Longrightarrow> defd I \<sigma> c"
    and "(\<And>c. c \<in> es \<Longrightarrow> defd I \<sigma> c) \<Longrightarrow> defd I \<sigma> e"
    and "function_atoms e \<subseteq> insert e (\<Union>c \<in> es. function_atoms c)"
  shows "obliges I \<sigma> e before after"
  using assms unfolding obliges_all_def by blast

lemma obliges_itself:
  assumes "obliges_all I \<sigma> es before mid"
    and "\<And>c. defd I \<sigma> e \<Longrightarrow> c \<in> es \<Longrightarrow> defd I \<sigma> c"
    and "function_atoms e \<subseteq> insert e (\<Union>c \<in> es. function_atoms c)"
  shows "obliges I \<sigma> e before (insert e mid)"
  using assms unfolding obliges_all_def by blast

lemma defd_strict:
  assumes "eval I e \<sigma> = strict f (map (\<lambda>c. eval I c \<sigma>) cs)" and "defd I \<sigma> e" and "c \<in> set cs"
  shows "defd I \<sigma> c"
  using strict_defined [of f "map (\<lambda>c. eval I c \<sigma>) cs" "eval I c \<sigma>"] assms by (simp add: defd_def)

lemma defd_total:
  assumes "eval I e \<sigma> = strict (\<lambda>vs. Some (f vs)) (map (\<lambda>c. eval I c \<sigma>) cs)"
    and "\<And>c. c \<in> set cs \<Longrightarrow> defd I \<sigma> c"
  shows "defd I \<sigma> e"
  using those_defined [of "map (\<lambda>c. eval I c \<sigma>) cs"] assms by (force simp: defd_def strict_def)

lemma nonzero_constants:
  assumes "directly_nonzero_finite b" and "eval I b \<sigma> = Some z"
  shows "z \<noteq> 0"
proof (cases b)
  case (Const c)
  then have "c \<in> {CPi, CE, CI}" using assms(1) by simp
  then show ?thesis using assms(2) Const by (elim insertE emptyE) auto
qed (use assms in auto)

lemma defined_integer_power:
  assumes "defined_integer_power b x" and "defd I \<sigma> b"
  shows "defd I \<sigma> (Pow b x)"
proof -
  obtain z where z: "eval I b \<sigma> = Some z" using assms(2) by (auto simp: defd_def)
  obtain n where x: "x = IntegerLit n" and n: "0 < n \<or> directly_nonzero_finite b"
    using assms(1) by (auto simp: defined_integer_power_def split: expr.splits)
  have "0 < n \<or> z \<noteq> 0" using n nonzero_constants [OF _ z] by blast
  then have "power_value z (of_int n) \<noteq> None" unfolding power_value_def by (simp split: if_splits) linarith
  then show ?thesis by (simp add: x z defd_def)
qed

lemma at_zero_names:
  "{''tan'', ''tanh'', ''asin'', ''atan'', ''asinh'', ''atanh'', ''erf'', ''sec'', ''sech'', ''sinc'', ''erfc''}
    \<subseteq> zero_at_zero \<union> one_at_zero"
  by (simp add: function_names)

context elementary_interp
begin

lemma directly_defined:
  assumes "directly_defined_function name args" and "\<And>a. a \<in> set args \<Longrightarrow> defd I \<sigma> a"
    and none: "try_from_expr (Function name args) = None"
  shows "defd I \<sigma> (Function name args)"
proof -
  obtain a where args: "args = [a]" using assms(1) by (auto simp: directly_defined_function_def split: list.splits)
  obtain z where z: "eval I a \<sigma> = Some z" using assms(2) [of a] args by (auto simp: defd_def)
  have zero: "z = 0" if "is_zero_expr a" using that z by (cases a) auto
  have one: "z = 1" if "is_one_expr a" using that z by (cases a) auto
  consider "name \<in> entire_functions" | "is_zero_expr a" "name \<in> zero_at_zero \<union> one_at_zero"
    | "is_one_expr a" "name \<in> zero_at_one"
    using assms(1) at_zero_names unfolding directly_defined_function_def args list.case
    unfolding function_names [symmetric] by blast
  then have "i_fun I name [z] \<noteq> None"
  proof cases
    case 1
    then show ?thesis by (rule entire)
  next
    case 2
    then show ?thesis using at_zero [of name] at_zero_one [of name] zero by auto
  next
    case 3
    then show ?thesis using at_one [of name] one by auto
  qed
  then show ?thesis by (simp add: eval_application [OF none [unfolded args]] args z strict_def defd_def)
qed

theorem obligations_sound:
  "binder_free e \<Longrightarrow> collect_partial_domain_obligations e depth (b, before) = Inr (b', after) \<Longrightarrow>
    obliges I \<sigma> e before after"
proof (induction e arbitrary: depth b before b' after)
  case (Add ts)
  obtain b1 where run: "rfold (\<lambda>c. collect_partial_domain_obligations c (depth + 1)) ts (b1, before) = Inr (b', after)"
    using Add.prems(2) [unfolded collect_partial_domain_obligations.simps [of "Add ts"]] by auto
  have "obliges_all I \<sigma> (set ts) before after"
    by (rule obliges_children [OF run], rule Add.IH, assumption) (use Add.prems(1) in auto)
  then show ?case
    by (rule obliges_parts [OF _ defd_strict [OF eval.simps(5)] defd_total [OF eval.simps(5)]]) auto
next
  case (Mul ts)
  obtain b1 where run: "rfold (\<lambda>c. collect_partial_domain_obligations c (depth + 1)) ts (b1, before) = Inr (b', after)"
    using Mul.prems(2) [unfolded collect_partial_domain_obligations.simps [of "Mul ts"]] by auto
  have "obliges_all I \<sigma> (set ts) before after"
    by (rule obliges_children [OF run], rule Mul.IH, assumption) (use Mul.prems(1) in auto)
  then show ?case
    by (rule obliges_parts [OF _ defd_strict [OF eval.simps(6)] defd_total [OF eval.simps(6)]]) auto
next
  case (Pow x y)
  obtain b1 b2 mid b3 last where run: "collect_partial_domain_obligations x (depth + 1) (b1, before) = Inr (b2, mid)"
      "collect_partial_domain_obligations y (depth + 1) (b2, mid) = Inr (b3, last)"
      "after = (if defined_integer_power x y then last else insert (Pow x y) last)"
    using Pow.prems(2) [unfolded collect_partial_domain_obligations.simps [of "Pow x y"]] by auto
  have parts: "obliges_all I \<sigma> ({x} \<union> {y}) before last"
    by (rule obliges_union, rule Pow.IH(1) [OF _ run(1)], use Pow.prems in simp,
        rule Pow.IH(2) [OF _ run(2)], use Pow.prems in simp)
  have down: "defd I \<sigma> c" if "defd I \<sigma> (Pow x y)" "c \<in> {x} \<union> {y}" for c
    using that by (auto simp: defd_def bind_eq_None_conv)
  show ?case
  proof (cases "defined_integer_power x y")
    case True
    have "obliges I \<sigma> (Pow x y) before last"
      by (rule obliges_parts [OF parts down], assumption+, rule defined_integer_power [OF True]) auto
    then show ?thesis using run(3) True by simp
  next
    case False
    have "obliges I \<sigma> (Pow x y) before (insert (Pow x y) last)"
      by (rule obliges_itself [OF parts down], assumption+) auto
    then show ?thesis using run(3) False by simp
  qed
next
  case (Function name args)
  have none: "try_from_expr (Function name args) = None" using Function.prems(1) by simp
  obtain b1 b2 last where run: "rfold (\<lambda>c. collect_partial_domain_obligations c (depth + 1)) args (b1, before) = Inr (b2, last)"
      "after = (if directly_defined_function name args then last else insert (Function name args) last)"
    using Function.prems(2) [unfolded collect_partial_domain_obligations.simps [of "Function name args"]] by auto
  have parts: "obliges_all I \<sigma> (set args) before last"
    by (rule obliges_children [OF run(1)], rule Function.IH, assumption) (use Function.prems(1) in auto)
  note down = defd_strict [OF eval_application [OF none]]
  show ?case
  proof (cases "directly_defined_function name args")
    case True
    have "obliges I \<sigma> (Function name args) before last"
      by (rule obliges_parts [OF parts down], assumption+, rule directly_defined [OF True _ none]) auto
    then show ?thesis using run(2) True by simp
  next
    case False
    have "obliges I \<sigma> (Function name args) before (insert (Function name args) last)"
      by (rule obliges_itself [OF parts down], assumption+) auto
    then show ?thesis using run(2) False by simp
  qed
next
  case (Const c)
  have "after = before" "c \<in> {CPi, CE, CI}"
    using Const.prems(2) [unfolded collect_partial_domain_obligations.simps [of "Const c"]] by (auto split: if_splits)
  then show ?case by (auto simp: obliges_all_def defd_def)
qed (auto simp: obliges_all_def defd_def collect_partial_domain_obligations.simps [of "IntegerLit _"]
    collect_partial_domain_obligations.simps [of "RationalLit _"] collect_partial_domain_obligations.simps [of "Sym _"])

lemma atoms_pythagorean:
  assumes "\<And>a. a \<in> A \<Longrightarrow> eval I a \<sigma> \<noteq> None \<and> (\<forall>f u. a = Function f [u] \<longrightarrow> try_from_expr a = None)"
  shows "pythagorean_atoms (atom_values I \<sigma>) A"
  unfolding pythagorean_atoms_def
proof (intro allI impI)
  fix f g u family
  assume mem: "Function f [u] \<in> A" "Function g [u] \<in> A"
    and slots: "pythagorean_slot f = Some (family, 0)" "pythagorean_slot g = Some (family, 1)"
  have val: "\<exists>z. eval I u \<sigma> = Some z \<and> i_fun I h [z] = Some (atom_values I \<sigma> (Function h [u]))"
    if "Function h [u] \<in> A" for h
  proof -
    have d: "eval I (Function h [u]) \<sigma> \<noteq> None" "try_from_expr (Function h [u]) = None"
      using assms [OF that] by auto
    obtain z where z: "eval I u \<sigma> = Some z"
      using d by (cases "eval I u \<sigma>") (auto simp: eval_application strict_def)
    then have "eval I (Function h [u]) \<sigma> = i_fun I h [z]"
      by (simp add: eval_application [OF d(2)] strict_def)
    then show ?thesis using z d(1) by (auto simp: atom_values_def)
  qed
  obtain z where z: "i_fun I f [z] = Some (atom_values I \<sigma> (Function f [u]))"
      "i_fun I g [z] = Some (atom_values I \<sigma> (Function g [u]))"
    using val [OF mem(1)] val [OF mem(2)] by auto
  show "if family = 0 then (atom_values I \<sigma> (Function f [u]))\<^sup>2 + (atom_values I \<sigma> (Function g [u]))\<^sup>2 = 1
      else (atom_values I \<sigma> (Function f [u]))\<^sup>2 - (atom_values I \<sigma> (Function g [u]))\<^sup>2 = 1"
    using slots z sin_cos sec_tan csc_cot cosh_sinh
    by (auto simp: pythagorean_slot_def split: if_splits)
qed

end

section \<open>Atoms of a normal form\<close>

definition over :: "expr set \<Rightarrow> polynomial \<Rightarrow> bool" where
  "over A p \<longleftrightarrow> (\<forall>(m, c) \<in> set p. fst ` set m \<subseteq> A)"

lemma over_simps [simp]:
  "over A []" "over A ((m, c) # p) \<longleftrightarrow> fst ` set m \<subseteq> A \<and> over A p"
  "over A (constant_polynomial c)" "over A (atomic_polynomial a) \<longleftrightarrow> a \<in> A"
  by (auto simp: over_def constant_polynomial_def atomic_polynomial_def)

lemma overD: "over A p \<Longrightarrow> (m, c) \<in> set p \<Longrightarrow> fst ` set m \<subseteq> A"
  unfolding over_def by blast

lemma over_poly_atoms: "over A p \<Longrightarrow> poly_atoms p \<subseteq> A"
  unfolding over_def poly_atoms_def by fastforce

lemma over_insert:
  assumes "insert_coefficient p m c = Inr q" and "over A p" and "fst ` set m \<subseteq> A"
  shows "over A q"
proof -
  have "set q \<subseteq> set p \<union> {m} \<times> UNIV"
  proof -
    obtain d where "q = bt_remove m p \<or> q = bt_insert m d (bt_remove m p)"
      using assms(1) by (auto simp: insert_coefficient_def Let_def split: if_splits)
    then show ?thesis using set_bt_insert [of m d "bt_remove m p"] set_bt_remove [of m p] by auto
  qed
  then show ?thesis using assms(2,3) unfolding over_def by blast
qed

lemma multiply_monomials_atoms:
  "multiply_monomials l r = Inr m \<Longrightarrow> fst ` set m = fst ` set l \<union> fst ` set r"
proof -
  have "rfold add_exponent fs n = Inr m \<Longrightarrow> fst ` set m = fst ` set fs \<union> fst ` set n" for fs n
  proof (induction fs arbitrary: n)
    case (Cons f fs)
    obtain n' where "add_exponent f n = Inr n'" "rfold add_exponent fs n' = Inr m"
      using Cons.prems by auto
    moreover from this obtain k where "n' = bt_insert (fst f) k n" by (auto simp: add_exponent_def Let_def)
    ultimately have k: "rfold add_exponent fs (bt_insert (fst f) k n) = Inr m" by simp
    show ?case using Cons.IH [OF k] by auto
  qed simp
  then show "multiply_monomials l r = Inr m \<Longrightarrow> ?thesis" by (simp add: multiply_monomials_def image_Un)
qed

lemma over_add:
  assumes "add_polynomials l r = Inr s" and "over A l" and "over A r"
  shows "over A s"
proof (rule rfold_invariant [OF assms(1) [unfolded add_polynomials_def], where P = "over A", OF assms(2)])
  fix e s t
  assume e: "e \<in> set r" "over A s" "(case e of (m, c) \<Rightarrow> \<lambda>sum. insert_coefficient sum m c) s = Inr t"
  obtain m c where mc: "e = (m, c)" by (cases e)
  show "over A t"
    by (rule over_insert [OF e(3) [unfolded mc prod.case] e(2) overD [OF assms(3)]]) (use e mc in simp)
qed

lemma over_multiply:
  assumes "multiply_polynomials l r = Inr s" and "over A l" and "over A r"
  shows "over A s"
proof (cases "l = [] \<or> r = []")
  case True
  then show ?thesis using assms(1) by (auto simp: multiply_polynomials_def)
next
  case False
  let ?entry = "\<lambda>m c (n, d) product. rbind (multiply_monomials m n) (\<lambda>k. insert_coefficient product k (c * d))"
  have entry: "over A t" if h: "(m, c) \<in> set l" "e \<in> set r" "over A s" "?entry m c e s = Inr t"
    for m c s t and e :: "monomial \<times> rat"
  proof -
    obtain n d k where e: "e = (n, d)" "multiply_monomials m n = Inr k" "insert_coefficient s k (c * d) = Inr t"
      using h(4) by (cases e) auto
    have "fst ` set k \<subseteq> A"
      using multiply_monomials_atoms [OF e(2)] overD [OF assms(2) h(1)] overD [OF assms(3)] h(2) e(1)
      by blast
    then show ?thesis by (rule over_insert [OF e(3) h(3)])
  qed
  have "rfold (\<lambda>(m, c). rfold (?entry m c) r) l [] = Inr s"
    using assms(1) False by (auto simp: multiply_polynomials_def)
  then show ?thesis
  proof (rule rfold_invariant [where P = "over A"])
    fix x s t
    assume x: "x \<in> set l" "over A s" "(case x of (m, c) \<Rightarrow> rfold (?entry m c) r) s = Inr t"
    obtain m c where mc: "x = (m, c)" by (cases x)
    show "over A t"
      by (rule rfold_invariant [OF x(3) [unfolded mc prod.case], where P = "over A", OF x(2)])
        (rule entry, use x(1) mc in simp_all)
  qed simp
qed

lemma over_pow_loop:
  "pow_loop_polynomial r b n = Inr p \<Longrightarrow> over A r \<Longrightarrow> over A b \<Longrightarrow> over A p"
proof (induction r b n rule: pow_loop_polynomial.induct)
  case (1 r b n)
  note run = "1.prems"(1) [unfolded pow_loop_polynomial.simps [of r b n]]
  show ?case
  proof (cases "n = 0")
    case False
    obtain r1 b1 where r1: "(if odd n then multiply_polynomials r b else Inr r) = Inr r1"
      and b1: "(if 0 < n div 2 then multiply_polynomials b b else Inr b) = Inr b1"
      and rest: "pow_loop_polynomial r1 b1 (n div 2) = Inr p"
      using run False by (auto simp: Let_def)
    have "over A r1" "over A b1"
      using r1 b1 over_multiply "1.prems"(2,3) by (auto split: if_splits)
    then show ?thesis by (rule "1.IH" [OF False r1 refl b1 rest])
  qed (use run "1.prems" in auto)
qed

lemma normalize_inner_within:
  assumes "normalize_inner apps e depth b = Inr (p, b')" and "function_atoms e \<subseteq> A"
    and "range Sym \<subseteq> A" and "Const ` {CPi, CE, CI} \<subseteq> A"
  shows "over A p"
  using assms(1,2)
proof (induction e arbitrary: depth b p b')
  case (Add ts)
  obtain b where "rfold (\<lambda>term (sum, budget).
      rbind (normalize_inner apps term (depth + 1) budget) (\<lambda>(p, budget).
      rbind (add_polynomials sum p) (\<lambda>sum. Inr (sum, budget)))) ts ([], b) = Inr (p, b')"
    using Add.prems(1) [unfolded normalize_inner.simps [of apps "Add ts"]] by auto
  then have "over A (fst (p, b'))"
  proof (rule rfold_invariant [where P = "\<lambda>s. over A (fst s)"])
    fix t s s'
    assume t: "t \<in> set ts" "over A (fst s)" "(case s of (s, budget) \<Rightarrow>
      rbind (normalize_inner apps t (depth + 1) budget) (\<lambda>(p, budget).
      rbind (add_polynomials s p) (\<lambda>s. Inr (s, budget)))) = Inr s'"
    obtain q b2 b3 where q: "normalize_inner apps t (depth + 1) b2 = Inr (q, b3)"
        "add_polynomials (fst s) q = Inr (fst s')"
      using t(3) by (cases s) auto
    have "over A q" by (rule Add.IH [OF t(1) q(1)]) (use Add.prems(2) t(1) in auto)
    then show "over A (fst s')" by (rule over_add [OF q(2) t(2)])
  qed simp
  then show ?case by simp
next
  case (Mul ts)
  obtain b where "rfold (\<lambda>factor (product, budget).
      rbind (normalize_inner apps factor (depth + 1) budget) (\<lambda>(p, budget).
      rbind (multiply_polynomials product p) (\<lambda>product. Inr (product, budget)))) ts (constant_polynomial 1, b)
      = Inr (p, b')"
    using Mul.prems(1) [unfolded normalize_inner.simps [of apps "Mul ts"]] by auto
  then have "over A (fst (p, b'))"
  proof (rule rfold_invariant [where P = "\<lambda>s. over A (fst s)"])
    fix t s s'
    assume t: "t \<in> set ts" "over A (fst s)" "(case s of (product, budget) \<Rightarrow>
      rbind (normalize_inner apps t (depth + 1) budget) (\<lambda>(p, budget).
      rbind (multiply_polynomials product p) (\<lambda>product. Inr (product, budget)))) = Inr s'"
    obtain q b2 b3 where q: "normalize_inner apps t (depth + 1) b2 = Inr (q, b3)"
        "multiply_polynomials (fst s) q = Inr (fst s')"
      using t(3) by (cases s) auto
    have "over A q" by (rule Mul.IH [OF t(1) q(1)]) (use Mul.prems(2) t(1) in auto)
    then show "over A (fst s')" by (rule over_multiply [OF q(2) t(2)])
  qed simp
  then show ?case by simp
next
  case (Pow base x)
  obtain b n q b' where run: "normalize_inner apps base (depth + 1) b = Inr (q, b')" "pow_polynomial q n = Inr p"
    using Pow.prems(1) [unfolded normalize_inner.simps [of apps "Pow base x"]]
    by (auto split: option.splits)
  have "over A q" by (rule Pow.IH(1) [OF run(1)]) (use Pow.prems(2) in auto)
  then show ?case by (rule over_pow_loop [OF run(2) [unfolded pow_polynomial_def], rotated]) simp
next
  case (Function name args)
  then show ?case
    by (auto simp: normalize_inner.simps [of apps "Function name args"] split: if_splits)
next
  case (Const c)
  then have "p = atomic_polynomial (Const c)" "c \<in> {CPi, CE, CI}"
    by (auto simp: normalize_inner.simps [of apps "Const c"] split: if_splits)
  then show ?case using subsetD [OF assms(4) imageI] by simp
next
  case (IntegerLit n)
  then show ?case by (auto simp: normalize_inner.simps [of apps "IntegerLit n"])
next
  case (RationalLit q)
  then show ?case by (auto simp: normalize_inner.simps [of apps "RationalLit q"])
next
  case (Sym s)
  then have "p = atomic_polynomial (Sym s)" by (auto simp: normalize_inner.simps [of apps "Sym s"])
  then show ?case using subsetD [OF assms(3) rangeI] by simp
qed

section \<open>The reduction\<close>

lemma binder_free_atoms:
  "binder_free e \<Longrightarrow> Function name args \<in> function_atoms e \<Longrightarrow> try_from_expr (Function name args) = None"
  by (induction e) auto

context elementary_interp
begin

lemma atoms_pythagorean_normal:
  assumes "normalize_function_polynomial e = Inr p" and "binder_free e"
    and "\<And>a. a \<in> function_atoms e \<Longrightarrow> defd I \<sigma> a"
  shows "pythagorean_atoms (atom_values I \<sigma>) (poly_atoms p)"
proof (rule atoms_pythagorean)
  fix a
  assume "a \<in> poly_atoms p"
  moreover have "over (function_atoms e \<union> range Sym \<union> Const ` {CPi, CE, CI}) p"
    using assms(1) by (auto simp: normalize_function_polynomial_def intro: normalize_inner_within)
  ultimately have mem: "a \<in> function_atoms e \<union> range Sym \<union> Const ` {CPi, CE, CI}"
    using over_poly_atoms by blast
  show "eval I a \<sigma> \<noteq> None \<and> (\<forall>f u. a = Function f [u] \<longrightarrow> try_from_expr a = None)"
    using mem assms(3) binder_free_atoms [OF assms(2)] by (auto simp: defd_def)
qed

theorem check_pythagorean_identity_sound:
  assumes "check_pythagorean_identity lhs rhs = Inr u" and "binder_free lhs" and "binder_free rhs"
  shows "eval I lhs \<sigma> = eval I rhs \<sigma>"
proof -
  obtain obs p q where obs: "partial_domain_obligations lhs = Inr obs" "partial_domain_obligations rhs = Inr obs"
    and norm: "normalize_function_polynomial lhs = Inr p" "normalize_function_polynomial rhs = Inr q"
    and cancel: "cancel_pythagorean_pairs p = q"
    using assms(1) by (auto simp: check_pythagorean_identity_def)
  obtain b b' where run: "collect_partial_domain_obligations lhs 0 (MAX_NORMAL_FORM_INPUT_NODES, {}) = Inr (b, obs)"
      "collect_partial_domain_obligations rhs 0 (MAX_NORMAL_FORM_INPUT_NODES, {}) = Inr (b', obs)"
    using obs by (auto simp: partial_domain_obligations_def)
  note obl = obligations_sound [OF assms(2) run(1), of \<sigma>] obligations_sound [OF assms(3) run(2), of \<sigma>]
  have same: "defd I \<sigma> lhs \<longleftrightarrow> defd I \<sigma> rhs"
    by (simp only: obliges_defd(1) [OF obl(1)] obliges_defd(1) [OF obl(2)])
  show ?thesis
  proof (cases "defd I \<sigma> lhs")
    case True
    note atoms = obliges_defd(2) [OF obl(1) True] obliges_defd(2) [OF obl(2) True [unfolded same]]
    have p: "poly_ok p \<and> eval I lhs \<sigma> = Some (poly_value (atom_values I \<sigma>) p)"
      by (rule normalize_function_polynomial_sound [OF norm(1)]) (rule atoms(1) [unfolded defd_def])
    have q: "poly_ok q \<and> eval I rhs \<sigma> = Some (poly_value (atom_values I \<sigma>) q)"
      by (rule normalize_function_polynomial_sound [OF norm(2)]) (rule atoms(2) [unfolded defd_def])
    have "pythagorean_atoms (atom_values I \<sigma>) (poly_atoms p)"
      by (rule atoms_pythagorean_normal [OF norm(1) assms(2) atoms(1)])
    from cancel_pythagorean_pairs_value [OF _ this] show ?thesis using p q cancel by simp
  next
    case False
    then show ?thesis using same by (simp add: defd_def)
  qed
qed

end

end
