(* ===== verification/Kernel_Sound.thy ===== *)
theory Kernel_Sound
  imports Kernel_Sessions Ball_Sound Rabin_Sound Pythagorean_Sound Facts_Sound Substitution
begin

text \<open>
  Soundness of the kernel. A claim is read over all valuations (an equality says that both sides have
  the same value or neither has one), the context's assumptions are the hypotheses under which its
  predicates and domains are claimed, and every rule that the checker accepts takes valid premises to
  a valid conclusion. Three rules need a guard, given by \<open>guarded\<close>.
\<close>

section \<open>Valid claims\<close>

definition context_holds :: "snapshot \<Rightarrow> valuation \<Rightarrow> bool" where
  "context_holds ctx \<sigma> \<longleftrightarrow>
     (\<forall>s. facts_hold (snapshot_deductions ctx s) (\<sigma> s))
     \<and> (\<forall>s d. snapshot_domain_of ctx s = Some d \<longrightarrow> domain_value d (\<sigma> s))"

fun claim_valid :: "interp \<Rightarrow> snapshot \<Rightarrow> claim \<Rightarrow> bool" where
  "claim_valid I ctx (Equality lhs rhs) = (\<forall>\<sigma>. eval I lhs \<sigma> = eval I rhs \<sigma>)"
| "claim_valid I ctx (AlgebraicIdentity lhs rhs) =
     (\<forall>\<sigma>. eval I lhs \<sigma> = eval I rhs \<sigma> \<and> eval I rhs \<sigma> \<noteq> None)"
| "claim_valid I ctx (PredicateHold e p) =
     (\<forall>\<sigma> z. context_holds ctx \<sigma> \<longrightarrow> eval I e \<sigma> = Some z \<longrightarrow> means p z)"
| "claim_valid I ctx (DomainMembership e d) =
     (\<forall>\<sigma> z. context_holds ctx \<sigma> \<longrightarrow> eval I e \<sigma> = Some z \<longrightarrow> domain_value d z)"
| "claim_valid I ctx (NonZeroClaim e) = (\<forall>\<sigma>. \<exists>z. eval I e \<sigma> = Some z \<and> z \<noteq> 0)"
| "claim_valid I ctx (IrreducibleModPrime cs p) =
     (is_prime (nat p) \<and> \<not> p dvd last cs \<and> irreducible_mod p cs)"

text \<open>
  A congruence under a function symbol must not build a binder on either side, the base of a zeroth
  power must be in the total fragment, and the Pythagorean reduction must not reach into binders.
\<close>

definition guarded :: "proof_rule \<Rightarrow> claim \<Rightarrow> bool" where
  "guarded rule cl =
     (case rule of
        CongruenceFunction _ _ \<Rightarrow>
          (case cl of Equality lhs rhs \<Rightarrow> try_from_expr lhs = None \<and> try_from_expr rhs = None | _ \<Rightarrow> True)
      | DefinitionalReduction lhs rhs rule_name \<Rightarrow>
          (rule_name = ''pow_zero_identity'' \<longrightarrow>
             (case lhs of Pow base _ \<Rightarrow> (case normalize_polynomial base of Inr _ \<Rightarrow> True | Inl _ \<Rightarrow> False) | _ \<Rightarrow> True))
          \<and> (rule_name = ''pythagorean_identity'' \<longrightarrow> binder_free lhs \<and> binder_free rhs)
      | _ \<Rightarrow> True)"

section \<open>Reductions\<close>

lemma reduce_if_Inr [simp]: "reduce_if ok name cl = Inr cl' \<longleftrightarrow> ok \<and> cl' = cl"
  by (auto simp: reduce_if_def)

lemma if_Inr_cases:
  "(if b then x else y) = Inr v \<Longrightarrow> (b \<Longrightarrow> x = Inr v \<Longrightarrow> R) \<Longrightarrow> (\<not> b \<Longrightarrow> y = Inr v \<Longrightarrow> R) \<Longrightarrow> R"
  by (simp split: if_splits)

lemma accepted_iff: "accepted r \<longleftrightarrow> r = Inr ()"
  by (auto simp: accepted_def split: sum.splits)

lemma normal_form_valid:
  "check_polynomial_normal_form lhs rhs = Inr u \<Longrightarrow> claim_valid I ctx (Equality lhs rhs)"
  "check_polynomial_normal_form lhs rhs = Inr u \<Longrightarrow> claim_valid I ctx (AlgebraicIdentity lhs rhs)"
  using check_polynomial_normal_form_sound [of lhs rhs u I] by (simp, simp only: claim_valid.simps) metis

lemma zero_value: "is_zero_expr t \<Longrightarrow> eval I t \<sigma> = Some 0"
  by (cases t) simp_all

lemma one_value: "is_one_expr t \<Longrightarrow> eval I t \<sigma> = Some 1"
  by (cases t) simp_all

lemma strict_Cons:
  "strict (\<lambda>vs. Some (sum_list vs)) (a # as)
     = Option.bind a (\<lambda>x. Option.bind (strict (\<lambda>vs. Some (sum_list vs)) as) (\<lambda>s. Some (x + s)))"
  "strict (\<lambda>vs. Some (prod_list vs)) (a # as)
     = Option.bind a (\<lambda>x. Option.bind (strict (\<lambda>vs. Some (prod_list vs)) as) (\<lambda>s. Some (x * s)))"
  by (cases a; cases "those as"; simp add: strict_def)+

lemma strict_Nil: "strict (\<lambda>vs. Some (g vs)) [] = Some (g [])"
  by (simp add: strict_def)

lemma drop_zeros: "eval I (Add (filter (\<lambda>t. \<not> is_zero_expr t) ts)) \<sigma> = eval I (Add ts) \<sigma>"
  by (induction ts) (auto simp: strict_Cons zero_value)

lemma drop_ones: "eval I (Mul (filter (\<lambda>t. \<not> is_one_expr t) ts)) \<sigma> = eval I (Mul ts) \<sigma>"
  by (induction ts) (auto simp: strict_Cons one_value)

lemma without_units_value:
  assumes "eval I neutral \<sigma> = eval I (build []) \<sigma>" and "\<And>t. eval I t \<sigma> = eval I (build [t]) \<sigma>"
  shows "eval I (without_units unit neutral build ts) \<sigma> = eval I (build (filter (\<lambda>t. \<not> unit t) ts)) \<sigma>"
  unfolding without_units_def using assms by (simp del: eval.simps split: list.splits)

lemma without_zeros: "eval I (without_units is_zero_expr (from_i64 0) Add ts) \<sigma> = eval I (Add ts) \<sigma>"
  by (subst drop_zeros [symmetric], rule without_units_value) (simp_all add: strict_Cons strict_Nil from_i64_def)

lemma without_ones: "eval I (without_units is_one_expr (from_i64 1) Mul ts) \<sigma> = eval I (Mul ts) \<sigma>"
  by (subst drop_ones [symmetric], rule without_units_value) (simp_all add: strict_Cons strict_Nil from_i64_def)

lemma literal_value: "literal_value t = Some v \<Longrightarrow> eval I t \<sigma> = Some (of_rat v)"
  by (auto simp: literal_value_def split: expr.splits)

lemma fold_literals:
  "fold_literals (+) ts acc = Some v \<Longrightarrow> \<exists>s. eval I (Add ts) \<sigma> = Some s \<and> of_rat v = of_rat acc + s"
  "fold_literals (*) ts acc = Some v \<Longrightarrow> \<exists>s. eval I (Mul ts) \<sigma> = Some s \<and> of_rat v = of_rat acc * s"
proof (induction ts arbitrary: acc)
  case (Cons t ts)
  { case 1
    then obtain w where w: "literal_value t = Some w" "fold_literals (+) ts (acc + w) = Some v"
      by (auto split: option.splits)
    from Cons.IH(1) [OF w(2)] show ?case
      by (auto simp: strict_Cons literal_value [OF w(1)] of_rat_add) }
  { case 2
    then obtain w where w: "literal_value t = Some w" "fold_literals (*) ts (acc * w) = Some v"
      by (auto split: option.splits)
    from Cons.IH(2) [OF w(2)] show ?case
      by (auto simp: strict_Cons literal_value [OF w(1)] of_rat_mult) }
qed (simp_all add: strict_Nil)

lemma integral_value: "denom v = 1 \<Longrightarrow> v = of_int (numer v)"
  using quotient_of_div [of v "numer v" "denom v"] unfolding numer_def denom_def
  by (metis div_by_1 of_int_1 prod.collapse)

lemma is_literal_of: "is_literal_of v e \<Longrightarrow> eval I e \<sigma> = Some (of_rat v)"
proof (cases e)
  case (IntegerLit n)
  assume "is_literal_of v e"
  then have "v = of_int n" using integral_value [of v] by (simp add: is_literal_of_def IntegerLit)
  then show ?thesis by (simp add: IntegerLit)
qed (simp_all add: is_literal_of_def)

lemma evaluates_to:
  "evaluates_to (+) 0 ts rhs \<Longrightarrow> eval I (Add ts) \<sigma> = eval I rhs \<sigma>"
  "evaluates_to (*) 1 ts rhs \<Longrightarrow> eval I (Mul ts) \<sigma> = eval I rhs \<sigma>"
  by (auto simp del: eval.simps simp: evaluates_to_def is_literal_of split: option.splits
      dest!: fold_literals [where I = I and \<sigma> = \<sigma>])

lemma zero_factor:
  assumes "eval I (Mul ts) \<sigma> \<noteq> None" and "list_ex is_zero_expr ts"
  shows "eval I (Mul ts) \<sigma> = Some 0"
proof -
  have "\<exists>z. strict (\<lambda>vs. Some (prod_list vs)) (map (\<lambda>t. eval I t \<sigma>) ts) = Some z
      \<Longrightarrow> list_ex is_zero_expr ts
      \<Longrightarrow> strict (\<lambda>vs. Some (prod_list vs)) (map (\<lambda>t. eval I t \<sigma>) ts) = Some 0"
    by (induction ts) (auto simp: strict_Cons zero_value bind_eq_Some_conv)
  then show ?thesis using assms by auto
qed

lemma power_value_0_1 [simp]: "power_value z 0 = Some 1" "power_value z 1 = Some z"
  by (simp_all add: power_value_def)

lemma unary_value:
  "name \<notin> {''Lambda'', ''Integral'', ''Derivative''} \<Longrightarrow> eval I arg \<sigma> = Some z \<Longrightarrow>
     eval I (Function name [arg]) \<sigma> = i_fun I name [z]"
  by (subst eval_application) (simp_all add: strict_def)

context elementary_interp
begin

lemma elementary_zero_eval:
  assumes "elementary_zero_eval lhs rhs"
  shows "eval I lhs \<sigma> = eval I rhs \<sigma>"
proof -
  obtain name arg where lhs: "lhs = Function name [arg]" and arg: "is_zero_expr arg"
    and cases: "name \<in> zero_at_zero \<and> is_zero_expr rhs \<or> name \<in> one_at_zero \<and> is_one_expr rhs"
    using assms unfolding zero_at_zero_def one_at_zero_def
    by (auto simp: elementary_zero_eval_def split: expr.splits list.splits)
  have "name \<notin> {''Lambda'', ''Integral'', ''Derivative''}"
    using cases by (auto simp: zero_at_zero_def one_at_zero_def)
  then have "eval I lhs \<sigma> = i_fun I name [0]" unfolding lhs by (rule unary_value) (rule zero_value [OF arg])
  then show ?thesis using cases at_zero at_zero_one zero_value one_value by metis
qed

lemma elementary_one_eval:
  assumes "elementary_one_eval lhs rhs"
  shows "eval I lhs \<sigma> = eval I rhs \<sigma>"
proof -
  obtain name arg where lhs: "lhs = Function name [arg]" and arg: "is_one_expr arg"
    and name: "name \<in> zero_at_one" and rhs: "is_zero_expr rhs"
    using assms unfolding zero_at_one_def
    by (auto simp: elementary_one_eval_def split: expr.splits list.splits)
  have "name \<notin> {''Lambda'', ''Integral'', ''Derivative''}" using name by (auto simp: zero_at_one_def)
  then have "eval I lhs \<sigma> = i_fun I name [1]" unfolding lhs by (rule unary_value) (rule one_value [OF arg])
  then show ?thesis using name rhs at_one zero_value by metis
qed

lemma check_definitional_reduction_sound:
  assumes "check_definitional_reduction lhs rhs name = Inr cl"
    and "guarded (DefinitionalReduction lhs rhs name) cl"
  shows "claim_valid I ctx cl"
proof -
  have fragment: "\<exists>z. eval I e \<sigma> = Some z" if "(case normalize_polynomial e of Inr _ \<Rightarrow> True | Inl _ \<Rightarrow> False)" for e \<sigma>
    using that normalize_polynomial_sound(2) [of e] by (cases "normalize_polynomial e") auto
  show ?thesis
    using assms(1) unfolding check_definitional_reduction_def
  proof (elim if_Inr_cases, goal_cases)
    case 1
    then show ?case by simp
  next
    case 2
    then show ?case using without_zeros by (cases lhs) auto
  next
    case 3
    then show ?case using without_ones by (cases lhs) auto
  next
    case 4
    then obtain ts where lhs: "lhs = Mul ts" and zero: "list_ex is_zero_expr ts" "is_zero_expr rhs"
        and total: "(case normalize_polynomial lhs of Inr _ \<Rightarrow> True | Inl _ \<Rightarrow> False)" and cl: "cl = Equality lhs rhs"
      by (cases lhs) auto
    have "eval I lhs \<sigma> = eval I rhs \<sigma>" for \<sigma>
    proof -
      have "eval I lhs \<sigma> \<noteq> None" using fragment [OF total, of \<sigma>] by auto
      then have "eval I lhs \<sigma> = Some 0" unfolding lhs by (rule zero_factor) (rule zero(1))
      then show ?thesis by (simp only: zero_value [OF zero(2)])
    qed
    then show ?case by (simp add: cl)
  next
    case 5
    then show ?case using evaluates_to(1) by (cases lhs) (auto simp del: eval.simps)
  next
    case 6
    then show ?case using evaluates_to(2) by (cases lhs) (auto simp del: eval.simps)
  next
    case 7
    then obtain b e where lhs: "lhs = Pow b e" and parts: "is_zero_expr e" "is_one_expr rhs" "cl = Equality lhs rhs"
        and total: "(case normalize_polynomial b of Inr _ \<Rightarrow> True | Inl _ \<Rightarrow> False)"
      using assms(2) by (cases lhs) (auto simp: guarded_def)
    have "eval I lhs \<sigma> = eval I rhs \<sigma>" for \<sigma>
      using fragment [OF total, of \<sigma>] parts by (auto simp: lhs zero_value one_value)
    then show ?case by (simp add: parts(3))
  next
    case 8
    then show ?case by (cases lhs) (auto simp: one_value split: Option.bind_splits)
  next
    case 9
    then show ?case by (simp add: elementary_zero_eval)
  next
    case 10
    then show ?case by (simp add: elementary_one_eval)
  next
    case 11
    then show ?case
      using assms(2) check_pythagorean_identity_sound [of lhs rhs] by (simp add: accepted_iff guarded_def)
  next
    case 12
    then show ?case by (simp add: accepted_iff normal_form_valid del: claim_valid.simps)
  next
    case 13
    then show ?case by (simp add: accepted_iff normal_form_valid del: claim_valid.simps)
  next
    case 14
    then show ?case by simp
  qed
qed

end

section \<open>Rules\<close>

definition claims_valid :: "interp \<Rightarrow> snapshot \<Rightarrow> claim_map \<Rightarrow> bool" where
  "claims_valid I ctx claims \<longleftrightarrow> (\<forall>i cl. claims i = Some cl \<longrightarrow> claim_valid I ctx cl)"

lemma congruence_claim_sound:
  assumes "congruence_claim claims current build ids = Inr cl" and "claims_valid I ctx claims"
    and "\<And>ls rs \<sigma>. cl = Equality (build ls) (build rs) \<Longrightarrow> map (\<lambda>e. eval I e \<sigma>) ls = map (\<lambda>e. eval I e \<sigma>) rs \<Longrightarrow>
      eval I (build ls) \<sigma> = eval I (build rs) \<sigma>"
  shows "claim_valid I ctx cl"
proof -
  obtain sides where sides: "rtraverse (equality_premise claims current) ids = Inr sides"
    and cl: "cl = Equality (build (map fst sides)) (build (map snd sides))"
    using assms(1) by (auto simp: congruence_claim_def)
  have "eval I (fst p) \<sigma> = eval I (snd p) \<sigma>" if p: "p \<in> set sides" for p \<sigma>
  proof -
    obtain i where "claims i = Some (Equality (fst p) (snd p))"
      using sides p by (auto simp: rtraverse_Inr_iff equality_premise_iff list_all2_conv_all_nth in_set_conv_nth)
    then have "claim_valid I ctx (Equality (fst p) (snd p))" using assms(2) unfolding claims_valid_def by blast
    then show ?thesis by simp
  qed
  then have "map (\<lambda>e. eval I e \<sigma>) (map fst sides) = map (\<lambda>e. eval I e \<sigma>) (map snd sides)" for \<sigma> by simp
  from assms(3) [OF cl this] show ?thesis by (simp add: cl)
qed

lemma coerced_value: "can_coerce_to d d' \<Longrightarrow> domain_value d z \<Longrightarrow> domain_value d' z"
  unfolding can_coerce_to_def coercion_to.simps [of d d']
  by (cases d; cases d') (auto intro: Rats_Reals Ints_subset_Rats [THEN subsetD] split: if_splits)

lemma context_domain_sound: "context_domain_holds ctx e d \<Longrightarrow> claim_valid I ctx (DomainMembership e d)"
  by (cases e)
    (auto simp: context_domain_holds_def context_holds_def split: option.splits
      intro: coerced_value [of ZZ] coerced_value [of QQ] coerced_value)

lemma dispatch_sound:
  assumes "dispatch_certificate_lemma family cl certificate = Inr cl'"
  shows "claim_valid I ctx cl'"
  using assms unfolding dispatch_certificate_lemma_def
proof (elim if_Inr_cases, goal_cases)
  case 1
  note ball = check_real_ball_certificate_sound [OF 1(2)]
  show ?case
  proof (cases cl)
    case (PredicateHold e p)
    then show ?thesis unfolding ball(1) using ball(3) [OF PredicateHold, of I] by simp (metis option.inject)?
  next
    case (DomainMembership e d)
    then show ?thesis unfolding ball(1) using ball(4) [OF DomainMembership, of I] by simp (metis option.inject)?
  next
    case (NonZeroClaim e)
    then show ?thesis unfolding ball(1) using ball(2) [OF NonZeroClaim, of I] by simp (metis option.inject)?
  qed (use 1(2) in \<open>auto simp: check_real_ball_certificate_def split: certificate_payload.splits\<close>)
next
  case 2
  then show ?case
    by (cases cl)
      (auto simp: check_polynomial_normal_form_certificate_def Let_def accepted_iff
        normal_form_valid simp del: claim_valid.simps split: if_splits)
next
  case 3
  then obtain cs p where claim: "cl = IrreducibleModPrime cs p" and cert: "certificate = RabinCertificate cs p"
    by (auto simp: check_rabin_irreducibility_certificate_def rabin_refusal_def
        split: claim.splits certificate_payload.splits if_splits)
  obtain ok where ok: "kernel_verify_rabin_irreducible_mod_prime cs p = Some ok"
    using verify_rabin_returns by blast
  then have "ok" "cl' = cl"
    using 3 by (auto simp: check_rabin_irreducibility_certificate_def rabin_refusal_def claim cert split: if_splits)
  then show ?case using verify_rabin_iff [of cs p] ok by (simp add: claim)
next
  case 4
  then show ?case by simp
qed

context real_interp
begin

theorem check_rule_application_sound:
  assumes "check_rule_application rule current claims ctx = Inr cl" and "claims_valid I ctx claims"
    and "guarded rule cl"
  shows "claim_valid I ctx cl"
proof -
  have run: "apply_rule rule current claims ctx = Inr cl" using assms(1) by (auto simp: check_rule_application_def)
  have prior: "claims i = Some c \<Longrightarrow> claim_valid I ctx c" for i c using assms(2) by (auto simp: claims_valid_def)
  show ?thesis
  proof (cases rule)
    case (Reflexivity e)
    then show ?thesis using run by auto
  next
    case (Symmetry i)
    then obtain l r where "claims i = Some (Equality l r)" "cl = Equality r l"
      using run by (auto simp: case_Equality_iff)
    then show ?thesis using prior by fastforce
  next
    case (Transitivity i j)
    then obtain l m r where "claims i = Some (Equality l m)" "claims j = Some (Equality m r)" "cl = Equality l r"
      using run by (auto simp: case_Equality_iff split: if_splits)
    moreover from this have "claim_valid I ctx (Equality l m)" "claim_valid I ctx (Equality m r)" using prior by blast+
    ultimately show ?thesis by simp
  next
    case (CongruenceAdd ids)
    then have "congruence_claim claims current Add ids = Inr cl" using run by (simp split: if_splits)
    then show ?thesis by (rule congruence_claim_sound [OF _ assms(2)]) simp
  next
    case (CongruenceMul ids)
    then have "congruence_claim claims current Mul ids = Inr cl" using run by (simp split: if_splits)
    then show ?thesis by (rule congruence_claim_sound [OF _ assms(2)]) simp
  next
    case (CongruencePow i j)
    then obtain bl br el er where "claims i = Some (Equality bl br)" "claims j = Some (Equality el er)"
        "cl = Equality (Pow bl el) (Pow br er)"
      using run by (auto simp: case_Equality_iff)
    moreover from this have "claim_valid I ctx (Equality bl br)" "claim_valid I ctx (Equality el er)"
      using prior by blast+
    ultimately show ?thesis by simp
  next
    case (CongruenceFunction name ids)
    then have "congruence_claim claims current (Function name) ids = Inr cl" using run by simp
    then show ?thesis
      by (rule congruence_claim_sound [OF _ assms(2)])
        (use assms(3) CongruenceFunction in \<open>auto simp: guarded_def eval_application simp del: try_from_expr.simps\<close>)
  next
    case (ContextPredicate e p)
    then have "snapshot_query ctx e p = EntailedTrue" "cl = PredicateHold e p"
      using run by (auto split: truth_value.splits)
    then show ?thesis using snapshot_query_sound by (auto simp: context_holds_def)
  next
    case (ContextDomain e d)
    then show ?thesis using run context_domain_sound by (auto split: if_splits)
  next
    case (SubstitutionRule template var i)
    then obtain l r l' r' where prem: "claims i = Some (Equality l r)" "cl = Equality l' r'"
        and subs: "capture_avoiding_subs template var l = Inr l'" "capture_avoiding_subs template var r = Inr r'"
      using run by (auto simp: case_Equality_iff)
    have "\<And>\<sigma>. eval I l \<sigma> = eval I r \<sigma>" using prior [OF prem(1)] by simp
    from subs_value_congruence [OF constant_derivative this subs] show ?thesis by (simp add: prem(2))
  next
    case (DefinitionalReduction lhs rhs name)
    then show ?thesis using run assms(3) check_definitional_reduction_sound by simp
  next
    case (CertificateLemma family c certificate)
    then show ?thesis using run dispatch_sound by simp
  qed
qed

end

section \<open>Derivations\<close>

definition derivation_guarded :: "derivation_tree \<Rightarrow> bool" where
  "derivation_guarded d \<longleftrightarrow> (\<forall>s \<in> set (tree_steps d). guarded (step_rule s) (step_claim s))"

context real_interp
begin

lemma verify_steps_sound:
  assumes "verify_steps ctx n steps claims = Inr claims'" and "claims_valid I ctx claims"
    and "\<forall>s \<in> set steps. guarded (step_rule s) (step_claim s)"
  shows "claims_valid I ctx claims'"
  using assms
proof (induction ctx n steps claims rule: verify_steps.induct)
  case (2 ctx n step steps claims)
  then have run: "check_rule_application (step_rule step) (step_ident step) claims ctx = Inr (step_claim step)"
      "verify_steps ctx (n + 1) steps (claims(step_ident step \<mapsto> step_claim step)) = Inr claims'"
      "\<not> 2 ^ 32 \<le> n" "step_ident step = of_nat n"
    by (auto split: if_splits)
  have "claim_valid I ctx (step_claim step)"
    by (rule check_rule_application_sound [OF run(1) 2(3)]) (use 2(4) in simp)
  then have "claims_valid I ctx (claims(step_ident step \<mapsto> step_claim step))"
    using 2(3) unfolding claims_valid_def by simp
  from 2(1) [OF run(3) _ run(1) _ run(2) this] show ?case using 2(4) run(4) by simp
qed simp

theorem verify_derivation_sound:
  assumes "verify_derivation_independent d ctx = Inr cl" and "derivation_guarded d"
  shows "claim_valid I ctx cl"
proof -
  obtain claims where claims: "verify_steps ctx 0 (tree_steps d) (\<lambda>_. None) = Inr claims" "claims (tree_root d) = Some cl"
    using assms(1) by (auto simp: verify_derivation_independent_def split: if_splits)
  have "claims_valid I ctx claims"
    by (rule verify_steps_sound [OF claims(1)]) (use assms(2) in \<open>simp_all add: claims_valid_def derivation_guarded_def\<close>)
  then show ?thesis using claims(2) by (simp add: claims_valid_def)
qed

text \<open>Every claim of a session whose steps are guarded is valid.\<close>

theorem session_claims_valid:
  assumes "session_invariant ctx k" and "\<forall>s \<in> set (pk_steps k). guarded (step_rule s) (step_claim s)"
  shows "claims_valid I ctx (pk_claims k)"
proof -
  have "verify_steps ctx 0 (pk_steps k) (\<lambda>_. None) = Inr (pk_claims k)"
    using assms(1) by (rule session_verify_steps)
  then show ?thesis by (rule verify_steps_sound) (use assms(2) in \<open>simp_all add: claims_valid_def\<close>)
qed

end

end
