(* ===== verification/Kernel_Export.thy ===== *)
theory Kernel_Export
  imports Kernel_Sessions
begin

text \<open>
  The export of a derivation. The traversal collects the steps that the root needs, the renumbering
  keeps the order, and a rule whose references are renamed is accepted with the same conclusion: an
  exported derivation replays to the claim of its root. The only refusal left to the verifier is a
  limit, for the limits of a session are per step and those of a derivation are cumulative.
\<close>

section \<open>Refusals by a limit\<close>

definition limit_only :: "kernel_error + 'a \<Rightarrow> bool" where
  "limit_only r \<longleftrightarrow> (\<forall>e. r = Inl e \<longrightarrow> (\<exists>resource limit. e = DerivationLimitExceeded resource limit))"

named_theorems limits

lemma limit_only_Inr [limits]: "limit_only (Inr x)"
  by (simp add: limit_only_def)

lemma limit_only_Inl [limits]: "limit_only (Inl (DerivationLimitExceeded resource limit))"
  by (simp add: limit_only_def)

lemma limit_only_rbind [limits]: "limit_only r \<Longrightarrow> (\<And>x. limit_only (f x)) \<Longrightarrow> limit_only (rbind r f)"
  by (cases r) (simp_all add: limit_only_def)

lemma limit_only_if [limits]: "limit_only r \<Longrightarrow> limit_only s \<Longrightarrow> limit_only (if b then r else s)"
  by simp

lemma limit_only_rfold [limits]: "(\<And>x s. limit_only (f x s)) \<Longrightarrow> limit_only (rfold f xs s)"
  by (induction xs arbitrary: s) (simp_all add: limits)

lemma add_limits [limits]:
  "limit_only (add_bounded v a l res)" "limit_only (add_work a pf)" "limit_only (add_text t pf)"
  "limit_only (add_references a pf)" "limit_only (add_numeric_limbs a pf)"
  "limit_only (ensure_expression_children_fit n pf)"
  unfolding add_bounded_def add_work_def add_text_def add_references_def add_numeric_limbs_def
    ensure_expression_children_fit_def
  by (intro limits)+

lemma visit_payload_limits [limits]: "limit_only (visit_payload e pf)"
  by (cases e) (simp_all add: limits)

lemma visit_expr_loop_limits: "limit_only (visit_expr_loop stack pf)"
proof (induction stack pf rule: visit_expr_loop.induct)
  case (2 current depth stack pf)
  have "limit_only (visit_node depth pf)" unfolding visit_node_def by (intro limits)
  moreover have "limit_only (rbind (visit_payload current pf') (\<lambda>pf.
      visit_expr_loop (map (\<lambda>c. (c, depth + 1)) (children current) @ stack) pf))"
    if "visit_node depth pf = Inr pf'" for pf'
    using 2 [OF that] visit_payload_limits [of current pf']
    by (cases "visit_payload current pf'") (simp_all add: limit_only_def)
  ultimately show ?case by (cases "visit_node depth pf") (simp_all add: limit_only_def)
qed (simp add: limits)

lemma visit_expr_limits [limits]: "limit_only (visit_expr e pf)"
  unfolding visit_expr_def by (rule visit_expr_loop_limits)

lemma visit_domain_at_limits: "limit_only (visit_domain_at d depth pf)"
proof (induction d arbitrary: depth pf)
  case (PolyRing d gs)
  then show ?case
    by (subst visit_domain_at.simps)
      (auto intro!: limits simp: visit_domain_node_def visit_generators_def)
next
  case (FractionField d gs)
  then show ?case
    by (subst visit_domain_at.simps)
      (auto intro!: limits simp: visit_domain_node_def visit_generators_def)
qed (subst visit_domain_at.simps, auto intro!: limits simp: visit_domain_node_def)+

lemma visit_modular_limits [limits]: "limit_only (visit_modular_polynomial cs p pf)"
  unfolding visit_modular_polynomial_def visit_modular_integer_def by (intro limits)

lemma visit_claim_limits [limits]: "limit_only (visit_claim cl pf)"
  by (cases cl) (auto intro!: limits simp: visit_domain_def visit_domain_at_limits)

lemma visit_rule_limits [limits]: "limit_only (visit_rule rule pf)"
proof (cases rule)
  case (CertificateLemma family cl certificate)
  then show ?thesis by (cases certificate) (auto intro!: limits simp: Let_def)
qed (auto intro!: limits simp: visit_domain_def visit_domain_at_limits)

lemma units_limits: "limit_only (derivation_steps_verification_units steps)"
  unfolding derivation_steps_verification_units_def by (intro limits)

section \<open>Renaming the references of a rule\<close>

fun rename_references :: "(step_id \<Rightarrow> step_id) \<Rightarrow> proof_rule \<Rightarrow> proof_rule" where
  "rename_references f (Symmetry s) = Symmetry (f s)"
| "rename_references f (Transitivity l r) = Transitivity (f l) (f r)"
| "rename_references f (CongruenceAdd ss) = CongruenceAdd (map f ss)"
| "rename_references f (CongruenceMul ss) = CongruenceMul (map f ss)"
| "rename_references f (CongruencePow b e) = CongruencePow (f b) (f e)"
| "rename_references f (CongruenceFunction name ss) = CongruenceFunction name (map f ss)"
| "rename_references f (SubstitutionRule template var s) = SubstitutionRule template var (f s)"
| "rename_references f rule = rule"

lemma rtraverse_Some:
  "\<forall>i \<in> set ss. g i = Inr (f i) \<Longrightarrow> rtraverse g ss = Inr (map f ss)"
  by (induction ss) simp_all

lemma remap_rule_rename:
  assumes "\<forall>i \<in> set (rule_references rule). mapping i = Some (f i)"
  shows "remap_rule rule mapping = Inr (rename_references f rule)"
  using assms by (cases rule) (simp_all add: rtraverse_Some [where f = f])

text \<open>Every reference of an accepted rule is to an earlier step that has a claim.\<close>

lemma congruence_claim_prior:
  assumes "congruence_claim claims i build ss = Inr cl" and "s \<in> set ss"
  shows "s < i"
proof -
  obtain sides where "rtraverse (equality_premise claims i) ss = Inr sides"
    using assms(1) by (auto simp: congruence_claim_def)
  then show ?thesis
    using assms(2) by (auto simp: rtraverse_Inr_iff list_all2_conv_all_nth in_set_conv_nth equality_premise_iff)
qed

lemma references_prior:
  assumes "check_rule_application rule i claims ctx = Inr cl" and "s \<in> set (rule_references rule)"
  shows "s < i"
proof -
  have "apply_rule rule i claims ctx = Inr cl" using assms(1) by (auto simp: check_rule_application_def)
  then show ?thesis
    using assms(2)
    by (cases rule) (auto split: if_splits intro: congruence_claim_prior)
qed

text \<open>Renaming by a map that keeps the order towards the current step and the claims.\<close>

definition renames :: "(step_id \<Rightarrow> step_id) \<Rightarrow> step_id set \<Rightarrow> step_id \<Rightarrow> claim_map \<Rightarrow> step_id \<Rightarrow> claim_map \<Rightarrow> bool" where
  "renames f refs i claims i' claims' \<longleftrightarrow> (\<forall>s \<in> refs. s < i \<and> f s < i' \<and> claims s \<noteq> None \<and> claims' (f s) = claims s)"

lemma renames_step:
  assumes "renames f refs i claims i' claims'" and "s \<in> refs"
  shows "check_strictly_prior (f s) i' = Inr ()" and "check_strictly_prior s i = Inr ()"
    and "claims' (f s) = claims s" and "claims s \<noteq> None"
  using assms by (auto simp: renames_def)

lemma renamed_operand:
  assumes "renames f refs i claims i' claims'" and "s \<in> refs"
  shows "operand_sizes claims' i' (f s) = operand_sizes claims i s"
    and "equality_premise claims i s = Inr p \<Longrightarrow> equality_premise claims' i' (f s) = Inr p"
proof -
  note [simp] = renames_step [OF assms]
  show "operand_sizes claims' i' (f s) = operand_sizes claims i s"
    by (cases "claims s") (simp_all add: operand_sizes_def prior_claim_def)
  show "equality_premise claims i s = Inr p \<Longrightarrow> equality_premise claims' i' (f s) = Inr p"
    by (cases "claims s") (simp_all add: equality_premise_def prior_claim_def)
qed

lemma renamed_operands:
  assumes "renames f refs i claims i' claims'" and "set ss \<subseteq> refs"
  shows "preflight_congruence claims' i' (map f ss) = preflight_congruence claims i ss"
proof -
  have "rfold (add_operand claims' i') (map f ss) o' = rfold (add_operand claims i) ss o'" for o'
    using assms(2)
    by (induction ss arbitrary: o') (simp_all add: add_operand_def renamed_operand(1) [OF assms(1)] cong: rbind_cong)
  then show ?thesis by (simp add: preflight_congruence_def fun_eq_iff)
qed

lemma renamed_premises:
  assumes "renames f refs i claims i' claims'" and "set ss \<subseteq> refs" and "congruence_claim claims i build ss = Inr cl"
  shows "congruence_claim claims' i' build (map f ss) = Inr cl"
proof -
  have "rtraverse (equality_premise claims i) ss = Inr sides \<Longrightarrow>
      rtraverse (equality_premise claims' i') (map f ss) = Inr sides" for sides
    using assms(2)
    by (induction ss arbitrary: sides) (auto simp: renamed_operand(2) [OF assms(1)])
  then show ?thesis using assms(3) by (auto simp: congruence_claim_def)
qed

lemma renamed_preflight:
  assumes "renames f (set (rule_references rule)) i claims i' claims'"
  shows "preflight_rule_construction (rename_references f rule) i' claims' = preflight_rule_construction rule i claims"
  using renamed_operands [OF assms] renamed_operand(1) [OF assms]
  by (cases rule) (simp_all add: renamed_operands [OF assms, of "[_, _]", simplified])

lemma renamed_apply:
  assumes "renames f (set (rule_references rule)) i claims i' claims'" and "apply_rule rule i claims ctx = Inr cl"
  shows "apply_rule (rename_references f rule) i' claims' ctx = Inr cl"
proof (cases rule)
  case (CongruenceAdd ss)
  then show ?thesis using assms renamed_premises [OF assms(1), of ss] by (simp split: if_splits)
next
  case (CongruenceMul ss)
  then show ?thesis using assms renamed_premises [OF assms(1), of ss] by (simp split: if_splits)
next
  case (CongruenceFunction name ss)
  then show ?thesis using assms renamed_premises [OF assms(1), of ss] by simp
qed (use assms in \<open>auto simp: renames_def\<close>)

lemma renamed_rule:
  assumes "renames f (set (rule_references rule)) i claims i' claims'"
    and "check_rule_application rule i claims ctx = Inr cl"
  shows "check_rule_application (rename_references f rule) i' claims' ctx = Inr cl"
  using assms(2) renamed_preflight [OF assms(1)] renamed_apply [OF assms(1)]
  by (auto simp: check_rule_application_def)

section \<open>The required steps\<close>

definition references_of :: "derivation_step list \<Rightarrow> step_id \<Rightarrow> step_id set" where
  "references_of steps i =
     (if unat i < length steps then set (rule_references (step_rule (steps ! unat i))) else {})"

definition closed_under :: "(step_id \<Rightarrow> step_id set) \<Rightarrow> step_id set \<Rightarrow> bool" where
  "closed_under refs S \<longleftrightarrow> (\<forall>i \<in> S. refs i \<subseteq> S)"

lemma collect_required_closed:
  assumes "\<forall>i \<in> required. references_of steps i \<subseteq> required \<union> set stack"
  shows "required \<union> set stack \<subseteq> collect_required steps stack required
    \<and> closed_under (references_of steps) (collect_required steps stack required)"
  using assms
proof (induction steps stack required rule: collect_required.induct)
  case (2 steps current stack required)
  let ?pushed = "if unat current < length steps then rule_references (step_rule (steps ! unat current)) else []"
  have pushed: "set ?pushed = references_of steps current" by (simp add: references_of_def)
  show ?case
  proof (cases "current \<in> required")
    case True
    then show ?thesis using 2(1) [OF True] 2(3) by (auto simp: insert_absorb)
  next
    case False
    have "\<forall>i \<in> insert current required. references_of steps i \<subseteq> insert current required \<union> set (rev ?pushed @ stack)"
      using 2(3) pushed by auto
    from 2(2) [OF False refl this] show ?thesis using False by (simp add: Let_def)
  qed
qed (simp add: closed_under_def)

lemma collect_required_least:
  assumes "closed_under (references_of steps) S" and "required \<subseteq> S" and "set stack \<subseteq> S"
  shows "collect_required steps stack required \<subseteq> S"
  using assms
proof (induction steps stack required rule: collect_required.induct)
  case (2 steps current stack required)
  let ?pushed = "if unat current < length steps then rule_references (step_rule (steps ! unat current)) else []"
  have "set ?pushed \<subseteq> S" using 2(3,5) by (auto simp: references_of_def closed_under_def split: if_splits)
  then show ?case using 2 by (simp add: Let_def)
qed simp

text \<open>The traversal computes the smallest closed set.\<close>

theorem collect_required_slice:
  "target \<in> collect_required steps [target] {}"
  "closed_under (references_of steps) (collect_required steps [target] {})"
  "closed_under (references_of steps) S \<Longrightarrow> target \<in> S \<Longrightarrow> collect_required steps [target] {} \<subseteq> S"
  using collect_required_closed [of "{}" steps "[target]"] collect_required_least [of steps S "{}" "[target]"]
  by simp_all

section \<open>Renumbering\<close>

text \<open>The positions of the first \<open>n\<close> entries of a list without repetitions.\<close>

definition positions :: "step_id list \<Rightarrow> nat \<Rightarrow> step_id \<Rightarrow> step_id option" where
  "positions xs n = map_of (zip (take n xs) (map of_nat [0..<n]))"

definition position_in :: "step_id list \<Rightarrow> step_id \<Rightarrow> step_id" where
  "position_in xs i = the (positions xs (length xs) i)"

abbreviation numbering :: "step_id list \<Rightarrow> nat \<Rightarrow> (step_id \<times> step_id) list" where
  "numbering xs n \<equiv> zip (take n xs) (map of_nat [0..<n])"

lemma positions_nth:
  assumes "distinct xs" and "k < n" and "n \<le> length xs"
  shows "positions xs n (xs ! k) = Some (of_nat k)"
proof -
  have "(xs ! k, of_nat k) \<in> set (numbering xs n)"
    using assms(2,3) by (auto simp: set_zip intro!: exI [of _ k])
  moreover have "distinct (map fst (numbering xs n))" using assms(1,3) by simp
  ultimately show ?thesis unfolding positions_def by (rule map_of_is_SomeI [rotated])
qed

lemma positions_Suc:
  assumes "distinct xs" and "n < length xs"
  shows "positions xs (Suc n) = (positions xs n)(xs ! n \<mapsto> of_nat n)"
proof -
  have split: "numbering xs (Suc n) = numbering xs n @ [(xs ! n, of_nat n)]"
    using assms(2) by (simp add: take_Suc_conv_app_nth)
  have "xs ! n \<notin> set (take n xs)" using assms by (auto simp: in_set_conv_nth nth_eq_iff_index_eq)
  then have "map_of (numbering xs n) (xs ! n) = None" by (auto simp: map_of_eq_None_iff dest: set_zip_leftD)
  then show ?thesis unfolding positions_def split by (auto simp: map_add_def fun_eq_iff split: option.splits)
qed

definition renumbered :: "derivation_step list \<Rightarrow> step_id list \<Rightarrow> nat \<Rightarrow> derivation_step" where
  "renumbered steps xs j =
     \<lparr>step_ident = of_nat j,
      step_rule = rename_references (position_in xs) (step_rule (steps ! unat (xs ! j))),
      step_claim = step_claim (steps ! unat (xs ! j))\<rparr>"

lemma compact_steps_renumbers:
  assumes "distinct xs" and "length xs \<le> 2 ^ 32" and "\<forall>i \<in> set xs. unat i < length steps"
    and "\<forall>j < length xs. references_of steps (xs ! j) \<subseteq> set (take j xs)" and "n \<le> length xs"
  shows "compact_steps steps n (drop n xs) (positions xs n) (map (renumbered steps xs) [0..<n])
    = Ok (positions xs (length xs), map (renumbered steps xs) [0..<length xs])"
  using assms(5)
proof (induction "length xs - n" arbitrary: n)
  case 0
  then show ?case by simp
next
  case (Suc m)
  then have n: "n < length xs" by simp
  let ?old = "xs ! n"
  have old: "unat ?old < length steps" using assms(3) n by simp
  have "positions xs (Suc n) i = Some (position_in xs i)" if i: "i \<in> set (rule_references (step_rule (steps ! unat ?old)))" for i
  proof -
    have "i \<in> references_of steps ?old" using i old by (simp add: references_of_def)
    then have "i \<in> set (take n xs)" using assms(4) n by blast
    then obtain k where k: "i = xs ! k" "k < n" using n by (auto simp: in_set_conv_nth)
    have "positions xs (Suc n) i = Some (of_nat k)" "positions xs (length xs) i = Some (of_nat k)"
      unfolding k(1) using k(2) n by (simp_all add: positions_nth [OF assms(1)])
    then show ?thesis by (simp add: position_in_def)
  qed
  then have remap: "remap_rule (step_rule (steps ! unat ?old)) (positions xs (Suc n))
      = Inr (rename_references (position_in xs) (step_rule (steps ! unat ?old)))"
    by (intro remap_rule_rename) simp
  have IH: "compact_steps steps (Suc n) (drop (Suc n) xs) (positions xs (Suc n)) (map (renumbered steps xs) [0..<Suc n])
      = Ok (positions xs (length xs), map (renumbered steps xs) [0..<length xs])"
    by (rule Suc.hyps(1)) (use Suc.hyps(2) n in simp_all)
  have "drop n xs = ?old # drop (Suc n) xs" using n by (simp add: Cons_nth_drop_Suc)
  then show ?case
    using remap IH n old assms(2) unfolding positions_Suc [OF assms(1) n]
    by (simp del: remap_rule.simps add: Let_def renumbered_def)
qed

section \<open>The exported derivation\<close>

lemma sorted_prefix:
  assumes "sorted xs" and "distinct xs" and "j < length xs" and "(i :: step_id) \<in> set xs" and "i < xs ! j"
  shows "i \<in> set (take j xs)"
proof -
  obtain k where k: "i = xs ! k" "k < length xs" using assms(4) by (auto simp: in_set_conv_nth)
  have "k < j"
  proof (rule ccontr)
    assume "\<not> k < j"
    then have "xs ! j \<le> xs ! k" using sorted_nth_mono [OF assms(1)] k(2) by simp
    then show False using assms(5) k(1) by simp
  qed
  then show ?thesis using k assms(3) by (auto simp: in_set_conv_nth)
qed

lemma replays_prior:
  assumes "\<forall>j < length steps. replays ctx steps j" and "length steps \<le> 2 ^ 32" and "s \<in> references_of steps i"
  shows "s < i" and "unat s < length steps"
proof -
  have i: "unat i < length steps" "s \<in> set (rule_references (step_rule (steps ! unat i)))"
    using assms(3) by (auto simp: references_of_def split: if_splits)
  then have "check_rule_application (step_rule (steps ! unat i)) i (claims_of steps (unat i)) ctx
      = Inr (step_claim (steps ! unat i))"
    using assms(1) by (auto simp: replays_def)
  then show "s < i" using references_prior i(2) by blast
  then show "unat s < length steps" using i(1) by (simp add: word_less_nat_alt)
qed

lemma renumbered_replays:
  assumes replays: "\<forall>j < length steps. replays ctx steps j" and len: "length steps \<le> 2 ^ 32"
    and xs: "sorted xs" "distinct xs" "\<forall>i \<in> set xs. unat i < length steps"
    and closed: "closed_under (references_of steps) (set xs)" and j: "j < length xs"
    and small: "length xs \<le> 2 ^ 32"
  shows "replays ctx (map (renumbered steps xs) [0..<length xs]) j"
proof -
  let ?new = "map (renumbered steps xs) [0..<length xs]"
  let ?old = "xs ! j"
  have old: "unat ?old < length steps" using xs(3) j by simp
  have run: "check_rule_application (step_rule (steps ! unat ?old)) ?old (claims_of steps (unat ?old)) ctx
      = Inr (step_claim (steps ! unat ?old))"
    using replays old by (auto simp: replays_def)
  have "renames (position_in xs) (set (rule_references (step_rule (steps ! unat ?old)))) ?old
      (claims_of steps (unat ?old)) (of_nat j) (claims_of ?new j)"
    unfolding renames_def
  proof
    fix s
    assume "s \<in> set (rule_references (step_rule (steps ! unat ?old)))"
    then have ref: "s \<in> references_of steps ?old" using old by (simp add: references_of_def)
    have less: "s < ?old" and valid: "unat s < length steps" using replays_prior [OF replays len ref] by simp_all
    have "s \<in> set xs" using closed ref j by (auto simp: closed_under_def)
    then have "s \<in> set (take j xs)" by (rule sorted_prefix [OF xs(1,2) j _ less])
    then obtain k where k: "s = xs ! k" "k < j" using j by (auto simp: in_set_conv_nth)
    have pos: "position_in xs s = of_nat k"
      using positions_nth [OF xs(2), of k "length xs"] k j by (simp add: position_in_def)
    have "unat (of_nat k :: step_id) = k" "unat (of_nat j :: step_id) = j"
      using k(2) j small by (simp_all add: index_of_nat)
    then have "claims_of ?new j (of_nat k) = Some (step_claim (steps ! unat s))" "(of_nat k :: step_id) < of_nat j"
      using k j by (simp_all add: claims_of_def renumbered_def word_less_nat_alt)
    moreover have "claims_of steps (unat ?old) s = Some (step_claim (steps ! unat s))"
      using less by (simp add: claims_of_def word_less_nat_alt)
    ultimately show "s < ?old \<and> position_in xs s < of_nat j \<and> claims_of steps (unat ?old) s \<noteq> None
        \<and> claims_of ?new j (position_in xs s) = claims_of steps (unat ?old) s"
      using less by (simp add: pos)
  qed
  from renamed_rule [OF this run] show ?thesis using j by (simp add: replays_def renumbered_def)
qed

theorem export_derivation_replays:
  assumes "session_invariant ctx k" and "pk_claims k target = Some cl"
  shows "\<exists>d. export_derivation k target = Ok d
    \<and> length (tree_steps d) \<le> step_count k
    \<and> verify_derivation_independent d ctx = rbind (derivation_verification_units d) (\<lambda>_. Inr cl)"
proof -
  let ?steps = "pk_steps k"
  let ?R = "collect_required ?steps [target] {}"
  define xs where "xs = sorted_list_of_set ?R"
  have replays: "\<forall>j < length ?steps. replays ctx ?steps j" and count: "length ?steps \<le> MAX_DERIVATION_STEPS"
    and target: "unat target < length ?steps" "cl = step_claim (?steps ! unat target)"
    using assms by (auto simp: session_invariant_def step_count_def claims_of_def split: if_splits)
  have len: "length ?steps \<le> 2 ^ 32" using step_limit [OF count] by simp
  have "?R \<subseteq> {i. unat i < length ?steps}"
    by (rule collect_required_slice(3))
      (use target(1) replays_prior(2) [OF replays len] in \<open>auto simp: closed_under_def simp del: collect_required.simps\<close>)
  then have valid: "\<forall>i \<in> set xs. unat i < length ?steps" unfolding xs_def by (subst set_sorted_list_of_set) (rule finite, blast)
  have xs: "sorted xs" "distinct xs" and closed: "closed_under (references_of ?steps) (set xs)" and mem: "target \<in> set xs"
    using collect_required_slice(1,2) [where steps = ?steps and target = target] by (simp_all add: xs_def del: collect_required.simps)
  have "inj_on unat (set xs)" by (auto simp: inj_on_def intro: unsigned_word_eqI)
  then have "length xs = card (unat ` set xs)" using xs(2) by (simp only: card_image distinct_card)
  also have "\<dots> \<le> card {..<length ?steps}" by (rule card_mono) (use valid in auto)
  finally have short: "length xs \<le> length ?steps" by simp
  then have small: "length xs \<le> 2 ^ 32" using len by simp
  have prior: "references_of ?steps (xs ! j) \<subseteq> set (take j xs)" if j: "j < length xs" for j
  proof
    fix s
    assume s: "s \<in> references_of ?steps (xs ! j)"
    have "s \<in> set xs" using closed s j by (auto simp: closed_under_def)
    then show "s \<in> set (take j xs)" by (rule sorted_prefix [OF xs j _ replays_prior(1) [OF replays len s]])
  qed
  let ?new = "map (renumbered ?steps xs) [0..<length xs]"
  have compacted: "compact_steps ?steps 0 xs (\<lambda>_. None) [] = Ok (positions xs (length xs), ?new)"
    using compact_steps_renumbers [OF xs(2) small valid, of 0] prior by (simp add: positions_def)
  obtain j where j: "j < length xs" "target = xs ! j" using mem by (auto simp: in_set_conv_nth)
  have root: "positions xs (length xs) target = Some (of_nat j)"
    unfolding j(2) by (rule positions_nth [OF xs(2) j(1)]) simp
  let ?d = "\<lparr>tree_steps = ?new, tree_root = of_nat j\<rparr>"
  have idx: "unat (of_nat j :: step_id) = j" using j(1) small by (simp add: index_of_nat)
  have verified: "verify_steps ctx 0 ?new (\<lambda>_. None) = Inr (claims_of ?new (length xs))"
    unfolding verify_steps_iff
    using renumbered_replays [OF replays len xs valid closed _ small] small by simp
  have "claims_of ?new (length xs) (of_nat j) = Some cl"
    using j target(2) by (simp add: claims_of_def idx renumbered_def)
  then have "verify_derivation_independent ?d ctx = rbind (derivation_verification_units ?d) (\<lambda>_. Inr cl)"
    using j(1) verified by (simp add: verify_derivation_independent_def idx prior_claim_def)
  moreover have "export_derivation k target = Ok ?d"
    unfolding export_derivation_def xs_def [symmetric] compacted using assms(2) root by simp
  ultimately show ?thesis using short by (intro exI [of _ ?d]) (simp add: step_count_def)
qed

end
