(* ===== verification/Spec2Isabelle.thy ===== *)
theory Spec2Isabelle
  imports Candidates Big_Euclid Big_Roots Evidence_Lattice Contexts Substitution Alpha_Equivalence
    Kernel_Sound Kernel_Export
begin

text \<open>
  A verification development for FrankenSymPy (Rust, \<open>src/crates/\<close>).

  \<^bold>\<open>The program.\<close> FrankenSymPy is a symbolic algebra system built in layers. The lowest layers carry the
  discipline every other layer relies on: a budget ledger that meters work
  (\<open>fsym-budget\<close>), exact integer arithmetic whose kernels charge that ledger at every unit of work and
  check for cancellation (\<open>fsym-bigint\<close>), an outcome vocabulary that keeps evidence classes apart
  (\<open>fsym-outcome\<close>, \<open>fsym-evidence\<close>), an assumption engine with a four-valued answer
  (\<open>fsym-assumptions\<close>), and a small proof kernel that checks derivations about expressions
  (\<open>fsym-proof-kernel\<close>). The arithmetic calls the ledger through the trait \<open>BudgetMeter\<close>; the assumption
  contexts hash their contents and combine predicate closures with domain assignments; the kernel
  charges the ledger for every step and queries a snapshot of the assumptions.

  \<^bold>\<open>Theories.\<close>
  \<^item> \<open>FS_Prelude\<close>: machine types, checked and saturating arithmetic, comparison, shared automation.
  \<^item> \<open>Budget\<close>: \<open>fsym-budget/src/lib.rs\<close>; the record \<open>budget\<close> is the struct, each method one
    definition; \<open>region_step\<close> is the system of live ledgers, receipts and leases.
  \<^item> \<open>Metering\<close>: the trait as the record \<open>meter\<close> and the locale \<open>budget_meter\<close>, the result type of metered
    code and the calculus \<open>meets\<close>; interpreted for the unbounded meter and for the ledger.
  \<^item> \<open>Digit_Values\<close>, \<open>Digit_Kernels\<close>, \<open>Karatsuba_Lane\<close>, \<open>Toom3_Lane\<close>: the digit-buffer kernels of
    \<open>fsym-bigint/src/lib.rs\<close> (lines 2098 to 2879) and the two recursions over them.
  \<^item> \<open>Limb_Lanes\<close>, \<open>Substrate\<close>, \<open>Big_Arith\<close>, \<open>Big_Euclid\<close>, \<open>Big_Roots\<close>, \<open>Candidates\<close>: the metered signed
    operations, gcd, powers, roots and the product candidates of the same file; \<open>num-bigint\<close> is
    the record \<open>substrate\<close> with its documented behaviour as the locale of the same name, interpreted on
    the integers.
  \<^item> \<open>Outcome\<close>, \<open>Evidence_Lattice\<close>: \<open>fsym-outcome/src/lib.rs\<close> and \<open>fsym-evidence/src/lattice.rs\<close>; the
    locale \<open>registry\<close> is interpreted for each enumeration.
  \<^item> \<open>Truth\<close>, \<open>Predicates\<close>, \<open>Domains\<close>, \<open>Contexts\<close>: \<open>truth.rs\<close>, \<open>predicate.rs\<close>, \<open>domain.rs\<close> and the contexts and
    snapshots of \<open>lib.rs\<close> in \<open>fsym-assumptions\<close>.
  \<^item> \<open>Expressions\<close>: constants, expressions, their derived order and free symbols of \<open>fsym-core/src/lib.rs\<close>;
    \<open>Results\<close>: \<open>Result\<close> values, early return and loops that may fail.
  \<^item> \<open>Bindings\<close>: \<open>bindings.rs\<close> of \<open>fsym-assumptions\<close>: binders, free symbols, De Bruijn terms and substitution.
    \<open>Expr_Semantics\<close> gives expressions a partial value in the complex numbers under an interpretation
    of functions and binders; \<open>Bindings_Sound\<close>, \<open>Substitution\<close> and \<open>Alpha_Equivalence\<close> prove the
    operations of \<open>Bindings\<close> correct for it.

  \<^item> \<open>Expr_Facts\<close>: \<open>inherent_facts\<close>, \<open>deduce_expr_facts\<close> and the queries of \<open>fsym-assumptions\<close>; \<open>Facts_Sound\<close> gives
    predicates a meaning for complex values and proves the deduction sound. \<open>Elementary\<close> states what the
    elementary functions must satisfy (locales \<open>elementary_interp\<close> and \<open>real_interp\<close>), interpreted on
    \<open>standard_interp\<close>, the usual functions.
  \<^item> \<open>Real_Balls\<close>: the exact operations of \<open>fsym-core/src/ball.rs\<close>; \<open>Ball_Checker\<close>, \<open>Constant_Bounds\<close>, \<open>Ball_Sound\<close>: the
    kernel's ball evaluation, the bounds of \<open>pi\<close> and \<open>e\<close> it relies on, and its soundness.
  \<^item> \<open>Ordered_Maps\<close>, \<open>Poly_Normal\<close>, \<open>Poly_Sound\<close>, \<open>Pythagorean\<close>, \<open>Pythagorean_Sound\<close>: the bounded normal forms and
    the Pythagorean reduction of \<open>kernel.rs\<close>, \<open>BTreeMap\<close>s as lists in key order.
  \<^item> \<open>Modular_Checker\<close>: the primality test, the polynomial arithmetic modulo a prime and the Rabin test of
    \<open>kernel.rs\<close>. \<open>Ring_Congruence\<close> holds the locale \<open>char_congruence\<close>, a ring with a congruence of prime
    characteristic; \<open>Modular_Sound\<close> proves inside it what the arithmetic computes. It is interpreted for the
    integers modulo the prime and in \<open>Residue_Fields\<close> for integer polynomials (\<open>Int_Polynomials\<close>) modulo a prime and a
    polynomial; \<open>Rabin_Sound\<close> concludes that the test decides irreducibility.
  \<^item> \<open>Kernel_Claims\<close>, \<open>Kernel_Preflight\<close>, \<open>Proof_Kernel\<close>: the types of \<open>claim.rs\<close> and \<open>rule.rs\<close>, the resource
    preflight, and the rules, sessions, export and independent verifier of \<open>kernel.rs\<close>.
    \<open>Kernel_Sessions\<close> (the relation \<open>session\<close> of reachable sessions), \<open>Kernel_Sound\<close> (\<open>claim_valid\<close>, what a claim says)
    and \<open>Kernel_Export\<close> prove them correct.

  \<^bold>\<open>What the theorems show.\<close> The ledger never inflates, refuses atomically and keeps the verifier pool
  behind one lease. Every metered operation returns the mathematically exact result or one of the
  meter's own errors, whatever the meter does; the internal \<open>InvariantViolation\<close> checks and
  \<open>debug_assert\<close>s never fire; the three multiplication lanes agree. Evidence cannot be promoted by
  construction or by chains of transitions. Predicate closures are exact, snapshots refine their
  parents, and the bytes hashed for a context determine it. Substitution avoids capture in the sense
  of values: it keeps equality, is evaluation at the replaced variable, and has exactly the expected
  free symbols; alpha-equivalent expressions are equal in value. The modular checker returns on every input
  and accepts exactly the polynomials that are irreducible modulo a prime of 32 bits. A derivation that the independent verifier
  accepts proves a valid claim when its steps are \<open>guarded\<close>; three unguarded uses of the rules, which the code
  admits, are shown to prove invalid claims. A session and the verifier agree on every step, and an
  export is replayed to the exported claim or refused by a limit. The limits of a session count each
  step alone, those of the verifier the whole derivation, hence the second case.

  \<^bold>\<open>Bounds and fuel.\<close> Recursions over buffers terminate by length. The loops of Euclid, Newton and the
  bracketing root search carry fuel; the theorems take \<open>\<bar>b\<bar>\<close>, \<open>v\<close> and \<open>2 * \<bar>v\<bar>\<close> as enough, since each
  round strictly decreases the remainder, the iterate or the bracket. The division and gcd loops of the
  modular checker are partial functions with values in \<open>option\<close>, proved to return for every input. \<open>size_ok F n\<close> says that buffers
  stay below \<open>2 ^ 60\<close> digits unless the caller admits \<open>SizeOverflow\<close>. A \<open>usize\<close> has 64 bits.

  \<^bold>\<open>Not modelled.\<close> The NTT/CRT lane and the unmetered facade, parsing and serde of \<open>fsym-bigint\<close> (they
  forward to \<open>num-bigint\<close>); the primality
  test of finite fields in \<open>fsym-assumptions\<close>; envelopes, namespaces and receipts of \<open>fsym-evidence\<close>; powers, roots and
  elementary functions of balls; wire decoding and digests of derivations and formal admission; the
  arithmetic and canonicalization of expressions, the runtime, number theory, polynomials and the domain libraries above them;
  printing, the Python bridge, storage and tools, which are input/output or bindings. \<open>Display\<close> texts
  are modelled only where the code compares or stores them.
\<close>


section \<open>The ledger\<close>

text \<open>
  C1: No hidden resets. Whatever sequence of ledger operations a region performs, the live
  ledgers and the receipts that could still be refunded never hold more of a dimension, or of the
  verifier pool, than the root ledger was created with.
\<close>

theorem region_never_inflates:
  assumes "region_reachable limits s" and "wf_limits limits"
  shows "outstanding d s \<le> unat (lim_dimensions limits ! dim_index d)
    \<and> outstanding_pool s \<le> unat (lim_verifier_pool limits)"
  using region_reachable_inv [OF assms] by (simp add: region_inv_def)

lemma wf_uniform [simp]: "wf_limits (limits_uniform n p)"
  by (simp add: wf_limits_def limits_uniform_def)

text \<open>A region that has leased the pool and charged a step.\<close>

definition sample_region :: region where
  "sample_region =
     \<lparr>live_ledgers = {#fst (try_charge dimension.ComputeSteps 4 (budget_new (limits_uniform 10 3) 0))#},
      outstanding_receipts = {#\<lparr>rc_kind = ChargedDimension dimension.ComputeSteps, rc_amount = 4, rc_seq = 1,
        rc_authority = 0\<rparr>#},
      issued_leases = {#}, next_authority = 1\<rparr>"

lemma sample_reachable: "region_reachable (limits_uniform 10 3) sample_region"
proof -
  let ?b = "budget_new (limits_uniform 10 3) 0"
  have "region_step (region_start (limits_uniform 10 3)) sample_region"
    using region_step.charge [of "region_start (limits_uniform 10 3)" ?b "{#}" dimension.ComputeSteps 4
        "fst (try_charge dimension.ComputeSteps 4 ?b)" "snd (try_charge dimension.ComputeSteps 4 ?b)"]
    by (simp add: region_start_def sample_region_def try_charge_def budget_new_def limits_uniform_def
        Let_def)
  then show ?thesis using region_reachable.start region_reachable.step by blast
qed

theorem region_never_inflates_witness: "outstanding dimension.ComputeSteps sample_region \<le> 10"
  using region_never_inflates [OF sample_reachable wf_uniform, of dimension.ComputeSteps]
  by (simp add: limits_uniform_def)

text \<open>
  C22: The protected verifier reservation. In a reachable region there is at most one
  verifier lease, counting the leases issued and the ledgers that could still issue one.
\<close>

theorem verifier_lease_unique:
  assumes "region_reachable limits s" and "wf_limits limits"
  shows "lease_count s \<le> 1"
  using region_reachable_inv [OF assms] by (simp add: region_inv_def)

theorem verifier_lease_unique_witness: "lease_count sample_region \<le> 1"
  by (rule verifier_lease_unique [OF sample_reachable wf_uniform])

text \<open>
  C25: Each of the six ledger operations that returns an error leaves every counter,
  the sequence number and the lease flag as they were.
\<close>

theorem ledger_refusal_atomic:
  "(try_charge d a b = (b1, Inl e1) \<longrightarrow> b1 = b)
   \<and> (try_charge_batch cs b = (b2, Inl e2) \<longrightarrow> b2 = b)
   \<and> (try_charge_verifier l a b = (b3, Inl e3) \<longrightarrow> b3 = b)
   \<and> (refund r b = (b4, Inl e4) \<longrightarrow> b4 = b)
   \<and> (reserve_child caps fresh b = (b5, Inl e5) \<longrightarrow> b5 = b)
   \<and> (merge_child c b = (b6, Inl e6) \<longrightarrow> b6 = b)"
  by (intro conjI impI) (erule refusal_atomic)+

theorem ledger_refusal_atomic_witness:
  "fst (try_charge dimension.ComputeSteps 11 (budget_new (limits_uniform 10 3) 0)) = budget_new (limits_uniform 10 3) 0"
proof -
  let ?b = "budget_new (limits_uniform 10 3) 0"
  have "try_charge dimension.ComputeSteps 11 ?b = (fst (try_charge dimension.ComputeSteps 11 ?b), Inl (Exhausted dimension.ComputeSteps 11 10))"
    by (simp add: try_charge_def budget_new_def limits_uniform_def)
  then show ?thesis
    using ledger_refusal_atomic [THEN conjunct1, rule_format] by blast
qed



text \<open>
  A charge followed by the refund of its receipt restores every allowance, and a receipt
  of another ledger is refused.
\<close>

theorem charge_refund_roundtrip:
  assumes "wf_budget b" and "try_charge d a b = (b', Inr r)"
  shows "\<exists>b''. refund r b' = (b'', Inr ()) \<and> b_remaining b'' = b_remaining b
      \<and> b_verifier_remaining b'' = b_verifier_remaining b \<and> same_identity b b''
    \<and> (\<forall>other. b_authority other \<noteq> b_authority b \<longrightarrow>
        refund r other = (other, Inl ReceiptAuthorityMismatch))"
  using assms by (auto simp: try_charge_def refund_def Let_def wf_budget_def same_identity_def
      split: if_splits)

theorem charge_refund_roundtrip_witness:
  "\<exists>b'' r b'. try_charge dimension.ComputeSteps 4 (budget_new (limits_uniform 10 3) 0) = (b', Inr r)
     \<and> refund r b' = (b'', Inr ()) \<and> b_remaining b'' = replicate 6 10"
proof -
  let ?b = "budget_new (limits_uniform 10 3) 0"
  have wf: "wf_budget ?b" by (simp add: wf_budget_def budget_new_def limits_uniform_def)
  obtain b' r where run: "try_charge dimension.ComputeSteps 4 ?b = (b', Inr r)"
    by (simp add: try_charge_def budget_new_def limits_uniform_def Let_def)
  have "b_remaining ?b = replicate 6 10" by (simp add: budget_new_def limits_uniform_def)
  then show ?thesis using charge_refund_roundtrip [OF wf run] run by auto
qed

text \<open>
  A child reserved from a ledger and merged back unused restores every allowance of the
  parent; the child has no verifier pool and cannot lease it.
\<close>

theorem reserve_merge_roundtrip:
  assumes "wf_budget b" and "wf_limits caps" and "reserve_child caps fresh b = (b', Inr child)"
  shows "\<exists>b''. merge_child child b' = (b'', Inr ()) \<and> b_remaining b'' = b_remaining b
      \<and> same_identity b b'' \<and> b_verifier_remaining child = 0
      \<and> verifier_lease child = (child, None)"
proof -
  note ok = reserve_child_ok [OF assms(3,1,2)]
  obtain b'' where merge: "merge_child child b' = (b'', Inr ())"
    and b'': "b_remaining b'' = merge_remaining Dimension_ALL (b_remaining child) (b_remaining b')"
      "same_identity b' b''"
    using ok(3,10) by (auto simp: merge_child_def same_identity_def)
  have "b_remaining b'' ! dim_index d = b_remaining b ! dim_index d" for d
    using assms ok(1) b''(1) unfolding reserve_child_def
    by (auto simp: nth_merge_remaining nth_batch_commit wf_budget_def split: if_splits)
  then have "b_remaining b'' = b_remaining b"
    using assms(1) ok(1) b''(1) by (intro nth_dimension_eq) (simp_all add: wf_budget_def)
  then show ?thesis
    using merge b''(2) ok(3,7,8) same_identity_trans by (auto simp: verifier_lease_def)
qed

theorem reserve_merge_roundtrip_witness:
  "\<exists>b'' b' child. reserve_child (limits_uniform 4 0) 1 (budget_new (limits_uniform 10 3) 0) = (b', Inr child)
     \<and> merge_child child b' = (b'', Inr ()) \<and> b_remaining b'' = replicate 6 10"
proof -
  let ?b = "budget_new (limits_uniform 10 3) 0"
  have wf: "wf_budget ?b" by (simp add: wf_budget_def budget_new_def limits_uniform_def)
  obtain b' child where run: "reserve_child (limits_uniform 4 0) 1 ?b = (b', Inr child)"
    by (simp add: reserve_child_def budget_new_def limits_uniform_def Dimension_ALL_def)
  have "b_remaining ?b = replicate 6 10" by (simp add: budget_new_def limits_uniform_def)
  then show ?thesis using reserve_merge_roundtrip [OF wf wf_uniform run] run by auto
qed

section \<open>Integer arithmetic under a meter\<close>

text \<open>
  The theorems of this section hold for every meter that satisfies the contract of the trait and
  for every substrate that behaves as documented. Their witnesses run on the unbounded meter and on
  the integers, where no error remains: the result is returned.
\<close>

lemmas int_big = unbounded.budget_meter_axioms int_substrate.substrate_axioms
lemmas big = big_meter.intro

text \<open>
  The metered product of two integers is their exact product; on the way a meter in state
  \<open>m\<close> reaches only states its contract allows, and the only errors are the meter's own.
\<close>

theorem multiply_exact:
  assumes "budget_meter M E R" and "substrate S"
  shows "meets E R (\<lambda>r. bval S r = bval S a * bval S b) (metered_multiply S M a b)"
  by (rule big_meter.multiply [OF big [OF assms]])

theorem multiply_exact_witness:
  "\<exists>r m'. metered_multiply int_substrate unbounded (2 ^ 40) (- 7) () = (Ok r, m') \<and> bval int_substrate r = - 7 * 2 ^ 40"
  using meets_no_error [OF multiply_exact [OF int_big, of "2 ^ 40" "- 7"]] by simp

text \<open>
  C13: A metered product on a ledger either returns the exact product or refuses with a budget error;
  in both cases no allowance grows and the verifier pool, the lease and the identity are untouched.
\<close>

theorem multiply_on_ledger:
  assumes "wf_budget ledger"
  shows "case metered_multiply int_substrate ledger_meter a b ledger of
      (Ok r, ledger') \<Rightarrow> r = a * b \<and> (\<forall>d. held d ledger' \<le> held d ledger)
        \<and> b_verifier_remaining ledger' = b_verifier_remaining ledger \<and> same_identity ledger ledger'
    | (Err e, ledger') \<Rightarrow> e \<in> range MeterBudget \<and> (\<forall>d. held d ledger' \<le> held d ledger)
        \<and> b_verifier_remaining ledger' = b_verifier_remaining ledger \<and> same_identity ledger ledger'
    | _ \<Rightarrow> False"
  using ledger_run [OF ledger_int.multiply [of a b], of ledger] assms
  by (auto simp: only_spends_def split: prod.splits exec.splits)

theorem multiply_on_ledger_witness:
  "case metered_multiply int_substrate ledger_meter 6 7 (budget_new (limits_uniform 1000 0) 0) of
      (Ok r, ledger') \<Rightarrow> r = 42 \<and> held dimension.ComputeSteps ledger' \<le> 1000
    | (Err e, ledger') \<Rightarrow> e \<in> range MeterBudget \<and> held dimension.ComputeSteps ledger' \<le> 1000
    | _ \<Rightarrow> False"
proof -
  let ?b = "budget_new (limits_uniform 1000 0) 0"
  have wf: "wf_budget ?b" by (simp add: wf_budget_def budget_new_def limits_uniform_def)
  have "held dimension.ComputeSteps ?b = 1000"
    by (simp add: held_def remaining_def budget_new_def limits_uniform_def)
  then show ?thesis using multiply_on_ledger [OF wf, of 6 7]
    by (auto split: prod.splits exec.splits dest!: spec [of _ dimension.ComputeSteps])
qed

text \<open>
  C26: Signed addition and subtraction over digit buffers return the exact sum and difference, for
  every combination of signs and magnitudes.
\<close>

theorem add_subtract_exact:
  assumes "budget_meter M E R" and "substrate S"
  shows "meets E R (\<lambda>r. bval S r = bval S a + bval S b) (metered_add S M a b)
    \<and> meets E R (\<lambda>r. bval S r = bval S a - bval S b) (metered_subtract S M a b)"
  using big_meter.add [OF big [OF assms]] big_meter.subtract [OF big [OF assms]] by blast

theorem add_subtract_exact_witness:
  "\<exists>r m'. metered_subtract int_substrate unbounded 5 (2 ^ 33) () = (Ok r, m') \<and> bval int_substrate r = 5 - 2 ^ 33"
  using meets_no_error [OF add_subtract_exact [OF int_big, of 5 "2 ^ 33", THEN conjunct2]] by simp

text \<open>
  C16: Division by zero is \<open>None\<close>; otherwise quotient and remainder are those of truncated division:
  \<open>a = q * b + r\<close>, the remainder is smaller than the divisor and has the sign of the dividend.
\<close>

theorem div_rem_truncated:
  assumes "budget_meter M E R" and "substrate S"
  shows "meets E R (\<lambda>x. case x of None \<Rightarrow> bval S b = 0
      | Some (q, r) \<Rightarrow> bval S a = bval S q * bval S b + bval S r \<and> \<bar>bval S r\<bar> < \<bar>bval S b\<bar>
          \<and> (bval S r = 0 \<or> (bval S r < 0 \<longleftrightarrow> bval S a < 0)))
    (metered_div_rem S M a b)"
  by (rule meets_post [OF big_meter.div_rem [OF big [OF assms]]])
    (auto simp: truncated_def split: option.splits)

theorem div_rem_truncated_witness:
  "\<exists>q r m'. metered_div_rem int_substrate unbounded (- 7) 2 () = (Ok (Some (q, r)), m')
     \<and> - 7 = bval int_substrate q * 2 + bval int_substrate r \<and> \<bar>bval int_substrate r\<bar> < 2"
  using meets_no_error [OF div_rem_truncated [OF int_big, of 2 "- 7"]]
  by (auto split: option.splits)

text \<open>
  Exact division answers \<open>None\<close> exactly when the divisor is zero or does not divide, and otherwise
  returns the quotient.
\<close>

theorem exact_div_exact:
  assumes "budget_meter M E R" and "substrate S"
  shows "meets E R (\<lambda>x. case x of None \<Rightarrow> bval S b = 0 \<or> \<not> bval S b dvd bval S a
      | Some q \<Rightarrow> bval S b \<noteq> 0 \<and> bval S q * bval S b = bval S a) (metered_exact_div S M a b)"
  by (rule big_meter.exact_div [OF big [OF assms]])

theorem exact_div_exact_witness:
  "\<exists>x m'. metered_exact_div int_substrate unbounded 42 (- 6) () = (Ok x, m')
     \<and> (case x of None \<Rightarrow> \<not> - 6 dvd (42 :: int) | Some q \<Rightarrow> bval int_substrate q * - 6 = 42)"
  using meets_no_error [OF exact_div_exact [OF int_big, of "- 6" 42]] by (auto split: option.splits)

text \<open>
  Binary exponentiation returns the power, for every \<open>u32\<close> exponent.
\<close>

theorem pow_exact:
  assumes "budget_meter M E R" and "substrate S"
  shows "meets E R (\<lambda>r. bval S r = bval S base ^ unat exponent) (metered_pow S M base exponent)"
  by (rule big_meter.pow [OF big [OF assms]])

theorem pow_exact_witness:
  "\<exists>r m'. metered_pow int_substrate unbounded (- 3) 5 () = (Ok r, m') \<and> bval int_substrate r = - 243"
  using meets_no_error [OF pow_exact [OF int_big, of "- 3" 5]] by simp

text \<open>
  C14: Euclid's loop ends within as many rounds as the magnitude of the second argument and returns the
  greatest common divisor: with that fuel the run neither runs out nor fails but by the meter.
\<close>

theorem gcd_terminates:
  assumes "budget_meter M E R" and "substrate S" and "nat \<bar>bval S b\<bar> \<le> fuel"
  shows "meets E R (\<lambda>r. bval S r = gcd (bval S a) (bval S b)) (metered_gcd fuel S M a b)"
  by (rule big_meter.gcd [OF big [OF assms(1,2)] assms(3)])

theorem gcd_terminates_witness:
  "\<exists>r m'. metered_gcd 18 int_substrate unbounded (- 12) 18 () = (Ok r, m') \<and> bval int_substrate r = gcd (- 12) 18"
  using meets_no_error [OF gcd_terminates [OF int_big, of 18 18 "- 12"]] by simp

text \<open>
  C15: The extended loop returns the greatest common divisor with Bezout coefficients.
\<close>

theorem extended_gcd_bezout:
  assumes "budget_meter M E R" and "substrate S" and "nat \<bar>bval S b\<bar> \<le> fuel"
  shows "meets E R (\<lambda>(g, x, y). bval S g = gcd (bval S a) (bval S b)
      \<and> bval S x * bval S a + bval S y * bval S b = bval S g) (metered_extended_gcd fuel S M a b)"
  by (rule big_meter.extended_gcd [OF big [OF assms(1,2)] assms(3)])

theorem extended_gcd_bezout_witness:
  "\<exists>g x y m'. metered_extended_gcd 15 int_substrate unbounded 240 15 () = (Ok (g, x, y), m')
     \<and> bval int_substrate x * 240 + bval int_substrate y * 15 = bval int_substrate g"
  using meets_no_error [OF extended_gcd_bezout [OF int_big, of 15 15 240]] by auto

text \<open>
  C19: The integer square root is \<open>None\<close> exactly for negative values and otherwise the floor of the
  root; Newton's iteration ends within the value's magnitude.
\<close>

theorem sqrt_floor_exact:
  assumes "budget_meter M E R" and "substrate S" and "nat (bval S v) \<le> fuel"
  shows "meets E R (\<lambda>r. case r of None \<Rightarrow> bval S v < 0
      | Some s \<Rightarrow> 0 \<le> bval S s \<and> bval S s ^ 2 \<le> bval S v \<and> bval S v < (bval S s + 1) ^ 2)
    (metered_sqrt_floor fuel S M v)"
  by (rule big_meter.sqrt_floor [OF big [OF assms(1,2)] assms(3)])

theorem sqrt_floor_exact_witness:
  "\<exists>r m'. metered_sqrt_floor 50 int_substrate unbounded 50 () = (Ok (Some r), m')
     \<and> bval int_substrate r ^ 2 \<le> 50 \<and> 50 < (bval int_substrate r + 1) ^ 2"
  using meets_no_error [OF sqrt_floor_exact [OF int_big, of 50 50]] by (auto split: option.splits)

text \<open>
  C17: The floored \<open>n\<close>-th root of every integer, with the flag that says whether it is exact: \<open>None\<close>
  only for degree zero and for even roots of negative values.
\<close>

theorem nth_root_floor_exact:
  assumes "budget_meter M E R" and "substrate S" and "nat (2 * \<bar>bval S v\<bar>) \<le> fuel"
  shows "meets E R (\<lambda>x. case x of None \<Rightarrow> degree = 0 \<or> bval S v < 0 \<and> even (unat degree)
      | Some (r, exact) \<Rightarrow> bval S r ^ unat degree \<le> bval S v \<and> bval S v < (bval S r + 1) ^ unat degree
          \<and> (exact \<longleftrightarrow> bval S r ^ unat degree = bval S v))
    (metered_nth_root_floor fuel S M v degree)"
  by (rule meets_post [OF big_meter.nth_root_floor [OF big [OF assms(1,2)] assms(3)]])
    (auto simp: root_answer_def floor_root_def unat_eq_zero split: option.splits)

theorem nth_root_floor_exact_witness:
  "\<exists>x m'. metered_nth_root_floor 60 int_substrate unbounded (- 30) 3 () = (Ok x, m')
     \<and> (case x of None \<Rightarrow> False
        | Some (r, exact) \<Rightarrow> bval int_substrate r ^ 3 \<le> - 30 \<and> - 30 < (bval int_substrate r + 1) ^ 3)"
  using meets_no_error [OF nth_root_floor_exact [OF int_big, of "- 30" 60 3]]
  by (auto split: option.splits)



section \<open>The recursive multiplication lanes\<close>

lemmas sure_kernel = unbounded_kernel.kernel_meter_axioms

text \<open>
  C11: Karatsuba's recursion over digit buffers returns the canonical product. None of its invariant
  checks fires: \<open>InvariantViolation\<close> is outside the admitted errors unless the caller admits it.
\<close>

theorem karatsuba_exact:
  assumes "kernel_meter M E R A F" and "canonical a" and "canonical b"
    and "size_ok F (depth + 4 * (length a + length b))"
  shows "meets F (rm_rel R) (\<lambda>r. canonical r \<and> dval r = dval a * dval b)
    (metered_karatsuba_digits M A a b depth)"
  using kernel_meter.karatsuba [OF assms] unfolding product_of_def .

theorem karatsuba_exact_witness:
  "meets {} (rm_rel (=)) (\<lambda>r. canonical r \<and> dval r = dval (replicate 9 7) * dval (replicate 9 5))
     (metered_karatsuba_digits unbounded (\<lambda>_ _. True) (replicate 9 7) (replicate 9 5) 0)"
  by (rule karatsuba_exact [OF sure_kernel]) (simp_all add: canonical_def size_ok_def)

text \<open>
  C12: The Toom-3 recursion, with its signed evaluations, exact divisions and recombination, returns the
  canonical product and none of its invariant checks fires.
\<close>

theorem toom3_exact:
  assumes "kernel_meter M E R A F" and "canonical a" and "canonical b"
    and "size_ok F (depth + 4 * (length a + length b))"
  shows "meets F (rm_rel R) (\<lambda>r. canonical r \<and> dval r = dval a * dval b)
    (metered_toom3_digits M A a b depth)"
  using kernel_meter.toom3 [OF assms] unfolding product_of_def .

theorem toom3_exact_witness:
  "meets {} (rm_rel (=)) (\<lambda>r. canonical r \<and> dval r = dval (replicate 14 7) * dval (replicate 13 5))
     (metered_toom3_digits unbounded (\<lambda>_ _. True) (replicate 14 7) (replicate 13 5) 0)"
  by (rule toom3_exact [OF sure_kernel]) (simp_all add: canonical_def size_ok_def)

text \<open>
  C21: The three digit lanes are interchangeable: without a refusal, Karatsuba, Toom-3 and schoolbook
  multiplication of canonical buffers return the same digits.
\<close>

theorem lanes_agree:
  assumes "canonical a" and "canonical b" and "length a + length b < 2 ^ 57"
  shows "\<exists>p. canonical p \<and> dval p = dval a * dval b
    \<and> (\<exists>s. metered_karatsuba_digits unbounded (\<lambda>_ _. True) a b 0 m = (Ok p, s))
    \<and> (\<exists>s. metered_toom3_digits unbounded (\<lambda>_ _. True) a b 0 m = (Ok p, s))
    \<and> (\<exists>s. metered_schoolbook_digits unbounded (\<lambda>_ _. True) a b (length a + length b) () = (Ok p, s))"
proof -
  have size: "size_ok {} (0 + 4 * (length a + length b))" "size_ok {} (Suc (length a + length b))"
    using assms(3) by (simp_all add: size_ok_def)
  obtain k s where k: "metered_karatsuba_digits unbounded (\<lambda>_ _. True) a b 0 m = (Ok k, s)" "product_of a b k"
    using meets_no_error [OF kernel_meter.karatsuba [OF sure_kernel assms(1,2) size(1)]] by blast
  obtain t s' where t: "metered_toom3_digits unbounded (\<lambda>_ _. True) a b 0 m = (Ok t, s')" "product_of a b t"
    using meets_no_error [OF kernel_meter.toom3 [OF sure_kernel assms(1,2) size(1)]] by blast
  obtain p s'' where p: "metered_schoolbook_digits unbounded (\<lambda>_ _. True) a b (length a + length b) () = (Ok p, s'')"
      "product_of a b p"
    using meets_no_error [OF kernel_meter.schoolbook [OF sure_kernel size(2)]]
    unfolding product_of_def by blast
  have "k = t" "k = p" using k(2) t(2) p(2) by (auto simp: product_of_def intro: canonical_inject)
  then show ?thesis using k t p by (auto simp: product_of_def)
qed

theorem lanes_agree_witness:
  "\<exists>p. dval p = dval (replicate 14 7) * dval [1, 2]
    \<and> (\<exists>s. metered_toom3_digits unbounded (\<lambda>_ _. True) (replicate 14 7) [1, 2] 0 \<lparr>rm_meter = (), rm_max_depth = 0\<rparr> = (Ok p, s))"
  using lanes_agree [of "replicate 14 7" "[1, 2]" "\<lparr>rm_meter = (), rm_max_depth = 0\<rparr>"]
  by (auto simp: canonical_def)

text \<open>
  C20: Composition: the Karatsuba and Toom-3 candidates of two integers, materialized by \<open>into_bigint\<close>,
  are the exact product; a candidate is canonical and zero is never negative.
\<close>

theorem candidates_materialize:
  assumes "kernel_big M E R A F S"
    and "size_ok F (1 + 4 * (length (sb_digits S a) + length (sb_digits S b)))"
  shows "meets F R (candidate_for (bval S a * bval S b)) (metered_karatsuba_candidate S M A a b)
    \<and> meets F R (candidate_for (bval S a * bval S b)) (metered_toom3_candidate S M A a b)
    \<and> (\<forall>c. candidate_for (bval S a * bval S b) c \<longrightarrow>
        meets E R (\<lambda>r. bval S r = bval S a * bval S b) (into_bigint S M c))"
proof -
  have "big_meter M E R S"
    using assms(1) by (simp add: kernel_big_def kernel_meter_def big_meter_def)
  then show ?thesis
    using kernel_big.karatsuba_candidate [OF assms] kernel_big.toom3_candidate [OF assms]
      big_meter.into_bigint by blast
qed

theorem candidates_materialize_witness:
  "\<exists>c r m' m''. metered_toom3_candidate int_substrate unbounded (\<lambda>_ _. True) (- 12) 12 () = (Ok c, m')
     \<and> into_bigint int_substrate unbounded c m' = (Ok r, m'') \<and> bval int_substrate r = - 144"
proof -
  have size: "size_ok {} (1 + 4 * (length (sb_digits int_substrate (- 12)) + length (sb_digits int_substrate 12)))"
    by (simp add: size_ok_def int_substrate_def digits_of_nat.simps)
  note claim = candidates_materialize [OF unbounded_kernel.kernel_big_axioms size]
  obtain c m' where c: "metered_toom3_candidate int_substrate unbounded (\<lambda>_ _. True) (- 12) 12 () = (Ok c, m')"
      "candidate_for (- 144) c"
    using meets_no_error [OF claim [THEN conjunct2, THEN conjunct1]] by auto
  obtain r m'' where "into_bigint int_substrate unbounded c m' = (Ok r, m'')" "bval int_substrate r = - 144"
    using meets_no_error [OF claim [THEN conjunct2, THEN conjunct2, rule_format]] c(2) by fastforce
  then show ?thesis using c(1) by blast
qed

text \<open>
  Toom-3 interpolation recovers the five product coefficients from the values at 0, 1, -1, 2 and
  infinity; every intermediate division by 2, 3 and 6 is exact.
\<close>

theorem interpolation_recovers:
  assumes "kernel_meter M E R A F"
    and "represents n (int c0) w0" and "represents n (int (c0 + c1 + c2 + c3 + c4)) w1"
    and "represents n (int c0 - int c1 + int c2 - int c3 + int c4) wm"
    and "represents n (int (c0 + 2 * c1 + 4 * c2 + 8 * c3 + 16 * c4)) w2"
    and "represents n (int c4) w4" and "size_ok F (n + 8)"
  shows "meets F R (\<lambda>r. dval (tk_c0 r) = c0 \<and> dval (tk_c1 r) = c1 \<and> dval (tk_c2 r) = c2
      \<and> dval (tk_c3 r) = c3 \<and> dval (tk_c4 r) = c4) (metered_interpolate_toom3 M A w0 w1 wm w2 w4)"
  by (rule meets_post [OF kernel_meter.interpolate_toom3 [OF assms]])
    (simp add: coefficients_def bounded_def)

theorem interpolation_recovers_witness:
  "meets {} (=) (\<lambda>r. dval (tk_c0 r) = 1 \<and> dval (tk_c1 r) = 5 \<and> dval (tk_c2 r) = 0
      \<and> dval (tk_c3 r) = 2 \<and> dval (tk_c4 r) = 3)
    (metered_interpolate_toom3 unbounded (\<lambda>_ _. True)
      \<lparr>sd_negative = False, sd_digits = [1]\<rparr> \<lparr>sd_negative = False, sd_digits = [11]\<rparr>
      \<lparr>sd_negative = True, sd_digits = [3]\<rparr> \<lparr>sd_negative = False, sd_digits = [75]\<rparr>
      \<lparr>sd_negative = False, sd_digits = [3]\<rparr>)"
  by (rule interpolation_recovers [OF sure_kernel, where n = 1])
    (simp_all add: represents_def canonical_def sval_def size_ok_def)

text \<open>
  Magnitude subtraction of canonical buffers returns the canonical difference when it is not
  negative, and refuses with \<open>InvariantViolation\<close> when it is.
\<close>

theorem subtract_slices_exact:
  assumes "canonical lhs" and "canonical rhs" and "length lhs < 2 ^ 60"
  shows "if dval rhs \<le> dval lhs
    then \<exists>r m'. metered_subtract_digit_slices unbounded (\<lambda>_ _. True) lhs rhs m = (Ok r, m')
      \<and> canonical r \<and> dval r = dval lhs - dval rhs
    else \<exists>m'. metered_subtract_digit_slices unbounded (\<lambda>_ _. True) lhs rhs m = (Err mul_error.InvariantViolation, m')"
proof (cases "dval rhs \<le> dval lhs")
  case True
  then show ?thesis
    using meets_no_error [OF kernel_meter.subtract_slices [OF sure_kernel assms(1,2) True], of m] assms(3)
    by (auto simp: size_ok_def)
next
  case False
  obtain c m' where "metered_compare_digit_slices unbounded lhs rhs m = (Ok c, m')"
    and "c = compare (dval lhs) (dval rhs)"
    using meets_no_error [OF kernel_meter.compare_slices [OF sure_kernel assms(1,2)], of m] by blast
  then show ?thesis using False
    by (simp add: metered_subtract_digit_slices_def mbind_def mfail_def compare_def)
qed

theorem subtract_slices_exact_witness:
  "\<exists>m'. metered_subtract_digit_slices unbounded (\<lambda>_ _. True) [0, 1] [0, 2] () = (Err mul_error.InvariantViolation, m')"
  using subtract_slices_exact [of "[0, 1]" "[0, 2]" "()"] by (simp add: canonical_def)

section \<open>Outcomes and evidence\<close>

text \<open>
  The registry names of the seven outcome enumerations parse back to the variant they name, and
  every other text is refused.
\<close>

theorem registry_roundtrip:
  "(evidence_class_parse t = Some a \<longleftrightarrow> t = evidence_class_as_str a)
   \<and> (discharge_parse t = Some b \<longleftrightarrow> t = discharge_as_str b)
   \<and> (non_evidence_outcome_parse t = Some c \<longleftrightarrow> t = non_evidence_outcome_as_str c)
   \<and> (refusal_kind_parse t = Some d \<longleftrightarrow> t = refusal_kind_as_str d)
   \<and> (cancellation_point_parse t = Some e \<longleftrightarrow> t = cancellation_point_as_str e)
   \<and> (resource_class_parse t = Some f \<longleftrightarrow> t = resource_class_as_str f)
   \<and> (internal_fault_kind_parse t = Some g \<longleftrightarrow> t = internal_fault_kind_as_str g)"
  by (intro conjI evidence_class.parse_iff discharge.parse_iff non_evidence_outcome.parse_iff
      refusal_kind.parse_iff cancellation_point.parse_iff resource_class.parse_iff
      internal_fault_kind.parse_iff)

text \<open>
  C29: Promotion is blocked by construction: an outcome built by the guarded constructors and
  \<open>map\<close> is never an established value with non-mathematical evidence nor a candidate with mathematical
  evidence.
\<close>

theorem constructed_consistent_evidence:
  assumes "constructed m"
  shows "(\<forall>v e. m = Established v e \<longrightarrow> is_mathematical e)
    \<and> (\<forall>v e. m = Candidate v e \<longrightarrow> \<not> is_mathematical e)"
  using constructed_consistent [OF assms] by auto

theorem constructed_consistent_evidence_witness:
  "is_mathematical KernelProved \<and> constructed (Established (3::nat) KernelProved)"
proof -
  have built: "constructed (Established (3::nat) KernelProved)"
    by (rule via_established [of 3 KernelProved]) (simp add: established_def is_mathematical_def)
  then show ?thesis using constructed_consistent_evidence [OF built] by simp
qed

text \<open>
  C30: No chain of admitted evidence transitions leads from a non-mathematical class to a mathematical
  one, and none leaves \<open>HeuristicCandidate\<close>.
\<close>

theorem promotion_chains:
  assumes "promotes a b"
  shows "(is_mathematical b \<longrightarrow> is_mathematical a) \<and> (a = HeuristicCandidate \<longrightarrow> b = HeuristicCandidate)"
  using promotes_mathematical [OF assms] promotes_heuristic [OF assms] by blast

theorem promotion_chains_witness:
  "promotes CertificateVerified KernelProved \<and> is_mathematical CertificateVerified"
proof -
  have chain: "promotes CertificateVerified KernelProved"
    by (rule promotes.step [OF promotes.stay]) (simp add: transition_ok is_mathematical_def)
  then show ?thesis using promotion_chains [OF chain] by (simp add: is_mathematical_def)
qed

section \<open>Truth values, predicates and domains\<close>

text \<open>
  The four-valued connectives are exactly the classical connectives applied pointwise to the
  sets of possible values, a contradiction being the empty set.
\<close>

theorem truth_connectives_pointwise:
  "possible (truth_and a b) = {x \<and> y | x y. x \<in> possible a \<and> y \<in> possible b}
   \<and> possible (truth_or a b) = {x \<or> y | x y. x \<in> possible a \<and> y \<in> possible b}
   \<and> possible (truth_not a) = Not ` possible a"
  by (simp only: possible_and possible_or possible_not)

text \<open>
  C27: The worklist that closes a predicate ends for every predicate and returns exactly the predicates
  reachable by direct consequences.
\<close>

theorem closure_reachable:
  "closure a = {b. (\<lambda>x y. y \<in> set (direct_consequences x))\<^sup>*\<^sup>* a b}"
  by (auto simp: closure_iff licenses_def [abs_def])

text \<open>
  Contradiction between predicates is symmetric except for three pairs, which it detects in one
  direction only.
\<close>

theorem contradiction_one_sided:
  "contradicts a b \<noteq> contradicts b a \<longleftrightarrow>
     {a, b} \<in> {{NonNegative, Negative}, {NonPositive, Positive}, {NonPositive, Prime}}"
  by (rule contradicts_asymmetry)

text \<open>
  On a set of facts closed under entailment the ordered walk over its pairs finds a
  contradiction exactly when two of its facts contradict each other in either direction.
\<close>

theorem fact_sets_order_independent:
  assumes "\<forall>a \<in> known. closure a \<subseteq> known"
  shows "has_contradiction_in_set known \<longleftrightarrow> (\<exists>a \<in> known. \<exists>b \<in> known. contradicts a b)"
  by (rule has_contradiction_closed) (simp add: closed_facts_def assms)

theorem fact_sets_order_independent_witness:
  "has_contradiction_in_set (closure NonPositive \<union> closure Positive)"
proof -
  have "\<forall>a \<in> closure NonPositive \<union> closure Positive. closure a \<subseteq> closure NonPositive \<union> closure Positive"
    using closure_mono by blast
  from fact_sets_order_independent [OF this] show ?thesis
    by (auto simp: contradicts_def closure_table)
qed

text \<open>
  Any two domains have a common superdomain, and both coerce into it.
\<close>

theorem common_domain_upper_bound:
  "\<exists>c. common_domain a b = Some c \<and> can_coerce_to a c \<and> can_coerce_to b c"
  by (rule common_domain_upper)

text \<open>
  A coercion into a domain that does not mention the expression domain keeps the
  characteristic, and reaches an exact domain only from an exact one.
\<close>

theorem coercion_preserves_characteristic:
  assumes "can_coerce_to d t" and "\<not> mentions_expression t"
  shows "characteristic d = characteristic t \<and> (is_exact t \<longrightarrow> is_exact d)"
  using coercion_characteristic [OF assms] coercion_exactness [OF assms] by blast

theorem coercion_preserves_characteristic_witness:
  "characteristic (FiniteField 7) = characteristic (PolyRing (FiniteField 7) [Symbol ''x'' None])"
  using coercion_preserves_characteristic [of "FiniteField 7" "PolyRing (FiniteField 7) [Symbol ''x'' None]"]
  by (simp add: can_coerce_simps)

text \<open>
  The bytes a domain contributes to a context digest determine it up to the identities of
  its generators, which are not hashed.
\<close>

theorem domain_preimage_injective:
  assumes "sized d" and "sized d'"
  shows "hash_canonical d = hash_canonical d' \<longleftrightarrow> erase_identity d = erase_identity d'"
  using hash_canonical_prefix [OF assms, of "[]" "[]"] hash_canonical_erase by (metis append_Nil2)

theorem domain_preimage_injective_witness:
  "hash_canonical (PolyRing ZZ [Symbol ''x'' None]) = hash_canonical (PolyRing ZZ [Symbol ''x'' (Some [1])])
   \<and> hash_canonical (PolyRing ZZ [Symbol ''x'' None]) \<noteq> hash_canonical (PolyRing QQ [Symbol ''x'' None])"
  using domain_preimage_injective [of "PolyRing ZZ [Symbol ''x'' None]" "PolyRing ZZ [Symbol ''x'' (Some [1])]"]
    domain_preimage_injective [of "PolyRing ZZ [Symbol ''x'' None]" "PolyRing QQ [Symbol ''x'' None]"]
  by (simp add: erase_symbol_def)

section \<open>Assumption contexts\<close>

text \<open>
  Recording a fact either refuses, exactly when a deduced fact contradicts it, and changes nothing,
  or adds the fact with all its consequences to that symbol and leaves every other symbol alone.
\<close>

theorem assume_adds_closure:
  "assume_fact symb pred ctx =
     (if \<exists>fact \<in> deductions ctx symb. contradicts fact pred then (ctx, Inl Contradiction)
      else (fst (assume_fact symb pred ctx), Inr ()))
   \<and> (\<forall>s. deductions (fst (assume_fact symb pred ctx)) s =
        (if s = symb \<and> snd (assume_fact symb pred ctx) = Inr () then deductions ctx s \<union> closure pred
         else deductions ctx s))"
proof (cases "\<exists>fact \<in> deductions ctx symb. contradicts fact pred")
  case True
  then show ?thesis by (simp add: assume_fact_def)
next
  case False
  then have "assume_fact symb pred ctx = (fst (assume_fact symb pred ctx), Inr ())"
    by (simp add: assume_fact_def)
  from assume_fact_deductions [OF this] this show ?thesis
    using False by (metis snd_conv)
qed

text \<open>
  Order matters: \<open>Positive\<close> is accepted after \<open>NonPositive\<close> and the consistency check passes,
  although the context is contradictory; in the other order the second fact is refused.
\<close>

theorem contradictory_assumptions_accepted:
  "let accepted = fst (assume_fact x Positive (fst (assume_fact x NonPositive assumptions_new)))
   in snd (assume_fact x Positive (fst (assume_fact x NonPositive assumptions_new))) = Inr ()
     \<and> check_consistency accepted = Inr ()
     \<and> has_contradiction_in_set (deductions accepted x)
     \<and> snd (assume_fact x NonPositive (fst (assume_fact x Positive assumptions_new))) = Inl Contradiction"
proof -
  have "\<not> contradicts NonPositive Positive" "contradicts Positive NonPositive"
    "\<not> contradicts Real Positive" "\<not> contradicts predicate.Complex Positive"
    by (simp_all add: contradicts_def closure_table)
  then show ?thesis
    by (simp add: assume_fact_def assumptions_new_def deductions_def stated_facts_def push_fact_def
        check_consistency_def closure_table has_contradiction_in_set_def less_predicate_def Let_def)
qed

text \<open>
  Taking a snapshot never fails, and the snapshot deduces and assigns exactly what the builder does.
\<close>

theorem snapshot_faithful:
  "\<exists>s. snapshot_of H ctx = Some s \<and> snapshot_deductions s = deductions ctx
     \<and> snapshot_domain_of s = domain_of ctx"
  by (rule snapshot_of_Some)

text \<open>
  C28: Refinement is monotone: deriving a child never turns a decided answer into another decided
  answer or into \<open>Unknown\<close>; it may only decide or become contradictory.
\<close>

theorem child_refines_parent:
  assumes "derive_child H parent facts domains provenance = Inr child"
  shows "answer (snapshot_deductions parent s) p \<in> {Unknown, answer (snapshot_deductions child s) p}
    \<or> answer (snapshot_deductions child s) p = Contradictory"
  using answer_mono [of "snapshot_deductions parent s" "snapshot_deductions child s" p]
    derive_child_snapshot(4) [OF assms] by (auto simp: refines_answer_def)

theorem child_refines_parent_witness:
  "\<exists>child. derive_child id (snapshot_empty id) [(Symbol ''x'' None, [Prime])] [] ''p'' = Inr child
     \<and> answer (snapshot_deductions child (Symbol ''x'' None)) Integer = EntailedTrue"
proof -
  obtain child where c: "derive_child id (snapshot_empty id) [(Symbol ''x'' None, [Prime])] [] ''p'' = Inr child"
    by (simp add: derive_child_def Let_def)
  have "snapshot_deductions child (Symbol ''x'' None) = closure Prime"
    using derive_child_snapshot(4) [OF c]
    by (simp add: snapshot_empty_def Let_def stated_facts_def)
  then have "answer (snapshot_deductions child (Symbol ''x'' None)) Integer = EntailedTrue"
    by (simp add: answer_def has_contradiction_in_set_def contradicts_def closure_table)
  then show ?thesis using c child_refines_parent [OF c] by auto
qed

text \<open>
  The digest of a derived context does not depend on the iteration order of its maps nor on
  its provenance.
\<close>

theorem digest_order_independent:
  assumes "mset facts = mset facts'" and "distinct (map fst facts)"
    and "mset domains = mset domains'" and "distinct (map fst domains)"
    and "derive_child H parent facts domains provenance = Inr c"
    and "derive_child H parent facts' domains' provenance' = Inr c'"
  shows "snap_digest c = snap_digest c' \<and> snap_id c = snap_id c'"
  using assms(5,6) context_preimage_order [OF assms(1-4), of "snap_digest parent"]
  by (auto simp: derive_child_def Let_def split: option.splits)

theorem digest_order_independent_witness:
  "\<exists>c c'. derive_child id (snapshot_empty id) [(Symbol ''x'' None, [Prime]), (Symbol ''y'' None, [Odd])] [] ''a'' = Inr c
     \<and> derive_child id (snapshot_empty id) [(Symbol ''y'' None, [Odd]), (Symbol ''x'' None, [Prime])] [] ''b'' = Inr c'
     \<and> snap_digest c = snap_digest c'"
proof -
  obtain c c' where
    c: "derive_child id (snapshot_empty id) [(Symbol ''x'' None, [Prime]), (Symbol ''y'' None, [Odd])] [] ''a'' = Inr c"
      "derive_child id (snapshot_empty id) [(Symbol ''y'' None, [Odd]), (Symbol ''x'' None, [Prime])] [] ''b'' = Inr c'"
    by (simp add: derive_child_def Let_def)
  show ?thesis using digest_order_independent [OF _ _ _ _ c] c by simp
qed

text \<open>
  C23: With 32-byte parent digests and symbol identities, the bytes hashed for a context determine
  the parent digest, the set of facts of every symbol and its domain up to generator identities: two contexts
  that differ in these collide only if the hash does.
\<close>

theorem digest_preimage_injective:
  assumes "context_ok facts domains" and "context_ok facts' domains'"
    and "length digest = 32" and "length digest' = 32"
    and "context_preimage digest facts domains = context_preimage digest' facts' domains'"
  shows "digest = digest' \<and> context_normal facts domains = context_normal facts' domains'"
  by (rule context_preimage_inject [OF assms])

theorem digest_preimage_injective_witness:
  "context_preimage (replicate 32 7) [(Symbol ''x'' None, [Prime, Odd])] []
     = context_preimage (replicate 32 7) [(Symbol ''x'' None, [Odd, Prime, Odd])] []
   \<and> context_normal [(Symbol ''x'' None, [Prime, Odd])] []
     = context_normal [(Symbol ''x'' None, [Odd, Prime, Odd])] []"
proof -
  have same: "context_preimage (replicate 32 7) [(Symbol ''x'' None, [Prime, Odd])] []
     = context_preimage (replicate 32 7) [(Symbol ''x'' None, [Odd, Prime, Odd])] []"
    using sorted_facts_eq [of "[Prime, Odd]" "[Odd, Prime, Odd]"]
    by (simp add: context_preimage_def fact_bytes_def insert_commute)
  have ok: "context_ok [(Symbol ''x'' None, [Prime, Odd])] []"
      "context_ok [(Symbol ''x'' None, [Odd, Prime, Odd])] []"
    by (simp_all add: context_ok_def symbol_ok_def)
  show ?thesis using digest_preimage_injective [OF ok _ _ same] same by simp
qed

section \<open>Bindings and substitution\<close>

text \<open>
  An interpretation to evaluate examples in: functions add their arguments up, and every binder
  takes the value of its body at the point it is given.
\<close>

definition sample_interp :: interp where
  "sample_interp =
     \<lparr>i_fun = (\<lambda>_ vs. Some (sum_list vs)), i_lambda = (\<lambda>f. f 0),
      i_definite = (\<lambda>f l u. Option.bind u f), i_primitive = (\<lambda>f z. f z), i_derivative = (\<lambda>f z. f z)\<rparr>"

lemma sample_interp [simp]: "constant_derivative sample_interp"
  by (simp add: constant_derivative_def sample_interp_def)

abbreviation sx :: symbol where "sx \<equiv> Symbol ''x'' None"
abbreviation sy :: symbol where "sy \<equiv> Symbol ''y'' None"
abbreviation sy1 :: symbol where "sy1 \<equiv> Symbol ''y_1'' None"

text \<open>A lambda over \<open>y\<close> into which \<open>y + 1\<close> is substituted for its free \<open>x\<close>.\<close>

definition sample_lambda :: expr where
  "sample_lambda = Function ''Lambda'' [Sym sy, Add [Sym sx, Sym sy]]"

definition sample_replacement :: expr where
  "sample_replacement = Add [Sym sy, IntegerLit 1]"

definition sample_substituted :: expr where
  "sample_substituted = Function ''Lambda'' [Sym sy1, Add [sample_replacement, Sym sy1]]"

lemma sample_substitution: "capture_avoiding_subs sample_lambda sx sample_replacement = Inr sample_substituted"
  unfolding sample_lambda_def sample_replacement_def sample_substituted_def by code_simp

lemma sample_substitution_swapped:
  "capture_avoiding_subs sample_lambda sx (Add [IntegerLit 1, Sym sy])
     = Inr (Function ''Lambda'' [Sym sy1, Add [Add [IntegerLit 1, Sym sy], Sym sy1]])"
  unfolding sample_lambda_def by code_simp

text \<open>
  The symbols that \<open>free_symbols\<close> reports are enough: an expression has the same value at
  valuations that agree on them, whatever the functions and binders mean, as long as the
  derivative of a constant function is the same at every point.
\<close>

theorem value_of_free_symbols:
  assumes "free_symbols e = Inr F" and "constant_derivative I" and "\<forall>s \<in> F. \<sigma> s = \<tau> s"
  shows "eval I e \<sigma> = eval I e \<tau>"
  using assms free_symbols [OF assms(1)] by (intro eval_free) simp_all

theorem value_of_free_symbols_witness:
  "eval sample_interp sample_lambda (\<lambda>_. 0) = eval sample_interp sample_lambda ((\<lambda>_. 0)(sy := 1))"
proof -
  have "free_symbols sample_lambda = Inr {sx}" unfolding sample_lambda_def by code_simp
  then show ?thesis by (rule value_of_free_symbols [OF _ sample_interp]) simp
qed

text \<open>
  C33: The free symbols of the result of a substitution are exactly those of the expression, with
  the target, where it occurs, replaced by the free symbols of the replacement: nothing is captured
  and nothing is set free.
\<close>

theorem substitution_free_symbols:
  assumes "capture_avoiding_subs e x a = Inr r"
    and "free_symbols e = Inr E" and "free_symbols a = Inr A" and "free_symbols r = Inr R"
  shows "R = (if x \<in> E then (E - {x}) \<union> A else E)"
  using capture_avoiding_subs_free [OF assms(1)] assms(2-4) [THEN free_symbols] by (simp add: replaced_def)

theorem substitution_free_symbols_witness:
  "free_symbols sample_substituted = Inr ({sx} - {sx} \<union> {sy})"
proof -
  have free: "free_symbols sample_lambda = Inr {sx}" "free_symbols sample_replacement = Inr {sy}"
    "free_symbols sample_substituted = Inr {sy}"
    unfolding sample_lambda_def sample_replacement_def sample_substituted_def by code_simp+
  show ?thesis using substitution_free_symbols [OF sample_substitution free] free(3) by simp
qed

text \<open>
  C31: Substituting two expressions of equal value gives results of equal value, under every
  reading of functions and binders in which the derivative of a constant is constant. This is what
  the congruence rule of a proof system needs from substitution.
\<close>

theorem substitution_respects_equality:
  assumes "constant_derivative I" and "\<forall>\<sigma>. eval I a \<sigma> = eval I b \<sigma>"
    and "capture_avoiding_subs e x a = Inr r" and "capture_avoiding_subs e x b = Inr r'"
  shows "eval I r \<sigma> = eval I r' \<sigma>"
  by (rule subs_value_congruence [OF assms(1) _ assms(3,4)]) (simp add: assms(2))

theorem substitution_respects_equality_witness:
  "eval sample_interp sample_substituted (\<lambda>_. 7)
     = eval sample_interp (Function ''Lambda'' [Sym sy1, Add [Add [IntegerLit 1, Sym sy], Sym sy1]]) (\<lambda>_. 7)"
proof (rule substitution_respects_equality [OF sample_interp _ sample_substitution sample_substitution_swapped])
  show "\<forall>\<sigma>. eval sample_interp sample_replacement \<sigma> = eval sample_interp (Add [IntegerLit 1, Sym sy]) \<sigma>"
    by (simp add: sample_replacement_def strict_def)
qed

text \<open>
  C32: Where the expression has no indefinite integral and no derivative in the target, the
  result of a substitution is worth what the expression is where the target has the value of the
  replacement.
\<close>

theorem substitution_is_evaluation:
  assumes "capture_avoiding_subs e x a = Inr r" and "scoped_for x e" and "constant_derivative I"
    and "eval I a \<sigma> = Some z"
  shows "eval I r \<sigma> = eval I e (\<sigma>(x := z))"
  by (rule subs_value [OF assms(3,1,4,2)])

theorem substitution_is_evaluation_witness:
  "eval sample_interp sample_substituted (\<lambda>_. 7) = eval sample_interp sample_lambda ((\<lambda>_. 7)(sx := 8))"
proof (rule substitution_is_evaluation [OF sample_substitution _ sample_interp])
  show "scoped_for sx sample_lambda" unfolding sample_lambda_def by code_simp
  show "eval sample_interp sample_replacement (\<lambda>_. 7) = Some 8"
    by (simp add: sample_replacement_def strict_def)
qed

text \<open>
  C34: Expressions that \<open>alpha_equivalent\<close> accepts have the same value at every valuation, under
  every reading of functions and binders.
\<close>

theorem alpha_equivalence_sound:
  assumes "alpha_equivalent a b = Inr True"
  shows "eval I a \<sigma> = eval I b \<sigma>"
  using assms by (rule alpha_equivalent_value)

theorem alpha_equivalence_sound_witness:
  "eval sample_interp (Function ''Lambda'' [Sym sy, Add [Sym sx, Sym sy]]) (\<lambda>_. 7)
     = eval sample_interp (Function ''Lambda'' [Sym sy1, Add [Sym sx, Sym sy1]]) (\<lambda>_. 7)"
  by (rule alpha_equivalence_sound) code_simp


section \<open>The proof kernel\<close>

text \<open>
  A context without assumptions, and a session of three steps: \<open>x + 0 = x\<close>, \<open>x = x + 0\<close> and \<open>x * x = (x + 0) * (x + 0)\<close>.
\<close>

definition sample_context :: Contexts.snapshot where
  "sample_context = snapshot_empty (\<lambda>_. [])"

definition sum_zero :: expr where
  "sum_zero = Add [Sym sx, IntegerLit 0]"

lemmas visit_eval =
  visit_expr_def visit_node_def add_work_def add_bounded_def add_text_def
  add_references_def add_numeric_limbs_def ensure_expression_children_fit_def preflight_default_def units_of_def
  MAX_DERIVATION_STEPS_def MAX_DERIVATION_EXPR_NODES_def MAX_DERIVATION_EXPR_DEPTH_def
  MAX_DERIVATION_REFERENCES_def MAX_DERIVATION_TEXT_BYTES_def MAX_DERIVATION_NUMERIC_LIMBS_def
  int_limb_count_def int_bits_def bit_length.simps div_ceil_def construction_of_expression_def construction_add_def
  construction_default_def congruence_base_def preflight_congruence_def operand_sizes_def add_operand_def
  saturating_def Let_def prior_claim_def check_strictly_prior_def

lemmas rule_eval =
  check_rule_application_def check_definitional_reduction_def reduce_if_def without_units_def congruence_claim_def
  equality_premise_def rmap_err_def

lemmas step_eval =
  add_step_def mbind_def mlift_def mret_def mfail_def of_sum_def step_count_def charge_def charge_batch_def checkpoint_def
  of_result_def unbounded_def

definition zero_step :: derivation_step where
  "zero_step = \<lparr>step_ident = 0, step_rule = DefinitionalReduction sum_zero (Sym sx) ''add_zero_identity'',
     step_claim = Equality sum_zero (Sym sx)\<rparr>"

definition swap_step :: derivation_step where
  "swap_step = \<lparr>step_ident = 1, step_rule = Symmetry 0, step_claim = Equality (Sym sx) sum_zero\<rparr>"

definition sample_square :: claim where
  "sample_square = Equality (Mul [Sym sx, Sym sx]) (Mul [sum_zero, sum_zero])"

definition square_step :: derivation_step where
  "square_step = \<lparr>step_ident = 2, step_rule = CongruenceMul [1, 1], step_claim = sample_square\<rparr>"

definition kernel_after :: "derivation_step list \<Rightarrow> proof_kernel" where
  "kernel_after steps = \<lparr>pk_context = sample_context, pk_steps = steps,
     pk_claims = foldl (\<lambda>claims s. claims(step_ident s \<mapsto> step_claim s)) (\<lambda>_. None) steps\<rparr>"

definition sample_kernel :: proof_kernel where
  "sample_kernel = kernel_after [zero_step, swap_step, square_step]"

lemma word_two: "\<not> (2 :: step_id) \<le> 1"
  by code_simp

lemma sample_step_0:
  "add_step unbounded (step_rule zero_step) (kernel_after []) () = (Ok (0, kernel_after [zero_step]), ())"
  by (simp add: step_eval visit_eval rule_eval kernel_after_def zero_step_def sum_zero_def)

lemma sample_step_1:
  "add_step unbounded (step_rule swap_step) (kernel_after [zero_step]) () = (Ok (1, kernel_after [zero_step, swap_step]), ())"
  by (simp add: step_eval visit_eval rule_eval kernel_after_def zero_step_def swap_step_def sum_zero_def)

lemma sample_step_2:
  "add_step unbounded (step_rule square_step) (kernel_after [zero_step, swap_step]) () = (Ok (2, sample_kernel), ())"
  using word_two
  by (simp add: step_eval visit_eval rule_eval kernel_after_def zero_step_def swap_step_def square_step_def
      sample_kernel_def sum_zero_def sample_square_def)

lemma sample_session: "session unbounded sample_context sample_kernel"
proof -
  have "session unbounded sample_context (kernel_after [])"
    using session.new_session [of unbounded sample_context] by (simp add: kernel_after_def proof_kernel_new_def)
  from session.extended [OF session.extended [OF session.extended [OF this sample_step_0] sample_step_1] sample_step_2]
  show ?thesis .
qed

lemma sample_claim: "pk_claims sample_kernel 2 = Some sample_square"
  by (simp add: sample_kernel_def kernel_after_def square_step_def)

definition sample_derivation :: derivation_tree where
  "sample_derivation = \<lparr>tree_steps = pk_steps sample_kernel, tree_root = 2\<rparr>"

lemma sample_units: "derivation_verification_units sample_derivation = Inr 1"
  by (simp add: derivation_verification_units_def derivation_steps_verification_units_def sample_derivation_def
      sample_kernel_def kernel_after_def zero_step_def swap_step_def square_step_def sample_square_def sum_zero_def
      visit_eval)







text \<open>
  C4: A session keeps its steps acyclic and consecutively numbered, and replaying them with the independent
  verifier gives the session's claim for each of them; only the verifier's cumulative limits can refuse.
\<close>

theorem session_replays:
  assumes "session M ctx k" and "get_claim k i = Some cl"
  shows "verify_derivation_independent \<lparr>tree_steps = pk_steps k, tree_root = i\<rparr> ctx
      = rbind (derivation_steps_verification_units (pk_steps k)) (\<lambda>_. Inr cl)
    \<and> (\<forall>j < step_count k. step_ident (pk_steps k ! j) = of_nat j
      \<and> (\<forall>r \<in> set (rule_references (step_rule (pk_steps k ! j))). r < of_nat j))"
proof -
  note inv = session_keeps_invariant [OF assms(1)]
  have "verify_derivation_independent \<lparr>tree_steps = pk_steps k, tree_root = i\<rparr> ctx
      = rbind (derivation_steps_verification_units (pk_steps k)) (\<lambda>_. Inr cl)"
    by (rule verifier_agrees [OF inv]) (use assms(2) in \<open>simp add: get_claim_def\<close>)
  moreover have "replays ctx (pk_steps k) j" if "j < step_count k" for j
    using inv that by (simp add: session_invariant_def)
  ultimately show ?thesis using references_prior unfolding replays_def by blast
qed

theorem session_replays_witness:
  "verify_derivation_independent \<lparr>tree_steps = pk_steps sample_kernel, tree_root = 2\<rparr> sample_context
     = Inr sample_square"
  using session_replays [OF sample_session, of 2 sample_square] sample_claim sample_units
  by (simp add: get_claim_def sample_derivation_def derivation_verification_units_def)

text \<open>
  C5: Exporting a claim of a session never panics and never fails: it gives a derivation, no longer than the
  session, that the independent verifier replays to that same claim, or refuses by one of its limits.
\<close>

theorem export_replays:
  assumes "session M ctx k" and "get_claim k i = Some cl"
  shows "\<exists>d. export_derivation k i = Ok d \<and> length (tree_steps d) \<le> step_count k
    \<and> (verify_derivation_independent d ctx = Inr cl
       \<or> (\<exists>resource limit. verify_derivation_independent d ctx = Inl (DerivationLimitExceeded resource limit)))"
proof -
  obtain d where d: "export_derivation k i = Ok d" "length (tree_steps d) \<le> step_count k"
      "verify_derivation_independent d ctx = rbind (derivation_verification_units d) (\<lambda>_. Inr cl)"
    using export_derivation_replays [OF session_keeps_invariant [OF assms(1)]] assms(2) by (auto simp: get_claim_def)
  show ?thesis
    using d units_limits [of "tree_steps d"]
    by (cases "derivation_verification_units d") (auto simp: derivation_verification_units_def limit_only_def)
qed

theorem export_replays_witness:
  "\<exists>d. export_derivation sample_kernel 2 = Ok d \<and> length (tree_steps d) \<le> step_count sample_kernel
    \<and> (verify_derivation_independent d sample_context = Inr sample_square
       \<or> (\<exists>resource limit. verify_derivation_independent d sample_context = Inl (DerivationLimitExceeded resource limit)))"
  by (rule export_replays [OF sample_session]) (simp add: get_claim_def sample_claim)

text \<open>
  C38: The traversal of the export ends for every list of steps, cyclic or not, and collects the smallest
  set that contains the root and every step that a collected step refers to.
\<close>

theorem required_steps_least:
  "collect_required steps [i] {} = \<Inter> {S. i \<in> S \<and> closed_under (references_of steps) S}"
proof
  show "collect_required steps [i] {} \<subseteq> \<Inter> {S. i \<in> S \<and> closed_under (references_of steps) S}"
    by (rule Inter_greatest, elim CollectE conjE) (rule collect_required_slice(3))
  show "\<Inter> {S. i \<in> S \<and> closed_under (references_of steps) S} \<subseteq> collect_required steps [i] {}"
    by (rule Inter_lower, rule CollectI) (intro conjI collect_required_slice)
qed





text \<open>
  C6: The ball that the checker computes for a ground expression encloses its value: the expression
  has a real value, at most the radius away from the midpoint.
\<close>

theorem ball_evaluation_encloses:
  assumes "eval_real_ball e = Inr B"
  shows "\<exists>x. eval I e \<sigma> = Some (of_real x) \<and> \<bar>x - of_rat (midpoint B)\<bar> \<le> of_rat (radius B)"
  using eval_real_ball_sound [OF assms, of I \<sigma>] by (auto simp: real_value_in_def encloses_def)

theorem ball_evaluation_encloses_witness:
  "\<exists>B x. eval_real_ball (Const CPi) = Inr B
     \<and> eval standard_interp (Const CPi) (\<lambda>_. 0) = Some (of_real x)
     \<and> \<bar>x - of_rat (midpoint B)\<bar> \<le> of_rat (radius B)"
proof -
  have "quotient_of (3141592653589793 / 1000000000000000) = (3141592653589793, 1000000000000000)"
    "quotient_of (1 / 1000000000000000) = (1, 1000000000000000)"
    by code_simp+
  then have "eval_real_ball (Const CPi)
      = Inr \<lparr>midpoint = 3141592653589793 / 1000000000000000, radius = 1 / 1000000000000000\<rparr>"
    by (simp add: ball_new_def fitting_def ensure_real_ball_bounds_fit_def real_ball_limb_count_def
        rational_limb_count_def checked_limb_sum_def projected_limb_count_def ensure_projected_limb_count_def
        int_limb_count_def int_bits_def div_ceil_def bit_length.simps numer_def denom_def
        MAX_DERIVATION_NUMERIC_LIMBS_def)
  from this ball_evaluation_encloses [OF this, of standard_interp "\<lambda>_. 0"] show ?thesis by blast
qed






definition unary :: "string \<Rightarrow> expr \<Rightarrow> expr" where
  "unary name e = Function name [e]"

definition squares_of_y :: "expr list" where
  "squares_of_y = [Pow (unary ''sin'' (Sym sy)) (IntegerLit 2), Pow (unary ''cos'' (Sym sy)) (IntegerLit 2)]"


text \<open>
  C39: Each of the three guards is needed. Congruence under the name \<open>Lambda\<close> turns a premise
  about a sum into one about a bound variable, a zeroth power of a term without a value is rewritten to one,
  and an obligation under an integral sign stands in for the same obligation outside of it: in all three the
  checker accepts a claim that is not valid, already where all binders have the value zero.
\<close>

definition zero_binders :: interp where
  "zero_binders = standard_interp\<lparr>i_lambda := \<lambda>_. Some 0, i_definite := \<lambda>_ _ _. Some 0\<rparr>"

lemma zero_binders: "real_interp zero_binders"
  using std.real_interp_axioms
  by (simp add: zero_binders_def real_interp_def real_interp_axioms_def elementary_interp_def constant_derivative_def)

definition lambda_claim :: claim where
  "lambda_claim = Equality (Function ''Lambda'' [sum_zero, Sym sx]) (Function ''Lambda'' [Sym sx, Sym sx])"

definition power_claim :: claim where
  "power_claim = Equality (Pow (Pow (IntegerLit 0) (IntegerLit (- 1))) (IntegerLit 0)) (IntegerLit 1)"

definition tangent_integral :: expr where
  "tangent_integral =
     Mul [IntegerLit 0, Function ''Integral'' [unary ''tan'' (Sym sx), Sym sx, IntegerLit 0, IntegerLit 1]]"

definition tangent_claim :: claim where
  "tangent_claim =
     Equality (Add (squares_of_y @ [Mul [IntegerLit 0, unary ''tan'' (Sym sx)], tangent_integral]))
       (Add [IntegerLit 1, tangent_integral])"

definition reduction_of :: "claim \<Rightarrow> string \<Rightarrow> proof_rule" where
  "reduction_of cl name = DefinitionalReduction (the (claim_lhs cl)) (the (claim_rhs cl)) name"

theorem guards_needed:
  "check_rule_application (CongruenceFunction ''Lambda'' [0, 1]) 2
     [0 \<mapsto> Equality sum_zero (Sym sx), 1 \<mapsto> Equality (Sym sx) (Sym sx)] sample_context = Inr lambda_claim
   \<and> check_rule_application (reduction_of power_claim ''pow_zero_identity'') 0 Map.empty sample_context = Inr power_claim
   \<and> check_rule_application (reduction_of tangent_claim ''pythagorean_identity'') 0 Map.empty sample_context
       = Inr tangent_claim
   \<and> real_interp zero_binders \<and> \<not> claim_valid zero_binders sample_context lambda_claim
   \<and> \<not> claim_valid zero_binders sample_context power_claim \<and> \<not> claim_valid zero_binders sample_context tangent_claim"
proof (intro conjI)
  show "check_rule_application (CongruenceFunction ''Lambda'' [0, 1]) 2
      [0 \<mapsto> Equality sum_zero (Sym sx), 1 \<mapsto> Equality (Sym sx) (Sym sx)] sample_context = Inr lambda_claim"
    using word_two by (simp add: visit_eval rule_eval sum_zero_def lambda_claim_def)
  show "check_rule_application (reduction_of power_claim ''pow_zero_identity'') 0 Map.empty sample_context = Inr power_claim"
    by (simp add: rule_eval power_claim_def reduction_of_def)
  have "check_pythagorean_identity (the (claim_lhs tangent_claim)) (the (claim_rhs tangent_claim)) = Inr ()"
    unfolding tangent_claim_def squares_of_y_def tangent_integral_def unary_def by code_simp
  then show "check_rule_application (reduction_of tangent_claim ''pythagorean_identity'') 0 Map.empty sample_context
      = Inr tangent_claim"
    by (simp add: rule_eval tangent_claim_def reduction_of_def accepted_iff)
  show "real_interp zero_binders" by (rule zero_binders)
  show "\<not> claim_valid zero_binders sample_context lambda_claim"
    by (simp add: lambda_claim_def zero_binders_def eval.simps(8) sum_zero_def standard_fun_def strict_def)
  show "\<not> claim_valid zero_binders sample_context power_claim"
    by (simp add: power_claim_def power_value_def)
  have "eval zero_binders (Mul [IntegerLit 0, unary ''tan'' (Sym sx)]) (\<lambda>_. of_real (pi / 2)) = None"
    by (simp add: unary_def eval_application zero_binders_def strict_def quotient_value_def cos_of_real
        del: of_real_divide)
  then have "eval zero_binders (the (claim_lhs tangent_claim)) (\<lambda>_. of_real (pi / 2)) = None"
    using strict_defined [of _ "map (\<lambda>t. eval zero_binders t (\<lambda>_. of_real (pi / 2)))
        (squares_of_y @ [Mul [IntegerLit 0, unary ''tan'' (Sym sx)], tangent_integral])" None]
    by (fastforce simp: tangent_claim_def)
  moreover have "eval zero_binders (the (claim_rhs tangent_claim)) (\<lambda>_. of_real (pi / 2)) \<noteq> None"
    by (simp add: tangent_claim_def tangent_integral_def unary_def eval.simps(8) zero_binders_def strict_def)
  moreover have "tangent_claim = Equality (the (claim_lhs tangent_claim)) (the (claim_rhs tangent_claim))"
    by (simp add: tangent_claim_def)
  ultimately show "\<not> claim_valid zero_binders sample_context tangent_claim" by (metis claim_valid.simps(1))
qed

text \<open>
  C37: The kernel's trial division answers exactly whether the number is prime.
\<close>

theorem trial_division_exact:
  "kernel_is_u64_prime n \<longleftrightarrow> is_prime n"
  by (rule kernel_is_u64_prime_iff)

text \<open>
  C36: The modular checker returns for all coefficients and every modulus, prime or not: its divisions, its
  greatest common divisors and its factor loop end.
\<close>

theorem rabin_returns: "\<exists>answer. kernel_verify_rabin_irreducible_mod_prime coeffs prime = Some answer"
  by (rule verify_rabin_returns)


end
